(* ===== verification/FC_Prelude.thy ===== *)
theory FC_Prelude
  imports Main "HOL-Library.Word"
begin

unbundle bit_operations_syntax

section \<open>Shared vocabulary of the development\<close>

text \<open>
  What every component of the model uses: the machine integers of the C source, the
  character classes of the C library in the \<open>C\<close> locale, C strings as Isabelle strings that
  contain no NUL, the sum type that stands for a fatal diagnostic, and the lemma
  collections the component proofs are run with.
\<close>

named_theorems fc_simps \<open>rewriting rules the component proofs share\<close>
named_theorems fc_inv \<open>introduction rules for the invariants of the components\<close>

subsection \<open>Machine integers\<close>

type_synonym u8 = "8 word"
type_synonym u32 = "32 word"
type_synonym u64 = "64 word"

text \<open>A mask of low bits is a remainder; the code uses both forms.\<close>

lemma and_low_mask: "(x :: 'a::len word) AND (2 ^ k - 1) = take_bit k x"
  by (simp add: take_bit_eq_mask mask_eq_decr_exp)

lemma unat_take_bit_mod: "unat (take_bit k x) = unat x mod 2 ^ k" for x :: "'a::len word"
proof -
  have "unat (take_bit k x) = take_bit k (unat x)"
    by (rule unsigned_take_bit_eq)
  then show ?thesis
    by (simp only: take_bit_eq_mod)
qed

lemma unat_and_low_mask: "unat (x AND (2 ^ k - 1)) = unat x mod 2 ^ k" for x :: "'a::len word"
  by (simp only: and_low_mask unat_take_bit_mod)

subsection \<open>Characters\<close>

abbreviation nul :: char where "nul \<equiv> CHR 0x00"
abbreviation newline :: char where "newline \<equiv> CHR 0x0A"
abbreviation dquote :: char where "dquote \<equiv> CHR 0x22"
abbreviation squote :: char where "squote \<equiv> CHR 0x27"
abbreviation backslash :: char where "backslash \<equiv> CHR 0x5C"

definition byte :: "char \<Rightarrow> nat" where
  "byte c = of_char c"

definition isdigit :: "char \<Rightarrow> bool" where
  "isdigit c \<longleftrightarrow> 48 \<le> byte c \<and> byte c \<le> 57"

definition isupper :: "char \<Rightarrow> bool" where
  "isupper c \<longleftrightarrow> 65 \<le> byte c \<and> byte c \<le> 90"

definition islower :: "char \<Rightarrow> bool" where
  "islower c \<longleftrightarrow> 97 \<le> byte c \<and> byte c \<le> 122"

definition isalpha :: "char \<Rightarrow> bool" where
  "isalpha c \<longleftrightarrow> isupper c \<or> islower c"

definition isalnum :: "char \<Rightarrow> bool" where
  "isalnum c \<longleftrightarrow> isalpha c \<or> isdigit c"

definition isxdigit :: "char \<Rightarrow> bool" where
  "isxdigit c \<longleftrightarrow> isdigit c \<or> (97 \<le> byte c \<and> byte c \<le> 102) \<or> (65 \<le> byte c \<and> byte c \<le> 70)"

definition tolower :: "char \<Rightarrow> char" where
  "tolower c = (if isupper c then char_of (byte c + 32) else c)"

lemmas char_class_defs =
  isdigit_def isupper_def islower_def isalpha_def isalnum_def isxdigit_def byte_def

lemma byte_lt: "byte c < 256"
  using nat_of_char_less_256 [of c] by (simp add: byte_def)

lemma byte_inject: "byte c = byte d \<longleftrightarrow> c = d"
  by (simp add: byte_def)

lemma char_of_byte [simp]: "char_of (byte c) = c"
  by (simp add: byte_def)

lemma byte_char_of: "n < 256 \<Longrightarrow> byte (char_of n) = n"
  by (simp add: byte_def)

text \<open>No class of the C library that the compiler asks for holds the terminator.\<close>

lemma nul_in_no_class [simp]:
  "\<not> isdigit nul" "\<not> isupper nul" "\<not> islower nul" "\<not> isalpha nul" "\<not> isalnum nul"
  "\<not> isxdigit nul"
  by (simp_all add: char_class_defs)

lemma newline_in_no_class [simp]:
  "\<not> isdigit newline" "\<not> isalpha newline" "\<not> isalnum newline" "\<not> isxdigit newline"
  by (simp_all add: char_class_defs)

lemma isdigit_isxdigit: "isdigit c \<Longrightarrow> isxdigit c"
  by (simp add: isxdigit_def)

subsection \<open>C strings\<close>

text \<open>
  A NUL-terminated buffer is the string of its bytes before the terminator. \<open>at_c s i\<close> reads
  byte \<open>i\<close> of the buffer: the terminator itself at \<open>i = length s\<close>. The code never reads
  further, which the scanner's invariant proves; the model answers NUL there.
\<close>

definition at_c :: "string \<Rightarrow> nat \<Rightarrow> char" where
  "at_c s i = (if i < length s then s ! i else nul)"

definition c_string :: "string \<Rightarrow> bool" where
  "c_string s \<longleftrightarrow> nul \<notin> set s"

lemma at_c_in: "i < length s \<Longrightarrow> at_c s i = s ! i"
  by (simp add: at_c_def)

lemma at_c_end [simp]: "length s \<le> i \<Longrightarrow> at_c s i = nul"
  by (simp add: at_c_def)

lemma at_c_not_nul: "at_c s i \<noteq> nul \<Longrightarrow> i < length s"
  by (simp add: at_c_def split: if_splits)

lemma at_c_nul_iff: "c_string s \<Longrightarrow> at_c s i = nul \<longleftrightarrow> length s \<le> i"
  by (auto simp: at_c_def c_string_def) (metis nth_mem)

text \<open>\<open>sub_c s i n\<close> is what the pair \<open>(s + i, n)\<close> of a pointer and a length denotes.\<close>

definition sub_c :: "string \<Rightarrow> nat \<Rightarrow> nat \<Rightarrow> string" where
  "sub_c s i n = take n (drop i s)"

lemma length_sub_c: "i + n \<le> length s \<Longrightarrow> length (sub_c s i n) = n"
  by (simp add: sub_c_def)

subsection \<open>Fatal errors as values\<close>

text \<open>
  A function that may not return (\<open>diag_fatal\<close> is \<open>_Noreturn\<close>) yields a value of a sum
  type: \<open>Inl e\<close> where the code reports \<open>e\<close> and leaves, \<open>Inr x\<close> where it returns \<open>x\<close>.
\<close>

definition bindE :: "'e + 'a \<Rightarrow> ('a \<Rightarrow> 'e + 'b) \<Rightarrow> 'e + 'b" where
  "bindE m f = (case m of Inl e \<Rightarrow> Inl e | Inr x \<Rightarrow> f x)"

lemma bindE_simps [simp]: "bindE (Inl e) f = Inl e" "bindE (Inr x) f = f x"
  by (simp_all add: bindE_def)

lemma bindE_Inr_iff: "bindE m f = Inr y \<longleftrightarrow> (\<exists>x. m = Inr x \<and> f x = Inr y)"
  by (cases m) auto

lemma bindE_cong [fundef_cong]:
  "m = m' \<Longrightarrow> (\<And>x. m' = Inr x \<Longrightarrow> f x = f' x) \<Longrightarrow> bindE m f = bindE m' f'"
  by (cases m') auto

definition is_ok :: "'e + 'a \<Rightarrow> bool" where
  "is_ok m = (case m of Inl _ \<Rightarrow> False | Inr _ \<Rightarrow> True)"

lemma is_ok_simps [simp]: "\<not> is_ok (Inl e)" "is_ok (Inr x)"
  by (simp_all add: is_ok_def)

subsection \<open>Decimal numerals, as \<open>printf\<close> writes them\<close>

fun dec_nat :: "nat \<Rightarrow> string" where
  "dec_nat n = (if n < 10 then [char_of (48 + n)] else dec_nat (n div 10) @ [char_of (48 + n mod 10)])"

declare dec_nat.simps [simp del]

definition dec_int :: "int \<Rightarrow> string" where
  "dec_int i = (if i < 0 then CHR ''-'' # dec_nat (nat (- i)) else dec_nat (nat i))"

fun dec_value :: "nat \<Rightarrow> string \<Rightarrow> nat" where
  "dec_value acc [] = acc"
| "dec_value acc (c # cs) = dec_value (acc * 10 + (byte c - 48)) cs"

lemma dec_value_append: "dec_value acc (xs @ ys) = dec_value (dec_value acc xs) ys"
  by (induction acc xs rule: dec_value.induct) auto

lemma dec_value_dec_nat: "dec_value 0 (dec_nat n) = n"
proof (induction n rule: dec_nat.induct)
  case (1 n)
  show ?case
  proof (cases "n < 10")
    case True
    then show ?thesis by (simp add: dec_nat.simps [of n] byte_char_of)
  next
    case False
    with 1 have "dec_value 0 (dec_nat (n div 10)) = n div 10" by simp
    with False show ?thesis
      by (simp add: dec_nat.simps [of n] dec_value_append byte_char_of)
  qed
qed

lemma dec_nat_inject: "dec_nat m = dec_nat n \<longleftrightarrow> m = n"
  by (metis dec_value_dec_nat)

lemma dec_nat_not_Nil [simp]: "dec_nat n \<noteq> []"
  by (subst dec_nat.simps) simp

lemma isdigit_char_of: "n < 10 \<Longrightarrow> isdigit (char_of (48 + n :: nat))"
  by (simp add: isdigit_def byte_char_of)

lemma dec_nat_digits: "c \<in> set (dec_nat n) \<Longrightarrow> isdigit c"
proof (induction n rule: dec_nat.induct)
  case (1 n)
  show ?case
  proof (cases "n < 10")
    case True
    with 1(2) show ?thesis by (simp add: dec_nat.simps [of n] isdigit_char_of)
  next
    case False
    with 1 show ?thesis
      using isdigit_char_of [of "n mod 10"] by (auto simp: dec_nat.simps [of n])
  qed
qed

lemma dec_nat_hd: "isdigit (hd (dec_nat n))"
  by (rule dec_nat_digits [of _ n]) (simp add: hd_in_set)

lemma dec_int_inject: "dec_int i = dec_int j \<longleftrightarrow> i = j"
proof -
  have no_minus: "dec_nat n \<noteq> CHR ''-'' # s" for n s
    using dec_nat_digits [of "CHR ''-''" n] by (auto simp: char_class_defs)
  show ?thesis
    by (auto simp: dec_int_def dec_nat_inject no_minus no_minus [symmetric])
qed

end
