(* ===== verification/FC_Token.thy ===== *)
theory FC_Token
  imports FC_Prelude
begin

section \<open>Tokens (\<open>src/token.h\<close>, \<open>src/token.c\<close>)\<close>

text \<open>
  The enumeration \<open>TokenKind\<close>, one datatype per section of the C declaration and one
  constructor of \<open>token_kind\<close> per section; the record \<open>Token\<close>; and \<open>token_kind_name\<close>.
  The \<open>start\<close> pointer of a token is either an offset into the source buffer or one of the
  compiler's own static strings (an error message, the empty text of a layout token).
\<close>

datatype tok_literal =
    TOK_INT_LIT
  | TOK_FLOAT_LIT
  | TOK_STRING_LIT
  | TOK_CSTRING_LIT
  | TOK_CHAR_LIT

datatype tok_ident =
    TOK_IDENT
  | TOK_TYPE_VAR

datatype tok_keyword =
    TOK_LET
  | TOK_MUT
  | TOK_STRUCT
  | TOK_UNION
  | TOK_ENUM
  | TOK_ERROR_KW
  | TOK_MODULE
  | TOK_NAMESPACE
  | TOK_IMPORT
  | TOK_FROM
  | TOK_AS
  | TOK_EXTERN
  | TOK_PRIVATE
  | TOK_MATCH
  | TOK_WITH
  | TOK_WHEN
  | TOK_IF
  | TOK_THEN
  | TOK_ELSE
  | TOK_FOR
  | TOK_IN
  | TOK_LOOP
  | TOK_DO
  | TOK_BREAK
  | TOK_CONTINUE
  | TOK_RETURN
  | TOK_DEFER
  | TOK_IGNORE
  | TOK_SOME
  | TOK_TRUE
  | TOK_FALSE
  | TOK_NONE
  | TOK_OK
  | TOK_ERR
  | TOK_VOID
  | TOK_GUARDED
  | TOK_UNGUARDED
  | TOK_CHECKED
  | TOK_UNCHECKED

datatype tok_builtin =
    TOK_ALLOC
  | TOK_ALLOCA
  | TOK_FREE
  | TOK_SIZEOF
  | TOK_ALIGNOF
  | TOK_BITCAST
  | TOK_ENUM_OF
  | TOK_DEFAULT
  | TOK_CONST
  | TOK_ASSERT
  | TOK_STATIC_ASSERT
  | TOK_ERROR_NAME
  | TOK_ATOMIC_LOAD
  | TOK_ATOMIC_STORE

datatype tok_interp =
    TOK_INTERP_START
  | TOK_CINTERP_START
  | TOK_INTERP_MID
  | TOK_INTERP_END
  | TOK_FMT_SPEC

datatype tok_operator =
    TOK_PLUS
  | TOK_MINUS
  | TOK_STAR
  | TOK_SLASH
  | TOK_PERCENT
  | TOK_AMP
  | TOK_PIPE
  | TOK_CARET
  | TOK_TILDE
  | TOK_BANG
  | TOK_EQ
  | TOK_EQEQ
  | TOK_BANGEQ
  | TOK_LT
  | TOK_GT
  | TOK_LTEQ
  | TOK_GTEQ
  | TOK_LTLT
  | TOK_GTGT
  | TOK_AMPAMP
  | TOK_PIPEPIPE
  | TOK_ARROW
  | TOK_DOTDOT
  | TOK_ELLIPSIS
  | TOK_DOT
  | TOK_COLONCOLON
  | TOK_COLON
  | TOK_COMMA
  | TOK_QUESTION
  | TOK_SEMICOLON

datatype tok_delim =
    TOK_LPAREN
  | TOK_RPAREN
  | TOK_LBRACKET
  | TOK_RBRACKET
  | TOK_LBRACE
  | TOK_RBRACE

datatype tok_layout =
    TOK_NEWLINE
  | TOK_INDENT
  | TOK_DEDENT

datatype tok_pp =
    TOK_HASH_IF
  | TOK_HASH_ELSE
  | TOK_HASH_ELSE_IF
  | TOK_HASH_END

datatype tok_special =
    TOK_EOF
  | TOK_ERROR

datatype token_kind =
    Lit tok_literal
  | Idt tok_ident
  | Kw tok_keyword
  | Bi tok_builtin
  | Itp tok_interp
  | Op tok_operator
  | Dl tok_delim
  | Lay tok_layout
  | Pp tok_pp
  | Sp tok_special

text \<open>
  \<open>token_kind_name\<close> is one switch in the code; here each section of the enumeration has its
  own function, in the order of the switch.
\<close>

fun literal_name :: "tok_literal \<Rightarrow> string" where
  "literal_name TOK_INT_LIT = ''int literal''"
| "literal_name TOK_FLOAT_LIT = ''float literal''"
| "literal_name TOK_STRING_LIT = ''string literal''"
| "literal_name TOK_CSTRING_LIT = ''cstring literal''"
| "literal_name TOK_CHAR_LIT = ''char literal''"

fun ident_name :: "tok_ident \<Rightarrow> string" where
  "ident_name TOK_IDENT = ''identifier''"
| "ident_name TOK_TYPE_VAR = ''type variable''"

fun keyword_name :: "tok_keyword \<Rightarrow> string" where
  "keyword_name TOK_LET = [squote] @ ''let'' @ [squote]"
| "keyword_name TOK_MUT = [squote] @ ''mut'' @ [squote]"
| "keyword_name TOK_STRUCT = [squote] @ ''struct'' @ [squote]"
| "keyword_name TOK_UNION = [squote] @ ''union'' @ [squote]"
| "keyword_name TOK_ENUM = [squote] @ ''enum'' @ [squote]"
| "keyword_name TOK_ERROR_KW = [squote] @ ''error'' @ [squote]"
| "keyword_name TOK_MODULE = [squote] @ ''module'' @ [squote]"
| "keyword_name TOK_NAMESPACE = [squote] @ ''namespace'' @ [squote]"
| "keyword_name TOK_IMPORT = [squote] @ ''import'' @ [squote]"
| "keyword_name TOK_FROM = [squote] @ ''from'' @ [squote]"
| "keyword_name TOK_AS = [squote] @ ''as'' @ [squote]"
| "keyword_name TOK_EXTERN = [squote] @ ''extern'' @ [squote]"
| "keyword_name TOK_PRIVATE = [squote] @ ''private'' @ [squote]"
| "keyword_name TOK_MATCH = [squote] @ ''match'' @ [squote]"
| "keyword_name TOK_WITH = [squote] @ ''with'' @ [squote]"
| "keyword_name TOK_WHEN = [squote] @ ''when'' @ [squote]"
| "keyword_name TOK_IF = [squote] @ ''if'' @ [squote]"
| "keyword_name TOK_THEN = [squote] @ ''then'' @ [squote]"
| "keyword_name TOK_ELSE = [squote] @ ''else'' @ [squote]"
| "keyword_name TOK_FOR = [squote] @ ''for'' @ [squote]"
| "keyword_name TOK_IN = [squote] @ ''in'' @ [squote]"
| "keyword_name TOK_LOOP = [squote] @ ''loop'' @ [squote]"
| "keyword_name TOK_DO = [squote] @ ''do'' @ [squote]"
| "keyword_name TOK_BREAK = [squote] @ ''break'' @ [squote]"
| "keyword_name TOK_CONTINUE = [squote] @ ''continue'' @ [squote]"
| "keyword_name TOK_RETURN = [squote] @ ''return'' @ [squote]"
| "keyword_name TOK_DEFER = [squote] @ ''defer'' @ [squote]"
| "keyword_name TOK_IGNORE = [squote] @ ''ignore'' @ [squote]"
| "keyword_name TOK_SOME = [squote] @ ''some'' @ [squote]"
| "keyword_name TOK_TRUE = [squote] @ ''true'' @ [squote]"
| "keyword_name TOK_FALSE = [squote] @ ''false'' @ [squote]"
| "keyword_name TOK_NONE = [squote] @ ''none'' @ [squote]"
| "keyword_name TOK_OK = [squote] @ ''ok'' @ [squote]"
| "keyword_name TOK_ERR = [squote] @ ''err'' @ [squote]"
| "keyword_name TOK_VOID = [squote] @ ''void'' @ [squote]"
| "keyword_name TOK_GUARDED = [squote] @ ''guarded'' @ [squote]"
| "keyword_name TOK_UNGUARDED = [squote] @ ''unguarded'' @ [squote]"
| "keyword_name TOK_CHECKED = [squote] @ ''checked'' @ [squote]"
| "keyword_name TOK_UNCHECKED = [squote] @ ''unchecked'' @ [squote]"

fun builtin_name :: "tok_builtin \<Rightarrow> string" where
  "builtin_name TOK_ALLOC = [squote] @ ''alloc'' @ [squote]"
| "builtin_name TOK_ALLOCA = [squote] @ ''alloca'' @ [squote]"
| "builtin_name TOK_FREE = [squote] @ ''free'' @ [squote]"
| "builtin_name TOK_SIZEOF = [squote] @ ''sizeof'' @ [squote]"
| "builtin_name TOK_ALIGNOF = [squote] @ ''alignof'' @ [squote]"
| "builtin_name TOK_BITCAST = [squote] @ ''bitcast'' @ [squote]"
| "builtin_name TOK_ENUM_OF = [squote] @ ''enum_of'' @ [squote]"
| "builtin_name TOK_DEFAULT = [squote] @ ''default'' @ [squote]"
| "builtin_name TOK_CONST = [squote] @ ''const'' @ [squote]"
| "builtin_name TOK_ASSERT = [squote] @ ''assert'' @ [squote]"
| "builtin_name TOK_STATIC_ASSERT = [squote] @ ''static_assert'' @ [squote]"
| "builtin_name TOK_ERROR_NAME = [squote] @ ''error_name'' @ [squote]"
| "builtin_name TOK_ATOMIC_LOAD = [squote] @ ''atomic_load_acquire'' @ [squote]"
| "builtin_name TOK_ATOMIC_STORE = [squote] @ ''atomic_store_release'' @ [squote]"

fun interp_name :: "tok_interp \<Rightarrow> string" where
  "interp_name TOK_INTERP_START = ''interpolation start''"
| "interp_name TOK_CINTERP_START = ''cstring interpolation start''"
| "interp_name TOK_INTERP_MID = ''interpolation mid''"
| "interp_name TOK_INTERP_END = ''interpolation end''"
| "interp_name TOK_FMT_SPEC = ''format specifier''"

fun operator_name :: "tok_operator \<Rightarrow> string" where
  "operator_name TOK_PLUS = [squote] @ ''+'' @ [squote]"
| "operator_name TOK_MINUS = [squote] @ ''-'' @ [squote]"
| "operator_name TOK_STAR = [squote] @ ''*'' @ [squote]"
| "operator_name TOK_SLASH = [squote] @ ''/'' @ [squote]"
| "operator_name TOK_PERCENT = [squote] @ ''%'' @ [squote]"
| "operator_name TOK_AMP = [squote] @ ''&'' @ [squote]"
| "operator_name TOK_PIPE = [squote] @ ''|'' @ [squote]"
| "operator_name TOK_CARET = [squote] @ ''^'' @ [squote]"
| "operator_name TOK_TILDE = [squote] @ ''~'' @ [squote]"
| "operator_name TOK_BANG = [squote] @ ''!'' @ [squote]"
| "operator_name TOK_EQ = [squote] @ ''='' @ [squote]"
| "operator_name TOK_EQEQ = [squote] @ ''=='' @ [squote]"
| "operator_name TOK_BANGEQ = [squote] @ ''!='' @ [squote]"
| "operator_name TOK_LT = [squote] @ ''<'' @ [squote]"
| "operator_name TOK_GT = [squote] @ ''>'' @ [squote]"
| "operator_name TOK_LTEQ = [squote] @ ''<='' @ [squote]"
| "operator_name TOK_GTEQ = [squote] @ ''>='' @ [squote]"
| "operator_name TOK_LTLT = [squote] @ ''<<'' @ [squote]"
| "operator_name TOK_GTGT = [squote] @ ''>>'' @ [squote]"
| "operator_name TOK_AMPAMP = [squote] @ ''&&'' @ [squote]"
| "operator_name TOK_PIPEPIPE = [squote] @ ''||'' @ [squote]"
| "operator_name TOK_ARROW = [squote] @ ''->'' @ [squote]"
| "operator_name TOK_DOTDOT = [squote] @ ''..'' @ [squote]"
| "operator_name TOK_ELLIPSIS = [squote] @ ''...'' @ [squote]"
| "operator_name TOK_DOT = [squote] @ ''.'' @ [squote]"
| "operator_name TOK_COLONCOLON = [squote] @ ''::'' @ [squote]"
| "operator_name TOK_COLON = [squote] @ '':'' @ [squote]"
| "operator_name TOK_COMMA = [squote] @ '','' @ [squote]"
| "operator_name TOK_QUESTION = [squote] @ ''?'' @ [squote]"
| "operator_name TOK_SEMICOLON = [squote] @ '';'' @ [squote]"

fun delim_name :: "tok_delim \<Rightarrow> string" where
  "delim_name TOK_LPAREN = [squote] @ ''('' @ [squote]"
| "delim_name TOK_RPAREN = [squote] @ '')'' @ [squote]"
| "delim_name TOK_LBRACKET = [squote] @ ''['' @ [squote]"
| "delim_name TOK_RBRACKET = [squote] @ '']'' @ [squote]"
| "delim_name TOK_LBRACE = [squote] @ ''{'' @ [squote]"
| "delim_name TOK_RBRACE = [squote] @ ''}'' @ [squote]"

fun layout_name :: "tok_layout \<Rightarrow> string" where
  "layout_name TOK_NEWLINE = ''newline''"
| "layout_name TOK_INDENT = ''indent''"
| "layout_name TOK_DEDENT = ''dedent''"

fun pp_name :: "tok_pp \<Rightarrow> string" where
  "pp_name TOK_HASH_IF = [squote] @ ''#if'' @ [squote]"
| "pp_name TOK_HASH_ELSE = [squote] @ ''#else'' @ [squote]"
| "pp_name TOK_HASH_ELSE_IF = [squote] @ ''#else if'' @ [squote]"
| "pp_name TOK_HASH_END = [squote] @ ''#end'' @ [squote]"

fun special_name :: "tok_special \<Rightarrow> string" where
  "special_name TOK_EOF = ''end of file''"
| "special_name TOK_ERROR = ''error''"

fun token_kind_name :: "token_kind \<Rightarrow> string" where
  "token_kind_name (Lit k) = literal_name k"
| "token_kind_name (Idt k) = ident_name k"
| "token_kind_name (Kw k) = keyword_name k"
| "token_kind_name (Bi k) = builtin_name k"
| "token_kind_name (Itp k) = interp_name k"
| "token_kind_name (Op k) = operator_name k"
| "token_kind_name (Dl k) = delim_name k"
| "token_kind_name (Lay k) = layout_name k"
| "token_kind_name (Pp k) = pp_name k"
| "token_kind_name (Sp k) = special_name k"

text \<open>The pointer and length of a token.\<close>

datatype text_ref = Src nat | Static string

record token =
  t_kind :: token_kind
  t_start :: text_ref
  t_length :: nat
  t_line :: nat
  t_col :: nat

text \<open>The bytes a token denotes in the buffer \<open>src\<close>.\<close>

fun tok_text :: "string \<Rightarrow> token \<Rightarrow> string" where
  "tok_text src t = (case t_start t of Src i \<Rightarrow> sub_c src i (t_length t)
                       | Static s \<Rightarrow> take (t_length t) s)"

text \<open>A source location (\<open>SrcLoc\<close> of \<open>diag.h\<close>); no file name means the current file.\<close>

record src_loc =
  loc_file :: "string option"
  loc_line :: nat
  loc_col :: nat

definition mk_loc :: "nat \<Rightarrow> nat \<Rightarrow> src_loc" where
  "mk_loc l c = \<lparr>loc_file = None, loc_line = l, loc_col = c\<rparr>"

definition loc_from_token :: "token \<Rightarrow> src_loc" where
  "loc_from_token t = mk_loc (t_line t) (t_col t)"

end
