(* ===== verification/FC_Arena.thy ===== *)
theory FC_Arena
  imports FC_Token
begin

section \<open>The arena allocator (\<open>src/common.c\<close>)\<close>

text \<open>
  An arena is a list of pages; allocation bumps \<open>used\<close> in the last one (\<open>current\<close>) and starts
  a new page when the request does not fit. Sizes are \<open>size_t\<close>, 64 bits on the host. The
  C library's \<open>malloc\<close> is the parameter \<open>malloc_ok\<close>: which sizes it serves. Where it
  refuses, \<open>out_of_memory\<close> exits; the model returns \<open>None\<close> there.
\<close>

definition ARENA_PAGE_SIZE :: u64 where "ARENA_PAGE_SIZE = 65536"

definition sizeof_ArenaPage :: u64 where "sizeof_ArenaPage = 24"

record arena_page =
  pg_used :: u64
  pg_size :: u64

record arena =
  a_pages :: "arena_page list"

text \<open>What \<open>arena_alloc\<close> returns: a page, an offset into its data and the rounded size.\<close>

record block =
  b_page :: nat
  b_off :: nat
  b_len :: nat

definition arena_new_page :: "(u64 \<Rightarrow> bool) \<Rightarrow> u64 \<Rightarrow> arena_page option" where
  "arena_new_page malloc_ok min_size =
     (let sz = (if min_size > ARENA_PAGE_SIZE then min_size else ARENA_PAGE_SIZE)
      in if malloc_ok (sizeof_ArenaPage + sz) then Some \<lparr>pg_used = 0, pg_size = sz\<rparr> else None)"

definition arena_init :: "(u64 \<Rightarrow> bool) \<Rightarrow> arena option" where
  "arena_init malloc_ok =
     map_option (\<lambda>p. \<lparr>a_pages = [p]\<rparr>) (arena_new_page malloc_ok ARENA_PAGE_SIZE)"

definition round8 :: "u64 \<Rightarrow> u64" where
  "round8 sz = (sz + 7) AND NOT 7"

definition bump :: "nat \<Rightarrow> arena_page \<Rightarrow> u64 \<Rightarrow> block \<times> arena_page" where
  "bump i p sz =
     (\<lparr>b_page = i, b_off = unat (pg_used p), b_len = unat sz\<rparr>, p\<lparr>pg_used := pg_used p + sz\<rparr>)"

definition arena_alloc :: "(u64 \<Rightarrow> bool) \<Rightarrow> arena \<Rightarrow> u64 \<Rightarrow> (block \<times> arena) option" where
  "arena_alloc malloc_ok a sz0 =
     (let sz = round8 sz0; ps = a_pages a; p = last ps
      in if pg_used p + sz > pg_size p then
           (case arena_new_page malloc_ok sz of
              None \<Rightarrow> None
            | Some q \<Rightarrow> let (b, q') = bump (length ps) q sz in Some (b, \<lparr>a_pages = ps @ [q']\<rparr>))
         else let (b, p') = bump (length ps - 1) p sz
              in Some (b, \<lparr>a_pages = ps[length ps - 1 := p']\<rparr>))"

definition arena_free :: "arena \<Rightarrow> arena" where
  "arena_free a = \<lparr>a_pages = []\<rparr>"

subsection \<open>The contract of an allocator\<close>

text \<open>A run of requests against any allocation function.\<close>

fun alloc_run :: "('a \<Rightarrow> 'n \<Rightarrow> ('b \<times> 'a) option) \<Rightarrow> 'a \<Rightarrow> 'n list \<Rightarrow> ('b list \<times> 'a) option" where
  "alloc_run alloc a [] = Some ([], a)"
| "alloc_run alloc a (n # ns) =
     (case alloc a n of
        None \<Rightarrow> None
      | Some (b, a') \<Rightarrow> (case alloc_run alloc a' ns of
                           None \<Rightarrow> None
                         | Some (bs, a'') \<Rightarrow> Some (b # bs, a'')))"

text \<open>
  \<open>owns a b\<close>: block \<open>b\<close> lies in the part of \<open>a\<close> already handed out. A client relies on four
  laws: the invariant is kept, the block is owned afterwards, blocks stay owned, and a new
  block is apart from every owned one.
\<close>

locale allocator =
  fixes alloc :: "'a \<Rightarrow> 'n \<Rightarrow> ('b \<times> 'a) option"
    and inv :: "'a \<Rightarrow> bool"
    and valid :: "'n \<Rightarrow> bool"
    and owns :: "'a \<Rightarrow> 'b \<Rightarrow> bool"
    and apart :: "'b \<Rightarrow> 'b \<Rightarrow> bool"
  assumes alloc_inv: "inv a \<Longrightarrow> valid n \<Longrightarrow> alloc a n = Some (b, a') \<Longrightarrow> inv a'"
    and alloc_owns: "inv a \<Longrightarrow> valid n \<Longrightarrow> alloc a n = Some (b, a') \<Longrightarrow> owns a' b"
    and alloc_keeps: "inv a \<Longrightarrow> valid n \<Longrightarrow> alloc a n = Some (b, a') \<Longrightarrow> owns a c \<Longrightarrow> owns a' c"
    and alloc_apart: "inv a \<Longrightarrow> valid n \<Longrightarrow> alloc a n = Some (b, a') \<Longrightarrow> owns a c \<Longrightarrow> apart c b"
begin

lemma run_owns:
  assumes "inv a" and "list_all valid ns" and "alloc_run alloc a ns = Some (bs, a')"
  shows "inv a' \<and> (\<forall>c. owns a c \<longrightarrow> owns a' c) \<and> (\<forall>b \<in> set bs. owns a' b)"
  using assms
proof (induction ns arbitrary: a bs)
  case Nil
  then show ?case by simp
next
  case (Cons n ns)
  from Cons.prems obtain b a1 bs1 where step: "alloc a n = Some (b, a1)"
    and rest: "alloc_run alloc a1 ns = Some (bs1, a')" and bs: "bs = b # bs1"
    by (auto split: option.splits)
  have n: "valid n" "list_all valid ns"
    using Cons.prems by simp_all
  have "inv a1"
    by (rule alloc_inv [OF Cons.prems(1) n(1) step])
  then have "inv a' \<and> (\<forall>c. owns a1 c \<longrightarrow> owns a' c) \<and> (\<forall>b \<in> set bs1. owns a' b)"
    using Cons.IH n(2) rest by blast
  then show ?case
    using alloc_owns [OF Cons.prems(1) n(1) step] alloc_keeps [OF Cons.prems(1) n(1) step] bs
    by auto
qed

lemma run_apart_owned:
  assumes "inv a" and "list_all valid ns" and "alloc_run alloc a ns = Some (bs, a')" and "owns a c"
  shows "\<forall>b \<in> set bs. apart c b"
  using assms
proof (induction ns arbitrary: a bs)
  case Nil
  then show ?case by simp
next
  case (Cons n ns)
  from Cons.prems obtain b a1 bs1 where step: "alloc a n = Some (b, a1)"
    and rest: "alloc_run alloc a1 ns = Some (bs1, a')" and bs: "bs = b # bs1"
    by (auto split: option.splits)
  have n: "valid n" "list_all valid ns"
    using Cons.prems by simp_all
  have "inv a1" and "owns a1 c" and "apart c b"
    using alloc_inv [OF Cons.prems(1) n(1) step] alloc_keeps [OF Cons.prems(1) n(1) step]
      alloc_apart [OF Cons.prems(1) n(1) step] Cons.prems(4) by auto
  then show ?case
    using Cons.IH n(2) rest bs by auto
qed

lemma run_apart:
  assumes "inv a" and "list_all valid ns" and "alloc_run alloc a ns = Some (bs, a')"
  shows "sorted_wrt apart bs"
  using assms
proof (induction ns arbitrary: a bs)
  case Nil
  then show ?case by simp
next
  case (Cons n ns)
  from Cons.prems obtain b a1 bs1 where step: "alloc a n = Some (b, a1)"
    and rest: "alloc_run alloc a1 ns = Some (bs1, a')" and bs: "bs = b # bs1"
    by (auto split: option.splits)
  have n: "valid n" "list_all valid ns"
    using Cons.prems by simp_all
  have a1: "inv a1" "owns a1 b"
    using alloc_inv [OF Cons.prems(1) n(1) step] alloc_owns [OF Cons.prems(1) n(1) step] by auto
  then have "\<forall>b' \<in> set bs1. apart b b'"
    using run_apart_owned n(2) rest by blast
  then show ?case
    using Cons.IH [OF a1(1) n(2) rest] bs by simp
qed

end

subsection \<open>The arena keeps the contract\<close>

text \<open>
  Requests up to \<open>2 ^ 62\<close> bytes: beyond, the rounding and the page header would wrap. Pages the
  C library serves are below \<open>2 ^ 63\<close> bytes (no object is larger than \<open>PTRDIFF_MAX\<close>), which is
  the invariant's bound on \<open>pg_size\<close>.
\<close>

definition valid_request :: "u64 \<Rightarrow> bool" where
  "valid_request n \<longleftrightarrow> unat n \<le> 2 ^ 62"

definition page_ok :: "arena_page \<Rightarrow> bool" where
  "page_ok p \<longleftrightarrow> unat (pg_used p) \<le> unat (pg_size p) \<and> unat (pg_size p) \<le> 2 ^ 62 + 65536 \<and>
                  8 dvd unat (pg_used p)"

definition arena_inv :: "arena \<Rightarrow> bool" where
  "arena_inv a \<longleftrightarrow> a_pages a \<noteq> [] \<and> (\<forall>p \<in> set (a_pages a). page_ok p)"

definition arena_owns :: "arena \<Rightarrow> block \<Rightarrow> bool" where
  "arena_owns a b \<longleftrightarrow> b_page b < length (a_pages a) \<and> 8 dvd b_off b \<and>
     b_off b + b_len b \<le> unat (pg_used (a_pages a ! b_page b))"

definition blocks_apart :: "block \<Rightarrow> block \<Rightarrow> bool" where
  "blocks_apart b c \<longleftrightarrow>
     b_page b \<noteq> b_page c \<or> b_off b + b_len b \<le> b_off c \<or> b_off c + b_len c \<le> b_off b"

lemma unat_round8:
  assumes "valid_request n"
  shows "unat (round8 n) = (unat n + 7) div 8 * 8"
proof -
  define x where "x = n + 7"
  have x: "unat x = unat n + 7"
    using assms by (simp add: x_def valid_request_def unat_word_ariths)
  have "round8 n = push_bit 3 (drop_bit 3 x)"
  proof -
    have "(7 :: u64) = mask 3"
      by (simp add: mask_eq_decr_exp)
    then have "x AND NOT 7 = x AND NOT (mask 3)"
      by simp
    also have "\<dots> = push_bit 3 (drop_bit 3 x)"
      by (rule bit_word_eqI) (auto simp: bit_simps)
    finally show ?thesis
      by (simp add: round8_def x_def)
  qed
  then have "round8 n + take_bit 3 x = x"
    by (simp add: bits_ident)
  then have "round8 n = x - take_bit 3 x"
    by (simp add: algebra_simps)
  moreover have "unat (take_bit 3 x) = unat x mod 8"
    by (simp only: unat_take_bit_mod) simp
  moreover have "take_bit 3 x \<le> x"
    by (simp add: word_le_nat_alt calculation(2))
  ultimately have "unat (round8 n) = unat x - unat x mod 8"
    by (simp add: unat_sub)
  then show ?thesis
    by (simp add: x minus_mod_eq_div_mult [symmetric])
qed

lemma round8_valid:
  assumes "valid_request n"
  shows "8 dvd unat (round8 n)" and "unat n \<le> unat (round8 n)" and "unat (round8 n) \<le> 2 ^ 62"
proof -
  show "8 dvd unat (round8 n)"
    by (simp add: unat_round8 [OF assms])
  show "unat n \<le> unat (round8 n)"
    unfolding unat_round8 [OF assms] by linarith
  have "unat n + 7 < Suc (2 ^ 59) * 8"
    using assms by (simp add: valid_request_def)
  then have "(unat n + 7) div 8 \<le> 2 ^ 59"
    by (simp add: less_mult_imp_div_less less_Suc_eq_le [symmetric] del: mult_Suc)
  then show "unat (round8 n) \<le> 2 ^ 62"
    unfolding unat_round8 [OF assms] by simp
qed

lemma new_page_ok:
  assumes "arena_new_page ok n = Some p" and "unat n \<le> 2 ^ 62"
  shows "page_ok p \<and> pg_used p = 0 \<and> unat n \<le> unat (pg_size p)"
  using assms
  by (auto simp: arena_new_page_def page_ok_def ARENA_PAGE_SIZE_def Let_def word_less_nat_alt
           split: if_splits)

text \<open>One step, split on whether the current page has room.\<close>

lemma arena_alloc_cases:
  assumes "arena_inv a" and "valid_request n" and "arena_alloc ok a n = Some (b, a')"
  obtains (bump) p where "p = last (a_pages a)" and "page_ok p"
      and "unat (pg_used p) + unat (round8 n) \<le> unat (pg_size p)"
      and "b = \<lparr>b_page = length (a_pages a) - 1, b_off = unat (pg_used p), b_len = unat (round8 n)\<rparr>"
      and "a_pages a' = (a_pages a)[length (a_pages a) - 1 := p\<lparr>pg_used := pg_used p + round8 n\<rparr>]"
      and "unat (pg_used p + round8 n) = unat (pg_used p) + unat (round8 n)"
    | (grow) q where "page_ok q" and "pg_used q = 0" and "unat (round8 n) \<le> unat (pg_size q)"
      and "b = \<lparr>b_page = length (a_pages a), b_off = 0, b_len = unat (round8 n)\<rparr>"
      and "a_pages a' = a_pages a @ [q\<lparr>pg_used := round8 n\<rparr>]"
proof -
  define p where "p = last (a_pages a)"
  have p: "page_ok p"
    using assms(1) by (simp add: arena_inv_def p_def)
  have sum: "unat (pg_used p + round8 n) = unat (pg_used p) + unat (round8 n)"
    using p round8_valid(3) [OF assms(2)] by (simp add: page_ok_def unat_word_ariths)
  show thesis
  proof (cases "pg_used p + round8 n > pg_size p")
    case True
    with assms(3) obtain q where q: "arena_new_page ok (round8 n) = Some q"
      and b: "(b, a') = (let (b, q') = FC_Arena.bump (length (a_pages a)) q (round8 n)
                         in (b, \<lparr>a_pages = a_pages a @ [q']\<rparr>))"
      by (auto simp: arena_alloc_def Let_def p_def split: option.splits prod.splits)
    have "page_ok q \<and> pg_used q = 0 \<and> unat (round8 n) \<le> unat (pg_size q)"
      by (rule new_page_ok [OF q round8_valid(3) [OF assms(2)]])
    with b show thesis
      by (intro grow [of q]) (auto simp: bump_def)
  next
    case False
    then have "unat (pg_used p) + unat (round8 n) \<le> unat (pg_size p)"
      by (simp add: word_less_nat_alt sum)
    with False assms(3) p sum show thesis
      by (intro bump [of p]) (auto simp: arena_alloc_def Let_def p_def bump_def)
  qed
qed

lemma arena_alloc_inv:
  assumes "arena_inv a" and "valid_request n" and "arena_alloc ok a n = Some (b, a')"
  shows "arena_inv a'"
  using assms
proof (cases rule: arena_alloc_cases [OF assms])
  case (1 p)
  have "page_ok (p\<lparr>pg_used := pg_used p + round8 n\<rparr>)"
    using 1 round8_valid(1) [OF assms(2)] by (simp add: page_ok_def)
  with assms(1) 1(5) show ?thesis
    by (auto simp: arena_inv_def dest: set_update_subset_insert [THEN subsetD])
next
  case (2 q)
  then have "page_ok (q\<lparr>pg_used := round8 n\<rparr>)"
    using round8_valid(1) [OF assms(2)] by (simp add: page_ok_def)
  with assms(1) 2(5) show ?thesis
    by (auto simp: arena_inv_def)
qed

lemma arena_alloc_owns:
  assumes "arena_inv a" and "valid_request n" and "arena_alloc ok a n = Some (b, a')"
  shows "arena_owns a' b"
proof (cases rule: arena_alloc_cases [OF assms])
  case (1 p)
  with assms(1) show ?thesis
    by (auto simp: arena_owns_def arena_inv_def page_ok_def)
next
  case (2 q)
  then show ?thesis by (simp add: arena_owns_def)
qed

lemma arena_alloc_keeps:
  assumes "arena_inv a" and "valid_request n" and "arena_alloc ok a n = Some (b, a')"
    and "arena_owns a c"
  shows "arena_owns a' c"
proof (cases rule: arena_alloc_cases [OF assms(1-3)])
  case (1 p)
  with assms(1,4) show ?thesis
    by (cases "b_page c = length (a_pages a) - 1")
      (auto simp: arena_owns_def arena_inv_def last_conv_nth)
next
  case (2 q)
  with assms(4) show ?thesis by (simp add: arena_owns_def nth_append)
qed

lemma arena_alloc_apart:
  assumes "arena_inv a" and "valid_request n" and "arena_alloc ok a n = Some (b, a')"
    and "arena_owns a c"
  shows "blocks_apart c b"
proof (cases rule: arena_alloc_cases [OF assms(1-3)])
  case (1 p)
  with assms(1,4) show ?thesis
    by (auto simp: arena_owns_def blocks_apart_def arena_inv_def last_conv_nth)
next
  case (2 q)
  with assms(4) show ?thesis by (auto simp: arena_owns_def blocks_apart_def)
qed

interpretation arena: allocator "arena_alloc ok" arena_inv valid_request arena_owns blocks_apart
  for ok
  by unfold_locales
    (blast intro: arena_alloc_inv arena_alloc_owns arena_alloc_keeps arena_alloc_apart)+

lemma arena_init_inv: "arena_init ok = Some a \<Longrightarrow> arena_inv a"
  using new_page_ok [of ok ARENA_PAGE_SIZE]
  by (auto simp: arena_init_def arena_inv_def ARENA_PAGE_SIZE_def)

text \<open>A block is as long as the request.\<close>

lemma arena_alloc_size:
  "valid_request n \<Longrightarrow> arena_alloc ok a n = Some (b, a') \<Longrightarrow> unat n \<le> b_len b"
  using round8_valid(2) [of n]
  by (auto simp: arena_alloc_def bump_def Let_def split: if_splits option.splits)

lemma alloc_run_sizes:
  "list_all valid_request ns \<Longrightarrow> alloc_run (arena_alloc ok) a ns = Some (bs, a') \<Longrightarrow>
     list_all2 (\<lambda>n b. unat n \<le> b_len b) ns bs"
proof (induction ns arbitrary: a bs)
  case (Cons n ns)
  then show ?case using arena_alloc_size [of n ok a] by (auto split: option.splits)
qed simp

subsection \<open>Property\<close>

text \<open>
  C32: Blocks never overlap. From a fresh arena, whatever sizes the C library serves, a run of
  requests of at most \<open>2 ^ 62\<close> bytes that completes returns one block per request, each at
  least as long as its request, 8-byte aligned and inside its page's used part, and pairwise
  apart; no size computation wraps.
\<close>

theorem arena_blocks_apart:
  assumes "arena_init ok = Some a" and "list_all valid_request ns"
    and "alloc_run (arena_alloc ok) a ns = Some (bs, a')"
  shows "list_all2 (\<lambda>n b. unat n \<le> b_len b) ns bs \<and> sorted_wrt blocks_apart bs \<and>
    (\<forall>b \<in> set bs. arena_owns a' b) \<and> arena_inv a'"
  using alloc_run_sizes [OF assms(2,3)] arena.run_apart [OF arena_init_inv [OF assms(1)] assms(2,3)]
    arena.run_owns [OF arena_init_inv [OF assms(1)] assms(2,3)]
  by blast

text \<open>Three requests, the second too large for the first page.\<close>

lemma arena_blocks_apart_witness:
  "sorted_wrt blocks_apart
     [\<lparr>b_page = 0, b_off = 0, b_len = 24\<rparr>, \<lparr>b_page = 1, b_off = 0, b_len = 65536\<rparr>,
      \<lparr>b_page = 2, b_off = 0, b_len = 8\<rparr>]"
proof -
  have init: "arena_init (\<lambda>_. True) = Some \<lparr>a_pages = [\<lparr>pg_used = 0, pg_size = 65536\<rparr>]\<rparr>"
    by (simp add: arena_init_def arena_new_page_def ARENA_PAGE_SIZE_def)
  have valid: "list_all valid_request [20, 65530, 8]"
    by (simp add: valid_request_def)
  have r: "round8 20 = 24" "round8 65530 = 65536" "round8 8 = 8"
    by (simp_all add: round8_def)
  have run: "alloc_run (arena_alloc (\<lambda>_. True)) \<lparr>a_pages = [\<lparr>pg_used = 0, pg_size = 65536\<rparr>]\<rparr> [20, 65530, 8] =
    Some ([\<lparr>b_page = 0, b_off = 0, b_len = 24\<rparr>, \<lparr>b_page = 1, b_off = 0, b_len = 65536\<rparr>,
      \<lparr>b_page = 2, b_off = 0, b_len = 8\<rparr>],
      \<lparr>a_pages = [\<lparr>pg_used = 24, pg_size = 65536\<rparr>, \<lparr>pg_used = 65536, pg_size = 65536\<rparr>,
        \<lparr>pg_used = 8, pg_size = 65536\<rparr>]\<rparr>)"
    by (simp add: arena_alloc_def r arena_new_page_def ARENA_PAGE_SIZE_def bump_def Let_def)
  show ?thesis
    using arena_blocks_apart [OF init valid run] by simp
qed

end
