(* ===== verification/FC_Intern.thy ===== *)
theory FC_Intern
  imports FC_Token "HOL-Library.Multiset"
begin

section \<open>The intern table (\<open>src/common.c\<close>)\<close>

text \<open>
  An open-addressing hash table with linear probing over a power-of-two array. The strings
  it owns live in an arena; here a pointer to an interned string is its index in \<open>it_pool\<close>,
  so two pointers are equal exactly when they are the same index. The loops that walk the
  array until they meet an empty slot are \<open>partial_function\<close>s: \<open>None\<close> is a walk that does
  not end (or leaves the array), which the lemmas below exclude.
\<close>

record intern_entry =
  e_str :: nat
  e_length :: nat
  e_hash :: u32

record intern_table =
  it_entries :: "intern_entry option list"
  it_count :: nat
  it_capacity :: nat
  it_pool :: "string list"

definition fnv1a :: "string \<Rightarrow> u32" where
  "fnv1a s = foldl (\<lambda>h c. (h XOR word_of_nat (byte c)) * 16777619) 2166136261 s"

definition intern_init :: intern_table where
  "intern_init = \<lparr>it_entries = replicate 256 None, it_count = 0, it_capacity = 256, it_pool = []\<rparr>"

text \<open>The walk of \<open>intern_grow\<close> to the next empty slot; \<open>m\<close> is the mask.\<close>

partial_function (option) free_slot :: "intern_entry option list \<Rightarrow> u32 \<Rightarrow> u32 \<Rightarrow> nat option" where
  "free_slot es m idx =
     (if length es \<le> unat idx then None
      else if es ! unat idx = None then Some (unat idx)
      else free_slot es m ((idx + 1) AND m))"

fun rehash :: "intern_entry option list \<Rightarrow> u32 \<Rightarrow> intern_entry option list \<Rightarrow> intern_entry option list option" where
  "rehash [] m new = Some new"
| "rehash (None # es) m new = rehash es m new"
| "rehash (Some e # es) m new =
     (case free_slot new m (e_hash e AND m) of
        None \<Rightarrow> None
      | Some i \<Rightarrow> rehash es m (new[i := Some e]))"

definition cap_mask :: "nat \<Rightarrow> u32" where
  "cap_mask cap = word_of_nat cap - 1"

definition intern_grow :: "intern_table \<Rightarrow> intern_table option" where
  "intern_grow t =
     (let new_cap = it_capacity t * 2
      in case rehash (it_entries t) (cap_mask new_cap) (replicate new_cap None) of
           None \<Rightarrow> None
         | Some new \<Rightarrow> Some (t\<lparr>it_entries := new, it_capacity := new_cap\<rparr>))"

text \<open>The lookup walk: an empty slot, or the entry of the same string.\<close>

datatype probe = Empty_at nat | Found_at nat

definition entry_matches :: "string list \<Rightarrow> u32 \<Rightarrow> string \<Rightarrow> intern_entry \<Rightarrow> bool" where
  "entry_matches pool h s e \<longleftrightarrow>
     e_hash e = h \<and> e_length e = length s \<and> take (length s) (pool ! e_str e) = s"

partial_function (option) probe_slot ::
  "string list \<Rightarrow> intern_entry option list \<Rightarrow> u32 \<Rightarrow> u32 \<Rightarrow> string \<Rightarrow> u32 \<Rightarrow> probe option" where
  "probe_slot pool es m h s idx =
     (if length es \<le> unat idx then None
      else case es ! unat idx of
             None \<Rightarrow> Some (Empty_at (unat idx))
           | Some e \<Rightarrow> if entry_matches pool h s e then Some (Found_at (e_str e))
                       else probe_slot pool es m h s ((idx + 1) AND m))"

definition intern :: "intern_table \<Rightarrow> string \<Rightarrow> (intern_table \<times> nat) option" where
  "intern t0 s =
     (case (if it_count t0 * 2 \<ge> it_capacity t0 then intern_grow t0 else Some t0) of
        None \<Rightarrow> None
      | Some t \<Rightarrow>
          let h = fnv1a s; m = cap_mask (it_capacity t)
          in case probe_slot (it_pool t) (it_entries t) m h s (h AND m) of
               None \<Rightarrow> None
             | Some (Found_at p) \<Rightarrow> Some (t, p)
             | Some (Empty_at i) \<Rightarrow>
                 let p = length (it_pool t);
                     e = \<lparr>e_str = p, e_length = length s, e_hash = h\<rparr>
                 in Some (t\<lparr>it_entries := (it_entries t)[i := Some e],
                            it_count := it_count t + 1, it_pool := it_pool t @ [s]\<rparr>, p))"

subsection \<open>The probing sequence\<close>

text \<open>Slot number \<open>d\<close> of the walk for hash \<open>h\<close> in a table of \<open>cap\<close> slots.\<close>

definition slot :: "nat \<Rightarrow> u32 \<Rightarrow> nat \<Rightarrow> nat" where
  "slot cap h d = (unat h + d) mod cap"

definition pow2_cap :: "nat \<Rightarrow> bool" where
  "pow2_cap cap \<longleftrightarrow> (\<exists>k. 0 < k \<and> k \<le> 31 \<and> cap = 2 ^ k)"

lemma slot_lt: "0 < cap \<Longrightarrow> slot cap h d < cap"
  by (simp add: slot_def)

lemma pow2_cap_pos: "pow2_cap cap \<Longrightarrow> 0 < cap"
  by (auto simp: pow2_cap_def)

lemma slot_in: "pow2_cap cap \<Longrightarrow> slot cap h d < cap"
  by (simp add: slot_lt pow2_cap_pos)

lemma pow2_cap_le: "pow2_cap cap \<Longrightarrow> cap \<le> 2 ^ 31"
  using power_increasing [of _ 31 "2 :: nat"] by (auto simp: pow2_cap_def)

lemma pow2_cap_even: "pow2_cap cap \<Longrightarrow> even cap"
  by (auto simp: pow2_cap_def)

lemma unat_mask:
  assumes "pow2_cap cap"
  shows "unat (x AND cap_mask cap) = unat x mod cap"
proof -
  obtain k where "cap = 2 ^ k"
    using assms by (auto simp: pow2_cap_def)
  then have "cap_mask cap = 2 ^ k - 1"
    by (simp add: cap_mask_def)
  then show ?thesis
    using \<open>cap = 2 ^ k\<close> by (simp only: unat_and_low_mask)
qed

lemma walk_start: "pow2_cap cap \<Longrightarrow> unat (h AND cap_mask cap) = slot cap h 0"
  by (simp add: unat_mask slot_def)

lemma walk_next:
  assumes "pow2_cap cap" and "unat idx = slot cap h d"
  shows "unat ((idx + 1) AND cap_mask cap) = slot cap h (Suc d)"
proof -
  have "cap \<le> 2 ^ 31"
    using assms(1) by (rule pow2_cap_le)
  moreover have "slot cap h d < cap"
    using assms(1) by (rule slot_in)
  ultimately have "unat (idx + 1) = slot cap h d + 1"
    using assms(2) by (simp add: unat_word_ariths)
  then show ?thesis
    using assms(1) by (simp add: unat_mask slot_def mod_Suc_eq)
qed

text \<open>The walk visits every slot, so it meets an empty one if there is one.\<close>

lemma slot_onto:
  assumes "i < cap"
  shows "\<exists>d < cap. slot cap h d = i"
proof (intro exI conjI)
  let ?d = "(i + (cap - unat h mod cap)) mod cap"
  show "?d < cap" using assms by simp
  have "(unat h + (i + (cap - unat h mod cap))) mod cap
          = (unat h mod cap + (i + (cap - unat h mod cap))) mod cap"
    by (simp add: mod_simps)
  also have "unat h mod cap + (i + (cap - unat h mod cap)) = i + cap"
    using assms mod_less_divisor [of cap "unat h"] by linarith
  finally show "slot cap h ?d = i"
    using assms by (simp add: slot_def mod_simps)
qed

definition empty_dist :: "intern_entry option list \<Rightarrow> u32 \<Rightarrow> nat" where
  "empty_dist es h = (LEAST d. es ! slot (length es) h d = None)"

lemma empty_dist:
  assumes "i < length es" and "es ! i = None"
  shows "es ! slot (length es) h (empty_dist es h) = None"
    and "d < empty_dist es h \<Longrightarrow> es ! slot (length es) h d \<noteq> None"
proof -
  obtain d0 where "es ! slot (length es) h d0 = None"
    using slot_onto [OF assms(1)] assms(2) by metis
  then show "es ! slot (length es) h (empty_dist es h) = None"
    unfolding empty_dist_def by (rule LeastI)
  show "d < empty_dist es h \<Longrightarrow> es ! slot (length es) h d \<noteq> None"
    unfolding empty_dist_def by (rule not_less_Least)
qed

text \<open>Both walks stop: at the first empty slot, or before it at the entry looked for.\<close>

lemma free_slot_stops:
  assumes "pow2_cap (length es)" and "\<exists>i < length es. es ! i = None"
    and "d \<le> empty_dist es h" and "unat idx = slot (length es) h d"
  shows "free_slot es (cap_mask (length es)) idx = Some (slot (length es) h (empty_dist es h))"
  using assms(3,4)
proof (induction "empty_dist es h - d" arbitrary: d idx)
  case 0
  then have "unat idx = slot (length es) h (empty_dist es h)" by simp
  moreover have "es ! slot (length es) h (empty_dist es h) = None"
    using assms(2) empty_dist(1) by blast
  ultimately show ?case
    using slot_in [OF assms(1)] by (subst free_slot.simps) (simp add: not_le)
next
  case (Suc n)
  then have d: "d < empty_dist es h" by simp
  have "free_slot es (cap_mask (length es)) ((idx + 1) AND cap_mask (length es))
          = Some (slot (length es) h (empty_dist es h))"
    by (rule Suc.hyps(1) [of "Suc d"]) (use Suc.hyps(2) d walk_next [OF assms(1) Suc.prems(2)] in auto)
  moreover obtain e where "es ! unat idx = Some e"
    using assms(2) empty_dist(2) [OF _ _ d] Suc.prems(2) by auto
  moreover have "unat idx < length es"
    using assms(1) Suc.prems(2) by (simp add: slot_in)
  ultimately show ?case
    by (subst free_slot.simps) simp
qed

lemma probe_stops_empty:
  assumes "pow2_cap (length es)" and "\<exists>i < length es. es ! i = None"
    and none: "\<And>d e. d < empty_dist es h \<Longrightarrow> es ! slot (length es) h d = Some e \<Longrightarrow>
                  \<not> entry_matches pool h s e"
    and "d \<le> empty_dist es h" and "unat idx = slot (length es) h d"
  shows "probe_slot pool es (cap_mask (length es)) h s idx
           = Some (Empty_at (slot (length es) h (empty_dist es h)))"
  using assms(4,5)
proof (induction "empty_dist es h - d" arbitrary: d idx)
  case 0
  then have "unat idx = slot (length es) h (empty_dist es h)" by simp
  moreover have "es ! slot (length es) h (empty_dist es h) = None"
    using assms(2) empty_dist(1) by blast
  ultimately show ?case
    using slot_in [OF assms(1)] by (subst probe_slot.simps) (simp add: not_le)
next
  case (Suc n)
  then have d: "d < empty_dist es h" by simp
  have "probe_slot pool es (cap_mask (length es)) h s ((idx + 1) AND cap_mask (length es))
          = Some (Empty_at (slot (length es) h (empty_dist es h)))"
    by (rule Suc.hyps(1) [of "Suc d"]) (use Suc.hyps(2) d walk_next [OF assms(1) Suc.prems(2)] in auto)
  moreover obtain e where "es ! unat idx = Some e"
    using assms(2) empty_dist(2) [OF _ _ d] Suc.prems(2) by auto
  moreover have "unat idx < length es"
    using assms(1) Suc.prems(2) by (simp add: slot_in)
  ultimately show ?case
    using none [OF d] Suc.prems(2) by (subst probe_slot.simps) auto
qed

lemma probe_stops_found:
  assumes "pow2_cap (length es)" and "es ! slot (length es) h D = Some e"
    and "entry_matches pool h s e"
    and others: "\<And>d e'. d < D \<Longrightarrow> es ! slot (length es) h d = Some e' \<Longrightarrow> \<not> entry_matches pool h s e'"
    and full: "\<And>d. d < D \<Longrightarrow> es ! slot (length es) h d \<noteq> None"
    and "d \<le> D" and "unat idx = slot (length es) h d"
  shows "probe_slot pool es (cap_mask (length es)) h s idx = Some (Found_at (e_str e))"
  using assms(6,7)
proof (induction "D - d" arbitrary: d idx)
  case 0
  then have "unat idx = slot (length es) h D" by simp
  then show ?case
    using assms(2,3) slot_in [OF assms(1)] by (subst probe_slot.simps) (simp add: not_le)
next
  case (Suc n)
  then have d: "d < D" by simp
  have "probe_slot pool es (cap_mask (length es)) h s ((idx + 1) AND cap_mask (length es))
          = Some (Found_at (e_str e))"
    by (rule Suc.hyps(1) [of "Suc d"]) (use Suc.hyps(2) d walk_next [OF assms(1) Suc.prems(2)] in auto)
  moreover obtain e' where "es ! unat idx = Some e'"
    using full [OF d] Suc.prems(2) by auto
  moreover have "unat idx < length es"
    using assms(1) Suc.prems(2) by (simp add: slot_in)
  ultimately show ?case
    using others [OF d] Suc.prems(2) by (subst probe_slot.simps) auto
qed

subsection \<open>The invariant\<close>

definition entries_of :: "intern_entry option list \<Rightarrow> intern_entry multiset" where
  "entries_of es = mset (List.map_filter (\<lambda>x. x) es)"

text \<open>Every entry is reached by the walk for its hash, over slots that are all in use.\<close>

definition reachable_at :: "intern_entry option list \<Rightarrow> intern_entry \<Rightarrow> nat \<Rightarrow> bool" where
  "reachable_at es e d \<longleftrightarrow> d < length es \<and> es ! slot (length es) (e_hash e) d = Some e \<and>
     (\<forall>d' < d. es ! slot (length es) (e_hash e) d' \<noteq> None)"

definition chained :: "intern_entry option list \<Rightarrow> bool" where
  "chained es \<longleftrightarrow> (\<forall>e. Some e \<in> set es \<longrightarrow> (\<exists>d. reachable_at es e d))"

definition entry_ok :: "string list \<Rightarrow> intern_entry \<Rightarrow> bool" where
  "entry_ok pool e \<longleftrightarrow> e_str e < length pool \<and> e_length e = length (pool ! e_str e) \<and>
     e_hash e = fnv1a (pool ! e_str e)"

definition table_ok :: "intern_table \<Rightarrow> bool" where
  "table_ok t \<longleftrightarrow> length (it_entries t) = it_capacity t \<and> pow2_cap (it_capacity t) \<and>
     it_capacity t \<le> max 256 (4 * it_count t) \<and> it_count t * 2 \<le> it_capacity t \<and>
     size (entries_of (it_entries t)) = it_count t \<and> it_count t = length (it_pool t) \<and>
     chained (it_entries t) \<and> (\<forall>e \<in># entries_of (it_entries t). entry_ok (it_pool t) e) \<and>
     (\<forall>p < length (it_pool t). \<exists>e \<in># entries_of (it_entries t). e_str e = p) \<and>
     distinct (it_pool t)"

lemma set_entries_of: "e \<in># entries_of es \<longleftrightarrow> Some e \<in> set es"
  by (auto simp: entries_of_def List.map_filter_def image_iff)

lemma entries_of_replicate [simp]: "entries_of (replicate n None) = {#}"
  by (induction n) (simp_all add: entries_of_def List.map_filter_def)

lemma entries_of_update:
  "i < length es \<Longrightarrow> es ! i = None \<Longrightarrow> entries_of (es[i := Some e]) = add_mset e (entries_of es)"
  by (induction es arbitrary: i)
    (auto simp: entries_of_def List.map_filter_def split: nat.splits)

lemma some_empty: "size (entries_of es) < length es \<Longrightarrow> \<exists>i < length es. es ! i = None"
proof (induction es)
  case (Cons x es)
  show ?case
  proof (cases x)
    case None
    then show ?thesis by (intro exI [of _ 0]) simp
  next
    case (Some e)
    with Cons.prems have "size (entries_of es) < length es"
      by (simp add: entries_of_def List.map_filter_def)
    then obtain i where "i < length es" "es ! i = None"
      using Cons.IH by blast
    then show ?thesis by (intro exI [of _ "Suc i"]) simp
  qed
qed (simp add: entries_of_def List.map_filter_def)

text \<open>Storing an entry at the first empty slot of its walk keeps every chain.\<close>

lemma chained_update:
  assumes "chained es" and "pow2_cap (length es)" and "\<exists>i < length es. es ! i = None"
  shows "chained (es[slot (length es) (e_hash e) (empty_dist es (e_hash e)) := Some e])"
    (is "chained (es[?i := Some e])")
proof -
  let ?new = "es[?i := Some e]"
  have at: "es ! ?i = None"
    using assms(3) empty_dist(1) by blast
  have i: "?i < length es"
    by (rule slot_in [OF assms(2)])
  have "reachable_at ?new e (empty_dist es (e_hash e))"
  proof -
    have "empty_dist es (e_hash e) < length es"
    proof -
      obtain d where "d < length es" "es ! slot (length es) (e_hash e) d = None"
        using assms(3) slot_onto by metis
      then show ?thesis
        unfolding empty_dist_def by (meson Least_le le_less_trans)
    qed
    moreover have "es ! slot (length es) (e_hash e) d' \<noteq> None" if "d' < empty_dist es (e_hash e)" for d'
      using that assms(3) empty_dist(2) by blast
    ultimately show ?thesis
      using i by (auto simp: reachable_at_def nth_list_update)
  qed
  moreover have "reachable_at ?new e' d" if "reachable_at es e' d" for e' d
    using that at i by (auto simp: reachable_at_def nth_list_update)
  moreover have "Some e' \<in> set es" if "Some e' \<in> set ?new" "e' \<noteq> e" for e'
    using that set_update_subset_insert [of es ?i "Some e"] by auto
  ultimately show ?thesis
    using assms(1) unfolding chained_def by metis
qed

subsection \<open>Growing\<close>

lemma rehash_ok:
  assumes "chained new" and "pow2_cap (length new)"
    and "size (entries_of new) + size (entries_of es) < length new"
  shows "\<exists>new'. rehash es (cap_mask (length new)) new = Some new' \<and> length new' = length new \<and>
           chained new' \<and> entries_of new' = entries_of new + entries_of es"
  using assms
proof (induction es arbitrary: new)
  case Nil
  then show ?case by (simp add: entries_of_def List.map_filter_def)
next
  case (Cons x es)
  show ?case
  proof (cases x)
    case None
    then show ?thesis
      using Cons by (simp add: entries_of_def List.map_filter_def)
  next
    case (Some e)
    let ?i = "slot (length new) (e_hash e) (empty_dist new (e_hash e))"
    have xs: "entries_of (Some e # es) = add_mset e (entries_of es)"
      by (simp add: entries_of_def List.map_filter_def)
    have room: "\<exists>i < length new. new ! i = None"
      by (rule some_empty) (use Cons.prems(3) in \<open>simp add: Some xs\<close>)
    have free: "free_slot new (cap_mask (length new)) (e_hash e AND cap_mask (length new)) = Some ?i"
      using free_slot_stops [OF Cons.prems(2) room, of 0 "e_hash e"] Cons.prems(2)
      by (simp add: walk_start)
    have "new ! ?i = None"
      using room empty_dist(1) by blast
    then have put: "entries_of (new[?i := Some e]) = add_mset e (entries_of new)"
      using Cons.prems(2) by (simp add: entries_of_update slot_in)
    have "\<exists>new'. rehash es (cap_mask (length (new[?i := Some e]))) (new[?i := Some e]) = Some new' \<and>
            length new' = length (new[?i := Some e]) \<and> chained new' \<and>
            entries_of new' = entries_of (new[?i := Some e]) + entries_of es"
      by (rule Cons.IH)
        (use Cons.prems chained_update [OF Cons.prems(1,2) room] in \<open>simp_all add: put Some xs\<close>)
    then show ?thesis
      by (simp add: Some free put xs)
  qed
qed

lemma pow2_cap_double: "pow2_cap cap \<Longrightarrow> cap < 2 ^ 31 \<Longrightarrow> pow2_cap (cap * 2)"
proof -
  assume "pow2_cap cap" "cap < 2 ^ 31"
  then obtain k where k: "cap = 2 ^ k" "(2 :: nat) ^ k < 2 ^ 31"
    by (auto simp: pow2_cap_def)
  then have "k < 31"
    using power_less_imp_less_exp [of "2 :: nat" k 31] by simp
  with k show ?thesis
    unfolding pow2_cap_def by (intro exI [of _ "Suc k"]) simp
qed

lemma intern_grow_ok:
  assumes "table_ok t" and "it_count t < 2 ^ 28" and "it_capacity t \<le> it_count t * 2"
  shows "\<exists>t'. intern_grow t = Some t' \<and> table_ok t' \<and> it_count t' * 2 < it_capacity t' \<and>
           it_pool t' = it_pool t \<and> it_count t' = it_count t"
proof -
  let ?cap = "it_capacity t * 2"
  let ?new = "replicate ?cap (None :: intern_entry option)"
  have t: "length (it_entries t) = it_capacity t" "pow2_cap (it_capacity t)"
    "size (entries_of (it_entries t)) = it_count t" "it_count t * 2 \<le> it_capacity t"
    using assms(1) by (simp_all add: table_ok_def)
  have pos: "0 < it_capacity t"
    using t(2) by (rule pow2_cap_pos)
  have "it_capacity t < 2 ^ 31"
    using assms by (simp add: table_ok_def max_def split: if_splits)
  then have cap: "pow2_cap ?cap"
    by (rule pow2_cap_double [OF t(2)])
  obtain new where new: "rehash (it_entries t) (cap_mask ?cap) ?new = Some new" "length new = ?cap"
    "chained new" "entries_of new = entries_of (it_entries t)"
    using rehash_ok [of ?new "it_entries t"] cap t pos by (auto simp: chained_def)
  have grow: "intern_grow t = Some (t\<lparr>it_entries := new, it_capacity := ?cap\<rparr>)"
    by (simp add: intern_grow_def Let_def new(1))
  show ?thesis
    unfolding grow using assms cap new t pos by (auto simp: table_ok_def)
qed

subsection \<open>Interning\<close>

lemma entry_matches_iff:
  assumes "entry_ok pool e"
  shows "entry_matches pool (fnv1a s) s e \<longleftrightarrow> pool ! e_str e = s"
  using assms by (auto simp: entry_ok_def entry_matches_def)

lemma entry_ok_append: "entry_ok pool e \<Longrightarrow> entry_ok (pool @ xs) e"
  by (simp add: entry_ok_def nth_append)

lemma table_has_room:
  assumes "table_ok t" and "it_count t * 2 < it_capacity t"
  shows "\<exists>i < length (it_entries t). it_entries t ! i = None"
  by (rule some_empty) (use assms in \<open>simp add: table_ok_def\<close>)

lemma probe_known:
  assumes "table_ok t" and "p < length (it_pool t)" and "it_pool t ! p = s"
  shows "probe_slot (it_pool t) (it_entries t) (cap_mask (it_capacity t)) (fnv1a s) s
           (fnv1a s AND cap_mask (it_capacity t)) = Some (Found_at p)"
proof -
  let ?es = "it_entries t" and ?pool = "it_pool t" and ?h = "fnv1a s"
  have t: "pow2_cap (length ?es)" "length ?es = it_capacity t" "chained ?es" "distinct ?pool"
    "\<And>e. Some e \<in> set ?es \<Longrightarrow> entry_ok ?pool e"
    using assms(1) by (auto simp: table_ok_def set_entries_of)
  obtain e where e: "Some e \<in> set ?es" "e_str e = p"
    using assms(1,2) by (auto simp: table_ok_def set_entries_of)
  then obtain d where d: "reachable_at ?es e d"
    using t(3) by (auto simp: chained_def)
  have hash: "e_hash e = ?h"
    using t(5) [OF e(1)] e(2) assms(3) by (simp add: entry_ok_def)
  define hit where "hit d \<longleftrightarrow> (\<exists>e. ?es ! slot (length ?es) ?h d = Some e \<and> entry_matches ?pool ?h s e)" for d
  have "hit d"
    using d e t(5) [OF e(1)] assms(3) by (auto simp: hit_def reachable_at_def hash entry_matches_iff)
  then have D: "hit (Least hit)" "Least hit \<le> d" "\<And>d'. d' < Least hit \<Longrightarrow> \<not> hit d'"
    by (auto intro: LeastI Least_le dest: not_less_Least)
  from D(1) obtain e' where e': "?es ! slot (length ?es) ?h (Least hit) = Some e'"
    "entry_matches ?pool ?h s e'"
    by (auto simp: hit_def)
  have "Some e' \<in> set ?es"
    using e'(1) slot_in [OF t(1), of ?h "Least hit"] nth_mem by metis
  then have ok: "entry_ok ?pool e'"
    by (rule t(5))
  then have "e_str e' = p"
    using e'(2) assms(2,3) t(4) nth_eq_iff_index_eq [of ?pool "e_str e'" p]
    by (auto simp: entry_matches_iff entry_ok_def)
  moreover have "probe_slot ?pool ?es (cap_mask (length ?es)) ?h s (?h AND cap_mask (length ?es))
                   = Some (Found_at (e_str e'))"
  proof (rule probe_stops_found [OF t(1) e', of 0])
    show "unat (?h AND cap_mask (length ?es)) = slot (length ?es) ?h 0"
      by (rule walk_start [OF t(1)])
    show "?es ! slot (length ?es) ?h d' \<noteq> None" if "d' < Least hit" for d'
      using that D(2) d hash by (auto simp: reachable_at_def)
  qed (use D(3) in \<open>auto simp: hit_def\<close>)
  ultimately show ?thesis
    by (simp add: t(2))
qed

lemma probe_new:
  assumes "table_ok t" and "it_count t * 2 < it_capacity t" and "s \<notin> set (it_pool t)"
  shows "probe_slot (it_pool t) (it_entries t) (cap_mask (it_capacity t)) (fnv1a s) s
           (fnv1a s AND cap_mask (it_capacity t)) =
         Some (Empty_at (slot (it_capacity t) (fnv1a s) (empty_dist (it_entries t) (fnv1a s))))"
proof -
  let ?es = "it_entries t" and ?pool = "it_pool t" and ?h = "fnv1a s"
  have t: "pow2_cap (length ?es)" "length ?es = it_capacity t"
    "\<And>e. Some e \<in> set ?es \<Longrightarrow> entry_ok ?pool e"
    using assms(1) by (auto simp: table_ok_def set_entries_of)
  have "\<not> entry_matches ?pool ?h s e" if "?es ! slot (length ?es) ?h d = Some e" for d e
  proof -
    have "Some e \<in> set ?es"
      using that slot_in [OF t(1), of ?h d] nth_mem by metis
    then have "entry_ok ?pool e" by (rule t(3))
    then show ?thesis
      using assms(3) nth_mem by (auto simp: entry_matches_iff entry_ok_def)
  qed
  then show ?thesis
    using probe_stops_empty [OF t(1) table_has_room [OF assms(1,2)], where d = 0 and h = ?h
        and pool = ?pool and s = s and idx = "?h AND cap_mask (length ?es)"]
      walk_start [OF t(1)] t(2) by simp
qed

lemma table_ok_store:
  assumes "table_ok t" and "it_count t * 2 < it_capacity t" and "s \<notin> set (it_pool t)"
  shows "table_ok (t\<lparr>it_entries := (it_entries t)
        [slot (it_capacity t) (fnv1a s) (empty_dist (it_entries t) (fnv1a s)) :=
           Some \<lparr>e_str = length (it_pool t), e_length = length s, e_hash = fnv1a s\<rparr>],
      it_count := it_count t + 1, it_pool := it_pool t @ [s]\<rparr>)"
proof -
  let ?e = "\<lparr>e_str = length (it_pool t), e_length = length s, e_hash = fnv1a s\<rparr>"
  let ?i = "slot (it_capacity t) (fnv1a s) (empty_dist (it_entries t) (fnv1a s))"
  have t: "pow2_cap (length (it_entries t))" "length (it_entries t) = it_capacity t"
    "chained (it_entries t)"
    using assms(1) by (auto simp: table_ok_def)
  note room = table_has_room [OF assms(1,2)]
  have "it_entries t ! ?i = None"
    using room empty_dist(1) t(2) by metis
  then have put: "entries_of ((it_entries t)[?i := Some ?e]) = add_mset ?e (entries_of (it_entries t))"
    using t by (simp add: entries_of_update slot_in)
  have chain: "chained ((it_entries t)[?i := Some ?e])"
    using chained_update [OF t(3,1) room, of ?e] t(2) by simp
  have "even (it_capacity t)"
    using t(1,2) pow2_cap_even by metis
  then have "Suc (it_count t) * 2 \<le> it_capacity t"
    using assms(2) by presburger
  moreover have "entry_ok (it_pool t @ [s]) ?e"
    by (simp add: entry_ok_def)
  ultimately show ?thesis
    using assms chain t unfolding table_ok_def
    by (auto simp: put entry_ok_append less_Suc_eq)
qed

lemma intern_spec:
  assumes "table_ok t" and "it_count t < 2 ^ 28"
  shows "\<exists>t' p. intern t s = Some (t', p) \<and> table_ok t' \<and> p < length (it_pool t') \<and>
           it_pool t' ! p = s \<and>
           it_pool t' = (if s \<in> set (it_pool t) then it_pool t else it_pool t @ [s])"
proof -
  have "\<exists>u. (if it_count t * 2 \<ge> it_capacity t then intern_grow t else Some t) = Some u \<and>
          table_ok u \<and> it_count u * 2 < it_capacity u \<and> it_pool u = it_pool t"
    using assms intern_grow_ok [of t] by auto
  then obtain u where u: "(if it_count t * 2 \<ge> it_capacity t then intern_grow t else Some t) = Some u"
    "table_ok u" "it_count u * 2 < it_capacity u" "it_pool u = it_pool t"
    by blast
  show ?thesis
  proof (cases "s \<in> set (it_pool t)")
    case True
    then obtain p where "p < length (it_pool u)" "it_pool u ! p = s"
      using u(4) by (auto simp: in_set_conv_nth)
    then show ?thesis
      using probe_known [OF u(2)] u True by (auto simp: intern_def Let_def)
  next
    case False
    then have "s \<notin> set (it_pool u)"
      using u(4) by simp
    then show ?thesis
      using probe_new [OF u(2,3)] table_ok_store [OF u(2,3)] u False
      by (auto simp: intern_def Let_def)
  qed
qed

subsection \<open>What the passes rely on: names compare by pointer\<close>

text \<open>A run of intern calls over a list of names.\<close>

fun intern_all :: "('t \<Rightarrow> string \<Rightarrow> ('t \<times> 'p) option) \<Rightarrow> 't \<Rightarrow> string list \<Rightarrow> ('t \<times> 'p list) option" where
  "intern_all f t [] = Some (t, [])"
| "intern_all f t (s # ss) =
     (case f t s of
        None \<Rightarrow> None
      | Some (t', p) \<Rightarrow> (case intern_all f t' ss of
                           None \<Rightarrow> None
                         | Some (t'', ps) \<Rightarrow> Some (t'', p # ps)))"

text \<open>
  The contract: below its limit a call returns; the pointer it returns denotes the string;
  a pointer that denotes a string keeps denoting it; and two pointers of one string are the
  same.
\<close>

locale interner =
  fixes intern_op :: "'t \<Rightarrow> string \<Rightarrow> ('t \<times> 'p) option"
    and inv :: "'t \<Rightarrow> bool"
    and used :: "'t \<Rightarrow> nat"
    and limit :: nat
    and denotes :: "'t \<Rightarrow> 'p \<Rightarrow> string \<Rightarrow> bool"
  assumes intern_returns: "inv t \<Longrightarrow> used t < limit \<Longrightarrow> \<exists>t' p. intern_op t s = Some (t', p)"
    and intern_keeps_inv: "inv t \<Longrightarrow> used t < limit \<Longrightarrow> intern_op t s = Some (t', p) \<Longrightarrow>
          inv t' \<and> used t' \<le> Suc (used t)"
    and intern_denotes: "inv t \<Longrightarrow> used t < limit \<Longrightarrow> intern_op t s = Some (t', p) \<Longrightarrow> denotes t' p s"
    and intern_stable: "inv t \<Longrightarrow> used t < limit \<Longrightarrow> intern_op t s = Some (t', p) \<Longrightarrow>
          denotes t q r \<Longrightarrow> denotes t' q r"
    and denotes_inj: "inv t \<Longrightarrow> denotes t p r \<Longrightarrow> denotes t q r \<Longrightarrow> p = q"
    and denotes_fun: "denotes t p r \<Longrightarrow> denotes t p r' \<Longrightarrow> r = r'"
begin

lemma intern_all_spec:
  assumes "inv t" and "used t + length ss \<le> limit"
  shows "\<exists>t' ps. intern_all intern_op t ss = Some (t', ps) \<and> inv t' \<and>
           (\<forall>q r. denotes t q r \<longrightarrow> denotes t' q r) \<and> list_all2 (denotes t') ps ss"
  using assms
proof (induction ss arbitrary: t)
  case Nil
  then show ?case by simp
next
  case (Cons s ss)
  then have room: "used t < limit" by simp
  obtain t1 p where step: "intern_op t s = Some (t1, p)"
    using intern_returns [OF Cons.prems(1) room] by blast
  note facts = intern_keeps_inv [OF Cons.prems(1) room step] intern_denotes [OF Cons.prems(1) room step]
    intern_stable [OF Cons.prems(1) room step]
  obtain t' ps where rest: "intern_all intern_op t1 ss = Some (t', ps)" "inv t'"
    "\<forall>q r. denotes t1 q r \<longrightarrow> denotes t' q r" "list_all2 (denotes t') ps ss"
    using Cons.IH [of t1] facts(1) Cons.prems(2) by auto
  then show ?case
    using step facts by auto
qed

lemma pointers_are_names:
  assumes "inv t" and "used t + length ss \<le> limit"
  shows "\<exists>t' ps. intern_all intern_op t ss = Some (t', ps) \<and> length ps = length ss \<and>
           (\<forall>i < length ss. \<forall>j < length ss. ps ! i = ps ! j \<longleftrightarrow> ss ! i = ss ! j)"
proof -
  obtain t' ps where run: "intern_all intern_op t ss = Some (t', ps)" "inv t'"
    "list_all2 (denotes t') ps ss"
    using intern_all_spec [OF assms] by blast
  then have den: "denotes t' (ps ! i) (ss ! i)" if "i < length ss" for i
    using that by (simp add: list_all2_conv_all_nth)
  have "ps ! i = ps ! j \<longleftrightarrow> ss ! i = ss ! j" if "i < length ss" "j < length ss" for i j
    using den [OF that(1)] den [OF that(2)] denotes_inj [OF run(2)] denotes_fun by metis
  with run(1) run(3) show ?thesis
    by (auto dest: list_all2_lengthD)
qed

end

definition denotes_str :: "intern_table \<Rightarrow> nat \<Rightarrow> string \<Rightarrow> bool" where
  "denotes_str t p s \<longleftrightarrow> p < length (it_pool t) \<and> it_pool t ! p = s"

interpretation names: interner intern table_ok it_count "2 ^ 28" denotes_str
proof
  fix t s assume t: "table_ok t" "it_count t < 2 ^ 28"
  show "\<exists>t' p. intern t s = Some (t', p)"
    using intern_spec [OF t] by blast
  fix t' p assume step: "intern t s = Some (t', p)"
  have count: "it_count u = length (it_pool u)" if "table_ok u" for u
    using that by (simp add: table_ok_def)
  have "table_ok t'" "length (it_pool t') \<le> Suc (length (it_pool t))"
    using intern_spec [OF t, of s] step by auto
  then show "table_ok t' \<and> it_count t' \<le> Suc (it_count t)"
    using count [of t] count [of t'] t(1) by simp
  show "denotes_str t' p s"
    using intern_spec [OF t, of s] unfolding step denotes_str_def option.inject prod.inject by blast
  fix q r assume "denotes_str t q r"
  then show "denotes_str t' q r"
    using intern_spec [OF t, of s] step by (auto simp: denotes_str_def nth_append split: if_splits)
next
  fix t p r q assume "table_ok t" "denotes_str t p r" "denotes_str t q r"
  then show "p = q"
    by (auto simp: denotes_str_def table_ok_def nth_eq_iff_index_eq)
next
  fix t p r r' assume "denotes_str t p r" "denotes_str t p r'"
  then show "r = r'" by (simp add: denotes_str_def)
qed

lemma table_ok_init: "table_ok intern_init"
proof -
  have "pow2_cap 256"
    unfolding pow2_cap_def by (intro exI [of _ 8]) simp
  then show ?thesis
    by (simp add: table_ok_def intern_init_def chained_def)
qed

subsection \<open>Property\<close>

text \<open>
  C21: Interned names compare by pointer. From a fresh table, a run of at most \<open>2 ^ 28\<close> calls
  of \<open>intern\<close> returns (every probe ends, the table growing as it fills), each pointer denotes
  the bytes it was called with, and two of the pointers are equal exactly when the names are,
  whatever hashes collide and whenever the table was rehashed between the two calls.
\<close>

theorem interned_pointers_are_names:
  assumes "length ss \<le> 2 ^ 28"
  shows "\<exists>t ps. intern_all intern intern_init ss = Some (t, ps) \<and> length ps = length ss \<and>
    list_all2 (denotes_str t) ps ss \<and>
    (\<forall>i < length ss. \<forall>j < length ss. ps ! i = ps ! j \<longleftrightarrow> ss ! i = ss ! j)"
proof -
  have "it_count intern_init + length ss \<le> 2 ^ 28"
    using assms by (simp add: intern_init_def)
  from names.intern_all_spec [OF table_ok_init this] names.pointers_are_names [OF table_ok_init this]
  show ?thesis by auto
qed

lemma interned_pointers_are_names_witness:
  "\<exists>t ps. intern_all intern intern_init [''i32'', ''str'', ''i32''] = Some (t, ps) \<and> ps ! 0 = ps ! 2 \<and> ps ! 0 \<noteq> ps ! 1"
proof -
  obtain t ps where run: "intern_all intern intern_init [''i32'', ''str'', ''i32''] = Some (t, ps)"
    and same: "\<forall>i < 3. \<forall>j < 3. ps ! i = ps ! j \<longleftrightarrow> [''i32'', ''str'', ''i32''] ! i = [''i32'', ''str'', ''i32''] ! j"
    using interned_pointers_are_names [of "[''i32'', ''str'', ''i32'']"] by auto
  have "ps ! 0 = ps ! 2" "ps ! 0 \<noteq> ps ! 1"
    using same [rule_format, of 0 2] same [rule_format, of 0 1] by simp_all
  then show ?thesis using run by blast
qed

end
