(* ===== verification/FC_Diag.thy ===== *)
theory FC_Diag
  imports FC_Token
begin

section \<open>Diagnostics (\<open>src/diag.c\<close>, \<open>src/diag.h\<close>)\<close>

text \<open>
  The module's static variables are the record \<open>diag_state\<close>. A message leaves the module
  either through the installed sink or as a line on stderr; \<open>d_out\<close> is the sequence of these
  events. A fatal diagnostic ends the run: with \<open>longjmp\<close> when a recovery point is set, with
  \<open>exit (1)\<close> otherwise. Messages arrive formatted: \<open>printf\<close> formatting is the caller's.
\<close>

datatype diag_event = ToSink src_loc string | ToStderr string

datatype fatal_exit = LongJmp | ExitProcess

record diag_state =
  d_filename :: string
  d_error_count :: nat
  d_sink :: bool
  d_abort_env :: bool
  d_held :: "(src_loc \<times> string) list"
  d_speculation_depth :: int
  d_out :: "diag_event list"

definition diag_initial :: diag_state where
  "diag_initial = \<lparr>d_filename = ''<stdin>'', d_error_count = 0, d_sink = False,
     d_abort_env = False, d_held = [], d_speculation_depth = 0, d_out = []\<rparr>"

definition drop_held :: "nat \<Rightarrow> diag_state \<Rightarrow> diag_state" where
  "drop_held first st = st\<lparr>d_held := take first (d_held st)\<rparr>"

definition diag_set_filename :: "string \<Rightarrow> diag_state \<Rightarrow> diag_state" where
  "diag_set_filename f st = st\<lparr>d_filename := f\<rparr>"

definition diag_filename :: "diag_state \<Rightarrow> string" where
  "diag_filename st = d_filename st"

definition diag_set_sink :: "bool \<Rightarrow> diag_state \<Rightarrow> diag_state" where
  "diag_set_sink b st = st\<lparr>d_sink := b\<rparr>"

definition diag_reset_counts :: "diag_state \<Rightarrow> diag_state" where
  "diag_reset_counts st = (drop_held 0 (st\<lparr>d_error_count := 0\<rparr>))\<lparr>d_speculation_depth := 0\<rparr>"

definition diag_set_abort_jmp :: "bool \<Rightarrow> diag_state \<Rightarrow> diag_state" where
  "diag_set_abort_jmp b st = st\<lparr>d_abort_env := b\<rparr>"

definition diag_error_count :: "diag_state \<Rightarrow> nat" where
  "diag_error_count st = d_error_count st"

definition diag_line :: "string \<Rightarrow> src_loc \<Rightarrow> string \<Rightarrow> string" where
  "diag_line fn loc msg =
     fn @ '':'' @ dec_nat (loc_line loc) @ '':'' @ dec_nat (loc_col loc) @ '': error: '' @ msg @ [newline]"

text \<open>What \<open>report\<close> sends out, in a state with the given file name and sink.\<close>

definition report_event :: "string \<Rightarrow> bool \<Rightarrow> src_loc \<Rightarrow> string \<Rightarrow> diag_event" where
  "report_event file sink loc msg =
     (let fn = (case loc_file loc of Some f \<Rightarrow> f | None \<Rightarrow> file)
      in if sink then ToSink (loc\<lparr>loc_file := Some fn\<rparr>) msg else ToStderr (diag_line fn loc msg))"

definition report :: "src_loc \<Rightarrow> string \<Rightarrow> diag_state \<Rightarrow> diag_state" where
  "report loc msg st =
     st\<lparr>d_out := d_out st @ [report_event (d_filename st) (d_sink st) loc msg],
        d_error_count := d_error_count st + 1\<rparr>"

definition flush_held :: "diag_state \<Rightarrow> diag_state" where
  "flush_held st =
     (drop_held 0 (fold (\<lambda>(loc, msg). report loc msg) (d_held st) st))\<lparr>d_speculation_depth := 0\<rparr>"

definition diag_speculate_begin :: "diag_state \<Rightarrow> diag_state \<times> nat" where
  "diag_speculate_begin st =
     (st\<lparr>d_speculation_depth := d_speculation_depth st + 1\<rparr>, length (d_held st))"

definition diag_speculate_end :: "nat \<Rightarrow> bool \<Rightarrow> diag_state \<Rightarrow> diag_state" where
  "diag_speculate_end mark keep st0 =
     (let st = (if keep then st0 else drop_held mark st0);
          st = st\<lparr>d_speculation_depth := d_speculation_depth st - 1\<rparr>
      in if d_speculation_depth st = 0 then flush_held st else st)"

definition diag_error :: "src_loc \<Rightarrow> string \<Rightarrow> diag_state \<Rightarrow> diag_state" where
  "diag_error loc msg st =
     (if d_speculation_depth st > 0 then st\<lparr>d_held := d_held st @ [(loc, msg)]\<rparr>
      else report loc msg st)"

definition leave :: "diag_state \<Rightarrow> fatal_exit" where
  "leave st = (if d_abort_env st then LongJmp else ExitProcess)"

definition diag_fatal :: "src_loc \<Rightarrow> string \<Rightarrow> diag_state \<Rightarrow> diag_state \<times> fatal_exit" where
  "diag_fatal loc msg st = (let st = report loc msg (flush_held st) in (st, leave st))"

definition diag_fatal_simple :: "string \<Rightarrow> diag_state \<Rightarrow> diag_state \<times> fatal_exit" where
  "diag_fatal_simple msg st0 =
     (let st = flush_held st0;
          ev = (if d_sink st then ToSink \<lparr>loc_file = Some (d_filename st), loc_line = 0, loc_col = 0\<rparr> msg
                else ToStderr (''fcc: error: '' @ msg @ [newline]));
          st = st\<lparr>d_out := d_out st @ [ev], d_error_count := d_error_count st + 1\<rparr>
      in (st, leave st))"

subsection \<open>Reporting in bulk\<close>

definition events_of :: "diag_state \<Rightarrow> (src_loc \<times> string) list \<Rightarrow> diag_event list" where
  "events_of st es = map (\<lambda>(loc, msg). report_event (d_filename st) (d_sink st) loc msg) es"

definition publish :: "(src_loc \<times> string) list \<Rightarrow> diag_state \<Rightarrow> diag_state" where
  "publish es st = st\<lparr>d_out := d_out st @ events_of st es,
                      d_error_count := d_error_count st + length es\<rparr>"

lemma fold_report: "fold (\<lambda>(loc, msg). report loc msg) es st = publish es st"
  by (induction es arbitrary: st)
    (auto simp: publish_def events_of_def report_def split: prod.splits)

lemma flush_held_eq:
  "flush_held st = (publish (d_held st) st)\<lparr>d_held := [], d_speculation_depth := 0\<rparr>"
  by (simp add: flush_held_def fold_report drop_held_def)

lemma publish_append: "publish (xs @ ys) st = publish ys (publish xs st)"
  by (simp add: publish_def events_of_def)

lemma publish_Nil [simp]: "publish [] st = st"
  by (simp add: publish_def events_of_def)

subsection \<open>The contract of speculation\<close>

text \<open>
  What a parser does between a begin and its end: report errors and try readings, each a
  speculation that is kept or dropped as a whole. \<open>committed\<close> is the abstract meaning: the
  errors of kept readings, in order.
\<close>

datatype diag_op = Err src_loc string | Spec "diag_op list" bool

fun exec_op :: "diag_op \<Rightarrow> diag_state \<Rightarrow> diag_state"
  and exec_ops :: "diag_op list \<Rightarrow> diag_state \<Rightarrow> diag_state" where
  "exec_op (Err loc msg) st = diag_error loc msg st"
| "exec_op (Spec ops keep) st =
     (let (st, mark) = diag_speculate_begin st in diag_speculate_end mark keep (exec_ops ops st))"
| "exec_ops [] st = st"
| "exec_ops (p # ps) st = exec_ops ps (exec_op p st)"

fun committed :: "diag_op \<Rightarrow> (src_loc \<times> string) list"
  and committed_all :: "diag_op list \<Rightarrow> (src_loc \<times> string) list" where
  "committed (Err loc msg) = [(loc, msg)]"
| "committed (Spec ops keep) = (if keep then committed_all ops else [])"
| "committed_all [] = []"
| "committed_all (p # ps) = committed p @ committed_all ps"

text \<open>Inside a speculation nothing leaves: what is committed is held.\<close>

lemma exec_inside:
  "0 < d_speculation_depth st \<Longrightarrow> exec_op p st = st\<lparr>d_held := d_held st @ committed p\<rparr>"
  "0 < d_speculation_depth st \<Longrightarrow> exec_ops ps st = st\<lparr>d_held := d_held st @ committed_all ps\<rparr>"
proof (induction p st and ps st rule: exec_op_exec_ops.induct)
  case (1 loc msg st)
  then show ?case by (simp add: diag_error_def)
next
  case (2 ops keep st)
  have "exec_ops ops (st\<lparr>d_speculation_depth := d_speculation_depth st + 1\<rparr>)
     = st\<lparr>d_speculation_depth := d_speculation_depth st + 1, d_held := d_held st @ committed_all ops\<rparr>"
    using 2 by (simp add: diag_speculate_begin_def)
  with 2(2) show ?case
    by (simp add: diag_speculate_begin_def diag_speculate_end_def drop_held_def Let_def)
next
  case (4 p ps st)
  then show ?case by simp
qed simp

text \<open>Outside, with nothing held, exactly what is committed is reported.\<close>

definition quiet :: "diag_state \<Rightarrow> bool" where
  "quiet st \<longleftrightarrow> d_speculation_depth st = 0 \<and> d_held st = []"

lemma quiet_publish: "quiet st \<Longrightarrow> quiet (publish es st)"
  by (simp add: quiet_def publish_def)

lemma exec_op_outside:
  assumes "quiet st"
  shows "exec_op p st = publish (committed p) st"
proof (cases p)
  case (Err loc msg)
  with assms show ?thesis
    by (simp add: diag_error_def quiet_def publish_def events_of_def report_def)
next
  case (Spec ops keep)
  have "exec_ops ops (st\<lparr>d_speculation_depth := 1\<rparr>)
          = st\<lparr>d_speculation_depth := 1, d_held := committed_all ops\<rparr>"
    using assms by (simp add: exec_inside(2) quiet_def)
  with assms show ?thesis
    by (auto simp: Spec diag_speculate_begin_def diag_speculate_end_def drop_held_def Let_def
        quiet_def flush_held_eq publish_def events_of_def)
qed

lemma exec_ops_outside: "quiet st \<Longrightarrow> exec_ops ps st = publish (committed_all ps) st"
  by (induction ps arbitrary: st) (simp_all add: exec_op_outside quiet_publish publish_append)

text \<open>A fatal diagnostic reports what was held first, then itself.\<close>

lemma diag_fatal_reports:
  "fst (diag_fatal loc msg st) =
     (publish (d_held st @ [(loc, msg)]) st)\<lparr>d_held := [], d_speculation_depth := 0\<rparr>"
  by (simp add: diag_fatal_def Let_def flush_held_eq report_def publish_def events_of_def)

subsection \<open>Properties\<close>

text \<open>
  C33: Speculation is transactional. Whatever nesting of speculative readings a parser makes,
  starting outside any speculation, the events sent out and the error count are those of
  reporting exactly the committed errors in order, and the module ends outside any
  speculation with nothing held.
\<close>

theorem speculation_commits:
  assumes "d_speculation_depth st = 0" and "d_held st = []"
  shows "exec_ops ps st = publish (committed_all ps) st \<and>
    d_held (exec_ops ps st) = [] \<and> d_speculation_depth (exec_ops ps st) = 0 \<and>
    diag_error_count (exec_ops ps st) = diag_error_count st + length (committed_all ps)"
proof -
  have "quiet st" using assms by (simp add: quiet_def)
  from exec_ops_outside [OF this] show ?thesis
    using assms by (simp add: publish_def diag_error_count_def)
qed

lemma speculation_commits_witness:
  "exec_ops [Err (mk_loc 1 1) ''a'', Spec [Err (mk_loc 1 2) ''b'', Spec [Err (mk_loc 1 3) ''c''] True] False,
      Spec [Err (mk_loc 2 1) ''d''] True] diag_initial
     = publish [(mk_loc 1 1, ''a''), (mk_loc 2 1, ''d'')] diag_initial"
  using speculation_commits [of diag_initial] by (simp add: diag_initial_def)

text \<open>
  A fatal diagnostic loses nothing: what was held is reported first, in order, then the
  fatal message itself; it is counted, the speculation is over, and the run leaves by
  \<open>longjmp\<close> exactly when a recovery point is set.
\<close>

theorem fatal_reports_held:
  "diag_fatal loc msg st =
     ((publish (d_held st @ [(loc, msg)]) st)\<lparr>d_held := [], d_speculation_depth := 0\<rparr>,
      if d_abort_env st then LongJmp else ExitProcess)"
  using diag_fatal_reports [of loc msg st]
  by (simp add: diag_fatal_def Let_def leave_def flush_held_eq report_def publish_def)

end
