(* ===== verification/FC_Text.thy ===== *)
theory FC_Text
  imports FC_Token
begin

section \<open>Text helpers (\<open>src/common.c\<close>, \<open>src/common.h\<close>)\<close>

text \<open>
  The string routines of \<open>common.c\<close> that several passes share: the stored length of slices,
  the escape table and the literal decoder, the format-spec reader of interpolated strings,
  the spelling of namespaces, and the hygiene of C identifiers. A pointer into a string is
  the string and an offset; where the code walks a string from left to right the model
  recurses on the rest of it.
\<close>

subsection \<open>Slice lengths\<close>

definition FC_LEN_REPR_DEFAULT :: nat where "FC_LEN_REPR_DEFAULT = 64"

definition fc_len_max :: "nat \<Rightarrow> int" where
  "fc_len_max g_len_repr =
     (if g_len_repr = 16 then 2 ^ 15 - 1 else if g_len_repr = 32 then 2 ^ 31 - 1 else 2 ^ 63 - 1)"

subsection \<open>Escapes\<close>

definition hex_digit_val :: "char \<Rightarrow> int" where
  "hex_digit_val c =
     (if isdigit c then int (byte c) - 48
      else if 97 \<le> byte c \<and> byte c \<le> 102 then int (byte c) - 97 + 10
      else if 65 \<le> byte c \<and> byte c \<le> 70 then int (byte c) - 65 + 10
      else - 1)"

definition simple_escape_byte :: "char \<Rightarrow> int" where
  "simple_escape_byte c =
     (if c = CHR ''n'' then 10 else if c = CHR ''t'' then 9 else if c = CHR ''r'' then 13
      else if c = CHR ''0'' then 0 else if c = backslash then 92 else if c = dquote then 34
      else if c = squote then 39 else - 1)"

lemma hex_digit_val_range: "isxdigit c \<Longrightarrow> 0 \<le> hex_digit_val c \<and> hex_digit_val c < 16"
  by (auto simp: hex_digit_val_def char_class_defs)

lemma hex_digit_val_bad: "\<not> isxdigit c \<Longrightarrow> hex_digit_val c = - 1"
  by (auto simp: hex_digit_val_def char_class_defs)

subsection \<open>Decoding string literals\<close>

text \<open>
  \<open>decode_str_lit\<close> returns the bytes; the count the C function returns is their number, and
  the optional output buffer holds exactly them.
\<close>

definition hex_pair :: "char \<Rightarrow> char \<Rightarrow> u8" where
  "hex_pair a b = word_of_int ((push_bit 4 (hex_digit_val a)) OR hex_digit_val b)"

definition escape_value :: "char \<Rightarrow> u8" where
  "escape_value c = (let v = simple_escape_byte c
                     in if 0 \<le> v then word_of_int v else word_of_nat (byte c))"

function decode_str_lit :: "string \<Rightarrow> u8 list" where
  "decode_str_lit [] = []"
| "decode_str_lit (c # cs) =
     (if c = CHR ''%'' \<and> cs \<noteq> [] \<and> hd cs = CHR ''%'' then word_of_nat (byte CHR ''%'') # decode_str_lit (tl cs)
      else if c = backslash \<and> cs \<noteq> [] then
        (if hd cs = CHR ''x'' \<and> 2 \<le> length (tl cs)
         then hex_pair (tl cs ! 0) (tl cs ! 1) # decode_str_lit (drop 2 (tl cs))
         else escape_value (hd cs) # decode_str_lit (tl cs))
      else word_of_nat (byte c) # decode_str_lit cs)"
  by pat_completeness auto
termination
  by (relation "measure length") auto

definition decoded_length :: "string \<Rightarrow> nat" where
  "decoded_length s = length (decode_str_lit s)"

lemma decoded_length_le: "decoded_length s \<le> length s"
proof (induction s rule: decode_str_lit.induct)
  case 1
  then show ?case by (simp add: decoded_length_def)
next
  case (2 c cs)
  then show ?case
    by (cases cs) (auto simp: decoded_length_def split: if_splits)
qed

text \<open>The escape \<open>\xNN\<close> of a byte, as a program writes it.\<close>

definition hex_char :: "nat \<Rightarrow> char" where
  "hex_char n = (if n < 10 then char_of (48 + n) else char_of (87 + n))"

definition hex_escape :: "u8 \<Rightarrow> string" where
  "hex_escape b = [backslash, CHR ''x'', hex_char (unat b div 16), hex_char (unat b mod 16)]"

lemma isxdigit_hex_char: "n < 16 \<Longrightarrow> isxdigit (hex_char n)"
  by (auto simp: hex_char_def char_class_defs byte_char_of)

lemma hex_digit_val_hex_char: "n < 16 \<Longrightarrow> hex_digit_val (hex_char n) = int n"
  by (auto simp: hex_char_def hex_digit_val_def isdigit_def byte_char_of)

lemma nibbles_of_byte: "push_bit 4 (int (n div 16)) OR int (n mod 16) = int n"
proof -
  have "concat_bit 4 (int n) (int n div 16) = int n mod 16 + (int n div 16) * 16"
    by (simp add: concat_bit_eq take_bit_eq_mod push_bit_eq_mult)
  then have "push_bit 4 (int n div 16) OR (int n mod 16) = int n"
    by (simp add: concat_bit_def take_bit_eq_mod or.commute)
  then show ?thesis
    by (simp add: zdiv_int zmod_int)
qed

lemma hex_pair_of_byte:
  "hex_pair (hex_char (unat b div 16)) (hex_char (unat b mod 16)) = b" for b :: u8
proof -
  have "unat b < 256"
    using unsigned_less [of b, where ?'a = nat] by simp
  then have "unat b div 16 < 16"
    by simp
  then show ?thesis
    by (simp add: hex_pair_def hex_digit_val_hex_char nibbles_of_byte)
qed

text \<open>Every byte string has a literal: its hexadecimal spelling decodes to it.\<close>

definition hex_literal :: "u8 list \<Rightarrow> string" where
  "hex_literal bs = concat (map hex_escape bs)"

lemma decode_hex_literal: "decode_str_lit (hex_literal bs @ rest) = bs @ decode_str_lit rest"
  by (induction bs) (simp_all add: hex_literal_def hex_escape_def hex_pair_of_byte)

subsection \<open>Format specs of interpolated strings\<close>

datatype interp_conv =
    CONV_INTEGER
  | CONV_FLOAT
  | CONV_STRING
  | CONV_CHAR
  | CONV_POINTER
  | CONV_TYPE_NAME

definition CONVERSIONS :: "(char \<times> interp_conv) list" where
  "CONVERSIONS =
     [(CHR ''d'', CONV_INTEGER), (CHR ''i'', CONV_INTEGER), (CHR ''u'', CONV_INTEGER),
      (CHR ''x'', CONV_INTEGER), (CHR ''X'', CONV_INTEGER), (CHR ''o'', CONV_INTEGER),
      (CHR ''f'', CONV_FLOAT), (CHR ''e'', CONV_FLOAT), (CHR ''E'', CONV_FLOAT),
      (CHR ''g'', CONV_FLOAT), (CHR ''G'', CONV_FLOAT),
      (CHR ''s'', CONV_STRING), (CHR ''c'', CONV_CHAR), (CHR ''p'', CONV_POINTER),
      (CHR ''T'', CONV_TYPE_NAME)]"

definition interp_conv_class :: "char \<Rightarrow> interp_conv option" where
  "interp_conv_class conv = map_of CONVERSIONS conv"

definition INTERP_MAX_FIELD :: int where "INTERP_MAX_FIELD = 32767"

record interp_spec =
  sp_minus :: bool
  sp_plus :: bool
  sp_space :: bool
  sp_hash :: bool
  sp_zero :: bool
  sp_repeated :: char
  sp_width :: int
  sp_precision :: int
  sp_prec_at :: nat
  sp_conversion :: char

text \<open>One digit of a field, saturating one past the limit.\<close>

definition field_step :: "int \<Rightarrow> char \<Rightarrow> int" where
  "field_step out c =
     (let sat = INTERP_MAX_FIELD + 1;
          out = (if out < sat then out * 10 + (int (byte c) - 48) else out)
      in if out > sat then sat else out)"

function scan_field :: "string \<Rightarrow> nat \<Rightarrow> int \<Rightarrow> nat \<times> int" where
  "scan_field s i out =
     (if isdigit (at_c s i) then scan_field s (Suc i) (field_step out (at_c s i)) else (i, out))"
  by pat_completeness auto
termination
proof (relation "measure (\<lambda>(s, i, out). length s - i)", goal_cases)
  case (2 s i out)
  then have "at_c s i \<noteq> nul" by auto
  then have "i < length s" by (rule at_c_not_nul)
  then show ?case by simp
qed simp

declare scan_field.simps [simp del]

text \<open>The flag slot a character selects, read and set.\<close>

definition is_flag_char :: "char \<Rightarrow> bool" where
  "is_flag_char c \<longleftrightarrow> c \<in> set ''-+ #0''"

definition flag_get :: "char \<Rightarrow> interp_spec \<Rightarrow> bool" where
  "flag_get c sp =
     (if c = CHR ''-'' then sp_minus sp else if c = CHR ''+'' then sp_plus sp
      else if c = CHR '' '' then sp_space sp else if c = CHR ''#'' then sp_hash sp
      else sp_zero sp)"

definition flag_set :: "char \<Rightarrow> interp_spec \<Rightarrow> interp_spec" where
  "flag_set c sp =
     (if c = CHR ''-'' then sp\<lparr>sp_minus := True\<rparr> else if c = CHR ''+'' then sp\<lparr>sp_plus := True\<rparr>
      else if c = CHR '' '' then sp\<lparr>sp_space := True\<rparr> else if c = CHR ''#'' then sp\<lparr>sp_hash := True\<rparr>
      else sp\<lparr>sp_zero := True\<rparr>)"

definition flag_step :: "char \<Rightarrow> interp_spec \<Rightarrow> interp_spec" where
  "flag_step c sp =
     flag_set c (if flag_get c sp \<and> sp_repeated sp = nul then sp\<lparr>sp_repeated := c\<rparr> else sp)"

function scan_flags :: "string \<Rightarrow> nat \<Rightarrow> interp_spec \<Rightarrow> nat \<times> interp_spec" where
  "scan_flags s i sp =
     (if is_flag_char (at_c s i) then scan_flags s (Suc i) (flag_step (at_c s i) sp) else (i, sp))"
  by pat_completeness auto
termination
proof (relation "measure (\<lambda>(s, i, sp). length s - i)", goal_cases)
  case (2 s i sp)
  then have "at_c s i \<noteq> nul" by (auto simp: is_flag_char_def)
  then have "i < length s" by (rule at_c_not_nul)
  then show ?case by simp
qed simp

declare scan_flags.simps [simp del]

definition empty_spec :: interp_spec where
  "empty_spec = \<lparr>sp_minus = False, sp_plus = False, sp_space = False, sp_hash = False,
     sp_zero = False, sp_repeated = nul, sp_width = 0, sp_precision = - 1, sp_prec_at = 0,
     sp_conversion = nul\<rparr>"

text \<open>
  \<open>interp_spec_scan s at\<close> reads the spec at offset \<open>at\<close>: the length through the conversion
  character (0 when there is no spec) and the fields read so far.
\<close>

definition interp_spec_scan :: "string \<Rightarrow> nat \<Rightarrow> nat \<times> interp_spec" where
  "interp_spec_scan s at =
     (let (i, sp) = scan_flags s at empty_spec;
          (i, w) = scan_field s i 0;
          sp = sp\<lparr>sp_width := w, sp_prec_at := i - at\<rparr>;
          (i, sp) = (if at_c s i = CHR ''.''
                     then (let (j, p) = scan_field s (Suc i) 0 in (j, sp\<lparr>sp_precision := p\<rparr>))
                     else (i, sp))
      in if interp_conv_class (at_c s i) = None then (0, sp)
         else (i - at + 1, sp\<lparr>sp_conversion := at_c s i\<rparr>))"

lemma at_c_append_right [simp]: "at_c (pre @ s) (length pre + i) = at_c s i"
  by (auto simp: at_c_def nth_append)

lemma at_c_append_zero [simp]: "at_c (pre @ s) (length pre) = at_c s 0"
  using at_c_append_right [of pre s 0] by simp

lemma at_c_Cons_0 [simp]: "at_c (c # cs) 0 = c"
  by (simp add: at_c_def)

lemma scan_field_run:
  assumes "\<forall>c \<in> set ds. isdigit c" and "\<not> isdigit (at_c post 0)"
  shows "scan_field (pre @ ds @ post) (length pre) out
           = (length pre + length ds, foldl field_step out ds)"
  using assms
proof (induction ds arbitrary: pre out)
  case Nil
  then show ?case by (simp add: scan_field.simps)
next
  case (Cons d ds)
  have "scan_field ((pre @ [d]) @ ds @ post) (length (pre @ [d])) (field_step out d)
          = (length (pre @ [d]) + length ds, foldl field_step (field_step out d) ds)"
    by (rule Cons.IH) (use Cons.prems in auto)
  then show ?case
    using Cons.prems by (subst scan_field.simps) simp
qed

lemma scan_flags_run:
  assumes "\<forall>c \<in> set fl. is_flag_char c" and "\<not> is_flag_char (at_c post 0)"
  shows "scan_flags (pre @ fl @ post) (length pre) sp
           = (length pre + length fl, foldl (\<lambda>sp c. flag_step c sp) sp fl)"
  using assms
proof (induction fl arbitrary: pre sp)
  case Nil
  then show ?case by (simp add: scan_flags.simps)
next
  case (Cons d fl)
  have "scan_flags ((pre @ [d]) @ fl @ post) (length (pre @ [d])) (flag_step d sp)
          = (length (pre @ [d]) + length fl, foldl (\<lambda>sp c. flag_step c sp) (flag_step d sp) fl)"
    by (rule Cons.IH) (use Cons.prems in auto)
  then show ?case
    using Cons.prems by (subst scan_flags.simps) simp
qed

text \<open>Saturation: a field reads as its value, or as one more than the limit.\<close>

lemma field_step_min:
  assumes "isdigit c"
  shows "field_step (int (min n 32768)) c = int (min (n * 10 + (byte c - 48)) 32768)"
proof -
  obtain d where "byte c = 48 + d"
    using assms by (auto simp: isdigit_def dest: le_Suc_ex)
  then show ?thesis
    by (auto simp: field_step_def INTERP_MAX_FIELD_def min_def)
qed

lemma foldl_field_step:
  "\<forall>c \<in> set ds. isdigit c \<Longrightarrow>
     foldl field_step (int (min n 32768)) ds = int (min (dec_value n ds) 32768)"
proof (induction ds arbitrary: n)
  case Nil
  then show ?case by simp
next
  case (Cons d ds)
  then show ?case by (simp add: field_step_min)
qed

lemma foldl_field_step_0:
  "\<forall>c \<in> set ds. isdigit c \<Longrightarrow> foldl field_step 0 ds = int (min (dec_value 0 ds) 32768)"
  using foldl_field_step [of ds 0] by simp

text \<open>A flag run sets exactly the flags in it and remembers the first one written twice.\<close>

lemma flag_step_other:
  "sp_width (flag_step c sp) = sp_width sp" "sp_precision (flag_step c sp) = sp_precision sp"
  "sp_prec_at (flag_step c sp) = sp_prec_at sp" "sp_conversion (flag_step c sp) = sp_conversion sp"
  by (simp_all add: flag_step_def flag_set_def)

lemma foldl_flag_step_other:
  "sp_width (foldl (\<lambda>sp c. flag_step c sp) sp fl) = sp_width sp"
  "sp_precision (foldl (\<lambda>sp c. flag_step c sp) sp fl) = sp_precision sp"
  by (induction fl arbitrary: sp) (simp_all add: flag_step_other)

lemma flag_get_step:
  "is_flag_char c \<Longrightarrow> is_flag_char d \<Longrightarrow> flag_get d (flag_step c sp) \<longleftrightarrow> flag_get d sp \<or> c = d"
  by (auto simp: flag_step_def flag_set_def flag_get_def is_flag_char_def)

lemma flag_get_foldl:
  "\<forall>c \<in> set fl. is_flag_char c \<Longrightarrow> is_flag_char d \<Longrightarrow>
     flag_get d (foldl (\<lambda>sp c. flag_step c sp) sp fl) \<longleftrightarrow> flag_get d sp \<or> d \<in> set fl"
  by (induction fl arbitrary: sp) (auto simp: flag_get_step)

lemma sp_repeated_step:
  "sp_repeated (flag_step c sp) =
     (if flag_get c sp \<and> sp_repeated sp = nul then c else sp_repeated sp)"
  by (simp add: flag_step_def flag_set_def)

lemma repeated_foldl:
  assumes "\<forall>c \<in> set fl. is_flag_char c"
  shows "sp_repeated (foldl (\<lambda>sp c. flag_step c sp) sp fl) \<noteq> nul \<longleftrightarrow>
     sp_repeated sp \<noteq> nul \<or> \<not> distinct fl \<or> (\<exists>c \<in> set fl. flag_get c sp)"
  using assms
proof (induction fl arbitrary: sp)
  case Nil
  then show ?case by simp
next
  case (Cons c fl)
  have c: "is_flag_char c" and "c \<noteq> nul"
    using Cons.prems by (auto simp: is_flag_char_def)
  then show ?case
    using Cons by (auto simp: sp_repeated_step flag_get_step)
qed

text \<open>The text of a spec, and what reading it must return.\<close>

definition spec_text :: "string \<Rightarrow> string \<Rightarrow> string option \<Rightarrow> char \<Rightarrow> string" where
  "spec_text fl w p c = fl @ w @ (case p of None \<Rightarrow> [] | Some ds \<Rightarrow> CHR ''.'' # ds) @ [c]"

definition spec_written :: "string \<Rightarrow> string \<Rightarrow> string option \<Rightarrow> char \<Rightarrow> bool" where
  "spec_written fl w p c \<longleftrightarrow>
     (\<forall>x \<in> set fl. is_flag_char x) \<and> (\<forall>x \<in> set w. isdigit x) \<and> (w \<noteq> [] \<longrightarrow> hd w \<noteq> CHR ''0'') \<and>
     (\<forall>x \<in> set (case p of None \<Rightarrow> [] | Some ds \<Rightarrow> ds). isdigit x) \<and> interp_conv_class c \<noteq> None"

lemma conversion_plain:
  "interp_conv_class c \<noteq> None \<Longrightarrow> \<not> isdigit c \<and> \<not> is_flag_char c \<and> c \<noteq> CHR ''.''"
  by (auto simp: interp_conv_class_def CONVERSIONS_def is_flag_char_def char_class_defs
           split: if_splits)

lemma digit_not_flag: "isdigit c \<Longrightarrow> c \<noteq> CHR ''0'' \<Longrightarrow> \<not> is_flag_char c"
  by (auto simp: is_flag_char_def char_class_defs)

text \<open>Reading a written spec gives its length, its flags and its saturated fields.\<close>

lemma interp_spec_scan_written:
  assumes "spec_written fl w p c"
  shows "interp_spec_scan (pre @ spec_text fl w p c @ post) (length pre) =
    (length (spec_text fl w p c),
     (foldl (\<lambda>sp c. flag_step c sp) empty_spec fl)
       \<lparr>sp_width := int (min (dec_value 0 w) 32768),
        sp_prec_at := length fl + length w,
        sp_precision := (case p of None \<Rightarrow> - 1 | Some ds \<Rightarrow> int (min (dec_value 0 ds) 32768)),
        sp_conversion := c\<rparr>)"
proof -
  define tail where "tail = (case p of None \<Rightarrow> [] | Some ds \<Rightarrow> CHR ''.'' # ds) @ c # post"
  define sp where "sp = foldl (\<lambda>sp c. flag_step c sp) empty_spec fl"
  have c: "\<not> isdigit c" "\<not> is_flag_char c" "c \<noteq> CHR ''.''" "interp_conv_class c \<noteq> None"
    using assms conversion_plain [of c] by (auto simp: spec_written_def)
  have spelled: "pre @ spec_text fl w p c @ post = pre @ fl @ w @ tail"
    by (simp add: spec_text_def tail_def)
  have tail0: "\<not> isdigit (at_c tail 0)" "\<not> is_flag_char (at_c tail 0)"
    using c by (auto simp: tail_def is_flag_char_def char_class_defs split: option.split)
  have "\<not> is_flag_char (at_c (w @ tail) 0)"
    using assms tail0 digit_not_flag by (cases w) (auto simp: spec_written_def)
  then have flags: "scan_flags (pre @ fl @ w @ tail) (length pre) empty_spec = (length (pre @ fl), sp)"
    using assms by (subst scan_flags_run) (auto simp: spec_written_def sp_def)
  have width: "scan_field (pre @ fl @ w @ tail) (length (pre @ fl)) 0
                 = (length (pre @ fl @ w), int (min (dec_value 0 w) 32768))"
    using scan_field_run [of w tail "pre @ fl" 0] assms tail0
    by (simp add: spec_written_def foldl_field_step_0)
  have prec: "scan_field (pre @ fl @ w @ tail) (Suc (length (pre @ fl @ w))) 0
      = (length (pre @ fl @ w) + Suc (length ds), int (min (dec_value 0 ds) 32768))"
    if "p = Some ds" for ds
    using scan_field_run [of ds "c # post" "pre @ fl @ w @ [CHR ''.'']" 0] assms c that
    by (simp add: spec_written_def foldl_field_step_0 tail_def)
  have at_tail: "at_c (pre @ fl @ w @ tail) (length (pre @ fl @ w)) = at_c tail 0"
    using at_c_append_zero [of "pre @ fl @ w" tail] by simp
  show ?thesis
  proof (cases p)
    case None
    then show ?thesis
      using c at_tail unfolding spelled interp_spec_scan_def
      by (simp only: flags width Let_def split) (simp add: tail_def spec_text_def sp_def foldl_flag_step_other empty_spec_def)
  next
    case (Some ds)
    have "at_c (pre @ fl @ w @ tail) (length (pre @ fl @ w) + Suc (length ds)) = c"
      using at_c_append_zero [of "pre @ fl @ w @ CHR ''.'' # ds" "c # post"] Some
      by (simp add: tail_def add.assoc)
    then show ?thesis
      using c at_tail Some prec [OF Some] unfolding spelled interp_spec_scan_def
      by (simp only: flags width Let_def split) (simp add: tail_def spec_text_def sp_def)
  qed
qed

subsection \<open>Joined names\<close>

text \<open>
  Namespaces and declaration paths are joined with two underscores. \<open>ns_display_dup\<close> turns each
  pair back into \<open>::\<close>, \<open>mangled_source_name\<close> takes the last component; both split greedily
  from the left.
\<close>

fun ns_display_dup :: "string \<Rightarrow> string" where
  "ns_display_dup (a # b # r) =
     (if a = CHR ''_'' \<and> b = CHR ''_'' then CHR '':'' # CHR '':'' # ns_display_dup r
      else a # ns_display_dup (b # r))"
| "ns_display_dup s = s"

fun source_tail :: "string \<Rightarrow> string \<Rightarrow> string" where
  "source_tail tail (a # b # r) =
     (if a = CHR ''_'' \<and> b = CHR ''_'' then source_tail r r else source_tail tail (b # r))"
| "source_tail tail p = tail"

definition mangled_source_name :: "string \<Rightarrow> string" where
  "mangled_source_name cname = source_tail cname cname"

fun has_dunder :: "string \<Rightarrow> bool" where
  "has_dunder (a # b # r) \<longleftrightarrow> (a = CHR ''_'' \<and> b = CHR ''_'') \<or> has_dunder (b # r)"
| "has_dunder s \<longleftrightarrow> False"

fun join_with :: "string \<Rightarrow> string list \<Rightarrow> string" where
  "join_with sep [] = []"
| "join_with sep [s] = s"
| "join_with sep (s # ss) = s @ sep @ join_with sep ss"

text \<open>
  A component the splitting gets right: an identifier (no double underscore) that does not
  end in an underscore.
\<close>

definition plain_segment :: "string \<Rightarrow> bool" where
  "plain_segment s \<longleftrightarrow> s \<noteq> [] \<and> \<not> has_dunder s \<and> last s \<noteq> CHR ''_''"

lemma length_ns_display_dup: "length (ns_display_dup s) = length s"
  by (induction s rule: ns_display_dup.induct) auto

lemma ns_display_dup_plain: "\<not> has_dunder s \<Longrightarrow> ns_display_dup s = s"
  by (induction s rule: ns_display_dup.induct) auto

lemma ns_display_dup_seg:
  "plain_segment s \<Longrightarrow> ns_display_dup (s @ ''__'' @ r) = s @ ''::'' @ ns_display_dup r"
proof (induction s rule: has_dunder.induct)
  case (1 a b s)
  then have "plain_segment (b # s)" by (auto simp: plain_segment_def)
  with 1 show ?case by (auto simp: plain_segment_def)
qed (auto simp: plain_segment_def)

lemma source_tail_plain: "\<not> has_dunder s \<Longrightarrow> source_tail t s = t"
  by (induction t s rule: source_tail.induct) auto

lemma source_tail_seg: "plain_segment s \<Longrightarrow> source_tail t (s @ ''__'' @ r) = source_tail r r"
proof (induction s rule: has_dunder.induct)
  case (1 a b s)
  then have "plain_segment (b # s)" by (auto simp: plain_segment_def)
  with 1 show ?case by (auto simp: plain_segment_def)
qed (auto simp: plain_segment_def)

lemma join_with_append:
  "join_with sep (xs @ [y]) = (if xs = [] then y else join_with sep xs @ sep @ y)"
  by (induction sep xs rule: join_with.induct) auto

lemma source_tail_join:
  assumes "\<forall>s \<in> set segs. plain_segment s" and "\<not> has_dunder x"
  shows "mangled_source_name (join_with ''__'' (segs @ [x])) = x"
proof -
  have "source_tail t (join_with ''__'' (segs @ [x])) = (if segs = [] then t else x)" for t
    using assms
  proof (induction segs arbitrary: t)
    case Nil
    then show ?case by (simp add: source_tail_plain)
  next
    case (Cons s segs)
    then have "join_with ''__'' ((s # segs) @ [x]) = s @ ''__'' @ join_with ''__'' (segs @ [x])"
      by (cases segs) auto
    then show ?case
      using Cons source_tail_seg [of s] by simp
  qed
  from this [of "join_with ''__'' (segs @ [x])"] show ?thesis
    by (simp add: mangled_source_name_def)
qed

lemma ns_display_join:
  assumes "\<forall>s \<in> set segs. plain_segment s"
  shows "ns_display_dup (join_with ''__'' segs) = join_with ''::'' segs"
  using assms
proof (induction segs)
  case (Cons s segs)
  then show ?case
    using ns_display_dup_seg [of s]
    by (cases segs) (auto simp: ns_display_dup_plain plain_segment_def)
qed simp

subsection \<open>C identifiers\<close>

definition C_RESERVED :: "string list" where
  "C_RESERVED =
     [''_Alignas'', ''_Alignof'', ''_Atomic'', ''_Bool'', ''_Complex'', ''_Generic'',
      ''_Imaginary'', ''_Noreturn'', ''_Static_assert'', ''_Thread_local'', ''alignas'',
      ''alignof'', ''asm'', ''auto'', ''bool'', ''break'', ''case'', ''char'', ''const'',
      ''constexpr'', ''continue'', ''default'', ''do'', ''double'', ''else'', ''enum'',
      ''extern'', ''false'', ''float'', ''for'', ''goto'', ''if'', ''inline'', ''int'', ''long'',
      ''nullptr'', ''register'', ''restrict'', ''return'', ''short'', ''signed'', ''sizeof'',
      ''static'', ''static_assert'', ''struct'', ''switch'', ''thread_local'', ''true'',
      ''typedef'', ''typeof'', ''typeof_unqual'', ''union'', ''unsigned'', ''void'',
      ''volatile'', ''while'']"

definition is_c_reserved :: "string \<Rightarrow> bool" where
  "is_c_reserved name \<longleftrightarrow> name \<in> set C_RESERVED"

definition c_safe_ident :: "string \<Rightarrow> string" where
  "c_safe_ident name = (if is_c_reserved name then ''fc__'' @ name else name)"

definition is_mangled_root_name :: "string \<Rightarrow> bool" where
  "is_mangled_root_name name \<longleftrightarrow> take 4 name = ''fc__''"

text \<open>No reserved word is a declaration's emitted name, nor holds a double underscore.\<close>

lemma reserved_plain: "is_c_reserved s \<Longrightarrow> \<not> has_dunder s \<and> \<not> is_mangled_root_name s"
  unfolding is_c_reserved_def C_RESERVED_def is_mangled_root_name_def
  by (simp only: set_simps insert_iff empty_iff) (elim disjE FalseE; simp)

lemma has_dunder_escape: "has_dunder (''fc__'' @ s)"
  by simp

lemma c_safe_ident_not_reserved: "\<not> is_c_reserved (c_safe_ident s)"
  using reserved_plain [of "c_safe_ident s"] by (auto simp: c_safe_ident_def)

lemma c_safe_ident_idem: "c_safe_ident (c_safe_ident s) = c_safe_ident s"
  using c_safe_ident_not_reserved [of s] by (simp add: c_safe_ident_def [of "c_safe_ident s"])

lemma c_safe_ident_inject:
  assumes "\<not> has_dunder s" "\<not> has_dunder t" "c_safe_ident s = c_safe_ident t"
  shows "s = t"
  using assms by (auto simp: c_safe_ident_def split: if_splits)

subsection \<open>Properties\<close>

text \<open>
  Reading a format spec. For every spec written as flags, a width without a leading zero,
  an optional precision and a conversion character, anywhere in a text, \<open>interp_spec_scan\<close>
  returns its length, sets exactly the flags written, notices a repeated flag, and reads width
  and precision as their decimal values, saturated one past the limit (so a field of any
  length cannot overflow).
\<close>

theorem interp_spec_scan_reads:
  assumes "spec_written fl w p c"
  shows "\<exists>sp. interp_spec_scan (pre @ spec_text fl w p c @ post) (length pre) = (length (spec_text fl w p c), sp) \<and>
    (\<forall>d. is_flag_char d \<longrightarrow> flag_get d sp = (d \<in> set fl)) \<and>
    (sp_repeated sp \<noteq> nul \<longleftrightarrow> \<not> distinct fl) \<and>
    sp_width sp = min (int (dec_value 0 w)) (INTERP_MAX_FIELD + 1) \<and>
    sp_precision sp = (case p of None \<Rightarrow> - 1 | Some ds \<Rightarrow> min (int (dec_value 0 ds)) (INTERP_MAX_FIELD + 1)) \<and>
    sp_prec_at sp = length fl + length w \<and> sp_conversion sp = c"
proof -
  let ?run = "foldl (\<lambda>sp c. flag_step c sp) empty_spec fl"
  let ?sp = "?run\<lparr>sp_width := int (min (dec_value 0 w) 32768), sp_prec_at := length fl + length w,
    sp_precision := (case p of None \<Rightarrow> - 1 | Some ds \<Rightarrow> int (min (dec_value 0 ds) 32768)), sp_conversion := c\<rparr>"
  have flags: "\<forall>c \<in> set fl. is_flag_char c"
    using assms by (simp add: spec_written_def)
  have get: "flag_get d ?sp = flag_get d ?run" for d
    by (simp add: flag_get_def)
  have "flag_get d empty_spec = False" for d
    by (simp add: flag_get_def empty_spec_def)
  then have "\<forall>d. is_flag_char d \<longrightarrow> flag_get d ?sp = (d \<in> set fl)"
    "sp_repeated ?sp \<noteq> nul \<longleftrightarrow> \<not> distinct fl"
    using flag_get_foldl [OF flags] repeated_foldl [OF flags, of empty_spec] get
    by (simp_all add: empty_spec_def)
  then show ?thesis
    using interp_spec_scan_written [OF assms, of pre post]
    by (intro exI [of _ ?sp]) (simp add: INTERP_MAX_FIELD_def of_nat_min split: option.split)
qed

lemma interp_spec_scan_reads_witness:
  "fst (interp_spec_scan ''x%-08.3f}'' 2) = 6 \<and> sp_width (snd (interp_spec_scan ''x%-08.3f}'' 2)) = 8"
proof -
  have "spec_written ''-0'' ''8'' (Some ''3'') (CHR ''f'')"
    by (simp add: spec_written_def is_flag_char_def isdigit_def byte_def interp_conv_class_def CONVERSIONS_def)
  from interp_spec_scan_reads [OF this, of "''x%''" "''}''"] show ?thesis
    by (auto simp: spec_text_def INTERP_MAX_FIELD_def byte_def numeral_2_eq_2)
qed

text \<open>
  String decoding. Decoding the escape spelling of a byte sequence gives the bytes back,
  followed by the decoding of the rest, and decoding never yields more bytes than the literal
  has characters (the size callers allocate).
\<close>

theorem decode_str_lit_roundtrip:
  "decode_str_lit (hex_literal bs @ rest) = bs @ decode_str_lit rest \<and>
   length (decode_str_lit s) \<le> length s"
  using decode_hex_literal decoded_length_le [of s] by (simp add: decoded_length_def)

text \<open>
  Splitting joined names. On components that hold no double underscore and do not end in
  an underscore, \<open>mangled_source_name\<close> returns the last component of a joined name and
  \<open>ns_display_dup\<close> replaces exactly the joints.
\<close>

theorem joined_names_split:
  assumes "\<forall>s \<in> set segs. plain_segment s" and "plain_segment x"
  shows "mangled_source_name (join_with ''__'' (segs @ [x])) = x \<and>
    ns_display_dup (join_with ''__'' (segs @ [x])) = join_with ''::'' (segs @ [x])"
  using source_tail_join [OF assms(1), of x] ns_display_join [of "segs @ [x]"] assms
  by (auto simp: plain_segment_def)

lemma joined_names_split_witness: "mangled_source_name ''fc__geo___area'' = ''_area''"
  using joined_names_split [of "[''fc'', ''geo'']" "''_area''"] by (simp add: plain_segment_def)


text \<open>
  Member names reach C safely: the escaped name is never a reserved word, escaping twice
  changes nothing, and distinct source names (the lexer rejects double underscores) stay
  distinct.
\<close>

theorem c_safe_ident_safe:
  assumes "\<not> has_dunder s" and "\<not> has_dunder t"
  shows "\<not> is_c_reserved (c_safe_ident s) \<and> c_safe_ident (c_safe_ident s) = c_safe_ident s \<and>
    (c_safe_ident s = c_safe_ident t \<longleftrightarrow> s = t)"
  using c_safe_ident_not_reserved c_safe_ident_idem c_safe_ident_inject [OF assms] by blast

lemma c_safe_ident_safe_witness: "c_safe_ident ''int'' \<noteq> c_safe_ident ''int_''"
  using c_safe_ident_safe [of "''int''" "''int_''"] by simp

end
