(* ===== verification/FC_Type.thy ===== *)
theory FC_Type
  imports FC_Text
begin

section \<open>Types (\<open>src/types.h\<close>, \<open>src/types.c\<close>)\<close>

text \<open>
  The \<open>Type\<close> struct is a tagged union: \<open>ctype\<close> has one constructor per tag (the scalar
  primitives share \<open>TPrim\<close>), the fields every node has (\<open>alias\<close>, \<open>is_const\<close>) are the record
  \<open>tinfo\<close>, and the name fields of a struct, union, enum or stub are a record each. Names are
  interned, so pointer comparison is comparison of strings (theory \<open>FC_Intern\<close>). Pointers the
  code may leave NULL are options: a tuple's name, a variant's payload, an enum's
  representation, a symbolic array size. Of \<open>resolved_sym\<close> the model keeps what the code reads
  through it: the canonical template name. A const-generic expression is a \<open>cexpr\<close>, with
  the node kinds a const argument may hold and \<open>COther\<close> for every other \<open>Expr\<close> node.
\<close>

datatype prim =
    TYPE_INT8 | TYPE_INT16 | TYPE_INT32 | TYPE_INT64
  | TYPE_UINT8 | TYPE_UINT16 | TYPE_UINT32 | TYPE_UINT64
  | TYPE_ISIZE | TYPE_USIZE
  | TYPE_FLOAT32 | TYPE_FLOAT64
  | TYPE_BOOL | TYPE_VOID

datatype type_kind =
    Prim prim
  | TYPE_POINTER | TYPE_SLICE | TYPE_OPTION | TYPE_RESULT | TYPE_FUNC
  | TYPE_STRUCT | TYPE_UNION | TYPE_ENUM | TYPE_ANY_PTR | TYPE_TYPE_VAR
  | TYPE_FIXED_ARRAY | TYPE_CONST_INT | TYPE_CONST_EXPR | TYPE_STUB
  | TYPE_ERROR | TYPE_NEVER | TYPE_UNRESOLVED

record tinfo =
  ti_alias :: "string option"
  ti_const :: bool

record struc_info =
  sc_name :: "string option"
  sc_qualified_name :: "string option"
  sc_c_name :: "string option"
  sc_is_c_union :: bool
  sc_is_tuple :: bool
  sc_resolved :: "string option"

record unio_info =
  un_name :: string
  un_qualified_name :: "string option"
  un_resolved :: "string option"

record enum_variant =
  ev_name :: string
  ev_value_bits :: u64
  ev_negative :: bool
  ev_has_explicit :: bool
  ev_loc :: src_loc

record enum_info =
  en_name :: string
  en_qualified_name :: "string option"
  en_variants :: "enum_variant list"

record stub_info =
  st_name :: string
  st_qualified_name :: "string option"
  st_base_name :: "string option"

datatype 't struct_field = Field (f_name: string) (f_type: 't) (f_loc: src_loc)

datatype 't union_variant = Variant (v_name: string) (v_payload: "'t option") (v_loc: src_loc)

datatype ctype =
    TPrim (tinf: tinfo) prim
  | TPointer (tinf: tinfo) ctype
  | TSlice (tinf: tinfo) ctype
  | TOption (tinf: tinfo) ctype
  | TResult (tinf: tinfo) ctype
  | TFunc (tinf: tinfo) "ctype list" ctype bool "string list"
  | TStruct (tinf: tinfo) struc_info "ctype struct_field list" "ctype list"
  | TUnion (tinf: tinfo) unio_info "ctype union_variant list" "ctype list"
  | TEnum (tinf: tinfo) enum_info "ctype option"
  | TAnyPtr (tinf: tinfo)
  | TTypeVar (tinf: tinfo) string
  | TFixedArray (tinf: tinfo) ctype u64 "ctype option"
  | TConstInt (tinf: tinfo) u64
  | TConstExpr (tinf: tinfo) cexpr
  | TStub (tinf: tinfo) stub_info "ctype list"
  | TError (tinf: tinfo)
  | TNever (tinf: tinfo)
  | TUnresolved (tinf: tinfo)
and cexpr =
    CIntLit (ce_loc: src_loc) (ce_type: "ctype option") u64 bool
  | CBoolLit (ce_loc: src_loc) (ce_type: "ctype option") bool
  | CTypeVarRef (ce_loc: src_loc) (ce_type: "ctype option") string
  | CUnary (ce_loc: src_loc) (ce_type: "ctype option") token_kind cexpr
  | CBinary (ce_loc: src_loc) (ce_type: "ctype option") token_kind cexpr cexpr
  | CCast (ce_loc: src_loc) (ce_type: "ctype option") "ctype option" cexpr
  | COther (ce_loc: src_loc) (ce_type: "ctype option") nat

fun kind :: "ctype \<Rightarrow> type_kind" where
  "kind (TPrim _ p) = Prim p"
| "kind (TPointer _ _) = TYPE_POINTER"
| "kind (TSlice _ _) = TYPE_SLICE"
| "kind (TOption _ _) = TYPE_OPTION"
| "kind (TResult _ _) = TYPE_RESULT"
| "kind (TFunc _ _ _ _ _) = TYPE_FUNC"
| "kind (TStruct _ _ _ _) = TYPE_STRUCT"
| "kind (TUnion _ _ _ _) = TYPE_UNION"
| "kind (TEnum _ _ _) = TYPE_ENUM"
| "kind (TAnyPtr _) = TYPE_ANY_PTR"
| "kind (TTypeVar _ _) = TYPE_TYPE_VAR"
| "kind (TFixedArray _ _ _ _) = TYPE_FIXED_ARRAY"
| "kind (TConstInt _ _) = TYPE_CONST_INT"
| "kind (TConstExpr _ _) = TYPE_CONST_EXPR"
| "kind (TStub _ _ _) = TYPE_STUB"
| "kind (TError _) = TYPE_ERROR"
| "kind (TNever _) = TYPE_NEVER"
| "kind (TUnresolved _) = TYPE_UNRESOLVED"

lemma size_field_type [termination_simp]: "f (f_type x) \<le> size_struct_field f x"
  by (cases x) simp

lemma size_field_types [termination_simp]:
  "size_list (size \<circ> f_type) (fs :: 't::size struct_field list) \<le> size_list (size_struct_field size) fs"
  by (rule size_list_pointwise) (simp add: size_field_type)

text \<open>
  The accessors and constructors. Node identity is not modelled: copying a node is the
  identity, and the code's pointer comparisons \<open>inner == t->inner\<close>, which ask whether a
  rewriting changed anything, are comparisons of the trees.
\<close>

definition plain :: tinfo where "plain = \<lparr>ti_alias = None, ti_const = False\<rparr>"

definition is_const :: "ctype \<Rightarrow> bool" where "is_const t = ti_const (tinf t)"

definition alias_of :: "ctype \<Rightarrow> string option" where "alias_of t = ti_alias (tinf t)"

fun with_info :: "(tinfo \<Rightarrow> tinfo) \<Rightarrow> ctype \<Rightarrow> ctype" where
  "with_info f (TPrim i p) = TPrim (f i) p"
| "with_info f (TPointer i t) = TPointer (f i) t"
| "with_info f (TSlice i t) = TSlice (f i) t"
| "with_info f (TOption i t) = TOption (f i) t"
| "with_info f (TResult i t) = TResult (f i) t"
| "with_info f (TFunc i ps r v tp) = TFunc (f i) ps r v tp"
| "with_info f (TStruct i s fs as) = TStruct (f i) s fs as"
| "with_info f (TUnion i u vs as) = TUnion (f i) u vs as"
| "with_info f (TEnum i e r) = TEnum (f i) e r"
| "with_info f (TAnyPtr i) = TAnyPtr (f i)"
| "with_info f (TTypeVar i n) = TTypeVar (f i) n"
| "with_info f (TFixedArray i e n r) = TFixedArray (f i) e n r"
| "with_info f (TConstInt i v) = TConstInt (f i) v"
| "with_info f (TConstExpr i e) = TConstExpr (f i) e"
| "with_info f (TStub i s as) = TStub (f i) s as"
| "with_info f (TError i) = TError (f i)"
| "with_info f (TNever i) = TNever (f i)"
| "with_info f (TUnresolved i) = TUnresolved (f i)"

definition set_const :: "bool \<Rightarrow> ctype \<Rightarrow> ctype" where
  "set_const b = with_info (ti_const_update (\<lambda>_. b))"

lemma tinf_with_info [simp]: "tinf (with_info f t) = f (tinf t)"
  by (cases t) simp_all

lemma kind_with_info [simp]: "kind (with_info f t) = kind t"
  by (cases t) simp_all

lemma is_const_set_const [simp]: "is_const (set_const b t) = b"
  by (simp add: is_const_def set_const_def)

lemma kind_set_const [simp]: "kind (set_const b t) = kind t"
  by (simp add: set_const_def)

lemma set_const_same: "set_const (is_const t) t = t"
  by (cases t) (simp_all add: set_const_def is_const_def)

lemma set_const_set_const [simp]: "set_const b (set_const c t) = set_const b t"
  by (cases t) (simp_all add: set_const_def)

subsection \<open>Singletons and aliases\<close>

definition type_int8 :: ctype where "type_int8 = TPrim plain TYPE_INT8"
definition type_int16 :: ctype where "type_int16 = TPrim plain TYPE_INT16"
definition type_int32 :: ctype where "type_int32 = TPrim plain TYPE_INT32"
definition type_int64 :: ctype where "type_int64 = TPrim plain TYPE_INT64"
definition type_uint8 :: ctype where "type_uint8 = TPrim plain TYPE_UINT8"
definition type_uint16 :: ctype where "type_uint16 = TPrim plain TYPE_UINT16"
definition type_uint32 :: ctype where "type_uint32 = TPrim plain TYPE_UINT32"
definition type_uint64 :: ctype where "type_uint64 = TPrim plain TYPE_UINT64"
definition type_isize :: ctype where "type_isize = TPrim plain TYPE_ISIZE"
definition type_usize :: ctype where "type_usize = TPrim plain TYPE_USIZE"
definition type_float32 :: ctype where "type_float32 = TPrim plain TYPE_FLOAT32"
definition type_float64 :: ctype where "type_float64 = TPrim plain TYPE_FLOAT64"
definition type_bool :: ctype where "type_bool = TPrim plain TYPE_BOOL"
definition type_void :: ctype where "type_void = TPrim plain TYPE_VOID"
definition type_char :: ctype where "type_char = type_uint8"
definition type_any_ptr :: ctype where "type_any_ptr = TAnyPtr plain"
definition type_error :: ctype where "type_error = TError plain"
definition type_never :: ctype where "type_never = TNever plain"
definition type_unresolved :: ctype where "type_unresolved = TUnresolved plain"

definition type_error_code :: ctype where
  "type_error_code = TPrim \<lparr>ti_alias = Some ''error'', ti_const = False\<rparr> TYPE_INT32"

definition type_str :: ctype where
  "type_str = TSlice \<lparr>ti_alias = Some ''str'', ti_const = False\<rparr> type_uint8"

definition type_cstr :: ctype where
  "type_cstr = TPointer \<lparr>ti_alias = Some ''cstr'', ti_const = False\<rparr> type_uint8"

definition type_const_str :: ctype where
  "type_const_str = TSlice \<lparr>ti_alias = Some ''str'', ti_const = True\<rparr> type_uint8"

definition type_const_cstr :: ctype where
  "type_const_cstr = TPointer \<lparr>ti_alias = Some ''cstr'', ti_const = True\<rparr> type_uint8"

lemmas prim_type_defs =
  type_int8_def type_int16_def type_int32_def type_int64_def type_uint8_def type_uint16_def
  type_uint32_def type_uint64_def type_isize_def type_usize_def type_float32_def type_float64_def
  type_bool_def type_void_def type_char_def type_any_ptr_def type_error_def type_never_def
  type_unresolved_def

definition type_is_const :: "ctype option \<Rightarrow> bool" where
  "type_is_const t = (case t of None \<Rightarrow> False | Some t \<Rightarrow> is_const t)"

definition is_str_type :: "ctype \<Rightarrow> bool" where
  "is_str_type t = (case t of TSlice _ e \<Rightarrow> kind e = Prim TYPE_UINT8 | _ \<Rightarrow> False)"

definition is_cstr_type :: "ctype \<Rightarrow> bool" where
  "is_cstr_type t = (case t of TPointer _ e \<Rightarrow> kind e = Prim TYPE_UINT8 | _ \<Rightarrow> False)"

definition type_is_error :: "ctype option \<Rightarrow> bool" where
  "type_is_error t = (case t of None \<Rightarrow> False | Some t \<Rightarrow> kind t = TYPE_ERROR)"

definition type_is_never :: "ctype option \<Rightarrow> bool" where
  "type_is_never t = (case t of None \<Rightarrow> False | Some t \<Rightarrow> kind t = TYPE_NEVER)"

definition type_is_unresolved :: "ctype option \<Rightarrow> bool" where
  "type_is_unresolved t = (case t of None \<Rightarrow> False | Some t \<Rightarrow> kind t = TYPE_UNRESOLVED)"

subsection \<open>Construction and const\<close>

definition type_pointer :: "ctype \<Rightarrow> ctype" where "type_pointer t = TPointer plain t"
definition type_slice :: "ctype \<Rightarrow> ctype" where "type_slice t = TSlice plain t"
definition type_option :: "ctype \<Rightarrow> ctype" where "type_option t = TOption plain t"
definition type_result :: "ctype \<Rightarrow> ctype" where "type_result t = TResult plain t"
definition type_fixed_array :: "ctype \<Rightarrow> u64 \<Rightarrow> ctype" where
  "type_fixed_array e n = TFixedArray plain e n None"
definition type_type_var :: "string \<Rightarrow> ctype" where "type_type_var n = TTypeVar plain n"
definition type_const_int :: "u64 \<Rightarrow> ctype" where "type_const_int v = TConstInt plain v"
definition type_const_expr :: "cexpr \<Rightarrow> ctype" where "type_const_expr e = TConstExpr plain e"
definition type_fixed_array_sym :: "ctype \<Rightarrow> ctype \<Rightarrow> ctype" where
  "type_fixed_array_sym e ref = TFixedArray plain e 0 (Some ref)"

definition type_tuple :: "ctype list \<Rightarrow> ctype" where
  "type_tuple elems =
     TStruct plain
       \<lparr>sc_name = None, sc_qualified_name = None, sc_c_name = None, sc_is_c_union = False,
        sc_is_tuple = True, sc_resolved = None\<rparr>
       (map (\<lambda>i. Field (CHR ''e'' # dec_nat i) (elems ! i) \<lparr>loc_file = None, loc_line = 0, loc_col = 0\<rparr>)
            [0..<length elems])
       []"

definition type_strip_const :: "ctype option \<Rightarrow> ctype option" where
  "type_strip_const t =
     (case t of None \<Rightarrow> None | Some t \<Rightarrow> Some (if \<not> is_const t then t else set_const False t))"

definition const_carrier :: "ctype \<Rightarrow> bool" where
  "const_carrier t \<longleftrightarrow> kind t = TYPE_POINTER \<or> kind t = TYPE_SLICE \<or> kind t = TYPE_ANY_PTR"

definition type_make_const :: "ctype \<Rightarrow> ctype" where
  "type_make_const t =
     (if is_const t then t else if \<not> const_carrier t then t else set_const True t)"

fun type_read_only :: "ctype \<Rightarrow> ctype" where
  "type_read_only (TPointer i p) = type_make_const (TPointer i p)"
| "type_read_only (TSlice i e) = type_make_const (TSlice i e)"
| "type_read_only (TAnyPtr i) = type_make_const (TAnyPtr i)"
| "type_read_only (TOption i t) =
     (let inner = type_read_only t in if inner = t then TOption i t else type_option inner)"
| "type_read_only (TResult i t) =
     (let inner = type_read_only t in if inner = t then TResult i t else TResult i inner)"
| "type_read_only t = t"

definition type_slice_elem_read :: "tinfo \<Rightarrow> ctype \<Rightarrow> ctype" where
  "type_slice_elem_read i elem = (if ti_const i then type_read_only elem else elem)"

lemma size_field_le: "x \<in> set fs \<Longrightarrow> size (f_type x) \<le> size_list (size_struct_field size) fs"
  by (induction fs) (auto intro: le_trans [OF size_field_type] simp: trans_le_add2)

lemma size_variant_le:
  "v \<in> set vs \<Longrightarrow> v_payload v = Some t \<Longrightarrow> size t \<le> size_list (size_union_variant size) vs"
proof (induction vs)
  case (Cons w vs)
  then show ?case by (cases w) auto
qed simp

lemma size_field_lt [termination_simp]:
  "x \<in> set fs \<Longrightarrow> size (f_type x) < Suc (size_list (size_struct_field size) fs + n)"
  using size_field_le [of x fs] by simp

lemma size_variant_lt [termination_simp]:
  "v \<in> set vs \<Longrightarrow> v_payload v = Some t \<Longrightarrow>
     size t < Suc (size_list (size_union_variant size) vs + n)"
  using size_variant_le [of v vs t] by simp

fun type_deep_copy :: "ctype \<Rightarrow> ctype" where
  "type_deep_copy (TStruct i s fs as) =
     TStruct i s (map (\<lambda>f. Field (f_name f) (type_deep_copy (f_type f)) (f_loc f)) fs) as"
| "type_deep_copy (TUnion i u vs as) =
     TUnion i u (map (\<lambda>v. Variant (v_name v) (map_option type_deep_copy (v_payload v)) (v_loc v)) vs) as"
| "type_deep_copy (TPointer i t) = TPointer i (type_deep_copy t)"
| "type_deep_copy (TSlice i t) = TSlice i (type_deep_copy t)"
| "type_deep_copy (TOption i t) = TOption i (type_deep_copy t)"
| "type_deep_copy (TResult i t) = TResult i (type_deep_copy t)"
| "type_deep_copy (TFixedArray i e n r) = TFixedArray i (type_deep_copy e) n r"
| "type_deep_copy (TFunc i ps r v tp) = TFunc i (map type_deep_copy ps) (type_deep_copy r) v tp"
| "type_deep_copy (TStub i s as) = TStub i s as"
| "type_deep_copy t = t"

subsection \<open>Queries\<close>

definition type_is_integer :: "ctype \<Rightarrow> bool" where
  "type_is_integer t \<longleftrightarrow> kind t \<in> Prim ` {TYPE_INT8, TYPE_INT16, TYPE_INT32, TYPE_INT64, TYPE_UINT8,
     TYPE_UINT16, TYPE_UINT32, TYPE_UINT64, TYPE_ISIZE, TYPE_USIZE}"

definition type_is_signed :: "ctype \<Rightarrow> bool" where
  "type_is_signed t \<longleftrightarrow>
     kind t \<in> Prim ` {TYPE_INT8, TYPE_INT16, TYPE_INT32, TYPE_INT64} \<or> kind t = Prim TYPE_ISIZE"

definition type_is_unsigned :: "ctype \<Rightarrow> bool" where
  "type_is_unsigned t \<longleftrightarrow>
     kind t \<in> Prim ` {TYPE_UINT8, TYPE_UINT16, TYPE_UINT32, TYPE_UINT64} \<or> kind t = Prim TYPE_USIZE"

definition type_is_float :: "ctype \<Rightarrow> bool" where
  "type_is_float t \<longleftrightarrow> kind t = Prim TYPE_FLOAT32 \<or> kind t = Prim TYPE_FLOAT64"

definition type_is_numeric :: "ctype \<Rightarrow> bool" where
  "type_is_numeric t \<longleftrightarrow> type_is_integer t \<or> type_is_float t"

lemmas type_query_defs =
  type_is_integer_def type_is_signed_def type_is_unsigned_def type_is_float_def type_is_numeric_def

definition type_fixed_int_bits :: "ctype \<Rightarrow> nat" where
  "type_fixed_int_bits t =
     (if kind t \<in> Prim ` {TYPE_INT8, TYPE_UINT8} then 8
      else if kind t \<in> Prim ` {TYPE_INT16, TYPE_UINT16} then 16
      else if kind t \<in> Prim ` {TYPE_INT32, TYPE_UINT32} then 32
      else if kind t \<in> Prim ` {TYPE_INT64, TYPE_UINT64} then 64 else 0)"

definition type_enum_underlying :: "ctype \<Rightarrow> ctype" where
  "type_enum_underlying t =
     (case t of TEnum _ _ r \<Rightarrow> (case r of Some r \<Rightarrow> r | None \<Rightarrow> type_int32) | _ \<Rightarrow> t)"

definition type_is_const_arg :: "ctype \<Rightarrow> bool" where
  "type_is_const_arg t \<longleftrightarrow> kind t = TYPE_CONST_INT \<or> kind t = TYPE_CONST_EXPR"

definition type_fixed_array_size :: "ctype \<Rightarrow> u64 option" where
  "type_fixed_array_size t =
     (case t of TFixedArray _ _ n None \<Rightarrow> Some n
              | TFixedArray _ _ _ (Some (TConstInt _ v)) \<Rightarrow> Some v
              | _ \<Rightarrow> None)"

fun type_byval_aggregate :: "ctype \<Rightarrow> ctype option" where
  "type_byval_aggregate (TStub i s as) = Some (TStub i s as)"
| "type_byval_aggregate (TStruct i s fs as) = Some (TStruct i s fs as)"
| "type_byval_aggregate (TUnion i u vs as) = Some (TUnion i u vs as)"
| "type_byval_aggregate (TFixedArray i e n r) = type_byval_aggregate e"
| "type_byval_aggregate (TOption i t) = type_byval_aggregate t"
| "type_byval_aggregate (TResult i t) = type_byval_aggregate t"
| "type_byval_aggregate t = None"

definition option_inner_is_null_sentinel :: "ctype \<Rightarrow> bool" where
  "option_inner_is_null_sentinel t \<longleftrightarrow> kind t = TYPE_POINTER \<or> kind t = TYPE_ANY_PTR"

fun type_needs_eq_func :: "ctype \<Rightarrow> bool" where
  "type_needs_eq_func (TStruct _ _ _ _) = True"
| "type_needs_eq_func (TUnion _ _ _ _) = True"
| "type_needs_eq_func (TSlice _ _) = True"
| "type_needs_eq_func (TFunc _ _ _ _ _) = True"
| "type_needs_eq_func (TFixedArray _ _ _ _) = True"
| "type_needs_eq_func (TOption _ t) = (\<not> option_inner_is_null_sentinel t)"
| "type_needs_eq_func (TResult _ _) = True"
| "type_needs_eq_func (TStub _ _ _) = False"
| "type_needs_eq_func _ = False"

fun type_arg_depth :: "ctype \<Rightarrow> nat"
  and max_arg_depth :: "ctype list \<Rightarrow> nat \<Rightarrow> nat" where
  "type_arg_depth (TPointer _ t) = 1 + type_arg_depth t"
| "type_arg_depth (TSlice _ t) = 1 + type_arg_depth t"
| "type_arg_depth (TOption _ t) = 1 + type_arg_depth t"
| "type_arg_depth (TResult _ t) = 1 + type_arg_depth t"
| "type_arg_depth (TFixedArray _ t _ _) = 1 + type_arg_depth t"
| "type_arg_depth (TFunc _ ps r _ _) = 1 + max_arg_depth ps (type_arg_depth r)"
| "type_arg_depth (TStruct _ _ _ as) = 1 + max_arg_depth as 0"
| "type_arg_depth (TUnion _ _ _ as) = 1 + max_arg_depth as 0"
| "type_arg_depth (TStub _ _ as) = 1 + max_arg_depth as 0"
| "type_arg_depth _ = 1"
| "max_arg_depth [] m = m"
| "max_arg_depth (t # ts) m = max_arg_depth ts (if type_arg_depth t > m then type_arg_depth t else m)"

subsection \<open>Built-in members and properties\<close>

definition type_builtin_members :: "ctype option \<Rightarrow> string list" where
  "type_builtin_members t =
     (case map_option kind t of
        Some TYPE_SLICE \<Rightarrow> [''len'', ''ptr'']
      | Some TYPE_OPTION \<Rightarrow> [''is_some'', ''is_none'']
      | Some TYPE_RESULT \<Rightarrow> [''is_ok'', ''is_err'']
      | _ \<Rightarrow> [])"

definition type_builtin_member_type :: "ctype \<Rightarrow> string \<Rightarrow> ctype option" where
  "type_builtin_member_type t name =
     (if name \<notin> set (type_builtin_members (Some t)) then None
      else case t of
             TSlice i e \<Rightarrow>
               if name = type_builtin_members (Some t) ! 0 then Some type_int64
               else Some (if ti_const i then set_const True (type_pointer e) else type_pointer e)
           | _ \<Rightarrow> Some type_bool)"

definition type_enum_count_is :: "ctype \<Rightarrow> string \<Rightarrow> bool" where
  "type_enum_count_is t name =
     (case t of
        TEnum _ e _ \<Rightarrow> name = ''count'' \<and> (\<forall>v \<in> set (en_variants e). ev_name v \<noteq> name)
      | _ \<Rightarrow> False)"

definition TYPE_PROPERTIES :: "(string \<times> bool) list" where
  "TYPE_PROPERTIES =
     [(''bits'', False), (''min'', False), (''max'', False),
      (''epsilon'', True), (''nan'', True), (''inf'', True), (''neg_inf'', True)]"

definition type_property_type :: "ctype \<Rightarrow> string \<Rightarrow> ctype option" where
  "type_property_type t prop =
     (let is_var = (kind t = TYPE_TYPE_VAR)
      in if \<not> is_var \<and> \<not> type_is_integer t \<and> \<not> type_is_float t then None
         else case map_of TYPE_PROPERTIES prop of
                None \<Rightarrow> None
              | Some float_only \<Rightarrow>
                  if float_only \<and> \<not> is_var \<and> \<not> type_is_float t then None
                  else Some (if prop = ''bits'' then type_int32 else t))"

definition prim_bits_c :: "prim \<Rightarrow> string option" where
  "prim_bits_c p =
     (case p of
        TYPE_INT8 \<Rightarrow> Some ''8'' | TYPE_UINT8 \<Rightarrow> Some ''8''
      | TYPE_INT16 \<Rightarrow> Some ''16'' | TYPE_UINT16 \<Rightarrow> Some ''16''
      | TYPE_INT32 \<Rightarrow> Some ''32'' | TYPE_UINT32 \<Rightarrow> Some ''32'' | TYPE_FLOAT32 \<Rightarrow> Some ''32''
      | TYPE_INT64 \<Rightarrow> Some ''64'' | TYPE_UINT64 \<Rightarrow> Some ''64'' | TYPE_FLOAT64 \<Rightarrow> Some ''64''
      | TYPE_ISIZE \<Rightarrow> Some ''((int32_t)(sizeof(ptrdiff_t)*8))''
      | TYPE_USIZE \<Rightarrow> Some ''((int32_t)(sizeof(ptrdiff_t)*8))''
      | _ \<Rightarrow> None)"

definition prim_min_c :: "prim \<Rightarrow> string option" where
  "prim_min_c p =
     (case p of
        TYPE_INT8 \<Rightarrow> Some ''INT8_MIN'' | TYPE_INT16 \<Rightarrow> Some ''INT16_MIN''
      | TYPE_INT32 \<Rightarrow> Some ''INT32_MIN'' | TYPE_INT64 \<Rightarrow> Some ''INT64_MIN''
      | TYPE_UINT8 \<Rightarrow> Some ''((uint8_t)0)'' | TYPE_UINT16 \<Rightarrow> Some ''((uint16_t)0)''
      | TYPE_UINT32 \<Rightarrow> Some ''((uint32_t)0)'' | TYPE_UINT64 \<Rightarrow> Some ''((uint64_t)0)''
      | TYPE_ISIZE \<Rightarrow> Some ''PTRDIFF_MIN'' | TYPE_USIZE \<Rightarrow> Some ''((size_t)0)''
      | _ \<Rightarrow> None)"

definition prim_max_c :: "prim \<Rightarrow> string option" where
  "prim_max_c p =
     (case p of
        TYPE_INT8 \<Rightarrow> Some ''INT8_MAX'' | TYPE_INT16 \<Rightarrow> Some ''INT16_MAX''
      | TYPE_INT32 \<Rightarrow> Some ''INT32_MAX'' | TYPE_INT64 \<Rightarrow> Some ''INT64_MAX''
      | TYPE_UINT8 \<Rightarrow> Some ''UINT8_MAX'' | TYPE_UINT16 \<Rightarrow> Some ''UINT16_MAX''
      | TYPE_UINT32 \<Rightarrow> Some ''UINT32_MAX'' | TYPE_UINT64 \<Rightarrow> Some ''UINT64_MAX''
      | TYPE_ISIZE \<Rightarrow> Some ''PTRDIFF_MAX'' | TYPE_USIZE \<Rightarrow> Some ''SIZE_MAX''
      | _ \<Rightarrow> None)"

definition float_property_c :: "bool \<Rightarrow> string \<Rightarrow> string option" where
  "float_property_c is_f32 prop =
     (if prop = ''min'' then Some (if is_f32 then ''FLT_MIN'' else ''DBL_MIN'')
      else if prop = ''max'' then Some (if is_f32 then ''FLT_MAX'' else ''DBL_MAX'')
      else if prop = ''epsilon'' then Some (if is_f32 then ''FLT_EPSILON'' else ''DBL_EPSILON'')
      else if prop = ''nan'' then Some (if is_f32 then ''((float)NAN)'' else ''((double)NAN)'')
      else if prop = ''inf'' then Some (if is_f32 then ''((float)INFINITY)'' else ''((double)INFINITY)'')
      else if prop = ''neg_inf''
           then Some (if is_f32 then ''((float)(-INFINITY))'' else ''((double)(-INFINITY))'')
      else None)"

definition type_property_c :: "ctype \<Rightarrow> string \<Rightarrow> string option" where
  "type_property_c t prop =
     (if \<not> type_is_integer t \<and> \<not> type_is_float t then None
      else case kind t of
             Prim p \<Rightarrow>
               if prop = ''bits'' then prim_bits_c p
               else if type_is_integer t then
                 (if prop = ''min'' then prim_min_c p else if prop = ''max'' then prim_max_c p else None)
               else float_property_c (p = TYPE_FLOAT32) prop
           | _ \<Rightarrow> None)"

datatype prop_header = PROP_HEADER_NONE | PROP_HEADER_FLOAT | PROP_HEADER_MATH

definition type_property_header :: "ctype \<Rightarrow> string \<Rightarrow> prop_header" where
  "type_property_header t prop =
     (if \<not> type_is_float t then PROP_HEADER_NONE
      else if prop = ''nan'' \<or> prop = ''inf'' \<or> prop = ''neg_inf'' then PROP_HEADER_MATH
      else if prop = ''min'' \<or> prop = ''max'' \<or> prop = ''epsilon'' then PROP_HEADER_FLOAT
      else PROP_HEADER_NONE)"

subsection \<open>Names the source gives to types\<close>

definition INT_SUFFIXES :: "(string \<times> ctype) list" where
  "INT_SUFFIXES =
     [(''i8'', type_int8), (''i16'', type_int16), (''i32'', type_int32), (''i64'', type_int64),
      (''u8'', type_uint8), (''u16'', type_uint16), (''u32'', type_uint32), (''u64'', type_uint64),
      (''isize'', type_isize), (''usize'', type_usize)]"

definition type_from_int_suffix :: "string \<Rightarrow> ctype option" where
  "type_from_int_suffix s = (if s = [] then Some type_int32 else map_of INT_SUFFIXES s)"

definition type_from_float_suffix :: "string \<Rightarrow> ctype option" where
  "type_from_float_suffix s =
     (if s = ''f32'' then Some type_float32 else if s = ''f64'' then Some type_float64 else None)"

definition PRIMITIVE_TYPES :: "(string \<times> ctype) list" where
  "PRIMITIVE_TYPES =
     [(''i8'', type_int8), (''i16'', type_int16), (''i32'', type_int32), (''i64'', type_int64),
      (''u8'', type_uint8), (''u16'', type_uint16), (''u32'', type_uint32), (''u64'', type_uint64),
      (''f32'', type_float32), (''f64'', type_float64), (''bool'', type_bool), (''char'', type_char),
      (''str'', type_str), (''cstr'', type_cstr), (''any'', type_any_ptr),
      (''isize'', type_isize), (''usize'', type_usize)]"

definition type_from_name :: "string \<Rightarrow> ctype option" where
  "type_from_name s = map_of PRIMITIVE_TYPES s"

end
