(* ===== verification/FC_TypeEq.thy ===== *)
theory FC_TypeEq
  imports FC_Type
begin

section \<open>Type equality (\<open>src/types.c\<close>)\<close>

text \<open>
  \<open>types_equal\<close> compares two types, with or without the const qualifiers of pointers, slices
  and \<open>any*\<close>. Equal pointers are equal types at once in the code; the model compares the
  trees, which answers the same on every type whose const expressions hold only the nodes
  of a const argument (lemma \<open>types_equal_refl\<close>). The first equation of each constructor of the
  left type is the case where the kinds agree; \<open>kinds_differ\<close> is the test the code makes when
  they do not.
\<close>

fun const_expr_eq :: "cexpr \<Rightarrow> cexpr \<Rightarrow> bool" where
  "const_expr_eq (CIntLit _ _ v _) b = (case b of CIntLit _ _ w _ \<Rightarrow> v = w | _ \<Rightarrow> False)"
| "const_expr_eq (CBoolLit _ _ v) b = (case b of CBoolLit _ _ w \<Rightarrow> v = w | _ \<Rightarrow> False)"
| "const_expr_eq (CTypeVarRef _ _ n) b = (case b of CTypeVarRef _ _ m \<Rightarrow> n = m | _ \<Rightarrow> False)"
| "const_expr_eq (CUnary _ _ op x) b =
     (case b of CUnary _ _ op' y \<Rightarrow> op = op' \<and> const_expr_eq x y | _ \<Rightarrow> False)"
| "const_expr_eq (CBinary _ _ op l r) b =
     (case b of CBinary _ _ op' l' r' \<Rightarrow> op = op' \<and> const_expr_eq l l' \<and> const_expr_eq r r'
      | _ \<Rightarrow> False)"
| "const_expr_eq (CCast _ _ tg x) b =
     (case b of CCast _ _ tg' y \<Rightarrow>
        (case (tg, tg') of (Some t, Some t') \<Rightarrow> kind t = kind t' | _ \<Rightarrow> False) \<and> const_expr_eq x y
      | _ \<Rightarrow> False)"
| "const_expr_eq (COther _ _ _) b = False"

definition type_udt_name :: "ctype \<Rightarrow> string option" where
  "type_udt_name t =
     (case t of TStub _ s _ \<Rightarrow> Some (st_name s) | TStruct _ s _ _ \<Rightarrow> sc_name s
      | TUnion _ u _ _ \<Rightarrow> Some (un_name u) | TEnum _ e _ \<Rightarrow> Some (en_name e) | _ \<Rightarrow> None)"

definition kinds_differ :: "ctype \<Rightarrow> ctype \<Rightarrow> bool" where
  "kinds_differ a b \<longleftrightarrow>
     kind a = TYPE_ERROR \<or> kind b = TYPE_ERROR \<or>
     (case (type_udt_name a, type_udt_name b) of (Some na, Some nb) \<Rightarrow> na = nb | _ \<Rightarrow> False)"

fun types_equal :: "bool \<Rightarrow> ctype \<Rightarrow> ctype \<Rightarrow> bool"
  and types_equal_list :: "bool \<Rightarrow> ctype list \<Rightarrow> ctype list \<Rightarrow> bool" where
  "types_equal wc (TPrim i p) b =
     (case b of TPrim j q \<Rightarrow> p = q | _ \<Rightarrow> kinds_differ (TPrim i p) b)"
| "types_equal wc (TPointer i p) b =
     (case b of TPointer j q \<Rightarrow> (wc \<longrightarrow> ti_const i = ti_const j) \<and> types_equal wc p q
      | _ \<Rightarrow> kinds_differ (TPointer i p) b)"
| "types_equal wc (TSlice i p) b =
     (case b of TSlice j q \<Rightarrow> (wc \<longrightarrow> ti_const i = ti_const j) \<and> types_equal wc p q
      | _ \<Rightarrow> kinds_differ (TSlice i p) b)"
| "types_equal wc (TOption i p) b =
     (case b of TOption j q \<Rightarrow> types_equal wc p q | _ \<Rightarrow> kinds_differ (TOption i p) b)"
| "types_equal wc (TResult i p) b =
     (case b of TResult j q \<Rightarrow> types_equal wc p q | _ \<Rightarrow> kinds_differ (TResult i p) b)"
| "types_equal wc (TFunc i ps r v tp) b =
     (case b of TFunc j qs r' v' tp' \<Rightarrow>
        length ps = length qs \<and> v = v' \<and> types_equal_list wc ps qs \<and> types_equal wc r r'
      | _ \<Rightarrow> kinds_differ (TFunc i ps r v tp) b)"
| "types_equal wc (TStruct i s fs as) b =
     (case b of TStruct j s' fs' as' \<Rightarrow>
        (if sc_is_tuple s \<or> sc_is_tuple s' then
           sc_is_tuple s \<and> sc_is_tuple s' \<and> length fs = length fs' \<and>
           types_equal_list wc (map f_type fs) (map f_type fs')
         else sc_name s = sc_name s')
      | _ \<Rightarrow> kinds_differ (TStruct i s fs as) b)"
| "types_equal wc (TUnion i u vs as) b =
     (case b of TUnion j u' vs' as' \<Rightarrow> un_name u = un_name u' | _ \<Rightarrow> kinds_differ (TUnion i u vs as) b)"
| "types_equal wc (TEnum i e r) b =
     (case b of TEnum j e' r' \<Rightarrow> en_name e = en_name e' | _ \<Rightarrow> kinds_differ (TEnum i e r) b)"
| "types_equal wc (TAnyPtr i) b =
     (case b of TAnyPtr j \<Rightarrow> wc \<longrightarrow> ti_const i = ti_const j | _ \<Rightarrow> kinds_differ (TAnyPtr i) b)"
| "types_equal wc (TTypeVar i n) b =
     (case b of TTypeVar j m \<Rightarrow> n = m | _ \<Rightarrow> kinds_differ (TTypeVar i n) b)"
| "types_equal wc (TFixedArray i e sz ref) b =
     (case b of TFixedArray j e' sz' ref' \<Rightarrow>
        (case (ref, ref') of
           (None, None) \<Rightarrow> sz = sz' \<and> types_equal wc e e'
         | (Some x, Some y) \<Rightarrow> types_equal True x y \<and> types_equal wc e e'
         | _ \<Rightarrow> False)
      | _ \<Rightarrow> kinds_differ (TFixedArray i e sz ref) b)"
| "types_equal wc (TConstInt i v) b =
     (case b of TConstInt j w \<Rightarrow> v = w | _ \<Rightarrow> kinds_differ (TConstInt i v) b)"
| "types_equal wc (TConstExpr i x) b =
     (case b of TConstExpr j y \<Rightarrow> const_expr_eq x y | _ \<Rightarrow> kinds_differ (TConstExpr i x) b)"
| "types_equal wc (TStub i s as) b =
     (case b of TStub j s' as' \<Rightarrow> st_name s = st_name s' | _ \<Rightarrow> kinds_differ (TStub i s as) b)"
| "types_equal wc (TError i) b = True"
| "types_equal wc (TNever i) b = (case b of TNever j \<Rightarrow> True | _ \<Rightarrow> kinds_differ (TNever i) b)"
| "types_equal wc (TUnresolved i) b =
     (case b of TUnresolved j \<Rightarrow> True | _ \<Rightarrow> kinds_differ (TUnresolved i) b)"
| "types_equal_list wc [] bs = True"
| "types_equal_list wc (a # as) bs =
     (case bs of [] \<Rightarrow> True | b # bs' \<Rightarrow> types_equal wc a b \<and> types_equal_list wc as bs')"

definition type_eq :: "ctype \<Rightarrow> ctype \<Rightarrow> bool" where "type_eq = types_equal True"

definition type_eq_ignore_const :: "ctype \<Rightarrow> ctype \<Rightarrow> bool" where
  "type_eq_ignore_const = types_equal False"

subsection \<open>What equality compares\<close>

text \<open>
  The part of a type that equality looks at. Named types count by name, tuples by their
  elements, const expressions as trees without locations.
\<close>

datatype ekey =
    EInt u64 | EBool bool | EVar string | EUnary token_kind ekey
  | EBinary token_kind ekey ekey | ECast type_kind ekey | EOther

datatype tkey =
    KPrim prim | KPointer bool tkey | KSlice bool tkey | KOption tkey | KResult tkey
  | KFunc "tkey list" tkey bool | KTuple "tkey list" | KNamed string | KAny bool | KVar string
  | KArray tkey u64 | KArraySym tkey tkey | KInt u64 | KExpr ekey | KErr | KNever | KUnresolved

fun expr_key :: "cexpr \<Rightarrow> ekey" where
  "expr_key (CIntLit _ _ v _) = EInt v"
| "expr_key (CBoolLit _ _ b) = EBool b"
| "expr_key (CTypeVarRef _ _ n) = EVar n"
| "expr_key (CUnary _ _ op e) = EUnary op (expr_key e)"
| "expr_key (CBinary _ _ op l r) = EBinary op (expr_key l) (expr_key r)"
| "expr_key (CCast _ _ t e) = (case t of None \<Rightarrow> EOther | Some t \<Rightarrow> ECast (kind t) (expr_key e))"
| "expr_key (COther _ _ _) = EOther"

fun type_key :: "bool \<Rightarrow> ctype \<Rightarrow> tkey" where
  "type_key wc (TPrim _ p) = KPrim p"
| "type_key wc (TPointer i t) = KPointer (wc \<and> ti_const i) (type_key wc t)"
| "type_key wc (TSlice i t) = KSlice (wc \<and> ti_const i) (type_key wc t)"
| "type_key wc (TOption _ t) = KOption (type_key wc t)"
| "type_key wc (TResult _ t) = KResult (type_key wc t)"
| "type_key wc (TFunc _ ps r v _) = KFunc (map (type_key wc) ps) (type_key wc r) v"
| "type_key wc (TStruct _ s fs _) =
     (if sc_is_tuple s then KTuple (map (\<lambda>f. type_key wc (f_type f)) fs)
      else KNamed (case sc_name s of Some n \<Rightarrow> n | None \<Rightarrow> []))"
| "type_key wc (TUnion _ u _ _) = KNamed (un_name u)"
| "type_key wc (TEnum _ e _) = KNamed (en_name e)"
| "type_key wc (TStub _ s _) = KNamed (st_name s)"
| "type_key wc (TAnyPtr i) = KAny (wc \<and> ti_const i)"
| "type_key wc (TTypeVar _ n) = KVar n"
| "type_key wc (TFixedArray _ e sz r) =
     (case r of None \<Rightarrow> KArray (type_key wc e) sz | Some x \<Rightarrow> KArraySym (type_key wc e) (type_key True x))"
| "type_key wc (TConstInt _ v) = KInt v"
| "type_key wc (TConstExpr _ e) = KExpr (expr_key e)"
| "type_key wc (TError _) = KErr"
| "type_key wc (TNever _) = KNever"
| "type_key wc (TUnresolved _) = KUnresolved"

text \<open>
  The types equality is an equivalence on: no poison, const expressions of the admitted nodes,
  and the two name spaces apart (canonical tuple names start with \<open>fc_tuple\<close>, a declaration's
  name does not).
\<close>

fun normal_cexpr :: "cexpr \<Rightarrow> bool" where
  "normal_cexpr (CUnary _ _ op e) = normal_cexpr e"
| "normal_cexpr (CBinary _ _ op l r) \<longleftrightarrow> normal_cexpr l \<and> normal_cexpr r"
| "normal_cexpr (CCast _ _ t e) \<longleftrightarrow> t \<noteq> None \<and> normal_cexpr e"
| "normal_cexpr (COther _ _ _) \<longleftrightarrow> False"
| "normal_cexpr _ \<longleftrightarrow> True"

definition tuple_name :: "string \<Rightarrow> bool" where
  "tuple_name n \<longleftrightarrow> take 8 n = ''fc_tuple''"

fun normal_type :: "ctype \<Rightarrow> bool" where
  "normal_type (TPointer _ t) = normal_type t"
| "normal_type (TSlice _ t) = normal_type t"
| "normal_type (TOption _ t) = normal_type t"
| "normal_type (TResult _ t) = normal_type t"
| "normal_type (TFunc _ ps r _ _) \<longleftrightarrow> (\<forall>p \<in> set ps. normal_type p) \<and> normal_type r"
| "normal_type (TStruct _ s fs _) \<longleftrightarrow>
     (if sc_is_tuple s
      then (case sc_name s of None \<Rightarrow> True | Some n \<Rightarrow> tuple_name n) \<and> (\<forall>f \<in> set fs. normal_type (f_type f))
      else (case sc_name s of None \<Rightarrow> False | Some n \<Rightarrow> \<not> tuple_name n))"
| "normal_type (TUnion _ u _ _) \<longleftrightarrow> \<not> tuple_name (un_name u)"
| "normal_type (TEnum _ e _) \<longleftrightarrow> \<not> tuple_name (en_name e)"
| "normal_type (TStub _ s _) \<longleftrightarrow> \<not> tuple_name (st_name s)"
| "normal_type (TFixedArray _ e _ r) \<longleftrightarrow> normal_type e \<and> (case r of None \<Rightarrow> True | Some x \<Rightarrow> normal_type x)"
| "normal_type (TConstExpr _ e) = normal_cexpr e"
| "normal_type (TError _) = False"
| "normal_type _ = True"

lemma const_expr_eq_key:
  "normal_cexpr a \<Longrightarrow> normal_cexpr b \<Longrightarrow> const_expr_eq a b \<longleftrightarrow> expr_key a = expr_key b"
  by (induction a arbitrary: b) (auto split: cexpr.split option.split)

lemma normal_not_error: "normal_type t \<Longrightarrow> kind t \<noteq> TYPE_ERROR"
  by (cases t) auto

text \<open>Types of different kinds are equal only as two views of one named declaration.\<close>

lemma kinds_differ_key:
  assumes "normal_type a" and "normal_type b" and "kind a \<noteq> kind b"
  shows "kinds_differ a b \<longleftrightarrow> type_key wc a = type_key wc b"
  using assms
  by (cases a; cases b)
    (auto simp: kinds_differ_def type_udt_name_def split: option.splits if_splits)

lemma types_equal_list_key:
  assumes "length as = length bs"
    and "\<And>a b. a \<in> set as \<Longrightarrow> b \<in> set bs \<Longrightarrow> types_equal wc a b \<longleftrightarrow> type_key wc a = type_key wc b"
  shows "types_equal_list wc as bs \<longleftrightarrow> map (type_key wc) as = map (type_key wc) bs"
  using assms by (induction as bs rule: list_induct2) auto

lemma types_equal_key_aux:
  "normal_type a \<Longrightarrow> normal_type b \<Longrightarrow> types_equal wc a b \<longleftrightarrow> type_key wc a = type_key wc b"
proof (induction a arbitrary: b wc rule: measure_induct_rule [of size])
  case (less a)
  note nk = normal_not_error [OF less.prems(2)]
  have diff: "kind a \<noteq> kind b \<Longrightarrow> kinds_differ a b \<longleftrightarrow> type_key wc a = type_key wc b"
    by (rule kinds_differ_key [OF less.prems])
  show ?case
  proof (cases a)
    case (TFunc i ps r v tp)
    show ?thesis
    proof (cases "kind b = TYPE_FUNC")
      case True
      then obtain j qs r' v' tp' where b: "b = TFunc j qs r' v' tp'"
        by (cases b) auto
      have "types_equal_list wc ps qs \<longleftrightarrow> map (type_key wc) ps = map (type_key wc) qs"
        if "length ps = length qs"
      proof (rule types_equal_list_key [OF that])
        fix x y assume xy: "x \<in> set ps" "y \<in> set qs"
        have "size x \<le> size_list size ps"
          by (rule size_list_estimation' [OF xy(1)]) simp
        then show "types_equal wc x y \<longleftrightarrow> type_key wc x = type_key wc y"
          by (intro less.IH) (use xy less.prems TFunc b in auto)
      qed
      moreover have "types_equal wc r r' \<longleftrightarrow> type_key wc r = type_key wc r'"
        by (rule less.IH) (use less.prems TFunc b in auto)
      ultimately show ?thesis
        using TFunc b by (auto dest: map_eq_imp_length_eq)
    next
      case False
      then show ?thesis using diff TFunc by (cases b) auto
    qed
  next
    case (TStruct i s fs as)
    show ?thesis
    proof (cases "kind b = TYPE_STRUCT")
      case True
      then obtain j s' fs' as' where b: "b = TStruct j s' fs' as'"
        by (cases b) auto
      have "types_equal_list wc (map f_type fs) (map f_type fs') \<longleftrightarrow>
            map (type_key wc) (map f_type fs) = map (type_key wc) (map f_type fs')"
        if "length fs = length fs'" "sc_is_tuple s" "sc_is_tuple s'"
      proof (rule types_equal_list_key)
        fix x y assume "x \<in> set (map f_type fs)" "y \<in> set (map f_type fs')"
        then obtain f g where fg: "x = f_type f" "f \<in> set fs" "y = f_type g" "g \<in> set fs'"
          by auto
        have "size x < size a"
          using size_field_lt [OF fg(2)] TStruct by (simp add: fg(1))
        then show "types_equal wc x y \<longleftrightarrow> type_key wc x = type_key wc y"
          by (rule less.IH) (use that fg less.prems TStruct b in auto)
      qed (use that in simp)
      then show ?thesis
        using TStruct b less.prems
        by (auto simp: comp_def dest: map_eq_imp_length_eq split: option.splits if_splits)
    next
      case False
      then show ?thesis using diff TStruct by (cases b) auto
    qed
  next
    case (TFixedArray i e sz ref)
    show ?thesis
    proof (cases "kind b = TYPE_FIXED_ARRAY")
      case True
      then obtain j e' sz' ref' where b: "b = TFixedArray j e' sz' ref'"
        by (cases b) auto
      have "types_equal wc e e' \<longleftrightarrow> type_key wc e = type_key wc e'"
        by (rule less.IH) (use less.prems TFixedArray b in auto)
      moreover have "types_equal True x y \<longleftrightarrow> type_key True x = type_key True y"
        if "ref = Some x" "ref' = Some y" for x y
        by (rule less.IH) (use less.prems TFixedArray b that in auto)
      ultimately show ?thesis
        using TFixedArray b by (auto split: option.splits)
    next
      case False
      then show ?thesis using diff TFixedArray by (cases b) auto
    qed
  next
    case (TConstExpr i x)
    show ?thesis
    proof (cases "kind b = TYPE_CONST_EXPR")
      case True
      then obtain j y where b: "b = TConstExpr j y"
        by (cases b) auto
      with TConstExpr less.prems show ?thesis by (simp add: const_expr_eq_key)
    next
      case False
      then show ?thesis using diff TConstExpr by (cases b) auto
    qed
  next
    case (TPointer i p)
    then show ?thesis
      using diff less by (cases b) auto
  next
    case (TSlice i p)
    then show ?thesis
      using diff less by (cases b) auto
  next
    case (TOption i p)
    then show ?thesis
      using diff less by (cases b) auto
  next
    case (TResult i p)
    then show ?thesis
      using diff less by (cases b) auto
  next
    case (TPrim i p)
    then show ?thesis
      using diff less.prems by (cases b) simp_all
  next
    case (TUnion i u vs as)
    then show ?thesis
      using diff less.prems by (cases b) simp_all
  next
    case (TEnum i e r)
    then show ?thesis
      using diff less.prems by (cases b) simp_all
  next
    case (TAnyPtr i)
    then show ?thesis
      using diff less.prems by (cases b) auto
  next
    case (TTypeVar i n)
    then show ?thesis
      using diff less.prems by (cases b) simp_all
  next
    case (TConstInt i v)
    then show ?thesis
      using diff less.prems by (cases b) simp_all
  next
    case (TStub i s as)
    then show ?thesis
      using diff less.prems by (cases b) simp_all
  next
    case (TError i)
    then show ?thesis
      using diff less.prems by (cases b) simp_all
  next
    case (TNever i)
    then show ?thesis
      using diff less.prems by (cases b) simp_all
  next
    case (TUnresolved i)
    then show ?thesis
      using diff less.prems by (cases b) simp_all
  qed
qed

lemma types_equal_iff_key:
  "normal_type a \<Longrightarrow> normal_type b \<Longrightarrow> type_eq a b \<longleftrightarrow> type_key True a = type_key True b"
  "normal_type a \<Longrightarrow> normal_type b \<Longrightarrow> type_eq_ignore_const a b \<longleftrightarrow> type_key False a = type_key False b"
  by (simp_all add: type_eq_def type_eq_ignore_const_def types_equal_key_aux)

lemma types_equal_refl: "normal_type t \<Longrightarrow> types_equal wc t t"
  by (simp add: types_equal_key_aux)

text \<open>Ignoring const is equality of the keys with every const flag cleared.\<close>

fun forget_const :: "tkey \<Rightarrow> tkey" where
  "forget_const (KPointer c k) = KPointer False (forget_const k)"
| "forget_const (KSlice c k) = KSlice False (forget_const k)"
| "forget_const (KOption k) = KOption (forget_const k)"
| "forget_const (KResult k) = KResult (forget_const k)"
| "forget_const (KFunc ks k v) = KFunc (map forget_const ks) (forget_const k) v"
| "forget_const (KTuple ks) = KTuple (map forget_const ks)"
| "forget_const (KAny c) = KAny False"
| "forget_const (KArray k n) = KArray (forget_const k) n"
| "forget_const (KArraySym k r) = KArraySym (forget_const k) r"
| "forget_const k = k"

lemma type_key_forget: "type_key False t = forget_const (type_key True t)"
proof (induction t rule: measure_induct_rule [of size])
  case (less t)
  show ?case
  proof (cases t)
    case (TFunc i ps r v tp)
    have "type_key False p = forget_const (type_key True p)" if "p \<in> set ps" for p
    proof -
      have "size p \<le> size_list size ps"
        by (rule size_list_estimation' [OF that]) simp
      then show ?thesis using less.IH TFunc by simp
    qed
    then show ?thesis
      using less.IH [of r] TFunc by simp
  next
    case (TStruct i s fs as)
    have "type_key False (f_type f) = forget_const (type_key True (f_type f))" if "f \<in> set fs" for f
      using less.IH size_field_lt [OF that] TStruct by simp
    then show ?thesis
      using TStruct by simp
  next
    case (TFixedArray i e n r)
    then show ?thesis
      using less.IH [of e] by (auto split: option.splits)
  qed (use less.IH in simp_all)
qed

lemma type_eq_implies_ignore_const:
  "normal_type a \<Longrightarrow> normal_type b \<Longrightarrow> type_eq a b \<Longrightarrow> type_eq_ignore_const a b"
  by (simp add: types_equal_iff_key type_key_forget)

lemma type_eq_equivalence:
  assumes "normal_type a" "normal_type b" "normal_type c"
  shows "type_eq a a" "type_eq a b \<longleftrightarrow> type_eq b a" "type_eq a b \<Longrightarrow> type_eq b c \<Longrightarrow> type_eq a c"
  using assms by (auto simp: types_equal_iff_key)

subsection \<open>Properties\<close>

text \<open>
  C2: \<open>type_eq\<close> is an equivalence on normal types (no poison type; const expressions of the
  admitted nodes), it is equality of what a type is made of (the keys: names for declared
  types, elements for tuples, const flags on pointers, slices and \<open>any*\<close>), and ignoring const
  is equality of the keys with every const flag cleared, so it is coarser.
\<close>

theorem type_eq_is_key_equality:
  assumes "normal_type a" and "normal_type b"
  shows "(type_eq a b \<longleftrightarrow> type_key True a = type_key True b) \<and>
    (type_eq_ignore_const a b \<longleftrightarrow> forget_const (type_key True a) = forget_const (type_key True b)) \<and>
    type_eq a a \<and> (type_eq a b \<longleftrightarrow> type_eq b a) \<and> (type_eq a b \<longrightarrow> type_eq_ignore_const a b)"
  using assms by (simp add: types_equal_iff_key type_key_forget eq_commute)

lemma type_eq_is_key_equality_witness:
  "type_eq (type_pointer type_int32) (type_pointer type_int32) \<and>
   \<not> type_eq (type_pointer type_int32) (set_const True (type_pointer type_int32)) \<and>
   type_eq_ignore_const (type_pointer type_int32) (set_const True (type_pointer type_int32))"
  using type_eq_is_key_equality [of "type_pointer type_int32" "set_const True (type_pointer type_int32)"]
  by (simp add: type_pointer_def type_int32_def set_const_def plain_def)

end
