(* ===== verification/FC_Widen.thy ===== *)
theory FC_Widen
  imports FC_TypeEq
begin

section \<open>Implicit widening (\<open>src/types.c\<close>)\<close>

text \<open>
  Which values convert without a cast: the widenings that change no bits (\<open>const\<close> added, a
  pointer to \<open>any*\<close>), the same inside an option, and the numeric widenings. The lemmas say
  that the integer table is exactly the lossless pairs of fixed-width types, that widening is
  reflexive and transitive, and that \<open>type_common_numeric\<close> returns an upper bound.
\<close>

definition elem_const_absorbed :: "ctype \<Rightarrow> ctype \<Rightarrow> bool" where
  "elem_const_absorbed from_elem to_elem =
     (if type_eq from_elem to_elem then True
      else if \<not> is_const from_elem \<or> is_const to_elem then False
      else type_eq (set_const False from_elem) to_elem)"

definition type_widen_repr_preserving :: "ctype \<Rightarrow> ctype \<Rightarrow> bool" where
  "type_widen_repr_preserving f t =
     (if type_eq f t then True
      else if is_const t \<and> \<not> is_const f \<and>
              (case (f, t) of
                 (TPointer _ p, TPointer _ q) \<Rightarrow> elem_const_absorbed p q
               | (TSlice _ p, TSlice _ q) \<Rightarrow> elem_const_absorbed p q
               | (TAnyPtr _, TAnyPtr _) \<Rightarrow> True
               | _ \<Rightarrow> False) then True
      else if kind t = TYPE_ANY_PTR \<and> kind f = TYPE_POINTER then \<not> (is_const f \<and> \<not> is_const t)
      else False)"

definition numeric_widen :: "type_kind \<Rightarrow> type_kind \<Rightarrow> bool" where
  "numeric_widen f t =
     (if f = Prim TYPE_INT8 then t \<in> Prim ` {TYPE_INT16, TYPE_INT32, TYPE_INT64}
      else if f = Prim TYPE_INT16 then t \<in> Prim ` {TYPE_INT32, TYPE_INT64}
      else if f = Prim TYPE_INT32 then t = Prim TYPE_INT64
      else if f = Prim TYPE_UINT8 then
        t \<in> Prim ` {TYPE_UINT16, TYPE_UINT32, TYPE_UINT64, TYPE_INT16, TYPE_INT32, TYPE_INT64}
      else if f = Prim TYPE_UINT16 then
        t \<in> Prim ` {TYPE_UINT32, TYPE_UINT64, TYPE_INT32, TYPE_INT64}
      else if f = Prim TYPE_UINT32 then t \<in> Prim ` {TYPE_UINT64, TYPE_INT64}
      else if f = Prim TYPE_FLOAT32 then t = Prim TYPE_FLOAT64
      else False)"

definition type_can_widen :: "ctype \<Rightarrow> ctype \<Rightarrow> bool" where
  "type_can_widen f t =
     (if kind f = TYPE_ERROR \<or> kind t = TYPE_ERROR then True
      else if type_eq f t then True
      else if type_widen_repr_preserving f t then True
      else case (f, t) of
             (TOption _ p, TOption _ q) \<Rightarrow> type_widen_repr_preserving p q
           | _ \<Rightarrow> numeric_widen (kind f) (kind t))"

definition type_common_numeric :: "ctype \<Rightarrow> ctype \<Rightarrow> ctype option" where
  "type_common_numeric a b =
     (if kind a = TYPE_ERROR then Some b
      else if kind b = TYPE_ERROR then Some a
      else if type_eq a b then Some a
      else if type_can_widen a b then Some b
      else if type_can_widen b a then Some a
      else None)"

subsection \<open>Numeric widening is lossless, and complete\<close>

text \<open>The values of a fixed-width integer type.\<close>

definition int_values :: "prim \<Rightarrow> int set" where
  "int_values p =
     (case p of
        TYPE_INT8 \<Rightarrow> {- (2 ^ 7) ..< 2 ^ 7} | TYPE_INT16 \<Rightarrow> {- (2 ^ 15) ..< 2 ^ 15}
      | TYPE_INT32 \<Rightarrow> {- (2 ^ 31) ..< 2 ^ 31} | TYPE_INT64 \<Rightarrow> {- (2 ^ 63) ..< 2 ^ 63}
      | TYPE_UINT8 \<Rightarrow> {0 ..< 2 ^ 8} | TYPE_UINT16 \<Rightarrow> {0 ..< 2 ^ 16}
      | TYPE_UINT32 \<Rightarrow> {0 ..< 2 ^ 32} | TYPE_UINT64 \<Rightarrow> {0 ..< 2 ^ 64}
      | _ \<Rightarrow> {})"

definition fixed_int :: "prim \<Rightarrow> bool" where
  "fixed_int p \<longleftrightarrow> p \<in> {TYPE_INT8, TYPE_INT16, TYPE_INT32, TYPE_INT64,
                        TYPE_UINT8, TYPE_UINT16, TYPE_UINT32, TYPE_UINT64}"

lemma prim_widen_iff:
  "type_can_widen (TPrim i p) (TPrim j q) \<longleftrightarrow> p = q \<or> numeric_widen (Prim p) (Prim q)"
  by (auto simp: type_can_widen_def type_eq_def type_widen_repr_preserving_def)

lemma int_widen_lossless_iff:
  assumes "fixed_int p" and "fixed_int q"
  shows "type_can_widen (TPrim i p) (TPrim j q) \<longleftrightarrow> int_values p \<subseteq> int_values q"
  unfolding prim_widen_iff using assms
  by (cases p; cases q) (simp_all add: fixed_int_def int_values_def numeric_widen_def)

subsection \<open>Widening is a preorder\<close>

text \<open>
  On the types the checker builds: normal, and with the const flag only on the pointers,
  slices and \<open>any*\<close> that carry it, here down to the depth widening looks at.
\<close>

definition const_ok :: "ctype \<Rightarrow> bool" where
  "const_ok t \<longleftrightarrow> (is_const t \<longrightarrow> const_carrier t)"

fun widen_type :: "ctype \<Rightarrow> bool" where
  "widen_type (TPointer i t) \<longleftrightarrow> normal_type t \<and> const_ok t"
| "widen_type (TSlice i t) \<longleftrightarrow> normal_type t \<and> const_ok t"
| "widen_type (TOption i t) \<longleftrightarrow> widen_type t \<and> \<not> ti_const i"
| "widen_type t \<longleftrightarrow> normal_type t \<and> const_ok t"

lemma widen_type_normal: "widen_type t \<Longrightarrow> normal_type t \<and> const_ok t"
  by (induction t rule: widen_type.induct)
    (auto simp: const_ok_def const_carrier_def is_const_def)

lemma normal_set_const [simp]: "normal_type (set_const b t) = normal_type t"
  by (cases t) (simp_all add: set_const_def)

lemma type_eq_trans:
  "type_eq a b \<Longrightarrow> type_eq b c \<Longrightarrow> normal_type a \<Longrightarrow> normal_type b \<Longrightarrow> normal_type c \<Longrightarrow> type_eq a c"
  using type_eq_equivalence by blast

text \<open>Equality seen from each of the kinds widening distinguishes.\<close>

lemma type_eq_pointer:
  "normal_type b \<Longrightarrow> type_eq (TPointer i p) b \<longleftrightarrow>
     (\<exists>j q. b = TPointer j q \<and> ti_const i = ti_const j \<and> type_eq p q)"
  by (cases b) (auto simp: type_eq_def kinds_differ_def type_udt_name_def)

lemma type_eq_slice:
  "normal_type b \<Longrightarrow> type_eq (TSlice i p) b \<longleftrightarrow>
     (\<exists>j q. b = TSlice j q \<and> ti_const i = ti_const j \<and> type_eq p q)"
  by (cases b) (auto simp: type_eq_def kinds_differ_def type_udt_name_def)

lemma type_eq_option:
  "normal_type b \<Longrightarrow> type_eq (TOption i p) b \<longleftrightarrow> (\<exists>j q. b = TOption j q \<and> type_eq p q)"
  by (cases b) (auto simp: type_eq_def kinds_differ_def type_udt_name_def)

lemma type_eq_any:
  "normal_type b \<Longrightarrow> type_eq (TAnyPtr i) b \<longleftrightarrow> (\<exists>j. b = TAnyPtr j \<and> ti_const i = ti_const j)"
  by (cases b) (auto simp: type_eq_def kinds_differ_def type_udt_name_def)

lemma type_eq_prim:
  "normal_type b \<Longrightarrow> type_eq (TPrim i p) b \<longleftrightarrow> (\<exists>j. b = TPrim j p)"
  by (cases b) (auto simp: type_eq_def kinds_differ_def type_udt_name_def)

lemmas type_eq_kinds = type_eq_pointer type_eq_slice type_eq_option type_eq_any type_eq_prim

text \<open>\<open>type_eq\<close> determines the const flag of a carrier, and survives dropping it.\<close>

lemma type_eq_const:
  assumes "type_eq a b" "normal_type a" "normal_type b" "const_ok a" "const_ok b"
  shows "is_const a = is_const b"
proof -
  have same: "type_key True a = type_key True b"
    using assms by (simp add: types_equal_iff_key)
  have flag: "is_const t \<longleftrightarrow> (\<exists>k. type_key True t = KPointer True k \<or> type_key True t = KSlice True k)
      \<or> type_key True t = KAny True" if "const_ok t" for t
    using that
    by (cases t) (auto simp: const_ok_def const_carrier_def is_const_def split: option.splits)
  show ?thesis
    using flag [OF assms(4)] flag [OF assms(5)] same by simp
qed

fun key_no_const :: "tkey \<Rightarrow> tkey" where
  "key_no_const (KPointer _ k) = KPointer False k"
| "key_no_const (KSlice _ k) = KSlice False k"
| "key_no_const (KAny _) = KAny False"
| "key_no_const k = k"

lemma type_key_set_const: "type_key True (set_const False t) = key_no_const (type_key True t)"
  by (cases t) (simp_all add: set_const_def split: option.splits)

lemma type_eq_set_const:
  "normal_type a \<Longrightarrow> normal_type b \<Longrightarrow> type_eq a b \<Longrightarrow> type_eq (set_const False a) (set_const False b)"
  by (simp add: types_equal_iff_key type_key_set_const)

lemma absorbed_eq_left:
  assumes "type_eq a b" "elem_const_absorbed b c" "normal_type a" "normal_type b" "normal_type c"
    "const_ok a" "const_ok b" "const_ok c"
  shows "elem_const_absorbed a c"
  using assms type_eq_const [OF assms(1)] type_eq_set_const [of a b]
  by (auto simp: elem_const_absorbed_def intro: type_eq_trans split: if_splits)

lemma absorbed_eq_right:
  assumes "elem_const_absorbed a b" "type_eq b c" "normal_type a" "normal_type b" "normal_type c"
    "const_ok a" "const_ok b" "const_ok c"
  shows "elem_const_absorbed a c"
  using assms type_eq_const [OF assms(2)]
  by (auto simp: elem_const_absorbed_def intro: type_eq_trans split: if_splits)

text \<open>The conversions \<open>type_widen_repr_preserving\<close> allows beyond equality.\<close>

inductive relaxes :: "ctype \<Rightarrow> ctype \<Rightarrow> bool" where
  relax_pointer: "\<not> ti_const i \<Longrightarrow> ti_const j \<Longrightarrow> elem_const_absorbed p q \<Longrightarrow>
     relaxes (TPointer i p) (TPointer j q)"
| relax_slice: "\<not> ti_const i \<Longrightarrow> ti_const j \<Longrightarrow> elem_const_absorbed p q \<Longrightarrow>
     relaxes (TSlice i p) (TSlice j q)"
| relax_any: "\<not> ti_const i \<Longrightarrow> ti_const j \<Longrightarrow> relaxes (TAnyPtr i) (TAnyPtr j)"
| relax_erase: "(ti_const i \<Longrightarrow> ti_const j) \<Longrightarrow> relaxes (TPointer i p) (TAnyPtr j)"

inductive_simps relaxes_pointer: "relaxes (TPointer i p) t"
inductive_simps relaxes_slice: "relaxes (TSlice i p) t"
inductive_simps relaxes_any: "relaxes (TAnyPtr i) t"

lemma any_eq: "type_eq (TAnyPtr i) (TAnyPtr j) \<longleftrightarrow> ti_const i = ti_const j"
  by (simp add: type_eq_def)

lemma repr_widen_iff: "type_widen_repr_preserving f t \<longleftrightarrow> type_eq f t \<or> relaxes f t"
  unfolding type_widen_repr_preserving_def is_const_def relaxes.simps
  by (cases f; cases t) (auto simp: any_eq)

lemma type_eq_sym: "type_eq a b \<Longrightarrow> normal_type a \<Longrightarrow> normal_type b \<Longrightarrow> type_eq b a"
  using type_eq_equivalence by blast

lemma eq_relaxes:
  assumes "type_eq a b" "relaxes b c" "widen_type a" "widen_type b" "widen_type c"
  shows "relaxes a c"
proof -
  have nb: "normal_type b" and na: "normal_type a"
    using assms widen_type_normal by blast+
  have swap: "type_eq b a"
    by (rule type_eq_sym [OF assms(1) na nb])
  show ?thesis
    using assms(2)
  proof (cases rule: relaxes.cases)
    case (relax_pointer i j p q)
    obtain k r where a: "a = TPointer k r" and eq: "ti_const i = ti_const k" "type_eq p r"
      using swap na by (auto simp: relax_pointer(1) type_eq_pointer)
    have "type_eq r p"
      using assms(3,4) a relax_pointer(1) type_eq_sym [OF eq(2)] by simp
    then have "elem_const_absorbed r q"
      using absorbed_eq_left [OF _ relax_pointer(5), of r] assms(3-5) a relax_pointer(1,2) by simp
    then show ?thesis
      using a eq relax_pointer by (simp add: relaxes_pointer)
  next
    case (relax_slice i j p q)
    obtain k r where a: "a = TSlice k r" and eq: "ti_const i = ti_const k" "type_eq p r"
      using swap na by (auto simp: relax_slice(1) type_eq_slice)
    have "type_eq r p"
      using assms(3,4) a relax_slice(1) type_eq_sym [OF eq(2)] by simp
    then have "elem_const_absorbed r q"
      using absorbed_eq_left [OF _ relax_slice(5), of r] assms(3-5) a relax_slice(1,2) by simp
    then show ?thesis
      using a eq relax_slice by (simp add: relaxes_slice)
  next
    case (relax_any i j)
    then show ?thesis using swap na by (auto simp: type_eq_any relaxes_any)
  next
    case (relax_erase i j p)
    then show ?thesis using swap na by (auto simp: type_eq_pointer relaxes_pointer)
  qed
qed

lemma relaxes_eq:
  assumes "relaxes a b" "type_eq b c" "widen_type a" "widen_type b" "widen_type c"
  shows "relaxes a c"
proof -
  have nc: "normal_type c"
    using assms widen_type_normal by blast
  show ?thesis
    using assms(1)
  proof (cases rule: relaxes.cases)
    case (relax_pointer i j p q)
    obtain k r where c: "c = TPointer k r" and eq: "ti_const j = ti_const k" "type_eq q r"
      using assms(2) nc by (auto simp: relax_pointer(2) type_eq_pointer)
    have "elem_const_absorbed p r"
      using absorbed_eq_right [OF relax_pointer(5) eq(2)] assms(3-5) c relax_pointer(1,2) by simp
    then show ?thesis
      using c eq relax_pointer by (simp add: relaxes_pointer)
  next
    case (relax_slice i j p q)
    obtain k r where c: "c = TSlice k r" and eq: "ti_const j = ti_const k" "type_eq q r"
      using assms(2) nc by (auto simp: relax_slice(2) type_eq_slice)
    have "elem_const_absorbed p r"
      using absorbed_eq_right [OF relax_slice(5) eq(2)] assms(3-5) c relax_slice(1,2) by simp
    then show ?thesis
      using c eq relax_slice by (simp add: relaxes_slice)
  next
    case (relax_any i j)
    then show ?thesis using assms(2) nc by (auto simp: type_eq_any relaxes_any)
  next
    case (relax_erase i j p)
    then show ?thesis using assms(2) nc by (auto simp: type_eq_any relaxes_pointer)
  qed
qed

lemma relaxes_trans: "relaxes a b \<Longrightarrow> relaxes b c \<Longrightarrow> relaxes a c"
  by (erule relaxes.cases) (auto simp: relaxes_pointer relaxes_slice relaxes_any)

lemma repr_widen_trans:
  assumes "type_widen_repr_preserving a b" "type_widen_repr_preserving b c"
    and "widen_type a" "widen_type b" "widen_type c"
  shows "type_widen_repr_preserving a c"
  using assms eq_relaxes [of a b c] relaxes_eq [of a b c] relaxes_trans [of a b c]
    type_eq_trans [of a b c] widen_type_normal
  unfolding repr_widen_iff by blast

text \<open>Outside the error type, widening seen from each kind.\<close>

lemma numeric_widen_prim: "numeric_widen k l \<Longrightarrow> (\<exists>p q. k = Prim p \<and> l = Prim q)"
  unfolding numeric_widen_def by (auto split: if_splits)

lemma numeric_widen_trans:
  assumes "numeric_widen k l" "numeric_widen l m"
  shows "numeric_widen k m"
proof -
  obtain p q where "k = Prim p" "l = Prim q"
    using numeric_widen_prim [OF assms(1)] by blast
  moreover obtain r where "m = Prim r"
    using numeric_widen_prim [OF assms(2)] by blast
  ultimately show ?thesis
    using assms
    by (cases p; cases q; simp add: numeric_widen_def image_iff; elim disjE; simp)
qed

lemma numeric_widen_nonprim: "(\<And>q. l \<noteq> Prim q) \<Longrightarrow> \<not> numeric_widen k l"
  using numeric_widen_prim by blast

lemma kind_prim: "kind t = Prim p \<longleftrightarrow> (\<exists>i. t = TPrim i p)"
  by (cases t) auto

inductive_simps relaxes_option: "relaxes (TOption i p) t"
inductive_simps relaxes_prim: "relaxes (TPrim i p) t"

lemma can_widen_option:
  assumes "normal_type b" "kind b \<noteq> TYPE_ERROR"
  shows "type_can_widen (TOption i p) b \<longleftrightarrow> (\<exists>j q. b = TOption j q \<and> type_widen_repr_preserving p q)"
  using assms unfolding type_can_widen_def
  by (cases b) (auto simp: type_eq_option repr_widen_iff relaxes_option dest: numeric_widen_prim)

lemma can_widen_prim:
  assumes "normal_type b" "kind b \<noteq> TYPE_ERROR"
  shows "type_can_widen (TPrim i p) b \<longleftrightarrow>
    (\<exists>j q. b = TPrim j q \<and> (p = q \<or> numeric_widen (Prim p) (Prim q)))"
  using assms unfolding type_can_widen_def
  by (cases b) (simp_all add: type_eq_prim repr_widen_iff relaxes_prim numeric_widen_nonprim, blast?)

lemma can_widen_other:
  assumes "kind a \<noteq> TYPE_ERROR" "kind b \<noteq> TYPE_ERROR" "kind a \<noteq> TYPE_OPTION" "\<nexists>p. kind a = Prim p"
  shows "type_can_widen a b \<longleftrightarrow> type_widen_repr_preserving a b"
  using assms unfolding type_can_widen_def
  by (cases a) (auto simp: repr_widen_iff dest: numeric_widen_prim)

lemma repr_widen_kind:
  assumes "type_widen_repr_preserving a b" "normal_type a" "normal_type b"
    "kind a \<noteq> TYPE_OPTION" "\<nexists>p. kind a = Prim p"
  shows "kind b \<noteq> TYPE_OPTION \<and> (\<nexists>p. kind b = Prim p)"
proof -
  consider "type_eq a b" | "relaxes a b"
    using assms(1) repr_widen_iff by blast
  then show ?thesis
  proof cases
    case 1
    then have "type_eq b a" using assms type_eq_sym by blast
    then show ?thesis
      using assms(2-) by (cases b) (auto simp: type_eq_option type_eq_prim)
  next
    case 2
    then show ?thesis by (cases rule: relaxes.cases) auto
  qed
qed

lemma can_widen_refl: "normal_type a \<Longrightarrow> type_can_widen a a"
  by (simp add: type_can_widen_def type_eq_equivalence)

lemma can_widen_trans:
  assumes "type_can_widen a b" "type_can_widen b c"
    and "widen_type a" "widen_type b" "widen_type c"
    and "kind a \<noteq> TYPE_ERROR" "kind b \<noteq> TYPE_ERROR" "kind c \<noteq> TYPE_ERROR"
  shows "type_can_widen a c"
proof -
  have nb: "normal_type b" and nc: "normal_type c" and na: "normal_type a"
    using assms widen_type_normal by blast+
  consider (opt) i p where "a = TOption i p" | (prim) i p where "a = TPrim i p"
    | (other) "kind a \<noteq> TYPE_OPTION" "\<nexists>p. kind a = Prim p"
    by (cases a) auto
  then show ?thesis
  proof cases
    case opt
    obtain j q where b: "b = TOption j q" and pq: "type_widen_repr_preserving p q"
      using assms(1,7) nb opt can_widen_option by blast
    obtain k r where c: "c = TOption k r" and qr: "type_widen_repr_preserving q r"
      using assms(2,8) nc b can_widen_option by blast
    have "type_widen_repr_preserving p r"
      using repr_widen_trans [OF pq qr] assms(3-5) opt b c by simp
    then show ?thesis
      using opt c nc assms(8) can_widen_option by blast
  next
    case prim
    obtain j q where b: "b = TPrim j q" and pq: "p = q \<or> numeric_widen (Prim p) (Prim q)"
      using assms(1,7) nb prim can_widen_prim by blast
    obtain k r where c: "c = TPrim k r" and qr: "q = r \<or> numeric_widen (Prim q) (Prim r)"
      using assms(2,8) nc b can_widen_prim by blast
    have "p = r \<or> numeric_widen (Prim p) (Prim r)"
      using pq qr numeric_widen_trans by blast
    then show ?thesis
      using prim c nc assms(8) can_widen_prim by blast
  next
    case other
    have ab: "type_widen_repr_preserving a b"
      using can_widen_other [OF assms(6,7) other] assms(1) by simp
    have b: "kind b \<noteq> TYPE_OPTION" "\<nexists>p. kind b = Prim p"
      using repr_widen_kind [OF ab na nb other] by auto
    have "type_widen_repr_preserving b c"
      using can_widen_other [OF assms(7,8) b] assms(2) by simp
    then have "type_widen_repr_preserving a c"
      using ab repr_widen_trans assms(3-5) by blast
    then show ?thesis
      using can_widen_other [OF assms(6,8) other] by simp
  qed
qed

text \<open>The common type of two operands is one of them, and both widen to it.\<close>

lemma common_numeric_bound:
  assumes "type_common_numeric a b = Some c" and "normal_type a" "normal_type b"
  shows "type_can_widen a c \<and> type_can_widen b c \<and> (c = a \<or> c = b)"
proof -
  have "type_eq b a" if "type_eq a b" using that assms(2,3) type_eq_sym by blast
  then show ?thesis
    using assms can_widen_refl [OF assms(2)] can_widen_refl [OF assms(3)]
    by (auto simp: type_common_numeric_def type_can_widen_def split: if_splits)
qed

lemma common_numeric_none:
  "type_common_numeric a b = None \<longleftrightarrow> \<not> type_can_widen a b \<and> \<not> type_can_widen b a"
  unfolding type_common_numeric_def by (auto simp: type_can_widen_def)

subsection \<open>Properties\<close>

text \<open>
  C34: Integer widening is exactly the lossless conversions: one fixed-width integer type
  widens to another if and only if every value of the first is a value of the second.
\<close>

theorem integer_widening_lossless:
  assumes "fixed_int p" and "fixed_int q"
  shows "type_can_widen (TPrim i p) (TPrim j q) \<longleftrightarrow> int_values p \<subseteq> int_values q"
  by (rule int_widen_lossless_iff [OF assms])

lemma integer_widening_lossless_witness:
  "type_can_widen type_uint32 type_int64 \<and> \<not> type_can_widen type_uint32 type_int32"
proof -
  have "type_can_widen type_uint32 type_int64 \<longleftrightarrow> int_values TYPE_UINT32 \<subseteq> int_values TYPE_INT64"
    "type_can_widen type_uint32 type_int32 \<longleftrightarrow> int_values TYPE_UINT32 \<subseteq> int_values TYPE_INT32"
    unfolding type_uint32_def type_int64_def type_int32_def
    by (rule integer_widening_lossless; simp add: fixed_int_def)+
  then show ?thesis by (simp add: int_values_def)
qed

text \<open>
  Widening is a preorder outside the poison type, on the types the checker builds:
  every type widens to itself, and two implicit conversions in a row are one.
\<close>

theorem widening_preorder:
  assumes "widen_type a" and "widen_type b" and "widen_type c"
    and "kind a \<noteq> TYPE_ERROR" and "kind b \<noteq> TYPE_ERROR" and "kind c \<noteq> TYPE_ERROR"
  shows "type_can_widen a a \<and> (type_can_widen a b \<longrightarrow> type_can_widen b c \<longrightarrow> type_can_widen a c)"
  using can_widen_refl can_widen_trans [OF _ _ assms] widen_type_normal [OF assms(1)] by blast

lemma widening_preorder_witness:
  "type_can_widen (TOption plain (type_pointer type_int8)) (TOption plain (set_const True type_any_ptr))"
  using widening_preorder [of "TOption plain (type_pointer type_int8)" "TOption plain type_any_ptr"
      "TOption plain (set_const True type_any_ptr)"]
  by (simp add: type_can_widen_def type_eq_def type_widen_repr_preserving_def kinds_differ_def type_udt_name_def
      type_pointer_def type_any_ptr_def type_int8_def set_const_def plain_def const_ok_def is_const_def const_carrier_def)

text \<open>
  The common type of two operands is one of them and both widen to it; there is none
  exactly when neither widens to the other.
\<close>

theorem common_type_bound:
  assumes "normal_type a" and "normal_type b"
  shows "case type_common_numeric a b of
      Some c \<Rightarrow> type_can_widen a c \<and> type_can_widen b c \<and> (c = a \<or> c = b)
    | None \<Rightarrow> \<not> type_can_widen a b \<and> \<not> type_can_widen b a"
  using common_numeric_bound [OF _ assms] common_numeric_none by (auto split: option.split)

lemma common_type_bound_witness:
  "type_common_numeric type_uint8 type_int16 = Some type_int16 \<and> type_can_widen type_uint8 type_int16"
proof -
  have c: "type_common_numeric type_uint8 type_int16 = Some type_int16"
    by (simp add: type_common_numeric_def type_can_widen_def type_eq_def type_widen_repr_preserving_def
        numeric_widen_def kinds_differ_def type_udt_name_def type_uint8_def type_int16_def)
  then show ?thesis
    using common_type_bound [of type_uint8 type_int16] by (simp add: type_uint8_def type_int16_def)
qed

end
