(* ===== verification/FC_Const.thy ===== *)
theory FC_Const
  imports FC_Widen "HOL-Library.Signed_Division"
begin

unbundle bit_operations_syntax

section \<open>Constant operators and const-generic evaluation (\<open>src/types.c\<close>)\<close>

text \<open>
  The operators every constant evaluator of the compiler goes through, on 64-bit patterns,
  and the evaluator of const-generic expressions. The \<open>out\<close> parameter of the code is the
  argument of \<open>CONST_OP_OK\<close>; the evaluator's last-error slot is threaded as a \<open>const_err\<close>,
  filled by the first failure only. The lemmas relate both to arithmetic on integers reduced
  to the width of each node's type.
\<close>

datatype const_op_status = CONST_OP_OK u64 | CONST_OP_DIV_ZERO | CONST_OP_UNSUPPORTED

definition const_mask_extend :: "u64 \<Rightarrow> nat \<Rightarrow> bool \<Rightarrow> u64" where
  "const_mask_extend v width is_signed =
     (if 64 \<le> width then v
      else let m = push_bit width 1 - 1; v' = v AND m
           in if is_signed \<and> v' AND push_bit (width - 1) 1 \<noteq> 0 then v' OR NOT m else v')"

definition const_op_yields_bool :: "token_kind \<Rightarrow> bool" where
  "const_op_yields_bool op \<longleftrightarrow>
     op \<in> Op ` {TOK_EQEQ, TOK_BANGEQ, TOK_LT, TOK_GT, TOK_LTEQ, TOK_GTEQ, TOK_AMPAMP, TOK_PIPEPIPE}"

definition const_unary_op :: "token_kind \<Rightarrow> u64 \<Rightarrow> nat \<Rightarrow> bool \<Rightarrow> const_op_status" where
  "const_unary_op op v width is_signed =
     (case op of
        Op TOK_MINUS \<Rightarrow> CONST_OP_OK (const_mask_extend (0 - v) width is_signed)
      | Op TOK_TILDE \<Rightarrow> CONST_OP_OK (const_mask_extend (NOT v) width is_signed)
      | Op TOK_BANG \<Rightarrow> CONST_OP_OK (of_bool (v = 0))
      | _ \<Rightarrow> CONST_OP_UNSUPPORTED)"

definition const_compare :: "tok_operator \<Rightarrow> u64 \<Rightarrow> u64 \<Rightarrow> bool \<Rightarrow> bool" where
  "const_compare op l r is_signed =
     (let lt = (if is_signed then sint l < sint r else l < r);
          gt = (if is_signed then sint l > sint r else l > r)
      in if op = TOK_EQEQ then l = r else if op = TOK_BANGEQ then l \<noteq> r
         else if op = TOK_LT then lt else if op = TOK_GT then gt
         else if op = TOK_LTEQ then \<not> gt else \<not> lt)"

definition const_divide :: "tok_operator \<Rightarrow> u64 \<Rightarrow> u64 \<Rightarrow> bool \<Rightarrow> u64" where
  "const_divide op lv rv is_signed =
     (if is_signed then
        (let la = sint lv; ra = sint rv
         in if ra = -1 then (if op = TOK_SLASH then 0 - lv else 0)
            else if op = TOK_SLASH then word_of_int (la sdiv ra) else word_of_int (la smod ra))
      else if op = TOK_SLASH then lv div rv else lv mod rv)"

definition const_arith :: "tok_operator \<Rightarrow> u64 \<Rightarrow> u64 \<Rightarrow> nat \<Rightarrow> bool \<Rightarrow> const_op_status" where
  "const_arith op lv rv width is_signed =
     (let shamt = word_of_nat (width - 1) :: u64;
          cnt = unat (rv AND shamt)
      in case op of
           TOK_PLUS \<Rightarrow> CONST_OP_OK (lv + rv)
         | TOK_MINUS \<Rightarrow> CONST_OP_OK (lv - rv)
         | TOK_STAR \<Rightarrow> CONST_OP_OK (lv * rv)
         | TOK_AMP \<Rightarrow> CONST_OP_OK (lv AND rv)
         | TOK_PIPE \<Rightarrow> CONST_OP_OK (lv OR rv)
         | TOK_CARET \<Rightarrow> CONST_OP_OK (lv XOR rv)
         | TOK_LTLT \<Rightarrow> CONST_OP_OK (push_bit cnt lv)
         | TOK_GTGT \<Rightarrow> CONST_OP_OK (if is_signed then signed_drop_bit cnt lv else drop_bit cnt lv)
         | TOK_SLASH \<Rightarrow>
             if rv = 0 then CONST_OP_DIV_ZERO else CONST_OP_OK (const_divide TOK_SLASH lv rv is_signed)
         | TOK_PERCENT \<Rightarrow>
             if rv = 0 then CONST_OP_DIV_ZERO else CONST_OP_OK (const_divide TOK_PERCENT lv rv is_signed)
         | _ \<Rightarrow> CONST_OP_UNSUPPORTED)"

definition const_binary_op :: "token_kind \<Rightarrow> u64 \<Rightarrow> u64 \<Rightarrow> nat \<Rightarrow> bool \<Rightarrow> const_op_status" where
  "const_binary_op tok l r width is_signed =
     (case tok of
        Op op \<Rightarrow>
          if op \<in> {TOK_EQEQ, TOK_BANGEQ, TOK_LT, TOK_GT, TOK_LTEQ, TOK_GTEQ}
          then CONST_OP_OK (of_bool (const_compare op l r is_signed))
          else if op = TOK_AMPAMP then CONST_OP_OK (of_bool (l \<noteq> 0 \<and> r \<noteq> 0))
          else if op = TOK_PIPEPIPE then CONST_OP_OK (of_bool (l \<noteq> 0 \<or> r \<noteq> 0))
          else (case const_arith op (const_mask_extend l width is_signed)
                       (const_mask_extend r width is_signed) width is_signed of
                  CONST_OP_OK res \<Rightarrow> CONST_OP_OK (const_mask_extend res width is_signed)
                | st \<Rightarrow> st)
      | _ \<Rightarrow> CONST_OP_UNSUPPORTED)"

definition const_binary_op_supported :: "token_kind \<Rightarrow> bool" where
  "const_binary_op_supported op \<longleftrightarrow> const_binary_op op 0 1 64 True \<noteq> CONST_OP_UNSUPPORTED"

definition const_unary_op_supported :: "token_kind \<Rightarrow> bool" where
  "const_unary_op_supported op \<longleftrightarrow> const_unary_op op 0 64 True \<noteq> CONST_OP_UNSUPPORTED"

definition const_cast_value :: "ctype option \<Rightarrow> u64 \<Rightarrow> u64 option" where
  "const_cast_value target v =
     (case target of
        None \<Rightarrow> None
      | Some t \<Rightarrow>
          let w = type_fixed_int_bits t
          in if w = 0 then None else Some (const_mask_extend v w (type_is_signed t)))"

subsection \<open>Width-w arithmetic on integers\<close>

text \<open>The integer a type of width \<open>w\<close> holds for \<open>k\<close>.\<close>

definition wrap :: "nat \<Rightarrow> bool \<Rightarrow> int \<Rightarrow> int" where
  "wrap w sg k = (if sg then signed_take_bit (w - 1) k else take_bit w k)"

definition word_val :: "bool \<Rightarrow> u64 \<Rightarrow> int" where
  "word_val sg v = (if sg then sint v else uint v)"

lemma word_of_word_val [simp]: "word_of_int (word_val sg v) = v"
  by (simp add: word_val_def)

lemma wrap_wrap [simp]: "0 < w \<Longrightarrow> wrap w sg (wrap w sg k) = wrap w sg k"
  by (simp add: wrap_def)

lemma mask_extend_wrap:
  assumes "0 < w" "w \<le> 64"
  shows "const_mask_extend v w sg = word_of_int (wrap w sg (uint v))"
proof (cases "w = 64")
  case True
  moreover have "signed_take_bit 63 (uint v) = sint v" "take_bit 64 (uint v) = uint v"
    using take_bit_length_eq [of v] by (simp_all add: sint_uint flip: unsigned_take_bit_eq)
  ultimately show ?thesis
    by (simp add: const_mask_extend_def wrap_def)
next
  case False
  have m: "push_bit w 1 - 1 = (mask w :: u64)"
    by (simp add: mask_eq_exp_minus_1 push_bit_eq_mult)
  have top: "(v AND mask w) AND push_bit (w - 1) 1 \<noteq> 0 \<longleftrightarrow> bit v (w - 1)"
    using bit_iff_and_push_bit_not_eq_0 [of "v AND mask w" "w - 1"] assms False
      less_imp_diff_less [OF le_neq_implies_less [OF assms(2) False], of "Suc 0"]
    by (simp add: bit_and_iff bit_mask_iff)
  have edge: "n = w - Suc 0" if "w - Suc 0 \<le> n" "n < w" for n
    using that by arith
  show ?thesis
    using assms False unfolding const_mask_extend_def Let_def m top wrap_def
    by (intro bit_word_eqI) (auto simp: bit_simps min_def dest: edge)
qed

lemma wrap_uint: "0 < w \<Longrightarrow> w \<le> 64 \<Longrightarrow> wrap w sg (uint (word_of_int k :: u64)) = wrap w sg k"
  by (auto simp: wrap_def unsigned_of_int signed_take_bit_take_bit min_def)

lemma wrap_word_val: "0 < w \<Longrightarrow> w \<le> 64 \<Longrightarrow> wrap w sg (uint v) = wrap w sg (word_val sg' v)"
  using wrap_uint [of w sg "word_val sg' v"] by simp

lemma mask_extend_of_int:
  "0 < w \<Longrightarrow> w \<le> 64 \<Longrightarrow> const_mask_extend (word_of_int k) w sg = word_of_int (wrap w sg k)"
  by (simp add: mask_extend_wrap wrap_uint)

lemma word_val_mask_extend:
  assumes "0 < w" "w \<le> 64"
  shows "word_val sg (const_mask_extend v w sg) = wrap w sg (word_val sg v)"
proof -
  have "word_val sg (word_of_int (wrap w sg k)) = wrap w sg k" for k
    using assms by (auto simp: word_val_def wrap_def sint_sbintrunc' unsigned_of_int)
  then show ?thesis
    using assms by (simp add: mask_extend_wrap wrap_word_val [of w sg v sg])
qed

definition int_arith :: "tok_operator \<Rightarrow> nat \<Rightarrow> int \<Rightarrow> int \<Rightarrow> int option" where
  "int_arith op w a b =
     (case op of
        TOK_PLUS \<Rightarrow> Some (a + b) | TOK_MINUS \<Rightarrow> Some (a - b) | TOK_STAR \<Rightarrow> Some (a * b)
      | TOK_AMP \<Rightarrow> Some (a AND b) | TOK_PIPE \<Rightarrow> Some (a OR b) | TOK_CARET \<Rightarrow> Some (a XOR b)
      | TOK_LTLT \<Rightarrow> Some (a * 2 ^ nat (b mod int w))
      | TOK_GTGT \<Rightarrow> Some (a div 2 ^ nat (b mod int w))
      | TOK_SLASH \<Rightarrow> (if b = 0 then None else Some (a sdiv b))
      | TOK_PERCENT \<Rightarrow> (if b = 0 then None else Some (a smod b))
      | _ \<Rightarrow> None)"

definition arith_op :: "tok_operator \<Rightarrow> bool" where
  "arith_op op \<longleftrightarrow> op \<in> {TOK_PLUS, TOK_MINUS, TOK_STAR, TOK_AMP, TOK_PIPE, TOK_CARET, TOK_LTLT,
     TOK_GTGT, TOK_SLASH, TOK_PERCENT}"

definition int_width :: "nat \<Rightarrow> bool" where "int_width w \<longleftrightarrow> w \<in> {8, 16, 32, 64}"

lemma int_width_pos: "int_width w \<Longrightarrow> 0 < w \<and> w \<le> 64"
  by (auto simp: int_width_def)

lemma int_width_exp: "int_width w \<Longrightarrow> \<exists>k \<le> 6. w = 2 ^ k"
  unfolding int_width_def
  by (elim insertE) (rule exI [of _ 3], simp, rule exI [of _ 4], simp, rule exI [of _ 5], simp,
      rule exI [of _ 6], simp, simp)

text \<open>The masked shift count is the count modulo the width, also for a negative count.\<close>

lemma shift_count:
  assumes "int_width w"
  shows "unat (v AND word_of_nat (w - 1) :: u64) = nat (word_val sg v mod int w)"
proof -
  obtain k where k: "k \<le> 6" "w = 2 ^ k"
    using int_width_exp [OF assms] by blast
  have "(word_of_nat (w - 1) :: u64) = mask k"
    by (simp add: k(2) mask_eq_exp_minus_1 of_nat_diff)
  then have "unat (v AND word_of_nat (w - 1)) = unat (take_bit k v)"
    by (simp add: take_bit_eq_mask)
  also have "\<dots> = nat (take_bit k (uint v))"
    by (simp only: unat_eq_nat_uint unsigned_take_bit_eq)
  also have "take_bit k (uint v) = take_bit k (word_val sg v)"
    using k(1) by (auto simp: word_val_def sint_uint take_bit_signed_take_bit)
  finally show ?thesis by (simp add: k(2) take_bit_eq_mod)
qed

lemma divide_val:
  assumes "rv \<noteq> 0"
  shows "const_divide TOK_SLASH lv rv sg = word_of_int (word_val sg lv sdiv word_val sg rv)"
    and "const_divide TOK_PERCENT lv rv sg = word_of_int (word_val sg lv smod word_val sg rv)"
proof -
  have neg: "a sdiv -1 = - a" "a smod -1 = 0" "a smod 1 = 0" for a :: int
    by (simp_all add: smod_int_alt_def)
  have pos: "uint a sdiv uint b = uint a div uint b" "uint a smod uint b = uint a mod uint b"
    for a b :: u64
    by (simp_all add: signed_divide_int_eq_divide_int signed_modulo_int_eq_modulo_int)
  show "const_divide TOK_SLASH lv rv sg = word_of_int (word_val sg lv sdiv word_val sg rv)"
    by (simp add: const_divide_def word_val_def neg pos uint_div uint_mod Let_def
        word_div_def)
  show "const_divide TOK_PERCENT lv rv sg = word_of_int (word_val sg lv smod word_val sg rv)"
    by (simp add: const_divide_def word_val_def neg pos uint_div uint_mod Let_def
        word_mod_def)
qed

lemma const_arith_val:
  assumes "int_width w"
  shows "const_arith op lv rv w sg =
    (if \<not> arith_op op then CONST_OP_UNSUPPORTED
     else case int_arith op w (word_val sg lv) (word_val sg rv) of
            None \<Rightarrow> CONST_OP_DIV_ZERO
          | Some k \<Rightarrow> CONST_OP_OK (word_of_int k))"
proof -
  have cnt: "unat (rv AND word_of_nat (w - 1)) = nat (word_val sg rv mod int w)"
    by (rule shift_count [OF assms])
  have zero: "word_val sg rv = 0 \<longleftrightarrow> rv = 0"
    by (metis word_of_word_val word_val_def of_int_0 sint_0 unsigned_0)
  have bitw: "word_of_int (word_val sg a AND word_val sg b) = a AND b"
    "word_of_int (word_val sg a OR word_val sg b) = a OR b"
    "word_of_int (word_val sg a XOR word_val sg b) = a XOR b" for a b
    by (simp_all add: of_int_and_eq of_int_or_eq of_int_xor_eq)
  have shl: "push_bit n lv = word_of_int (word_val sg lv * 2 ^ n)" for n
    by (simp add: push_bit_eq_mult)
  have drop: "drop_bit n lv = word_of_int (drop_bit n (uint lv))" for n
    by (intro bit_word_eqI) (auto simp: bit_simps)
  have shr: "(if sg then signed_drop_bit n lv else drop_bit n lv) = word_of_int (word_val sg lv div 2 ^ n)" for n
    using drop
    by (cases sg) (simp_all add: word_val_def flip: drop_bit_eq_div sint_signed_drop_bit_eq)
  show ?thesis
    unfolding const_arith_def arith_op_def int_arith_def Let_def cnt
    by (cases op) (simp_all add: bitw shl shr zero divide_val)
qed

text \<open>The comparisons, on operands that are canonical at their type.\<close>

definition int_compare :: "tok_operator \<Rightarrow> int \<Rightarrow> int \<Rightarrow> bool" where
  "int_compare op a b =
     (case op of TOK_EQEQ \<Rightarrow> a = b | TOK_BANGEQ \<Rightarrow> a \<noteq> b | TOK_LT \<Rightarrow> a < b | TOK_GT \<Rightarrow> a > b
      | TOK_LTEQ \<Rightarrow> a \<le> b | _ \<Rightarrow> a \<ge> b)"

definition compare_op :: "tok_operator \<Rightarrow> bool" where
  "compare_op op \<longleftrightarrow> op \<in> {TOK_EQEQ, TOK_BANGEQ, TOK_LT, TOK_GT, TOK_LTEQ, TOK_GTEQ}"

lemma word_val_eq: "word_val sg l = word_val sg r \<longleftrightarrow> l = r"
  by (metis word_of_word_val)

lemma const_compare_val:
  "compare_op op \<Longrightarrow> const_compare op l r sg = int_compare op (word_val sg l) (word_val sg r)"
  unfolding compare_op_def const_compare_def int_compare_def Let_def
  by (elim insertE) (simp_all add: word_val_eq, auto simp: word_val_def word_less_def not_less)

lemma const_binary_op_arith:
  assumes "int_width w" "arith_op op"
  shows "const_binary_op (Op op) l r w sg =
    (case int_arith op w (wrap w sg (word_val sg l)) (wrap w sg (word_val sg r)) of
       None \<Rightarrow> CONST_OP_DIV_ZERO
     | Some k \<Rightarrow> CONST_OP_OK (word_of_int (wrap w sg k)))"
proof -
  have w: "0 < w" "w \<le> 64" using int_width_pos [OF assms(1)] by auto
  have "op \<notin> {TOK_EQEQ, TOK_BANGEQ, TOK_LT, TOK_GT, TOK_LTEQ, TOK_GTEQ}"
    "op \<noteq> TOK_AMPAMP" "op \<noteq> TOK_PIPEPIPE"
    using assms(2) by (auto simp: arith_op_def)
  then show ?thesis
    using assms by (simp add: const_binary_op_def const_arith_val word_val_mask_extend [OF w]
        mask_extend_of_int [OF w] split: option.split)
qed

subsection \<open>The evaluator\<close>

type_synonym bindings = "(string \<times> ctype) list"
type_synonym const_err = "(string \<times> src_loc) option"

definition zero_loc :: src_loc where
  "zero_loc = \<lparr>loc_file = None, loc_line = 0, loc_col = 0\<rparr>"

definition const_eval_fail :: "src_loc \<Rightarrow> string \<Rightarrow> const_err \<Rightarrow> const_err" where
  "const_eval_fail loc msg err = (case err of None \<Rightarrow> Some (msg, loc) | Some _ \<Rightarrow> err)"

definition const_eval_take_error :: "const_err \<Rightarrow> (string \<times> src_loc) option \<times> const_err" where
  "const_eval_take_error err = (err, None)"

definition const_eval_error_pending :: "const_err \<Rightarrow> bool" where
  "const_eval_error_pending err \<longleftrightarrow> err \<noteq> None"

definition const_param_value ::
  "string \<Rightarrow> src_loc \<Rightarrow> bindings \<Rightarrow> const_err \<Rightarrow> u64 option \<times> const_err" where
  "const_param_value name at_loc bs err =
     (case map_of bs name of
        None \<Rightarrow> (None, err)
      | Some (TConstInt _ v) \<Rightarrow> (Some v, err)
      | Some (TTypeVar _ _) \<Rightarrow> (None, err)
      | Some (TConstExpr _ _) \<Rightarrow> (None, err)
      | Some _ \<Rightarrow>
          (None, const_eval_fail at_loc ''generic parameter used as a constant is bound to a type'' err))"

definition const_eval_width :: "cexpr \<Rightarrow> bool \<Rightarrow> nat \<times> bool" where
  "const_eval_width e typed =
     (let w = (case ce_type e of None \<Rightarrow> 0 | Some t \<Rightarrow> if typed then type_fixed_int_bits t else 0)
      in (if w \<noteq> 0 then w else 64,
          if w \<noteq> 0 then (case ce_type e of None \<Rightarrow> True | Some t \<Rightarrow> type_is_signed t) else True))"

definition param_overflow_msg :: string where
  "param_overflow_msg =
     ''const parameter does not fit i32 in expression '' @
     ''position (a const parameter is an i32 where it is read as a '' @
     ''value; a value this large is usable only in a type or size '' @
     ''position)''"

definition bad_op_msg :: string where
  "bad_op_msg = ''operator not allowed in a const-generic expression''"

fun const_expr_eval :: "bool \<Rightarrow> bindings \<Rightarrow> cexpr \<Rightarrow> const_err \<Rightarrow> u64 option \<times> const_err" where
  "const_expr_eval typed bs (CIntLit _ _ v _) err = (Some v, err)"
| "const_expr_eval typed bs (CBoolLit _ _ b) err = (Some (if b then 1 else 0), err)"
| "const_expr_eval typed bs (CTypeVarRef loc ty n) err =
     (case const_param_value n loc bs err of
        (None, err) \<Rightarrow> (None, err)
      | (Some v, err) \<Rightarrow>
          (case const_eval_width (CTypeVarRef loc ty n) typed of
             (w, sg) \<Rightarrow>
               if const_mask_extend v w sg \<noteq> v
               then (None, const_eval_fail loc param_overflow_msg err)
               else (Some v, err)))"
| "const_expr_eval typed bs (CUnary loc ty op x) err =
     (case const_expr_eval typed bs x err of
        (None, err) \<Rightarrow> (None, err)
      | (Some v, err) \<Rightarrow>
          (case const_eval_width (CUnary loc ty op x) typed of
             (w, sg) \<Rightarrow>
               (case const_unary_op op v w sg of
                  CONST_OP_OK res \<Rightarrow> (Some res, err)
                | _ \<Rightarrow> (None, const_eval_fail loc bad_op_msg err))))"
| "const_expr_eval typed bs (CBinary loc ty op x y) err =
     (case const_expr_eval typed bs x err of
        (None, err) \<Rightarrow> (None, err)
      | (Some l, err) \<Rightarrow>
          (case const_expr_eval typed bs y err of
             (None, err) \<Rightarrow> (None, err)
           | (Some r, err) \<Rightarrow>
               (case const_eval_width (if const_op_yields_bool op then x else CBinary loc ty op x y) typed of
                  (w, sg) \<Rightarrow>
                    (case const_binary_op op l r w sg of
                       CONST_OP_OK res \<Rightarrow> (Some res, err)
                     | CONST_OP_DIV_ZERO \<Rightarrow>
                         (None, const_eval_fail loc
                            (if op = Op TOK_SLASH then ''division by zero in const-generic expression''
                             else ''modulo by zero in const-generic expression'') err)
                     | CONST_OP_UNSUPPORTED \<Rightarrow> (None, const_eval_fail loc bad_op_msg err)))))"
| "const_expr_eval typed bs (CCast loc ty tg x) err =
     (case const_expr_eval typed bs x err of
        (None, err) \<Rightarrow> (None, err)
      | (Some v, err) \<Rightarrow>
          (case const_cast_value tg v of
             None \<Rightarrow>
               (None, const_eval_fail loc
                  ''cast in a const-generic expression must target a fixed-width integer type'' err)
           | Some res \<Rightarrow> (Some res, err)))"
| "const_expr_eval typed bs (COther loc ty k) err =
     (None, const_eval_fail loc ''expression not allowed in a const-generic argument'' err)"

definition const_eval_typed :: "bindings \<Rightarrow> cexpr \<Rightarrow> const_err \<Rightarrow> u64 option \<times> const_err" where
  "const_eval_typed bs e err = const_expr_eval True bs e err"

definition const_type_eval ::
  "ctype option \<Rightarrow> bindings \<Rightarrow> const_err \<Rightarrow> u64 option \<times> const_err" where
  "const_type_eval t bs err =
     (case t of
        None \<Rightarrow> (None, err)
      | Some (TConstInt _ v) \<Rightarrow> (Some v, err)
      | Some (TTypeVar _ n) \<Rightarrow> const_param_value n zero_loc bs err
      | Some (TConstExpr _ e) \<Rightarrow> const_expr_eval False bs e err
      | Some _ \<Rightarrow> (None, err))"

subsection \<open>What the evaluator computes\<close>

text \<open>
  The same expression over the integers: every node's result is reduced to the node's width,
  and there is no value where the code has no value to give. \<open>well_typed\<close> is what type
  checking establishes for the typed evaluation: literals fit their types, and the operands
  of arithmetic and of comparisons agree in type. The untyped evaluation needs none of it.
\<close>

definition param_int :: "bindings \<Rightarrow> string \<Rightarrow> int option" where
  "param_int bs n = (case map_of bs n of Some (TConstInt _ v) \<Rightarrow> Some (sint v) | _ \<Rightarrow> None)"

definition wrap_at :: "nat \<times> bool \<Rightarrow> int \<Rightarrow> int" where
  "wrap_at ws k = wrap (fst ws) (snd ws) k"

definition int_unary :: "token_kind \<Rightarrow> nat \<times> bool \<Rightarrow> int \<Rightarrow> int option" where
  "int_unary op ws k =
     (case op of Op TOK_MINUS \<Rightarrow> Some (wrap_at ws (- k))
               | Op TOK_TILDE \<Rightarrow> Some (wrap_at ws (- k - 1))
               | Op TOK_BANG \<Rightarrow> Some (of_bool (k = 0)) | _ \<Rightarrow> None)"

definition int_binary :: "token_kind \<Rightarrow> nat \<times> bool \<Rightarrow> int \<Rightarrow> int \<Rightarrow> int option" where
  "int_binary tok ws a b =
     (case tok of
        Op op \<Rightarrow>
          if compare_op op then Some (of_bool (int_compare op a b))
          else if op = TOK_AMPAMP then Some (of_bool (a \<noteq> 0 \<and> b \<noteq> 0))
          else if op = TOK_PIPEPIPE then Some (of_bool (a \<noteq> 0 \<or> b \<noteq> 0))
          else map_option (wrap_at ws) (int_arith op (fst ws) a b)
      | _ \<Rightarrow> None)"

fun int_eval :: "bool \<Rightarrow> (string \<Rightarrow> int option) \<Rightarrow> cexpr \<Rightarrow> int option" where
  "int_eval typed env (CIntLit loc ty v n) =
     Some (word_val (snd (const_eval_width (CIntLit loc ty v n) typed)) v)"
| "int_eval typed env (CBoolLit loc ty b) = Some (of_bool b)"
| "int_eval typed env (CTypeVarRef loc ty n) =
     Option.bind (env n)
       (\<lambda>k. if wrap_at (const_eval_width (CTypeVarRef loc ty n) typed) k = k then Some k else None)"
| "int_eval typed env (CUnary loc ty op x) =
     Option.bind (int_eval typed env x) (int_unary op (const_eval_width (CUnary loc ty op x) typed))"
| "int_eval typed env (CBinary loc ty op x y) =
     Option.bind (int_eval typed env x) (\<lambda>a. Option.bind (int_eval typed env y)
       (int_binary op (const_eval_width (CBinary loc ty op x y) typed) a))"
| "int_eval typed env (CCast loc ty tg x) =
     Option.bind (int_eval typed env x)
       (\<lambda>k. case tg of
              None \<Rightarrow> None
            | Some t \<Rightarrow>
                if type_fixed_int_bits t = 0 then None
                else Some (wrap_at (const_eval_width (CCast loc ty tg x) typed)
                       (wrap (type_fixed_int_bits t) (type_is_signed t) k)))"
| "int_eval typed env (COther loc ty n) = None"

fun well_typed :: "bool \<Rightarrow> cexpr \<Rightarrow> bool" where
  "well_typed typed (CIntLit loc ty v n) \<longleftrightarrow>
     (case const_eval_width (CIntLit loc ty v n) typed of (w, sg) \<Rightarrow> const_mask_extend v w sg = v)"
| "well_typed typed (CBoolLit loc ty b) \<longleftrightarrow> True"
| "well_typed typed (CTypeVarRef loc ty n) \<longleftrightarrow> snd (const_eval_width (CTypeVarRef loc ty n) typed)"
| "well_typed typed (CUnary loc ty op x) \<longleftrightarrow>
     well_typed typed x \<and>
     (op \<noteq> Op TOK_BANG \<longrightarrow>
        const_eval_width x typed = const_eval_width (CUnary loc ty op x) typed)"
| "well_typed typed (CBinary loc ty op x y) \<longleftrightarrow>
     well_typed typed x \<and> well_typed typed y \<and>
     (op \<notin> Op ` {TOK_AMPAMP, TOK_PIPEPIPE} \<longrightarrow> const_eval_width x typed = const_eval_width y typed) \<and>
     (\<not> const_op_yields_bool op \<longrightarrow>
        const_eval_width x typed = const_eval_width (CBinary loc ty op x y) typed)"
| "well_typed typed (CCast loc ty tg x) \<longleftrightarrow>
     well_typed typed x \<and>
     (typed \<longrightarrow> (case tg of None \<Rightarrow> False | Some t \<Rightarrow>
        const_eval_width (CCast loc ty tg x) typed = (type_fixed_int_bits t, type_is_signed t)))"
| "well_typed typed (COther loc ty n) \<longleftrightarrow> True"

lemma eval_width_int: "int_width (fst (const_eval_width e typed))"
  by (auto simp: const_eval_width_def int_width_def type_fixed_int_bits_def Let_def split: option.split)

lemma eval_width_untyped [simp]: "const_eval_width e False = (64, True)"
  by (simp add: const_eval_width_def Let_def split: option.split)

lemma untyped_well_typed: "well_typed False e"
  by (induction e) (simp_all add: const_mask_extend_def)

lemma wrap_at_of_bool: "int_width (fst ws) \<Longrightarrow> wrap_at ws (of_bool b) = of_bool b"
  by (auto simp: int_width_def wrap_at_def wrap_def signed_take_bit_eq_if_positive bit_simps)

lemma wrap_at_idem: "int_width (fst ws) \<Longrightarrow> wrap_at ws (wrap_at ws k) = wrap_at ws k"
  by (simp add: wrap_at_def int_width_pos)

text \<open>A canonical word is the word of its value.\<close>

lemma canonical_val:
  assumes "int_width (fst ws)"
  shows "const_mask_extend v (fst ws) (snd ws) = v \<longleftrightarrow> wrap_at ws (word_val (snd ws) v) = word_val (snd ws) v"
  using word_val_mask_extend [of "fst ws" "snd ws" v] int_width_pos [OF assms] word_val_eq
  by (metis wrap_at_def)

lemma val_of_canonical:
  assumes "int_width (fst ws)" "wrap_at ws k = k"
  shows "word_val (snd ws) (word_of_int k) = k"
proof -
  have "word_val (snd ws) (word_of_int (wrap_at ws k)) = wrap_at ws k"
    using int_width_pos [OF assms(1)]
    by (auto simp: wrap_at_def word_val_def wrap_def sint_sbintrunc' unsigned_of_int)
  then show ?thesis by (simp add: assms(2))
qed

lemma canonical_zero:
  "int_width (fst ws) \<Longrightarrow> wrap_at ws k = k \<Longrightarrow> (word_of_int k :: u64) = 0 \<longleftrightarrow> k = 0"
  by (metis val_of_canonical of_int_0 wrap_at_of_bool of_bool_eq(1))

lemma unary_val:
  assumes "int_width (fst ws)" "int_width (fst ws')" "wrap_at ws' k = k"
  shows "const_unary_op op (word_of_int k) (fst ws) (snd ws) =
    (case int_unary op ws k of None \<Rightarrow> CONST_OP_UNSUPPORTED | Some j \<Rightarrow> CONST_OP_OK (word_of_int j))"
proof -
  have w: "0 < fst ws" "fst ws \<le> 64" using int_width_pos [OF assms(1)] by auto
  have neg: "0 - word_of_int k = (word_of_int (- k) :: u64)" by simp
  have tilde: "NOT (word_of_int k) = (word_of_int (- k - 1) :: u64)" by (simp add: not_eq_complement)
  show ?thesis
    unfolding const_unary_op_def int_unary_def neg tilde mask_extend_of_int [OF w]
      canonical_zero [OF assms(2,3)] wrap_at_def
    by (simp split: token_kind.split tok_operator.split)
qed

lemma int_arith_none: "arith_op op \<Longrightarrow> int_arith op w a b = None \<longleftrightarrow> b = 0 \<and> op \<in> {TOK_SLASH, TOK_PERCENT}"
  unfolding arith_op_def int_arith_def by (auto split: tok_operator.split)

lemma int_arith_not: "\<not> arith_op op \<Longrightarrow> int_arith op w a b = None"
  unfolding arith_op_def int_arith_def by (auto split: tok_operator.split)

definition eval_at :: "token_kind \<Rightarrow> nat \<times> bool \<Rightarrow> nat \<times> bool \<Rightarrow> nat \<times> bool" where
  "eval_at op wx ws = (if const_op_yields_bool op then wx else ws)"

lemma binary_val:
  assumes a: "int_width (fst wx)" "wrap_at wx a = a" and b: "int_width (fst wy)" "wrap_at wy b = b"
    and same: "op \<notin> Op ` {TOK_AMPAMP, TOK_PIPEPIPE} \<Longrightarrow> wx = wy"
    and own: "\<not> const_op_yields_bool op \<Longrightarrow> wx = ws"
  shows "const_binary_op op (word_of_int a) (word_of_int b) (fst (eval_at op wx ws)) (snd (eval_at op wx ws)) =
    (case int_binary op ws a b of
       Some j \<Rightarrow> CONST_OP_OK (word_of_int j)
     | None \<Rightarrow> if op \<in> Op ` {TOK_SLASH, TOK_PERCENT} then CONST_OP_DIV_ZERO else CONST_OP_UNSUPPORTED)"
proof (cases op)
  case (Op t)
  consider (cmp) "compare_op t" | (logic) "t = TOK_AMPAMP \<or> t = TOK_PIPEPIPE" | (arith) "arith_op t"
    | (other) "\<not> compare_op t" "t \<noteq> TOK_AMPAMP" "t \<noteq> TOK_PIPEPIPE" "\<not> arith_op t"
    by blast
  then show ?thesis
  proof cases
    case cmp
    then have "wx = wy" "const_op_yields_bool op"
      using same by (auto simp: Op compare_op_def const_op_yields_bool_def)
    then show ?thesis
      using cmp a b const_compare_val [OF cmp] val_of_canonical
      by (simp add: Op const_binary_op_def int_binary_def eval_at_def compare_op_def)
  next
    case logic
    then show ?thesis
      using canonical_zero [OF a] canonical_zero [OF b]
      by (auto simp: Op const_binary_op_def int_binary_def compare_op_def)
  next
    case arith
    then have no: "\<not> const_op_yields_bool op" "\<not> compare_op t" "t \<noteq> TOK_AMPAMP" "t \<noteq> TOK_PIPEPIPE"
      by (auto simp: Op const_op_yields_bool_def arith_op_def compare_op_def)
    have ws: "wx = ws" "wy = ws"
      using own no(1) same no by (auto simp: Op)
    have "int_arith t (fst ws) a b = None \<Longrightarrow> t \<in> {TOK_SLASH, TOK_PERCENT}"
      using int_arith_none [OF arith] by blast
    then show ?thesis
      using a b no ws const_binary_op_arith [OF _ arith, of "fst ws"] val_of_canonical
      by (auto simp: Op int_binary_def eval_at_def wrap_at_def split: option.split)
  next
    case other
    then have "t \<noteq> TOK_SLASH" "t \<noteq> TOK_PERCENT"
      by (auto simp: arith_op_def)
    then show ?thesis
      using other by (simp add: Op const_binary_op_def int_binary_def compare_op_def int_arith_not
        const_arith_def arith_op_def split: tok_operator.split)
  qed
qed (auto simp: const_binary_op_def int_binary_def)

lemma int_binary_canonical:
  "int_width (fst ws) \<Longrightarrow> int_binary op ws a b = Some j \<Longrightarrow> wrap_at ws j = j"
  by (auto simp: int_binary_def wrap_at_of_bool wrap_at_idem split: token_kind.splits if_splits)

lemma int_unary_canonical:
  "int_width (fst ws) \<Longrightarrow> int_unary op ws a = Some j \<Longrightarrow> wrap_at ws j = j"
  by (auto simp: int_unary_def wrap_at_of_bool wrap_at_idem split: token_kind.splits tok_operator.splits)

definition agrees :: "bool \<Rightarrow> cexpr \<Rightarrow> u64 option \<Rightarrow> int option \<Rightarrow> bool" where
  "agrees typed e v k \<longleftrightarrow>
     v = map_option word_of_int k \<and> (\<forall>j. k = Some j \<longrightarrow> wrap_at (const_eval_width e typed) j = j)"

lemma agrees_cases:
  assumes "agrees typed e v k"
  obtains "v = None" "k = None"
  | j where "v = Some (word_of_int j)" "k = Some j" "wrap_at (const_eval_width e typed) j = j"
  using assms by (cases k) (auto simp: agrees_def)

lemma param_value:
  "fst (const_param_value n loc bs err) =
     (case map_of bs n of Some (TConstInt _ v) \<Rightarrow> Some v | _ \<Rightarrow> None)"
  by (simp add: const_param_value_def split: option.split ctype.split)

lemma eval_var_agrees:
  assumes "snd (const_eval_width (CTypeVarRef loc ty n) typed)"
  shows "agrees typed (CTypeVarRef loc ty n) (fst (const_expr_eval typed bs (CTypeVarRef loc ty n) err))
    (int_eval typed (param_int bs) (CTypeVarRef loc ty n))"
proof -
  obtain w where ws: "const_eval_width (CTypeVarRef loc ty n) typed = (w, True)"
    using assms by (cases "const_eval_width (CTypeVarRef loc ty n) typed") simp
  have "const_mask_extend v w True = v \<longleftrightarrow> wrap_at (w, True) (sint v) = sint v" for v
    using canonical_val [of "(w, True)" v] eval_width_int [of "CTypeVarRef loc ty n" typed]
    by (simp add: ws word_val_def)
  then show ?thesis
    using param_value [of n loc bs err]
    by (cases "const_param_value n loc bs err")
      (auto simp: agrees_def ws param_int_def split: option.splits ctype.splits if_splits)
qed

lemma cast_agrees:
  assumes "well_typed typed (CCast loc ty tg x)"
    "agrees typed x (fst (const_expr_eval typed bs x err)) (int_eval typed (param_int bs) x)"
  shows "agrees typed (CCast loc ty tg x) (fst (const_expr_eval typed bs (CCast loc ty tg x) err))
    (int_eval typed (param_int bs) (CCast loc ty tg x))"
  using assms(2)
proof (cases rule: agrees_cases)
  case 1
  then show ?thesis
    by (cases "const_expr_eval typed bs x err") (simp add: agrees_def)
next
  case (2 k)
  show ?thesis
  proof (cases tg)
    case None
    then show ?thesis
      using 2 by (cases "const_expr_eval typed bs x err") (simp add: agrees_def const_cast_value_def)
  next
    case (Some t)
    let ?e = "CCast loc ty tg x" and ?w = "type_fixed_int_bits t" and ?sg = "type_is_signed t"
    have width: "int_width ?w" if "?w \<noteq> 0"
      using that by (auto simp: type_fixed_int_bits_def int_width_def split: if_splits)
    have own: "int_width (fst (const_eval_width ?e typed))" by (rule eval_width_int)
    have same: "word_of_int (wrap_at (const_eval_width ?e typed) (wrap ?w ?sg k)) = (word_of_int (wrap ?w ?sg k) :: u64)"
      if "?w \<noteq> 0"
    proof (cases typed)
      case True
      then have "const_eval_width ?e typed = (?w, ?sg)" using assms(1) Some by simp
      then show ?thesis using int_width_pos [OF width [OF that]] by (simp add: wrap_at_def)
    next
      case False
      then show ?thesis
        using mask_extend_of_int [of 64 "wrap ?w ?sg k" True] by (simp add: wrap_at_def const_mask_extend_def)
    qed
    show ?thesis
      using 2 same int_width_pos [OF width] own
      by (cases "const_expr_eval typed bs x err")
        (auto simp: agrees_def Some const_cast_value_def Let_def mask_extend_of_int wrap_at_idem)
  qed
qed

lemma binary_agrees:
  assumes wt: "well_typed typed (CBinary loc ty op x y)"
    and ex: "const_expr_eval typed bs x err = (Some (word_of_int a), err1)"
    and ey: "const_expr_eval typed bs y err1 = (Some (word_of_int b), err2)"
    and a: "int_eval typed (param_int bs) x = Some a" "wrap_at (const_eval_width x typed) a = a"
    and b: "int_eval typed (param_int bs) y = Some b" "wrap_at (const_eval_width y typed) b = b"
  shows "agrees typed (CBinary loc ty op x y) (fst (const_expr_eval typed bs (CBinary loc ty op x y) err))
    (int_eval typed (param_int bs) (CBinary loc ty op x y))"
proof -
  let ?e = "CBinary loc ty op x y"
  let ?wx = "const_eval_width x typed" and ?ws = "const_eval_width ?e typed"
  have at: "const_eval_width (if const_op_yields_bool op then x else ?e) typed = eval_at op ?wx ?ws"
    by (simp add: eval_at_def)
  have bin: "const_binary_op op (word_of_int a) (word_of_int b) (fst (eval_at op ?wx ?ws)) (snd (eval_at op ?wx ?ws)) =
    (case int_binary op ?ws a b of
       Some j \<Rightarrow> CONST_OP_OK (word_of_int j)
     | None \<Rightarrow> if op \<in> Op ` {TOK_SLASH, TOK_PERCENT} then CONST_OP_DIV_ZERO else CONST_OP_UNSUPPORTED)"
    using wt by (intro binary_val [OF eval_width_int a(2) eval_width_int b(2)]) auto
  obtain w sg where ws: "eval_at op ?wx ?ws = (w, sg)" by fastforce
  have "fst (const_expr_eval typed bs ?e err) = map_option word_of_int (int_binary op ?ws a b)"
    using bin by (simp add: ex ey at ws split: option.split)
  then show ?thesis
    using int_binary_canonical [OF eval_width_int, of op ?e typed a b]
    by (auto simp: agrees_def a b)
qed

lemma eval_agrees:
  "well_typed typed e \<Longrightarrow> agrees typed e (fst (const_expr_eval typed bs e err)) (int_eval typed (param_int bs) e)"
proof (induction typed bs e err rule: const_expr_eval.induct)
  case (1 typed bs loc ty v n err)
  then show ?case
    using canonical_val [of "const_eval_width (CIntLit loc ty v n) typed" v] eval_width_int
    by (auto simp: agrees_def split: prod.splits)
next
  case (2 typed bs loc ty b err)
  then show ?case
    using wrap_at_of_bool [OF eval_width_int, of "CBoolLit loc ty b" typed b] by (simp add: agrees_def)
next
  case (3 typed bs loc ty n err)
  then show ?case using eval_var_agrees by simp
next
  case (4 typed bs loc ty op x err)
  let ?e = "CUnary loc ty op x"
  have IH: "agrees typed x (fst (const_expr_eval typed bs x err)) (int_eval typed (param_int bs) x)"
    using 4 by simp
  from IH show ?case
  proof (cases rule: agrees_cases)
    case 1
    then show ?thesis by (cases "const_expr_eval typed bs x err") (simp add: agrees_def)
  next
    case (2 k)
    then show ?thesis
      using unary_val [OF eval_width_int eval_width_int 2(3), of op ?e typed]
        int_unary_canonical [OF eval_width_int, of op ?e typed k]
      by (cases "const_expr_eval typed bs x err")
        (auto simp: agrees_def split: option.splits prod.splits)
  qed
next
  case (5 typed bs loc ty op x y err)
  let ?e = "CBinary loc ty op x y"
  have IHx: "agrees typed x (fst (const_expr_eval typed bs x err)) (int_eval typed (param_int bs) x)"
    using 5 by simp
  from IHx show ?case
  proof (cases rule: agrees_cases)
    case 1
    then show ?thesis by (cases "const_expr_eval typed bs x err") (simp add: agrees_def)
  next
    case (2 a)
    note xval = 2
    obtain err1 where ex: "const_expr_eval typed bs x err = (Some (word_of_int a), err1)"
      using xval by (cases "const_expr_eval typed bs x err") simp
    have IHy: "agrees typed y (fst (const_expr_eval typed bs y err1)) (int_eval typed (param_int bs) y)"
      using 5(2) 5(3) ex by (metis well_typed.simps(5))
    from IHy show ?thesis
    proof (cases rule: agrees_cases)
      case 1
      then show ?thesis
        using xval ex by (cases "const_expr_eval typed bs y err1") (simp add: agrees_def)
    next
      case (2 b)
      obtain err2 where ey: "const_expr_eval typed bs y err1 = (Some (word_of_int b), err2)"
        using 2 by (cases "const_expr_eval typed bs y err1") simp
      show ?thesis
        by (rule binary_agrees [OF 5(3) ex ey xval(2,3) 2(2,3)])
    qed
  qed
next
  case (6 typed bs loc ty tg x err)
  then show ?case using cast_agrees by simp
next
  case (7 typed bs loc ty k err)
  then show ?case by (simp add: agrees_def)
qed

text \<open>A value of the integer semantics fits the node it is the value of.\<close>

lemma int_eval_canonical:
  "int_eval False env e = Some k \<Longrightarrow> wrap_at (64, True) k = k"
proof (cases e)
  case (CIntLit loc ty v n)
  then show "int_eval False env e = Some k \<Longrightarrow> wrap_at (64, True) k = k"
    using canonical_val [of "(64, True)" v] by (auto simp: const_mask_extend_def int_width_def)
next
  case (CBoolLit loc ty b)
  then show "int_eval False env e = Some k \<Longrightarrow> wrap_at (64, True) k = k"
    using wrap_at_of_bool [of "(64, True)" b] by (auto simp: int_width_def)
next
  case (CUnary loc ty op x)
  then show "int_eval False env e = Some k \<Longrightarrow> wrap_at (64, True) k = k"
    using int_unary_canonical [of "(64, True)" op _ k]
    by (auto simp: int_width_def split: Option.bind_splits)
next
  case (CBinary loc ty op x y)
  then show "int_eval False env e = Some k \<Longrightarrow> wrap_at (64, True) k = k"
    using int_binary_canonical [of "(64, True)" op _ _ k]
    by (auto simp: int_width_def split: Option.bind_splits)
qed (auto simp: int_width_def wrap_at_idem split: Option.bind_splits option.splits if_splits)

subsection \<open>The last-error slot\<close>

fun expr_vars :: "cexpr \<Rightarrow> string list" where
  "expr_vars (CTypeVarRef _ _ n) = [n]"
| "expr_vars (CUnary _ _ _ x) = expr_vars x"
| "expr_vars (CBinary _ _ _ x y) = expr_vars x @ expr_vars y"
| "expr_vars (CCast _ _ _ x) = expr_vars x"
| "expr_vars _ = []"

definition symbolic_in :: "bindings \<Rightarrow> string \<Rightarrow> bool" where
  "symbolic_in bs n \<longleftrightarrow>
     (case map_of bs n of None \<Rightarrow> True | Some t \<Rightarrow> kind t = TYPE_TYPE_VAR \<or> kind t = TYPE_CONST_EXPR)"

text \<open>
  What an evaluation does to the slot: a value leaves it as it was, an error already there
  stays, and there is no value and no error only for an expression that is still symbolic.
\<close>

definition slot_rule :: "bool \<Rightarrow> const_err \<Rightarrow> u64 option \<times> const_err \<Rightarrow> bool" where
  "slot_rule symbolic err res \<longleftrightarrow>
     (fst res \<noteq> None \<longrightarrow> snd res = err) \<and>
     (err \<noteq> None \<longrightarrow> snd res = err) \<and>
     (fst res = None \<longrightarrow> snd res = None \<longrightarrow> symbolic)"

lemma slot_rule_value: "slot_rule s err (Some v, err)"
  by (simp add: slot_rule_def)

lemma slot_rule_fail: "slot_rule s err (None, const_eval_fail loc msg err)"
  by (simp add: slot_rule_def const_eval_fail_def split: option.split)

lemma slot_rule_none: "slot_rule s err (None, e) \<Longrightarrow> (s \<Longrightarrow> s') \<Longrightarrow> slot_rule s' err (None, e)"
  by (simp add: slot_rule_def)

lemma slot_rule_some: "slot_rule s err (Some v, e) \<Longrightarrow> e = err"
  by (simp add: slot_rule_def)

lemma slot_rule_param: "slot_rule (symbolic_in bs n) err (const_param_value n loc bs err)"
  by (auto simp: const_param_value_def symbolic_in_def slot_rule_def const_eval_fail_def
      split: option.split ctype.split)

lemma eval_slot:
  "slot_rule (\<exists>n \<in> set (expr_vars e). symbolic_in bs n) err (const_expr_eval typed bs e err)"
proof (induction typed bs e err rule: const_expr_eval.induct)
  case (3 typed bs loc ty n err)
  show ?case
    using slot_rule_param [of bs n err loc]
    by (cases "const_param_value n loc bs err")
      (auto simp: slot_rule_value slot_rule_fail dest: slot_rule_some split: option.split prod.split)
next
  case (4 typed bs loc ty op x err)
  then show ?case
    by (cases "const_expr_eval typed bs x err")
      (auto simp: slot_rule_value slot_rule_fail dest: slot_rule_some
        split: option.split prod.split const_op_status.split)
next
  case (5 typed bs loc ty op x y err)
  show ?case
  proof (cases "const_expr_eval typed bs x err")
    case (Pair v err1)
    show ?thesis
    proof (cases v)
      case None
      then show ?thesis
        using 5(1) Pair by (auto elim: slot_rule_none)
    next
      case (Some l)
      then have err1: "err1 = err" using 5(1) Pair slot_rule_some by metis
      have y: "slot_rule (\<exists>n\<in>set (expr_vars y). symbolic_in bs n) err (const_expr_eval typed bs y err)"
        using 5(2) Pair Some err1 by metis
      obtain r err2 where ey: "const_expr_eval typed bs y err = (r, err2)" by fastforce
      show ?thesis
      proof (cases r)
        case None
        then show ?thesis
          using y ey Pair Some err1 by (auto elim: slot_rule_none)
      next
        case (Some r')
        then have "err2 = err" using y ey slot_rule_some by metis
        then show ?thesis
          using ey Pair Some \<open>v = Some l\<close> err1
          by (simp add: slot_rule_value slot_rule_fail split: prod.split const_op_status.split)
      qed
    qed
  qed
next
  case (6 typed bs loc ty tg x err)
  then show ?case
    by (cases "const_expr_eval typed bs x err")
      (auto simp: slot_rule_value slot_rule_fail dest: slot_rule_some split: option.split)
qed (simp_all add: slot_rule_value slot_rule_fail)

subsection \<open>Properties\<close>

text \<open>
  The arithmetic operators compute width-w integer arithmetic. For every fixed width and
  signedness and all operand patterns, \<open>const_binary_op\<close> on an arithmetic, bitwise or shift
  operator reduces the operands to the width, applies the mathematical operation (division
  truncates, a shift count counts modulo the width, a right shift floors, and \<open>MIN / -1\<close> wraps)
  and reduces the result; it reports a division by zero exactly for a zero divisor.
\<close>

theorem const_binary_op_is_int_arith:
  assumes "int_width w" and "arith_op op"
  shows "const_binary_op (Op op) l r w sg =
    (case int_arith op w (wrap w sg (word_val sg l)) (wrap w sg (word_val sg r)) of
       None \<Rightarrow> CONST_OP_DIV_ZERO
     | Some k \<Rightarrow> CONST_OP_OK (word_of_int (wrap w sg k)))"
  by (rule const_binary_op_arith [OF assms])

lemma const_binary_op_is_int_arith_witness:
  "const_binary_op (Op TOK_SLASH) 128 255 8 True = CONST_OP_OK (word_of_int (- 128))"
proof -
  have w: "wrap 8 True (word_val True 128) = - 128" "wrap 8 True (word_val True 255) = - 1" "wrap 8 True 128 = - 128"
    by (simp_all add: wrap_def word_val_def)
  show ?thesis
    using const_binary_op_is_int_arith [of 8 TOK_SLASH 128 255 True] w
    by (simp add: int_width_def arith_op_def int_arith_def)
qed



text \<open>
  The untyped evaluation (const arguments and array sizes) needs no typing: on every
  expression it returns exactly the 64-bit signed value of the integer semantics.
\<close>

theorem const_type_eval_value:
  "fst (const_type_eval (Some (TConstExpr i e)) bs err) = map_option word_of_int (int_eval False (param_int bs) e)"
  using eval_agrees [OF untyped_well_typed, of e bs err] by (simp add: const_type_eval_def agrees_def)

text \<open>
  Failures are never silent and never lost. An evaluation that returns a value leaves the
  last-error slot as it found it; an error already in the slot stays; and a failure with an
  empty slot afterwards happens only when the expression mentions a parameter that is unbound
  or bound to another symbolic parameter, the case where the caller keeps it symbolic.
\<close>

theorem const_eval_errors:
  "(fst (const_expr_eval typed bs e err) \<noteq> None \<longrightarrow> snd (const_expr_eval typed bs e err) = err) \<and>
   (const_eval_error_pending err \<longrightarrow> snd (const_expr_eval typed bs e err) = err) \<and>
   (fst (const_expr_eval typed bs e err) = None \<longrightarrow> \<not> const_eval_error_pending (snd (const_expr_eval typed bs e err)) \<longrightarrow>
      (\<exists>n \<in> set (expr_vars e). symbolic_in bs n))"
  using eval_slot [of e bs err typed] unfolding slot_rule_def const_eval_error_pending_def by blast

lemma const_eval_errors_witness:
  "const_expr_eval False [] (CBinary (mk_loc 1 1) None (Op TOK_SLASH) (CIntLit (mk_loc 1 1) None 1 False)
      (CIntLit (mk_loc 1 5) None 0 False)) None
   = (None, Some (''division by zero in const-generic expression'', mk_loc 1 1)) \<and>
   const_eval_error_pending (snd (const_expr_eval False [] (CBinary (mk_loc 1 1) None (Op TOK_SLASH)
      (CIntLit (mk_loc 1 1) None 1 False) (CIntLit (mk_loc 1 5) None 0 False)) None))"
  using const_eval_errors [of False "[]" "CBinary (mk_loc 1 1) None (Op TOK_SLASH) (CIntLit (mk_loc 1 1) None 1 False)
      (CIntLit (mk_loc 1 5) None 0 False)" None]
  by (simp add: const_binary_op_def const_arith_def const_mask_extend_def const_eval_fail_def Let_def
      const_op_yields_bool_def)

end
