(* ===== verification/FC_Subst.thy ===== *)
theory FC_Subst
  imports FC_Const
begin

section \<open>Type variables and substitution (\<open>src/types.c\<close>)\<close>

text \<open>
  Finding the type variables of a type, collecting them with the kind their positions give
  them, and substituting them. The clean set of \<open>type_contains_type_var_memo\<close> and the list of
  a collection are lists (the arrays the code grows); the last-error slot is threaded through
  \<open>type_substitute\<close>. The lemmas say that the memoised search answers as the plain one, what a
  collection holds, that substitution reads only the collected variables, and that binding
  them all to closed types closes the type unless an error is pending.
\<close>

text \<open>The payload types of a union's variants, a NULL payload contributing none.\<close>

fun payloads :: "'t union_variant list \<Rightarrow> 't list" where
  "payloads [] = []"
| "payloads (v # vs) = (case v_payload v of None \<Rightarrow> payloads vs | Some t \<Rightarrow> t # payloads vs)"

lemma size_payloads [termination_simp]:
  "size_list size (payloads (vs :: 't::size union_variant list)) \<le> size_list (size_union_variant size) vs"
proof (induction vs)
  case (Cons v vs)
  then show ?case by (cases v) (auto split: option.split)
qed simp

fun contains_memo :: "ctype \<Rightarrow> ctype list \<Rightarrow> bool \<times> ctype list"
  and contains_memo_list :: "ctype list \<Rightarrow> ctype list \<Rightarrow> bool \<times> ctype list" where
  "contains_memo (TTypeVar i n) clean = (True, clean)"
| "contains_memo (TPointer i t) clean = contains_memo t clean"
| "contains_memo (TSlice i t) clean = contains_memo t clean"
| "contains_memo (TOption i t) clean = contains_memo t clean"
| "contains_memo (TResult i t) clean = contains_memo t clean"
| "contains_memo (TFixedArray i e n ref) clean =
     (case ref of
        None \<Rightarrow> contains_memo e clean
      | Some r \<Rightarrow>
          (case contains_memo r clean of
             (True, clean) \<Rightarrow> (True, clean)
           | (False, clean) \<Rightarrow> contains_memo e clean))"
| "contains_memo (TConstInt i v) clean = (False, clean)"
| "contains_memo (TConstExpr i e) clean = (True, clean)"
| "contains_memo (TFunc i ps r v tp) clean =
     (case contains_memo_list ps clean of
        (True, clean) \<Rightarrow> (True, clean)
      | (False, clean) \<Rightarrow> contains_memo r clean)"
| "contains_memo (TStruct i s fs as) clean =
     (if TStruct i s fs as \<in> set clean then (False, clean)
      else case contains_memo_list (map f_type fs) clean of
             (True, clean) \<Rightarrow> (True, clean)
           | (False, clean) \<Rightarrow>
               (case contains_memo_list as clean of
                  (True, clean) \<Rightarrow> (True, clean)
                | (False, clean) \<Rightarrow> (False, clean @ [TStruct i s fs as])))"
| "contains_memo (TUnion i u vs as) clean =
     (if TUnion i u vs as \<in> set clean then (False, clean)
      else case contains_memo_list (payloads vs) clean of
             (True, clean) \<Rightarrow> (True, clean)
           | (False, clean) \<Rightarrow>
               (case contains_memo_list as clean of
                  (True, clean) \<Rightarrow> (True, clean)
                | (False, clean) \<Rightarrow> (False, clean @ [TUnion i u vs as])))"
| "contains_memo (TStub i s as) clean =
     (if TStub i s as \<in> set clean then (False, clean)
      else case contains_memo_list as clean of
             (True, clean) \<Rightarrow> (True, clean)
           | (False, clean) \<Rightarrow> (False, clean @ [TStub i s as]))"
| "contains_memo t clean = (False, clean)"
| "contains_memo_list [] clean = (False, clean)"
| "contains_memo_list (t # ts) clean =
     (case contains_memo t clean of
        (True, clean) \<Rightarrow> (True, clean)
      | (False, clean) \<Rightarrow> contains_memo_list ts clean)"

definition type_contains_type_var :: "ctype \<Rightarrow> bool" where
  "type_contains_type_var t = fst (contains_memo t [])"

subsection \<open>Walking and collecting\<close>

datatype gp_kind = GP_TYPE | GP_CONST | GP_UNKNOWN

fun const_expr_walk_vars :: "cexpr \<Rightarrow> (string \<times> gp_kind) list" where
  "const_expr_walk_vars (CTypeVarRef _ _ n) = [(n, GP_CONST)]"
| "const_expr_walk_vars (CUnary _ _ _ x) = const_expr_walk_vars x"
| "const_expr_walk_vars (CBinary _ _ _ x y) = const_expr_walk_vars x @ const_expr_walk_vars y"
| "const_expr_walk_vars (CCast _ _ _ x) = const_expr_walk_vars x"
| "const_expr_walk_vars _ = []"

type_synonym arg_kind_fn = "(ctype \<Rightarrow> nat \<Rightarrow> gp_kind) option"

definition arg_slot_kind :: "arg_kind_fn \<Rightarrow> ctype \<Rightarrow> nat \<Rightarrow> gp_kind" where
  "arg_slot_kind ak named i = (case ak of None \<Rightarrow> GP_UNKNOWN | Some f \<Rightarrow> f named i)"

text \<open>
  The visits in order. \<open>walk_list\<close> visits types of one kind each, \<open>walk_args\<close> the argument
  slots of a named type from slot \<open>i\<close> on.
\<close>

fun walk_vars :: "arg_kind_fn \<Rightarrow> ctype \<Rightarrow> gp_kind \<Rightarrow> (string \<times> gp_kind) list"
  and walk_list :: "arg_kind_fn \<Rightarrow> ctype list \<Rightarrow> (string \<times> gp_kind) list"
  and walk_args :: "arg_kind_fn \<Rightarrow> ctype \<Rightarrow> nat \<Rightarrow> ctype list \<Rightarrow> (string \<times> gp_kind) list" where
  "walk_vars ak (TTypeVar i n) k = [(n, k)]"
| "walk_vars ak (TPointer i t) k = walk_vars ak t GP_TYPE"
| "walk_vars ak (TSlice i t) k = walk_vars ak t GP_TYPE"
| "walk_vars ak (TOption i t) k = walk_vars ak t GP_TYPE"
| "walk_vars ak (TResult i t) k = walk_vars ak t GP_TYPE"
| "walk_vars ak (TFixedArray i e n ref) k =
     walk_vars ak e GP_TYPE @ (case ref of None \<Rightarrow> [] | Some r \<Rightarrow> walk_vars ak r GP_CONST)"
| "walk_vars ak (TConstExpr i e) k = const_expr_walk_vars e"
| "walk_vars ak (TFunc i ps r v tp) k = walk_list ak ps @ walk_vars ak r GP_TYPE"
| "walk_vars ak (TStruct i s fs as) k =
     walk_list ak (map f_type fs) @ walk_args ak (TStruct i s fs as) 0 as"
| "walk_vars ak (TUnion i u vs as) k =
     walk_list ak (payloads vs) @ walk_args ak (TUnion i u vs as) 0 as"
| "walk_vars ak (TStub i s as) k = walk_args ak (TStub i s as) 0 as"
| "walk_vars ak t k = []"
| "walk_list ak [] = []"
| "walk_list ak (t # ts) = walk_vars ak t GP_TYPE @ walk_list ak ts"
| "walk_args ak named i [] = []"
| "walk_args ak named i (t # ts) =
     walk_vars ak t (arg_slot_kind ak named i) @ walk_args ak named (i + 1) ts"

definition type_walk_vars :: "arg_kind_fn \<Rightarrow> ctype \<Rightarrow> (string \<times> gp_kind) list" where
  "type_walk_vars ak t = walk_vars ak t GP_TYPE"

record var_list =
  vl_vars :: "string list"
  vl_kinds :: "gp_kind list option"
  vl_conflict :: "string option"

fun find_index :: "string \<Rightarrow> string list \<Rightarrow> nat option" where
  "find_index n [] = None"
| "find_index n (m # ms) = (if m = n then Some 0 else map_option Suc (find_index n ms))"

definition var_list_add :: "string \<times> gp_kind \<Rightarrow> var_list \<Rightarrow> var_list" where
  "var_list_add nk l =
     (case nk of (name, k) \<Rightarrow>
        (case find_index name (vl_vars l) of
           Some i \<Rightarrow>
             (case vl_kinds l of
                None \<Rightarrow> l
              | Some ks \<Rightarrow>
                  if ks ! i = GP_UNKNOWN then l\<lparr>vl_kinds := Some (ks[i := k])\<rparr>
                  else if k \<noteq> GP_UNKNOWN \<and> k \<noteq> ks ! i \<and> vl_conflict l = None
                  then l\<lparr>vl_conflict := Some name\<rparr>
                  else l)
         | None \<Rightarrow>
             l\<lparr>vl_vars := vl_vars l @ [name],
               vl_kinds := map_option (\<lambda>ks. ks @ [k]) (vl_kinds l)\<rparr>))"

definition type_collect_vars :: "ctype \<Rightarrow> string list \<Rightarrow> string list" where
  "type_collect_vars t vars =
     vl_vars (fold var_list_add (type_walk_vars None t)
       \<lparr>vl_vars = vars, vl_kinds = None, vl_conflict = None\<rparr>)"

definition type_collect_vars_kinds ::
  "ctype \<Rightarrow> string list \<Rightarrow> gp_kind list \<Rightarrow> string option \<Rightarrow> var_list" where
  "type_collect_vars_kinds t vars kinds conflict =
     fold var_list_add (type_walk_vars None t)
       \<lparr>vl_vars = vars, vl_kinds = Some kinds, vl_conflict = conflict\<rparr>"

subsection \<open>Substitution\<close>

fun const_expr_subst :: "bindings \<Rightarrow> cexpr \<Rightarrow> cexpr" where
  "const_expr_subst bs (CTypeVarRef loc ty n) =
     (case map_of bs n of
        None \<Rightarrow> CTypeVarRef loc ty n
      | Some (TConstInt _ v) \<Rightarrow> CIntLit loc None v (sint v < 0)
      | Some (TTypeVar _ m) \<Rightarrow> CTypeVarRef loc ty m
      | Some (TConstExpr _ e) \<Rightarrow> e
      | Some _ \<Rightarrow> CTypeVarRef loc ty n)"
| "const_expr_subst bs (CUnary loc ty op x) = CUnary loc ty op (const_expr_subst bs x)"
| "const_expr_subst bs (CBinary loc ty op x y) =
     CBinary loc ty op (const_expr_subst bs x) (const_expr_subst bs y)"
| "const_expr_subst bs (CCast loc ty tg x) = CCast loc ty tg (const_expr_subst bs x)"
| "const_expr_subst bs e = e"

text \<open>Writing substituted types back into fields and variants.\<close>

fun put_fields :: "'t struct_field list \<Rightarrow> 't list \<Rightarrow> 't struct_field list" where
  "put_fields (f # fs) (t # ts) = Field (f_name f) t (f_loc f) # put_fields fs ts"
| "put_fields fs ts = []"

fun put_payloads :: "'t union_variant list \<Rightarrow> 't list \<Rightarrow> 't union_variant list" where
  "put_payloads [] ts = []"
| "put_payloads (v # vs) ts =
     (case (v_payload v, ts) of
        (Some _, t # ts) \<Rightarrow> Variant (v_name v) (Some t) (v_loc v) # put_payloads vs ts
      | _ \<Rightarrow> v # put_payloads vs ts)"

definition hard_failure :: "const_err \<Rightarrow> const_err \<Rightarrow> bool" where
  "hard_failure pre post \<longleftrightarrow> map_option fst post \<noteq> map_option fst pre"

fun type_substitute :: "bindings \<Rightarrow> ctype \<Rightarrow> const_err \<Rightarrow> ctype \<times> const_err"
  and type_substitute_list :: "bindings \<Rightarrow> ctype list \<Rightarrow> const_err \<Rightarrow> ctype list \<times> const_err" where
  "type_substitute bs (TTypeVar i n) err =
     (case map_of bs n of None \<Rightarrow> (TTypeVar i n, err) | Some t \<Rightarrow> (t, err))"
| "type_substitute bs (TConstInt i v) err = (TConstInt i v, err)"
| "type_substitute bs (TConstExpr i e) err =
     (case const_type_eval (Some (TConstExpr i e)) bs err of
        (Some v, err) \<Rightarrow> (type_const_int v, err)
      | (None, err') \<Rightarrow>
          if hard_failure err err' then (type_error, err')
          else let ne = const_expr_subst bs e
               in if ne = e then (TConstExpr i e, err') else (type_const_expr ne, err'))"
| "type_substitute bs (TPointer i t) err =
     (case type_substitute bs t err of (inner, err) \<Rightarrow>
        if inner = t then (TPointer i t, err)
        else (set_const (ti_const i) (type_pointer inner), err))"
| "type_substitute bs (TSlice i t) err =
     (case type_substitute bs t err of (inner, err) \<Rightarrow>
        if inner = t then (TSlice i t, err)
        else (set_const (ti_const i) (type_slice inner), err))"
| "type_substitute bs (TOption i t) err =
     (case type_substitute bs t err of (inner, err) \<Rightarrow>
        if inner = t then (TOption i t, err) else (type_option inner, err))"
| "type_substitute bs (TResult i t) err =
     (case type_substitute bs t err of (inner, err) \<Rightarrow>
        if inner = t then (TResult i t, err) else (type_result inner, err))"
| "type_substitute bs (TFixedArray i e n ref) err =
     (case type_substitute bs e err of (inner, err) \<Rightarrow>
        (case ref of
           None \<Rightarrow>
             if inner = e then (TFixedArray i e n None, err) else (type_fixed_array inner n, err)
         | Some r \<Rightarrow>
             (case const_type_eval (Some r) bs err of
                (Some v, err) \<Rightarrow> (type_fixed_array inner v, err)
              | (None, err') \<Rightarrow>
                  if hard_failure err err' then (type_error, err')
                  else case type_substitute bs r err' of (nref, err) \<Rightarrow>
                    if type_is_error (Some nref) then (type_error, err)
                    else if inner = e \<and> nref = r then (TFixedArray i e n (Some r), err)
                    else (type_fixed_array_sym inner nref, err))))"
| "type_substitute bs (TFunc i ps r v tp) err =
     (case type_substitute_list bs ps err of (params, err) \<Rightarrow>
        case type_substitute bs r err of (ret, err) \<Rightarrow>
          if params = ps \<and> ret = r then (TFunc i ps r v tp, err)
          else (TFunc plain params ret v tp, err))"
| "type_substitute bs (TStruct i s fs as) err =
     (case type_substitute_list bs (map f_type fs) err of (fts, err) \<Rightarrow>
        case type_substitute_list bs as err of (targs, err) \<Rightarrow>
          if fts = map f_type fs \<and> targs = as then (TStruct i s fs as, err)
          else (TStruct plain s (put_fields fs fts) targs, err))"
| "type_substitute bs (TUnion i u vs as) err =
     (case type_substitute_list bs (payloads vs) err of (pts, err) \<Rightarrow>
        case type_substitute_list bs as err of (targs, err) \<Rightarrow>
          if pts = payloads vs \<and> targs = as then (TUnion i u vs as, err)
          else (TUnion plain u (put_payloads vs pts) targs, err))"
| "type_substitute bs (TStub i s as) err =
     (case type_substitute_list bs as err of (targs, err) \<Rightarrow>
        if targs = as then (TStub i s as, err) else (TStub plain s targs, err))"
| "type_substitute bs t err = (t, err)"
| "type_substitute_list bs [] err = ([], err)"
| "type_substitute_list bs (t # ts) err =
     (case type_substitute bs t err of (t', err) \<Rightarrow>
        case type_substitute_list bs ts err of (ts', err) \<Rightarrow> (t' # ts', err))"

subsection \<open>The memoised search\<close>

text \<open>The search without the clean set.\<close>

fun has_var :: "ctype \<Rightarrow> bool" and has_var_list :: "ctype list \<Rightarrow> bool" where
  "has_var (TTypeVar i n) = True"
| "has_var (TConstExpr i e) = True"
| "has_var (TPointer i t) = has_var t"
| "has_var (TSlice i t) = has_var t"
| "has_var (TOption i t) = has_var t"
| "has_var (TResult i t) = has_var t"
| "has_var (TFixedArray i e n ref) = (has_var e \<or> (case ref of None \<Rightarrow> False | Some r \<Rightarrow> has_var r))"
| "has_var (TFunc i ps r v tp) = (has_var_list ps \<or> has_var r)"
| "has_var (TStruct i s fs as) = (has_var_list (map f_type fs) \<or> has_var_list as)"
| "has_var (TUnion i u vs as) = (has_var_list (payloads vs) \<or> has_var_list as)"
| "has_var (TStub i s as) = has_var_list as"
| "has_var t = False"
| "has_var_list [] = False"
| "has_var_list (t # ts) = (has_var t \<or> has_var_list ts)"

definition clean_ok :: "ctype list \<Rightarrow> bool" where "clean_ok clean \<longleftrightarrow> (\<forall>t \<in> set clean. \<not> has_var t)"

lemma clean_ok_snoc [simp]: "clean_ok (clean @ [t]) \<longleftrightarrow> clean_ok clean \<and> \<not> has_var t"
  by (auto simp: clean_ok_def)

lemma clean_ok_mem: "clean_ok clean \<Longrightarrow> t \<in> set clean \<Longrightarrow> \<not> has_var t"
  by (simp add: clean_ok_def)

lemma contains_memo_plain:
  "clean_ok clean \<Longrightarrow> fst (contains_memo t clean) = has_var t \<and> clean_ok (snd (contains_memo t clean))"
  "clean_ok clean \<Longrightarrow> fst (contains_memo_list ts clean) = has_var_list ts \<and>
     clean_ok (snd (contains_memo_list ts clean))"
proof (induction t clean and ts clean rule: contains_memo_contains_memo_list.induct)
  case (6 i e n ref clean)
  then show ?case
    by (cases ref; cases "contains_memo (the ref) clean") (auto split: bool.split)
next
  case (9 i ps r v tp clean)
  then show ?case
    by (cases "contains_memo_list ps clean") (auto split: bool.split)
next
  case (10 i s fs as clean)
  show ?case
  proof (cases "TStruct i s fs as \<in> set clean")
    case True
    then show ?thesis using 10(3) clean_ok_mem by fastforce
  next
    case False
    obtain b c where fs: "contains_memo_list (map f_type fs) clean = (b, c)" by fastforce
    obtain b' c' where as: "contains_memo_list as c = (b', c')" by fastforce
    show ?thesis
      using 10 False fs as by (cases b; cases b') auto
  qed
next
  case (11 i u vs as clean)
  show ?case
  proof (cases "TUnion i u vs as \<in> set clean")
    case True
    then show ?thesis using 11(3) clean_ok_mem by fastforce
  next
    case False
    obtain b c where fs: "contains_memo_list (payloads vs) clean = (b, c)" by fastforce
    obtain b' c' where as: "contains_memo_list as c = (b', c')" by fastforce
    show ?thesis
      using 11 False fs as by (cases b; cases b') auto
  qed
next
  case (12 i s as clean)
  show ?case
  proof (cases "TStub i s as \<in> set clean")
    case True
    then show ?thesis using 12(2) clean_ok_mem by fastforce
  next
    case False
    obtain b c where as: "contains_memo_list as clean = (b, c)" by fastforce
    show ?thesis
      using 12 False as by (cases b) auto
  qed
next
  case (15 t ts clean)
  obtain b c where t: "contains_memo t clean = (b, c)" by fastforce
  show ?case
    using 15 t by (cases b) auto
qed simp_all

lemma contains_plain: "type_contains_type_var t = has_var t"
  using contains_memo_plain(1) [of "[]" t] by (simp add: type_contains_type_var_def clean_ok_def)

subsection \<open>What a collection holds\<close>

fun first_definite :: "string \<Rightarrow> (string \<times> gp_kind) list \<Rightarrow> gp_kind" where
  "first_definite n [] = GP_UNKNOWN"
| "first_definite n ((m, k) # vs) =
     (if m = n \<and> k \<noteq> GP_UNKNOWN then k else first_definite n vs)"

definition in_order :: "string list \<Rightarrow> string list" where
  "in_order ns = rev (remdups (rev ns))"

definition both_kinds :: "string \<Rightarrow> (string \<times> gp_kind) list \<Rightarrow> bool" where
  "both_kinds n vs \<longleftrightarrow> (n, GP_TYPE) \<in> set vs \<and> (n, GP_CONST) \<in> set vs"

lemma in_order_snoc:
  "in_order (ns @ [n]) = (if n \<in> set ns then in_order ns else in_order ns @ [n])"
  by (simp add: in_order_def)

lemma set_in_order [simp]: "set (in_order ns) = set ns"
  by (simp add: in_order_def)

lemma distinct_in_order [simp]: "distinct (in_order ns)"
  by (simp add: in_order_def)

lemma find_index_none: "find_index n ms = None \<longleftrightarrow> n \<notin> set ms"
  by (induction ms) auto

lemma find_index_some: "find_index n ms = Some i \<Longrightarrow> i < length ms \<and> ms ! i = n"
  by (induction ms arbitrary: i) (auto split: if_splits)

lemma find_index_mem: "find_index n ms = Some i \<Longrightarrow> n \<in> set ms"
  using find_index_some by (metis nth_mem)

lemma first_definite_snoc:
  "first_definite n (vs @ [(m, k)]) =
     (if first_definite n vs = GP_UNKNOWN \<and> m = n then k else first_definite n vs)"
  by (induction vs) auto

lemma first_definite_mem: "first_definite n vs = k \<Longrightarrow> k \<noteq> GP_UNKNOWN \<Longrightarrow> (n, k) \<in> set vs"
  by (induction vs) (auto split: if_splits)

lemma first_definite_unknown: "first_definite n vs = GP_UNKNOWN \<Longrightarrow> (n, k) \<in> set vs \<Longrightarrow> k = GP_UNKNOWN"
  by (induction vs) (auto split: if_splits)

lemma first_definite_absent: "n \<notin> fst ` set vs \<Longrightarrow> first_definite n vs = GP_UNKNOWN"
  by (induction vs) auto

definition collected :: "(string \<times> gp_kind) list \<Rightarrow> var_list \<Rightarrow> bool" where
  "collected vs l \<longleftrightarrow>
     vl_vars l = in_order (map fst vs) \<and>
     vl_kinds l = Some (map (\<lambda>n. first_definite n vs) (in_order (map fst vs))) \<and>
     (vl_conflict l = None \<longleftrightarrow> (\<forall>n. \<not> both_kinds n vs)) \<and>
     (\<forall>n. vl_conflict l = Some n \<longrightarrow> both_kinds n vs)"

lemma both_kinds_snoc:
  "both_kinds n (vs @ [(m, k)]) \<longleftrightarrow> both_kinds n vs \<or>
     (n = m \<and> (k = GP_TYPE \<and> (n, GP_CONST) \<in> set vs \<or> k = GP_CONST \<and> (n, GP_TYPE) \<in> set vs))"
  by (cases k) (auto simp: both_kinds_def)

lemma both_kinds_definite:
  "both_kinds n (vs @ [(n, k)]) \<longleftrightarrow> both_kinds n vs \<or>
     (first_definite n vs \<noteq> GP_UNKNOWN \<and> k \<noteq> GP_UNKNOWN \<and> k \<noteq> first_definite n vs)"
  using first_definite_mem [of n vs] first_definite_unknown [of n vs]
  unfolding both_kinds_snoc both_kinds_def
  by (cases k; cases "first_definite n vs") auto

lemma map_update_definite:
  assumes "distinct ns" "i < length ns" "ns ! i = m"
  shows "map (\<lambda>n. first_definite n (vs @ [(m, k)])) ns =
    (if first_definite m vs = GP_UNKNOWN then (map (\<lambda>n. first_definite n vs) ns)[i := k]
     else map (\<lambda>n. first_definite n vs) ns)"
  using assms
  by (intro nth_equalityI) (auto simp: first_definite_snoc nth_list_update nth_eq_iff_index_eq)

lemma collected_add:
  assumes "collected vs l"
  shows "collected (vs @ [(m, k)]) (var_list_add (m, k) l)"
proof (cases "find_index m (vl_vars l)")
  case None
  then have new: "m \<notin> fst ` set vs"
    using assms by (auto simp: find_index_none collected_def)
  moreover have "(m, k') \<notin> set vs" for k'
    using new by force
  ultimately show ?thesis
    using assms None
    by (auto simp: collected_def var_list_add_def in_order_snoc first_definite_snoc
        first_definite_absent both_kinds_snoc)
next
  case (Some i)
  let ?ns = "in_order (map fst vs)"
  have i: "i < length ?ns" "?ns ! i = m"
    using find_index_some [OF Some] assms by (auto simp: collected_def)
  have old: "m \<in> fst ` set vs"
    using i nth_mem [OF i(1)] by simp
  have ks: "map (\<lambda>n. first_definite n vs) ?ns ! i = first_definite m vs"
    using i by simp
  have names: "in_order (map fst vs @ [m]) = ?ns"
    using old by (auto simp: in_order_snoc)
  have both: "both_kinds n (vs @ [(m, k)]) \<longleftrightarrow> both_kinds n vs \<or>
      n = m \<and> first_definite m vs \<noteq> GP_UNKNOWN \<and> k \<noteq> GP_UNKNOWN \<and> k \<noteq> first_definite m vs" for n
    using both_kinds_definite [of m vs k] both_kinds_snoc [of n vs m k] by (cases "n = m") auto
  have add: "var_list_add (m, k) l =
      (if first_definite m vs = GP_UNKNOWN
       then l\<lparr>vl_kinds := Some ((map (\<lambda>n. first_definite n vs) ?ns)[i := k])\<rparr>
       else if k \<noteq> GP_UNKNOWN \<and> k \<noteq> first_definite m vs \<and> vl_conflict l = None
       then l\<lparr>vl_conflict := Some m\<rparr> else l)"
    using assms Some ks by (simp add: var_list_add_def collected_def)
  note kinds = map_update_definite [OF distinct_in_order i, of vs k]
  consider (first) "first_definite m vs = GP_UNKNOWN"
    | (clash) "first_definite m vs \<noteq> GP_UNKNOWN" "k \<noteq> GP_UNKNOWN" "k \<noteq> first_definite m vs"
    | (same) "first_definite m vs \<noteq> GP_UNKNOWN" "k = GP_UNKNOWN \<or> k = first_definite m vs"
    by blast
  then show ?thesis
  proof cases
    case first
    then show ?thesis using assms kinds by (simp add: collected_def names both add)
  next
    case same
    then have "both_kinds n (vs @ [(m, k)]) = both_kinds n vs" for n
      using both by blast
    then show ?thesis using assms kinds same by (auto simp: collected_def names add)
  next
    case clash
    then have "both_kinds m (vs @ [(m, k)])" "both_kinds n vs \<Longrightarrow> both_kinds n (vs @ [(m, k)])" for n
      using both by blast+
    then show ?thesis
      using assms kinds clash by (cases "vl_conflict l") (auto simp: collected_def names add)
  qed
qed

lemma collected_fold: "collected vs (fold var_list_add vs \<lparr>vl_vars = [], vl_kinds = Some [], vl_conflict = None\<rparr>)"
proof (induction vs rule: rev_induct)
  case Nil
  then show ?case by (simp add: collected_def in_order_def both_kinds_def)
next
  case (snoc v vs)
  then show ?case by (cases v) (simp add: collected_add)
qed

lemma add_name:
  "vl_kinds l = None \<Longrightarrow> vl_kinds (var_list_add (m, k) l) = None \<and>
     vl_vars (var_list_add (m, k) l) = (if m \<in> set (vl_vars l) then vl_vars l else vl_vars l @ [m])"
  using find_index_none [of m "vl_vars l"] find_index_mem [of m "vl_vars l"]
  by (auto simp: var_list_add_def split: option.split)

lemma collect_names_fold:
  "vl_vars (fold var_list_add vs \<lparr>vl_vars = [], vl_kinds = None, vl_conflict = None\<rparr>) = in_order (map fst vs)
   \<and> vl_kinds (fold var_list_add vs \<lparr>vl_vars = [], vl_kinds = None, vl_conflict = None\<rparr>) = None"
proof (induction vs rule: rev_induct)
  case (snoc v vs)
  then show ?case
    by (cases v) (simp add: add_name in_order_snoc)
qed (simp add: in_order_def)

definition type_vars :: "ctype \<Rightarrow> string set" where
  "type_vars t = fst ` set (type_walk_vars None t)"

lemma collect_vars_set: "set (type_collect_vars t []) = type_vars t \<and> distinct (type_collect_vars t [])"
  by (simp add: type_collect_vars_def collect_names_fold type_vars_def)

text \<open>The same set by structure.\<close>

fun occ :: "ctype \<Rightarrow> string set" and occ_list :: "ctype list \<Rightarrow> string set" where
  "occ (TTypeVar i n) = {n}"
| "occ (TConstExpr i e) = set (expr_vars e)"
| "occ (TPointer i t) = occ t"
| "occ (TSlice i t) = occ t"
| "occ (TOption i t) = occ t"
| "occ (TResult i t) = occ t"
| "occ (TFixedArray i e n ref) = occ e \<union> (case ref of None \<Rightarrow> {} | Some r \<Rightarrow> occ r)"
| "occ (TFunc i ps r v tp) = occ_list ps \<union> occ r"
| "occ (TStruct i s fs as) = occ_list (map f_type fs) \<union> occ_list as"
| "occ (TUnion i u vs as) = occ_list (payloads vs) \<union> occ_list as"
| "occ (TStub i s as) = occ_list as"
| "occ t = {}"
| "occ_list [] = {}"
| "occ_list (t # ts) = occ t \<union> occ_list ts"

lemma expr_walk_names: "fst ` set (const_expr_walk_vars e) = set (expr_vars e)"
  by (induction e rule: expr_vars.induct) (simp_all add: image_Un)

lemma walk_names:
  "fst ` set (walk_vars ak t k) = occ t"
  "fst ` set (walk_list ak ts) = occ_list ts"
  "fst ` set (walk_args ak named i ts) = occ_list ts"
  by (induction ak t k and ak ts and ak named i ts rule: walk_vars_walk_list_walk_args.induct)
    (simp_all add: image_Un expr_walk_names split: option.split)

lemma type_vars_occ: "type_vars t = occ t"
  by (simp add: type_vars_def type_walk_vars_def walk_names)

subsection \<open>What substitution reads\<close>

definition same_on :: "string set \<Rightarrow> bindings \<Rightarrow> bindings \<Rightarrow> bool" where
  "same_on ns bs bs' \<longleftrightarrow> (\<forall>n \<in> ns. map_of bs n = map_of bs' n)"

lemma same_on_Un [simp]: "same_on (A \<union> B) bs bs' \<longleftrightarrow> same_on A bs bs' \<and> same_on B bs bs'"
  by (auto simp: same_on_def)

lemma same_on_insert [simp]: "same_on {n} bs bs' \<longleftrightarrow> map_of bs n = map_of bs' n"
  by (simp add: same_on_def)

lemma expr_eval_same:
  "same_on (set (expr_vars e)) bs bs' \<Longrightarrow> const_expr_eval typed bs e err = const_expr_eval typed bs' e err"
proof (induction e arbitrary: err rule: expr_vars.induct)
  case (1 loc ty n)
  then show ?case by (simp add: const_param_value_def)
next
  case (3 loc ty op x y)
  then show ?case
    by (cases "const_expr_eval typed bs' x err") (simp split: option.split)
qed simp_all

lemma type_eval_same: "same_on (occ t) bs bs' \<Longrightarrow> const_type_eval (Some t) bs err = const_type_eval (Some t) bs' err"
  by (cases t) (simp_all add: const_type_eval_def const_param_value_def expr_eval_same)

lemma expr_subst_same: "same_on (set (expr_vars e)) bs bs' \<Longrightarrow> const_expr_subst bs e = const_expr_subst bs' e"
  by (induction e rule: expr_vars.induct) simp_all

lemma substitute_same:
  "same_on (occ t) bs bs' \<Longrightarrow> type_substitute bs t err = type_substitute bs' t err"
  "same_on (occ_list ts) bs bs' \<Longrightarrow> type_substitute_list bs ts err = type_substitute_list bs' ts err"
proof (induction bs t err and bs ts err rule: type_substitute_type_substitute_list.induct)
  case (3 bs i e err)
  then show ?case
    using type_eval_same [of "TConstExpr i e" bs bs' err] expr_subst_same [of e bs bs']
    by (simp split: prod.split option.split)
next
  case (8 bs i e n ref err)
  then show ?case
    using type_eval_same [of "the ref" bs bs']
    by (cases "type_substitute bs' e err"; cases ref) (auto split: prod.split option.split)
next
  case (9 bs i ps r v tp err)
  then show ?case by (cases "type_substitute_list bs' ps err") auto
next
  case (10 bs i s fs as err)
  then show ?case by (cases "type_substitute_list bs' (map f_type fs) err") auto
next
  case (11 bs i u vs as err)
  then show ?case by (cases "type_substitute_list bs' (payloads vs) err") auto
next
  case (15 bs t ts err)
  then show ?case by (cases "type_substitute bs' t err") auto
qed simp_all

subsection \<open>Closing a type\<close>

text \<open>An error in the slot stays in it.\<close>

lemma type_eval_slot:
  "slot_rule (\<exists>n \<in> occ t. symbolic_in bs n) err (const_type_eval (Some t) bs err)
   \<or> const_type_eval (Some t) bs err = (None, err)"
  using eval_slot slot_rule_param
  by (cases t) (auto simp: const_type_eval_def slot_rule_value)

lemma type_eval_keeps: "err \<noteq> None \<Longrightarrow> snd (const_type_eval (Some t) bs err) = err"
  using type_eval_slot [of t bs err] by (auto simp: slot_rule_def)

lemma substitute_keeps:
  "err \<noteq> None \<Longrightarrow> snd (type_substitute bs t err) = err"
  "err \<noteq> None \<Longrightarrow> snd (type_substitute_list bs ts err) = err"
proof (induction t and ts arbitrary: err and err rule: occ_occ_list.induct)
  case (2 i e)
  then show ?case
    using type_eval_keeps [of err "TConstExpr i e" bs]
    by (auto simp: Let_def split: prod.split option.split)
next
  case (7 i e n ref)
  have e: "snd (type_substitute bs e err) = err" using 7 by simp
  show ?case
  proof (cases ref)
    case None
    then show ?thesis using e by (auto split: prod.split)
  next
    case (Some r)
    have "snd (type_substitute bs r err) = err" using 7 Some by simp
    then show ?thesis
      using e Some type_eval_keeps [OF 7(3), of r bs] by (auto split: prod.split option.split)
  qed
next
  case (3 i t)
  have "snd (type_substitute bs t err) = err" using 3 by blast
  then show ?case by (cases "type_substitute bs t err") simp
next
  case (4 i t)
  have "snd (type_substitute bs t err) = err" using 4 by blast
  then show ?case by (cases "type_substitute bs t err") simp
next
  case (5 i t)
  have "snd (type_substitute bs t err) = err" using 5 by blast
  then show ?case by (cases "type_substitute bs t err") simp
next
  case (6 i t)
  have "snd (type_substitute bs t err) = err" using 6 by blast
  then show ?case by (cases "type_substitute bs t err") simp
next
  case (8 i ps r v tp)
  have "snd (type_substitute_list bs ps err) = err" "snd (type_substitute bs r err) = err"
    using 8 by blast+
  then show ?case by (auto split: prod.split)
next
  case (9 i s fs as)
  have "snd (type_substitute_list bs (map f_type fs) err) = err" "snd (type_substitute_list bs as err) = err"
    using 9 by blast+
  then show ?case by (auto split: prod.split)
next
  case (10 i u vs as)
  have "snd (type_substitute_list bs (payloads vs) err) = err" "snd (type_substitute_list bs as err) = err"
    using 10 by blast+
  then show ?case by (auto split: prod.split)
next
  case (11 i s as)
  have "snd (type_substitute_list bs as err) = err" using 11 by blast
  then show ?case by (cases "type_substitute_list bs as err") simp
next
  case (14 t ts)
  have "snd (type_substitute bs t err) = err" "snd (type_substitute_list bs ts err) = err"
    using 14 by blast+
  then show ?case by (auto split: prod.split)
qed (auto split: option.split)

text \<open>A type with its variables bound to closed types is closed, unless an error is pending.\<close>

definition binds_closed :: "bindings \<Rightarrow> string set \<Rightarrow> bool" where
  "binds_closed bs ns \<longleftrightarrow> (\<forall>n \<in> ns. \<exists>c. map_of bs n = Some c \<and> \<not> has_var c)"

lemma binds_closed_Un [simp]: "binds_closed bs (A \<union> B) \<longleftrightarrow> binds_closed bs A \<and> binds_closed bs B"
  by (auto simp: binds_closed_def)

lemma closed_not_symbolic: "binds_closed bs ns \<Longrightarrow> n \<in> ns \<Longrightarrow> \<not> symbolic_in bs n"
proof -
  assume "binds_closed bs ns" "n \<in> ns"
  then obtain c where "map_of bs n = Some c" "\<not> has_var c" by (auto simp: binds_closed_def)
  then show ?thesis by (cases c) (auto simp: symbolic_in_def)
qed

lemma length_substitute_list: "length (fst (type_substitute_list bs ts err)) = length ts"
  by (induction ts arbitrary: err) (auto split: prod.split, metis fst_conv)

lemma put_fields_types: "length ts = length fs \<Longrightarrow> map f_type (put_fields fs ts) = ts"
  by (induction fs ts rule: put_fields.induct) auto

lemma put_payloads_types: "length ts = length (payloads vs) \<Longrightarrow> payloads (put_payloads vs ts) = ts"
  by (induction vs ts rule: put_payloads.induct) (auto split: option.split list.split)

lemma substitute_final_none:
  "snd (type_substitute bs t err) = None \<Longrightarrow> err = None"
  "snd (type_substitute_list bs ts err) = None \<Longrightarrow> err = None"
  using substitute_keeps by metis+

lemma substitute_closes:
  "binds_closed bs (occ t) \<Longrightarrow> snd (type_substitute bs t err) = None \<Longrightarrow> \<not> has_var (fst (type_substitute bs t err))"
  "binds_closed bs (occ_list ts) \<Longrightarrow> snd (type_substitute_list bs ts err) = None \<Longrightarrow>
     \<not> has_var_list (fst (type_substitute_list bs ts err))"
proof (induction t and ts arbitrary: err and err rule: occ_occ_list.induct)
  case (1 i n)
  then show ?case by (auto simp: binds_closed_def)
next
  case (2 i e)
  then have err: "err = None" using substitute_final_none(1) by blast
  have "slot_rule False err (const_expr_eval False bs e err)"
    using eval_slot [of e bs err False] closed_not_symbolic [OF 2(1)] by (auto simp: slot_rule_def)
  then show ?case
    using 2(2) err
    by (auto simp: const_type_eval_def type_const_int_def type_error_def slot_rule_def hard_failure_def Let_def
        split: prod.splits option.splits if_splits)
next
  case (3 i t)
  then show ?case
    using 3(1) [of err] by (cases "type_substitute bs t err") (auto simp: type_pointer_def set_const_def split: if_splits)
next
  case (4 i t)
  then show ?case
    using 4(1) [of err] by (cases "type_substitute bs t err") (auto simp: type_slice_def set_const_def split: if_splits)
next
  case (5 i t)
  then show ?case
    using 5(1) [of err] by (cases "type_substitute bs t err") (auto simp: type_option_def split: if_splits)
next
  case (6 i t)
  then show ?case
    using 6(1) [of err] by (cases "type_substitute bs t err") (auto simp: type_result_def split: if_splits)
next
  case (7 i e n ref)
  obtain inner err1 where e: "type_substitute bs e err = (inner, err1)" by fastforce
  show ?case
  proof (cases ref)
    case None
    then show ?thesis
      using 7(1) [of err] 7(3,4) e by (auto simp: type_fixed_array_def split: if_splits)
  next
    case (Some r)
    have err1: "err1 = None"
      using 7(4) e Some type_eval_keeps [of err1 r bs] substitute_keeps(1) [of err1 bs r]
      by (cases err1) (auto split: prod.splits option.splits if_splits)
    then have inner: "\<not> has_var inner" using 7(1) [of err] 7(3) e by simp
    obtain v err2 where c: "const_type_eval (Some r) bs None = (v, err2)" by fastforce
    show ?thesis
      using 7(2) [OF Some, of None] 7(3,4) e Some err1 inner c
      by (cases err2) (auto simp: type_fixed_array_def type_fixed_array_sym_def type_error_def hard_failure_def
          split: prod.splits option.splits if_splits)
  qed
next
  case (8 i ps r v tp)
  obtain params err1 where ps: "type_substitute_list bs ps err = (params, err1)" by fastforce
  obtain ret err2 where r: "type_substitute bs r err1 = (ret, err2)" by fastforce
  have "err2 = None" using 8(4) ps r by (auto split: if_splits)
  then have "err1 = None" using substitute_final_none(1) [of bs r err1] r by simp
  then show ?case
    using 8(1) [of err] 8(2) [of err1] 8(3) ps r \<open>err2 = None\<close> by (auto split: if_splits)
next
  case (9 i s fs as)
  obtain fts err1 where f: "type_substitute_list bs (map f_type fs) err = (fts, err1)" by fastforce
  obtain ts err2 where a: "type_substitute_list bs as err1 = (ts, err2)" by fastforce
  have "err2 = None" using 9(4) f a by (auto split: if_splits)
  then have "err1 = None" using substitute_final_none(2) [of bs as err1] a by simp
  moreover have "map f_type (put_fields fs fts) = fts"
    using length_substitute_list [of bs "map f_type fs" err] f by (simp add: put_fields_types)
  ultimately show ?case
    using 9(1) [of err] 9(2) [of err1] 9(3) f a \<open>err2 = None\<close> by (auto split: if_splits)
next
  case (10 i u vs as)
  obtain pts err1 where f: "type_substitute_list bs (payloads vs) err = (pts, err1)" by fastforce
  obtain ts err2 where a: "type_substitute_list bs as err1 = (ts, err2)" by fastforce
  have "err2 = None" using 10(4) f a by (auto split: if_splits)
  then have "err1 = None" using substitute_final_none(2) [of bs as err1] a by simp
  moreover have "payloads (put_payloads vs pts) = pts"
    using length_substitute_list [of bs "payloads vs" err] f by (simp add: put_payloads_types)
  ultimately show ?case
    using 10(1) [of err] 10(2) [of err1] 10(3) f a \<open>err2 = None\<close> by (auto split: if_splits)
next
  case (11 i s as)
  then show ?case
    using 11(1) [of err] by (cases "type_substitute_list bs as err") (auto split: if_splits)
next
  case (14 t ts)
  obtain t' err1 where t: "type_substitute bs t err = (t', err1)" by fastforce
  obtain ts' err2 where r: "type_substitute_list bs ts err1 = (ts', err2)" by fastforce
  have "err2 = None" using 14(4) t r by auto
  then have "err1 = None" using substitute_final_none(2) [of bs ts err1] r by simp
  then show ?case
    using 14(1) [of err] 14(2) [of err1] 14(3) t r \<open>err2 = None\<close> by auto
qed auto

subsection \<open>Partial substitution and evaluation agree\<close>

text \<open>
  The value of an expression after a partial substitution is its value in the environment
  that composes the bindings with what is bound later.
\<close>

definition compose_env :: "bindings \<Rightarrow> (string \<Rightarrow> int option) \<Rightarrow> string \<Rightarrow> int option" where
  "compose_env bs env n =
     (case map_of bs n of
        Some (TConstInt _ v) \<Rightarrow> Some (sint v)
      | Some (TTypeVar _ m) \<Rightarrow> env m
      | Some (TConstExpr _ e) \<Rightarrow> int_eval False env e
      | _ \<Rightarrow> env n)"

lemma sint_canonical: "wrap_at (64, True) (sint (v :: u64)) = sint v"
  using canonical_val [of "(64, True)" v] by (simp add: const_mask_extend_def int_width_def word_val_def)

lemma int_eval_subst: "int_eval False env (const_expr_subst bs e) = int_eval False (compose_env bs env) e"
proof (induction e rule: expr_vars.induct)
  case (1 loc ty n)
  have canon: "Option.bind (int_eval False env e) (\<lambda>k. if wrap_at (64, True) k = k then Some k else None)
      = int_eval False env e" for e
    using int_eval_canonical by (cases "int_eval False env e") auto
  show ?case
    by (auto simp: compose_env_def word_val_def sint_canonical canon split: option.split ctype.split)
next
  case (4 loc ty tg x)
  have "const_eval_width (CCast loc ty tg (const_expr_subst bs x)) False = const_eval_width (CCast loc ty tg x) False"
    by simp
  then show ?case
    using 4 by (cases "int_eval False (compose_env bs env) x"; cases tg) simp_all
qed simp_all

subsection \<open>Properties\<close>

text \<open>
  The memoised search is the plain one: skipping the struct, union and stub nodes already
  found clean never changes the answer.
\<close>

theorem contains_type_var_memo_sound: "type_contains_type_var t = has_var t"
  by (rule contains_plain)

text \<open>
  A collection lists each variable once, in the order of first appearance, with the first
  definite kind its positions give it, and reports a conflict exactly when some variable
  stands both in a type position and in a value position, naming such a variable.
\<close>

theorem collect_vars_kinds_spec:
  "let l = type_collect_vars_kinds t [] [] None; vs = type_walk_vars None t
   in vl_vars l = in_order (map fst vs) \<and> set (vl_vars l) = occ t \<and> distinct (vl_vars l) \<and>
      vl_kinds l = Some (map (\<lambda>n. first_definite n vs) (vl_vars l)) \<and>
      (vl_conflict l = None \<longleftrightarrow> (\<nexists>n. both_kinds n vs)) \<and>
      (case vl_conflict l of None \<Rightarrow> True | Some n \<Rightarrow> both_kinds n vs) \<and>
      type_collect_vars t [] = vl_vars l"
  using collected_fold [of "type_walk_vars None t"] collect_names_fold [of "type_walk_vars None t"]
    type_vars_occ [of t]
  by (auto simp: Let_def collected_def type_collect_vars_kinds_def type_collect_vars_def type_vars_def split: option.split)

text \<open>
  Substitution reads only the variables of the type: two binding lists that agree on them
  give the same type and the same error slot.
\<close>

theorem substitute_local:
  assumes "\<forall>n \<in> set (type_collect_vars t []). map_of bs n = map_of bs' n"
  shows "type_substitute bs t err = type_substitute bs' t err"
  by (rule substitute_same(1))
    (use assms collect_vars_set [of t] type_vars_occ [of t] in \<open>simp add: same_on_def\<close>)

lemma substitute_local_witness:
  "type_substitute [(''b'', type_int8)] (type_pointer (type_type_var ''a'')) None
     = type_substitute [] (type_pointer (type_type_var ''a'')) None"
  by (rule substitute_local)
    (simp add: type_collect_vars_def var_list_add_def type_walk_vars_def type_pointer_def type_type_var_def)

text \<open>
  C26: Binding every variable of a type to closed types closes it: if the error slot is empty
  afterwards, no type variable and no symbolic expression is left anywhere in the result.
\<close>

theorem substitute_closes_type:
  assumes "\<forall>n \<in> set (type_collect_vars t []). \<exists>c. map_of bs n = Some c \<and> \<not> type_contains_type_var c"
    and "type_substitute bs t err = (t', None)"
  shows "\<not> type_contains_type_var t'"
  using substitute_closes(1) [of bs t err] assms collect_vars_set [of t] type_vars_occ [of t]
  by (auto simp: binds_closed_def contains_plain)

lemma substitute_closes_type_witness:
  "\<not> type_contains_type_var (type_fixed_array type_int8 12)"
proof (rule substitute_closes_type [of "TFixedArray plain (type_type_var ''a'') 0
      (Some (type_const_expr (CBinary (mk_loc 1 1) None (Op TOK_STAR) (CTypeVarRef (mk_loc 1 1) None ''n'')
        (CIntLit (mk_loc 1 5) None 3 False))))" "[(''a'', type_int8), (''n'', type_const_int 4)]" None])
  show "\<forall>n \<in> set (type_collect_vars (TFixedArray plain (type_type_var ''a'') 0
      (Some (type_const_expr (CBinary (mk_loc 1 1) None (Op TOK_STAR) (CTypeVarRef (mk_loc 1 1) None ''n'')
        (CIntLit (mk_loc 1 5) None 3 False))))) []).
      \<exists>c. map_of [(''a'', type_int8), (''n'', type_const_int 4)] n = Some c \<and> \<not> type_contains_type_var c"
    by (simp add: type_collect_vars_def var_list_add_def type_walk_vars_def type_type_var_def
        type_const_expr_def contains_plain type_int8_def type_const_int_def)
  show "type_substitute [(''a'', type_int8), (''n'', type_const_int 4)] (TFixedArray plain (type_type_var ''a'') 0
      (Some (type_const_expr (CBinary (mk_loc 1 1) None (Op TOK_STAR) (CTypeVarRef (mk_loc 1 1) None ''n'')
        (CIntLit (mk_loc 1 5) None 3 False))))) None = (type_fixed_array type_int8 12, None)"
    by (simp add: type_type_var_def type_const_expr_def type_int8_def type_const_int_def const_type_eval_def
        const_param_value_def const_mask_extend_def const_binary_op_def const_arith_def const_op_yields_bool_def Let_def)
qed

text \<open>
  C25: Substituting and then evaluating is evaluating under the composed bindings, for any
  partial substitution: constants, renamed parameters and spliced expressions.
\<close>

theorem substitute_then_eval:
  "int_eval False env (const_expr_subst bs e) = int_eval False (compose_env bs env) e"
  by (rule int_eval_subst)

end
