(* ===== verification/FC_Mangle.thy ===== *)
theory FC_Mangle
  imports FC_Subst FC_Intern
begin

section \<open>Type names and mangling (\<open>src/types.c\<close>)\<close>

text \<open>
  The display form of a type, and its mangling into C identifiers. Where the code returns a
  pointer into rotating storage the model returns the string; the storage itself is the last
  section. The lemmas show that mangling tells concrete types apart: two of them mangle to one
  name only if they are built alike from the same declared names. This needs one more
  condition on declared names than the code states, that no component starts with an
  underscore and a digit; without it two types share a name.
\<close>

subsection \<open>Display names\<close>

definition primitive_names :: "prim \<Rightarrow> string" where
  "primitive_names p =
     (case p of
        TYPE_INT8 \<Rightarrow> ''i8'' | TYPE_INT16 \<Rightarrow> ''i16'' | TYPE_INT32 \<Rightarrow> ''i32'' | TYPE_INT64 \<Rightarrow> ''i64''
      | TYPE_UINT8 \<Rightarrow> ''u8'' | TYPE_UINT16 \<Rightarrow> ''u16'' | TYPE_UINT32 \<Rightarrow> ''u32'' | TYPE_UINT64 \<Rightarrow> ''u64''
      | TYPE_ISIZE \<Rightarrow> ''isize'' | TYPE_USIZE \<Rightarrow> ''usize'' | TYPE_FLOAT32 \<Rightarrow> ''f32''
      | TYPE_FLOAT64 \<Rightarrow> ''f64'' | TYPE_BOOL \<Rightarrow> ''bool'' | TYPE_VOID \<Rightarrow> ''void'')"

definition append_op_spelling :: "string \<Rightarrow> token_kind \<Rightarrow> string" where
  "append_op_spelling acc op =
     (let q = token_kind_name op; n = length q
      in if 2 < n \<and> q ! 0 = squote then acc @ take (n - 2) (tl q) else acc @ q)"

definition name_is_const_prefixed :: "string \<Rightarrow> bool" where
  "name_is_const_prefixed s \<longleftrightarrow> take 6 s = ''const ''"

definition or_null :: "string option \<Rightarrow> string" where
  "or_null n = (case n of None \<Rightarrow> [] | Some s \<Rightarrow> s)"

text \<open>The exits before the switch: a const type other than the carriers, and an alias.\<close>

definition named_or :: "tinfo \<Rightarrow> string \<Rightarrow> string" where
  "named_or i s = (if ti_const i then ''const ?'' else case ti_alias i of Some a \<Rightarrow> a | None \<Rightarrow> s)"

definition wrap_suffix :: "string \<Rightarrow> string \<Rightarrow> string" where
  "wrap_suffix s suffix = (if name_is_const_prefixed s then ''('' @ s @ '')'' @ suffix else s @ suffix)"

fun type_name :: "ctype \<Rightarrow> string" and const_expr_print :: "string \<Rightarrow> cexpr \<Rightarrow> string" where
  "type_name (TPrim i p) = named_or i (primitive_names p)"
| "type_name (TPointer i p) =
     (if ti_const i then
        (if kind p = Prim TYPE_UINT8 then ''const cstr'' else ''const '' @ wrap_suffix (type_name p) ''*'')
      else case ti_alias i of
             Some a \<Rightarrow> a
           | None \<Rightarrow> if kind p = Prim TYPE_UINT8 then ''cstr'' else wrap_suffix (type_name p) ''*'')"
| "type_name (TSlice i e) =
     (if ti_const i then
        (if kind e = Prim TYPE_UINT8 then ''const str'' else ''const '' @ wrap_suffix (type_name e) ''[]'')
      else case ti_alias i of
             Some a \<Rightarrow> a
           | None \<Rightarrow> if kind e = Prim TYPE_UINT8 then ''str'' else wrap_suffix (type_name e) ''[]'')"
| "type_name (TOption i t) = named_or i (type_name t @ ''?'')"
| "type_name (TResult i t) = named_or i (type_name t @ ''!'')"
| "type_name (TFixedArray i e n ref) =
     named_or i (wrap_suffix (type_name e)
       (''['' @ (case ref of Some r \<Rightarrow> type_name r | None \<Rightarrow> dec_int (sint n)) @ '']''))"
| "type_name (TConstInt i v) = named_or i (dec_int (sint v))"
| "type_name (TConstExpr i e) = named_or i (const_expr_print [] e)"
| "type_name (TFunc i ps r v tp) =
     named_or i
       ((if tp = [] then [] else ''<'' @ join_with '', '' tp @ ''>'') @
        ''('' @ join_with '', '' (map type_name ps) @
        (if v then (if ps = [] then '''' else '', '') @ ''...'' else '''') @
        '') -> '' @ type_name r)"
| "type_name (TStruct i s fs as) =
     named_or i
       (if sc_is_tuple s then ''{'' @ join_with '', '' (map (\<lambda>f. type_name (f_type f)) fs) @ ''}''
        else case sc_qualified_name s of
               Some q \<Rightarrow> if as \<noteq> [] then q @ ''<'' @ join_with '', '' (map type_name as) @ ''>'' else q
             | None \<Rightarrow> or_null (sc_name s))"
| "type_name (TUnion i u vs as) =
     named_or i
       (case un_qualified_name u of
          Some q \<Rightarrow> if as \<noteq> [] then q @ ''<'' @ join_with '', '' (map type_name as) @ ''>'' else q
        | None \<Rightarrow> un_name u)"
| "type_name (TEnum i e r) =
     named_or i (case en_qualified_name e of Some q \<Rightarrow> q | None \<Rightarrow> en_name e)"
| "type_name (TStub i s as) =
     named_or i (case st_qualified_name s of Some q \<Rightarrow> q | None \<Rightarrow> st_name s)"
| "type_name (TAnyPtr i) =
     (if ti_const i then ''const any*'' else case ti_alias i of Some a \<Rightarrow> a | None \<Rightarrow> ''any*'')"
| "type_name (TTypeVar i n) = named_or i n"
| "type_name (TError i) = named_or i ''<error>''"
| "type_name (TNever i) = named_or i ''never''"
| "type_name (TUnresolved i) = named_or i ''<unresolved>''"
| "const_expr_print acc (CIntLit _ _ v _) = acc @ dec_int (sint v)"
| "const_expr_print acc (CTypeVarRef _ _ n) = acc @ n"
| "const_expr_print acc (CBoolLit _ _ b) = acc @ (if b then ''true'' else ''false'')"
| "const_expr_print acc (CUnary _ _ op x) = const_expr_print (append_op_spelling acc op) x"
| "const_expr_print acc (CBinary _ _ op l r) =
     const_expr_print (append_op_spelling (const_expr_print (acc @ ''('') l @ '' '') op @ '' '') r @ '')''"
| "const_expr_print acc (CCast _ _ tg x) =
     const_expr_print
       (acc @ ''('' @ (case tg of Some t \<Rightarrow> type_name t | None \<Rightarrow> ''<null-type>'') @ '') '') x"
| "const_expr_print acc (COther _ _ _) = acc @ ''?''"

definition type_inst_display :: "string option \<Rightarrow> ctype option list \<Rightarrow> string" where
  "type_inst_display name args =
     (case name of Some n \<Rightarrow> mangled_source_name n | None \<Rightarrow> ''?'') @
     (if args = [] then []
      else ''<'' @ join_with '', '' (map (\<lambda>a. case a of Some t \<Rightarrow> type_name t | None \<Rightarrow> ''?'') args) @ ''>'')"

subsection \<open>Mangling\<close>

definition mangle_append_piece :: "string \<Rightarrow> string \<Rightarrow> string" where
  "mangle_append_piece acc piece = acc @ dec_nat (length piece) @ ''_'' @ piece"

definition instance_base_name :: "ctype \<Rightarrow> string option" where
  "instance_base_name t =
     (case t of
        TStruct _ s _ _ \<Rightarrow> (case sc_resolved s of Some n \<Rightarrow> Some n | None \<Rightarrow> sc_name s)
      | TUnion _ u _ _ \<Rightarrow> (case un_resolved u of Some n \<Rightarrow> Some n | None \<Rightarrow> Some (un_name u))
      | TStub _ s _ \<Rightarrow> (case st_base_name s of Some n \<Rightarrow> Some n | None \<Rightarrow> Some (st_name s))
      | _ \<Rightarrow> None)"

definition mangled_prim :: "prim \<Rightarrow> string" where
  "mangled_prim p =
     (case p of
        TYPE_INT8 \<Rightarrow> ''i8'' | TYPE_INT16 \<Rightarrow> ''i16'' | TYPE_INT32 \<Rightarrow> ''i32'' | TYPE_INT64 \<Rightarrow> ''i64''
      | TYPE_UINT8 \<Rightarrow> ''u8'' | TYPE_UINT16 \<Rightarrow> ''u16'' | TYPE_UINT32 \<Rightarrow> ''u32'' | TYPE_UINT64 \<Rightarrow> ''u64''
      | TYPE_ISIZE \<Rightarrow> ''isize'' | TYPE_USIZE \<Rightarrow> ''usize'' | TYPE_FLOAT32 \<Rightarrow> ''f32''
      | TYPE_FLOAT64 \<Rightarrow> ''f64'' | TYPE_BOOL \<Rightarrow> ''bool'' | TYPE_VOID \<Rightarrow> ''void'')"

definition const_tag :: "tinfo \<Rightarrow> string \<Rightarrow> string" where
  "const_tag i s = (if ti_const i then ''__c'' @ s else s)"

text \<open>\<open>mangle_pieces acc ts\<close> is the loop that appends the mangling of each type as a piece.\<close>

fun mangle_type_name :: "ctype \<Rightarrow> string" and mangle_pieces :: "string \<Rightarrow> ctype list \<Rightarrow> string" where
  "mangle_type_name (TPrim i p) = const_tag i (mangled_prim p)"
| "mangle_type_name (TPointer i p) =
     const_tag i (if kind p = Prim TYPE_UINT8 then ''cstr'' else ''__p'' @ mangle_type_name p)"
| "mangle_type_name (TSlice i e) =
     const_tag i (if kind e = Prim TYPE_UINT8 then ''str'' else ''__l'' @ mangle_type_name e)"
| "mangle_type_name (TOption i t) = const_tag i (''__o'' @ mangle_type_name t)"
| "mangle_type_name (TResult i t) = const_tag i (''__r'' @ mangle_type_name t)"
| "mangle_type_name (TNever i) = const_tag i ''never''"
| "mangle_type_name (TStruct i s fs as) =
     const_tag i
       (if sc_is_tuple s then
          (if fs = [] then ''fc_tuple'' @ dec_nat (length fs)
           else mangle_pieces (''fc_tuple'' @ dec_nat (length fs) @ ''__'') (map f_type fs))
        else if as \<noteq> [] then mangle_pieces (or_null (instance_base_name (TStruct i s fs as)) @ ''__'') as
        else or_null (sc_name s))"
| "mangle_type_name (TUnion i u vs as) =
     const_tag i
       (if as \<noteq> [] then mangle_pieces (or_null (instance_base_name (TUnion i u vs as)) @ ''__'') as
        else un_name u)"
| "mangle_type_name (TEnum i e r) = const_tag i (en_name e)"
| "mangle_type_name (TStub i s as) =
     const_tag i
       (if as \<noteq> [] then mangle_pieces (or_null (instance_base_name (TStub i s as)) @ ''__'') as
        else or_null (instance_base_name (TStub i s as)))"
| "mangle_type_name (TTypeVar i n) = const_tag i n"
| "mangle_type_name (TAnyPtr i) = const_tag i ''__y''"
| "mangle_type_name (TError i) = const_tag i ''__err''"
| "mangle_type_name (TFixedArray i e n ref) =
     const_tag i
       (case ref of
          Some r \<Rightarrow> ''__as'' @ type_name r @ ''_'' @ mangle_type_name e
        | None \<Rightarrow> ''__a'' @ dec_int (sint n) @ ''_'' @ mangle_type_name e)"
| "mangle_type_name (TConstInt i v) =
     const_tag i (if sint v < 0 then ''__kn'' @ dec_nat (unat (0 - v)) else ''__k'' @ dec_int (sint v))"
| "mangle_type_name (TConstExpr i e) = const_tag i ''__unk''"
| "mangle_type_name (TFunc i ps r v tp) =
     const_tag i
       (mangle_append_piece (mangle_pieces (''__f'' @ dec_nat (length ps) @ ''_'') ps) (mangle_type_name r)
        @ (if v then ''_v'' else ''''))"
| "mangle_type_name (TUnresolved i) = const_tag i ''__unk''"
| "mangle_pieces acc [] = acc"
| "mangle_pieces acc (t # ts) = mangle_pieces (mangle_append_piece acc (mangle_type_name t)) ts"

definition mangle_with_args :: "string \<Rightarrow> ctype list \<Rightarrow> string" where
  "mangle_with_args base args = (if args = [] then base else mangle_pieces (base @ ''__'') args)"

definition mangle_tuple :: "ctype struct_field list \<Rightarrow> string" where
  "mangle_tuple fs =
     (let r = ''fc_tuple'' @ dec_nat (length fs)
      in if fs = [] then r else mangle_pieces (r @ ''__'') (map f_type fs))"

definition mangle_generic_name ::
  "intern_table \<Rightarrow> string \<Rightarrow> ctype list \<Rightarrow> (intern_table \<times> nat) option" where
  "mangle_generic_name tbl base args = intern tbl (mangle_with_args base args)"

definition tuple_canonical_name ::
  "intern_table \<Rightarrow> ctype struct_field list \<Rightarrow> (intern_table \<times> nat) option" where
  "tuple_canonical_name tbl fs = intern tbl (mangle_tuple fs)"

subsection \<open>What a mangled name spells\<close>

text \<open>
  The structure a mangled name spells: \<open>mangle_key\<close> of a concrete type, and its spelling.
\<close>

datatype mkey =
    MPrim prim | MConst mkey | MStr | MCstr | MPtr mkey | MSlice mkey | MOpt mkey | MRes mkey
  | MLeaf string | MInst string "mkey list" | MTuple "mkey list" | MAny | MArr int mkey | MInt int
  | MFunc "mkey list" mkey bool

definition piece :: "string \<Rightarrow> string" where "piece s = dec_nat (length s) @ ''_'' @ s"

definition pieces :: "string list \<Rightarrow> string" where "pieces ss = concat (map piece ss)"

fun spell :: "mkey \<Rightarrow> string" where
  "spell (MPrim p) = mangled_prim p"
| "spell (MConst k) = ''__c'' @ spell k"
| "spell MStr = ''str''"
| "spell MCstr = ''cstr''"
| "spell (MPtr k) = ''__p'' @ spell k"
| "spell (MSlice k) = ''__l'' @ spell k"
| "spell (MOpt k) = ''__o'' @ spell k"
| "spell (MRes k) = ''__r'' @ spell k"
| "spell (MLeaf n) = n"
| "spell (MInst b ks) = b @ ''__'' @ pieces (map spell ks)"
| "spell (MTuple ks) =
     ''fc_tuple'' @ dec_nat (length ks) @ (if ks = [] then [] else ''__'' @ pieces (map spell ks))"
| "spell MAny = ''__y''"
| "spell (MArr n k) = ''__a'' @ dec_int n @ ''_'' @ spell k"
| "spell (MInt i) = (if i < 0 then ''__kn'' @ dec_nat (nat (- i)) else ''__k'' @ dec_int i)"
| "spell (MFunc ks k v) =
     ''__f'' @ dec_nat (length ks) @ ''_'' @ pieces (map spell ks) @ piece (spell k) @ (if v then ''_v'' else [])"

text \<open>
  Declared names: rooted at \<open>fc__\<close>, and no two underscores followed by a digit anywhere (the
  code's comments take this from the joints of a path; a component like \<open>_3x\<close> breaks it).
\<close>

fun has_dd :: "string \<Rightarrow> bool" where
  "has_dd (a # b # c # r) \<longleftrightarrow> (a = CHR ''_'' \<and> b = CHR ''_'' \<and> isdigit c) \<or> has_dd (b # c # r)"
| "has_dd _ \<longleftrightarrow> False"

definition name_ok :: "string \<Rightarrow> bool" where
  "name_ok n \<longleftrightarrow> is_mangled_root_name n \<and> \<not> has_dd n"

fun mkey_ok :: "mkey \<Rightarrow> bool" where
  "mkey_ok (MConst k) = mkey_ok k"
| "mkey_ok (MPtr k) = mkey_ok k"
| "mkey_ok (MSlice k) = mkey_ok k"
| "mkey_ok (MOpt k) = mkey_ok k"
| "mkey_ok (MRes k) = mkey_ok k"
| "mkey_ok (MLeaf n) = name_ok n"
| "mkey_ok (MInst b ks) \<longleftrightarrow> name_ok b \<and> ks \<noteq> [] \<and> (\<forall>k \<in> set ks. mkey_ok k)"
| "mkey_ok (MTuple ks) \<longleftrightarrow> (\<forall>k \<in> set ks. mkey_ok k)"
| "mkey_ok (MArr n k) = mkey_ok k"
| "mkey_ok (MFunc ks k v) \<longleftrightarrow> (\<forall>k \<in> set ks. mkey_ok k) \<and> mkey_ok k"
| "mkey_ok _ = True"

text \<open>Splitting at the first underscore, and splitting pieces.\<close>

lemma split_underscore:
  assumes "CHR ''_'' \<notin> set a" "CHR ''_'' \<notin> set b"
  shows "a @ CHR ''_'' # r = b @ CHR ''_'' # r' \<longleftrightarrow> a = b \<and> r = r'"
proof
  assume eq: "a @ CHR ''_'' # r = b @ CHR ''_'' # r'"
  have tw: "takeWhile (\<lambda>c. c \<noteq> CHR ''_'') (x @ CHR ''_'' # y) = x" if "CHR ''_'' \<notin> set x" for x y
    using that by (subst takeWhile_append2) auto
  from arg_cong [OF eq, of "takeWhile (\<lambda>c. c \<noteq> CHR ''_'')"] have "a = b"
    using assms by (simp add: tw)
  with eq show "a = b \<and> r = r'" by simp
qed simp

lemma no_underscore_dec_nat [simp]: "CHR ''_'' \<notin> set (dec_nat n)"
  using dec_nat_digits [of "CHR ''_''" n] by (auto simp: char_class_defs byte_def)

lemma no_underscore_dec_int [simp]: "CHR ''_'' \<notin> set (dec_int n)"
  by (simp add: dec_int_def)

lemma piece_split: "piece s @ r = piece t @ r' \<longleftrightarrow> s = t \<and> r = r'"
  by (auto simp: piece_def split_underscore dec_nat_inject append_eq_append_conv)

lemma pieces_Nil [simp]: "pieces [] = []"
  by (simp add: pieces_def)

lemma pieces_Cons [simp]: "pieces (s # ss) = piece s @ pieces ss"
  by (simp add: pieces_def)

lemma piece_not_Nil [simp]: "piece s \<noteq> []"
  by (simp add: piece_def)

lemma pieces_split:
  "length ss = length ts \<Longrightarrow> pieces ss @ r = pieces ts @ r' \<longleftrightarrow> ss = ts \<and> r = r'"
  by (induction ss ts rule: list_induct2) (auto simp: piece_split)

lemma pieces_inject: "pieces ss = pieces ts \<longleftrightarrow> ss = ts"
proof (induction ss arbitrary: ts)
  case Nil
  then show ?case by (cases ts) simp_all
next
  case (Cons s ss)
  then show ?case by (cases ts) (auto simp: piece_split)
qed

lemma hd_pieces: "ss \<noteq> [] \<Longrightarrow> \<exists>c r. pieces ss = c # r \<and> isdigit c"
proof (cases ss)
  case (Cons s ss')
  obtain c r where "dec_nat (length s) = c # r" "isdigit c"
    using dec_nat_hd [of "length s"] dec_nat_not_Nil [of "length s"] by (cases "dec_nat (length s)") auto
  then show ?thesis by (simp add: Cons piece_def)
qed simp

text \<open>A base and its arguments split at the first two underscores followed by a digit.\<close>

lemma has_dd_append: "has_dd b \<Longrightarrow> has_dd (a @ b)"
proof (induction a)
  case (Cons x a)
  then show ?case by (cases "a @ b" rule: has_dd.cases) auto
qed simp

lemma has_dd_at: "isdigit c \<Longrightarrow> has_dd (a @ CHR ''_'' # CHR ''_'' # c # r)"
  by (rule has_dd_append) simp

lemma not_digit_underscore [simp]: "\<not> isdigit (CHR ''_'')"
  by (simp add: char_class_defs byte_def)

lemma base_longer:
  assumes "\<not> has_dd (b @ u)" "isdigit c" "u \<noteq> []"
    and "u @ CHR ''_'' # CHR ''_'' # c' # r' = CHR ''_'' # CHR ''_'' # c # r"
    and "isdigit c'"
  shows False
proof -
  obtain x u1 where u: "u = x # u1" using assms(3) by (cases u) auto
  show False
  proof (cases u1)
    case Nil
    then show False using assms(2,4,5) u by auto
  next
    case (Cons y u2)
    then show False
      using assms u has_dd_at [OF assms(2), of b] by (cases u2) auto
  qed
qed

lemma base_split:
  assumes "\<not> has_dd b" "\<not> has_dd b'" "isdigit c" "isdigit c'"
    and "b @ CHR ''_'' # CHR ''_'' # c # r = b' @ CHR ''_'' # CHR ''_'' # c' # r'"
  shows "b = b' \<and> c # r = c' # r'"
proof -
  have longer: "u = []" if "b = b' @ u" "u @ CHR ''_'' # CHR ''_'' # c # r = CHR ''_'' # CHR ''_'' # c' # r'" for u
    using base_longer [of b' u c' c r r'] assms that by blast
  have shorter: "u = []" if "b' = b @ u" "u @ CHR ''_'' # CHR ''_'' # c' # r' = CHR ''_'' # CHR ''_'' # c # r" for u
    using base_longer [of b u c c' r' r] assms that by blast
  from assms(5) obtain u where
    "b = b' @ u \<and> u @ CHR ''_'' # CHR ''_'' # c # r = CHR ''_'' # CHR ''_'' # c' # r' \<or>
     b' = b @ u \<and> u @ CHR ''_'' # CHR ''_'' # c' # r' = CHR ''_'' # CHR ''_'' # c # r"
    unfolding append_eq_append_conv2 by metis
  then show ?thesis
  proof (elim disjE conjE)
    assume u: "b = b' @ u" "u @ CHR ''_'' # CHR ''_'' # c # r = CHR ''_'' # CHR ''_'' # c' # r'"
    show ?thesis using u longer [OF u] by simp
  next
    assume u: "b' = b @ u" "u @ CHR ''_'' # CHR ''_'' # c' # r' = CHR ''_'' # CHR ''_'' # c # r"
    show ?thesis using u shorter [OF u] by simp
  qed
qed

text \<open>The constructor of a key can be read off its spelling.\<close>

definition ctor :: "mkey \<Rightarrow> nat" where
  "ctor k = (case k of MPrim _ \<Rightarrow> 0 | MConst _ \<Rightarrow> 1 | MStr \<Rightarrow> 2 | MCstr \<Rightarrow> 3 | MPtr _ \<Rightarrow> 4 | MSlice _ \<Rightarrow> 5
     | MOpt _ \<Rightarrow> 6 | MRes _ \<Rightarrow> 7 | MLeaf _ \<Rightarrow> 8 | MInst _ _ \<Rightarrow> 9 | MTuple _ \<Rightarrow> 10 | MAny \<Rightarrow> 11
     | MArr _ _ \<Rightarrow> 12 | MInt _ \<Rightarrow> 13 | MFunc _ _ _ \<Rightarrow> 14)"

definition tag_ctor :: "char \<Rightarrow> nat" where
  "tag_ctor c =
     (if c = CHR ''c'' then 1 else if c = CHR ''p'' then 4 else if c = CHR ''l'' then 5
      else if c = CHR ''o'' then 6 else if c = CHR ''r'' then 7 else if c = CHR ''y'' then 11
      else if c = CHR ''a'' then 12 else if c = CHR ''k'' then 13 else 14)"

definition string_ctor :: "string \<Rightarrow> nat" where
  "string_ctor s =
     (if take 2 s = ''__'' then tag_ctor (s ! 2)
      else if take 4 s = ''fc__'' then (if has_dd s then 9 else 8)
      else if take 4 s = ''fc_t'' then 10
      else if s = ''str'' then 2 else if s = ''cstr'' then 3 else 0)"

lemma root_name_Cons: "is_mangled_root_name n \<longleftrightarrow> (\<exists>r. n = CHR ''f'' # CHR ''c'' # CHR ''_'' # CHR ''_'' # r)"
proof
  assume "is_mangled_root_name n"
  then have "take 4 n = ''fc__''" by (simp add: is_mangled_root_name_def)
  then have "n = ''fc__'' @ drop 4 n" by (metis append_take_drop_id)
  then show "\<exists>r. n = CHR ''f'' # CHR ''c'' # CHR ''_'' # CHR ''_'' # r" by auto
qed (auto simp: is_mangled_root_name_def)

lemma string_ctor_inst:
  assumes "name_ok b" "ss \<noteq> []"
  shows "string_ctor (b @ ''__'' @ pieces ss) = 9"
proof -
  obtain r where b: "b = CHR ''f'' # CHR ''c'' # CHR ''_'' # CHR ''_'' # r"
    using assms(1) root_name_Cons by (auto simp: name_ok_def)
  obtain c r' where "pieces ss = c # r'" "isdigit c"
    using hd_pieces [OF assms(2)] by blast
  then have "has_dd (b @ ''__'' @ pieces ss)"
    using has_dd_at [of c b r'] by simp
  then show ?thesis by (simp add: string_ctor_def b)
qed

lemma string_ctor_spell: "mkey_ok k \<Longrightarrow> string_ctor (spell k) = ctor k"
proof (cases k)
  case (MPrim p)
  then show ?thesis by (cases p) (simp_all add: string_ctor_def ctor_def mangled_prim_def)
next
  case (MLeaf n)
  assume "mkey_ok k"
  then obtain r where n: "n = CHR ''f'' # CHR ''c'' # CHR ''_'' # CHR ''_'' # r" and no: "\<not> has_dd n"
    using root_name_Cons by (auto simp: MLeaf name_ok_def)
  have "take 4 n = ''fc__''" "take 2 n \<noteq> ''__''"
    by (simp_all add: n)
  with no show ?thesis by (simp add: MLeaf string_ctor_def ctor_def)
next
  case (MInst b ks)
  moreover assume "mkey_ok k"
  ultimately show ?thesis
    using string_ctor_inst [of b "map spell ks"] by (simp add: ctor_def)
qed (simp_all add: string_ctor_def ctor_def tag_ctor_def)

lemma map_spell_inject:
  assumes "\<And>x y. x \<in> set ks \<Longrightarrow> y \<in> set js \<Longrightarrow> spell x = spell y \<Longrightarrow> x = y"
  shows "map spell ks = map spell js \<longleftrightarrow> ks = js"
  using list.inj_map_strong [of ks js spell spell] assms by blast

lemma piece_ends: "piece s = piece t \<longleftrightarrow> s = t" "piece s = piece t @ c # r \<longleftrightarrow> False"
  "piece t @ c # r = piece s \<longleftrightarrow> False"
  using piece_split [of s "[]" t "[]"] piece_split [of s "[]" t "c # r"] by auto

lemma tuple_head_split:
  assumes "''fc_tuple'' @ dec_nat m @ (if m = 0 then [] else ''__'' @ r) =
           ''fc_tuple'' @ dec_nat n @ (if n = 0 then [] else ''__'' @ r')"
  shows "m = n \<and> (m \<noteq> 0 \<longrightarrow> r = r')"
proof -
  have no: "dec_nat a \<noteq> dec_nat b @ ''__'' @ q" for a b and q :: string
  proof
    assume eq: "dec_nat a = dec_nat b @ ''__'' @ q"
    have "CHR ''_'' \<in> set (dec_nat b @ ''__'' @ q)" by simp
    then show False using no_underscore_dec_nat [of a] unfolding eq by blast
  qed
  consider "m = 0" "n = 0" | "m = 0" "n \<noteq> 0" | "m \<noteq> 0" "n = 0" | "m \<noteq> 0" "n \<noteq> 0" by blast
  then show ?thesis
  proof cases
    case 2
    then show ?thesis using assms no [of m n r'] by simp
  next
    case 3
    then show ?thesis using assms no [of n m r] by simp
  next
    case 4
    then show ?thesis using assms by (simp add: split_underscore dec_nat_inject)
  qed simp
qed

lemma dec_int_nonneg_digit: "0 \<le> i \<Longrightarrow> dec_int i \<noteq> CHR ''n'' # r"
proof
  assume "0 \<le> i" and eq: "dec_int i = CHR ''n'' # r"
  then have "isdigit (CHR ''n'')"
    using dec_nat_digits [of "CHR ''n''" "nat i"] by (simp add: dec_int_def)
  then show False by (simp add: char_class_defs byte_def)
qed

lemma spell_int_inject: "spell (MInt i) = spell (MInt j) \<longleftrightarrow> i = j"
  using dec_int_nonneg_digit [of i] dec_int_nonneg_digit [of j]
  by (auto simp: dec_nat_inject dec_int_inject) metis+

lemma spell_inject:
  "mkey_ok a \<Longrightarrow> mkey_ok b \<Longrightarrow> spell a = spell b \<Longrightarrow> a = b"
proof (induction a arbitrary: b)
  case (MInst n ks)
  have "ctor b = 9"
    using string_ctor_spell [OF MInst.prems(1)] string_ctor_spell [OF MInst.prems(2)] MInst.prems(3)
    by (simp add: ctor_def)
  then obtain m js where b: "b = MInst m js"
    by (cases b) (auto simp: ctor_def)
  have ok: "name_ok n" "ks \<noteq> []" "name_ok m" "js \<noteq> []"
    using MInst.prems b by simp_all
  obtain c r where ks: "pieces (map spell ks) = c # r" "isdigit c"
    using hd_pieces [of "map spell ks"] ok(2) by auto
  obtain c' r' where js: "pieces (map spell js) = c' # r'" "isdigit c'"
    using hd_pieces [of "map spell js"] ok(4) by auto
  have "n = m \<and> c # r = c' # r'"
    by (rule base_split) (use ok MInst.prems(3) ks js in \<open>simp_all add: b name_ok_def\<close>)
  then have "n = m" "map spell ks = map spell js"
    using ks js by (simp_all flip: pieces_inject)
  moreover have "map spell ks = map spell js \<longleftrightarrow> ks = js"
    by (rule map_spell_inject) (use MInst.IH MInst.prems b in auto)
  ultimately show ?case by (simp add: b)
next
  case (MTuple ks)
  have "ctor b = 10"
    using string_ctor_spell [OF MTuple.prems(1)] string_ctor_spell [OF MTuple.prems(2)] MTuple.prems(3)
    by (simp add: ctor_def)
  then obtain js where b: "b = MTuple js"
    by (cases b) (auto simp: ctor_def)
  have "length ks = length js \<and> (length ks \<noteq> 0 \<longrightarrow> pieces (map spell ks) = pieces (map spell js))"
    by (rule tuple_head_split) (use MTuple.prems(3) in \<open>simp add: b split: if_splits\<close>)
  then have "map spell ks = map spell js"
    by (cases "ks = []") (auto simp: pieces_inject)
  moreover have "map spell ks = map spell js \<longleftrightarrow> ks = js"
    by (rule map_spell_inject) (use MTuple.IH MTuple.prems b in auto)
  ultimately show ?case by (simp add: b)
next
  case (MFunc ks k v)
  have "ctor b = 14"
    using string_ctor_spell [OF MFunc.prems(1)] string_ctor_spell [OF MFunc.prems(2)] MFunc.prems(3)
    by (simp add: ctor_def)
  then obtain js j w where b: "b = MFunc js j w"
    by (cases b) (auto simp: ctor_def)
  have "length ks = length js \<and> pieces (map spell ks) @ piece (spell k) @ (if v then ''_v'' else []) =
      pieces (map spell js) @ piece (spell j) @ (if w then ''_v'' else [])"
    using MFunc.prems(3) by (simp add: b split_underscore dec_nat_inject)
  then have "length ks = length js" "map spell ks = map spell js" "spell k = spell j" "v = w"
    by (auto simp: pieces_split piece_split piece_ends split: if_splits)
  moreover have "map spell ks = map spell js \<longleftrightarrow> ks = js"
    by (rule map_spell_inject) (use MFunc.IH(1) MFunc.prems b in auto)
  ultimately show ?case
    using MFunc.IH(2) MFunc.prems by (simp add: b)
next
  case (MInt i)
  have "ctor b = 13"
    using string_ctor_spell [OF MInt.prems(1)] string_ctor_spell [OF MInt.prems(2)] MInt.prems(3)
    by (simp add: ctor_def)
  then obtain j where "b = MInt j"
    by (cases b) (auto simp: ctor_def)
  then show ?case using MInt.prems(3) spell_int_inject by simp
next
  case (MPrim p)
  have "ctor b = 0"
    using string_ctor_spell [OF MPrim.prems(1)] string_ctor_spell [OF MPrim.prems(2)] MPrim.prems(3)
    by (simp add: ctor_def)
  then obtain q where "b = MPrim q"
    by (cases b) (auto simp: ctor_def)
  then show ?case using MPrim.prems(3) by (cases p; cases q) (simp_all add: mangled_prim_def)
next
  case (MArr n k)
  have "ctor b = 12"
    using string_ctor_spell [OF MArr.prems(1)] string_ctor_spell [OF MArr.prems(2)] MArr.prems(3)
    by (simp add: ctor_def)
  then obtain m j where b: "b = MArr m j"
    by (cases b) (auto simp: ctor_def)
  then show ?case
    using MArr by (simp add: split_underscore dec_int_inject)
next
  case (MConst k)
  then have "ctor b = 1"
    using string_ctor_spell [OF MConst.prems(1)] string_ctor_spell [OF MConst.prems(2)]
    by (simp add: ctor_def)
  then show ?case using MConst by (cases b) (auto simp: ctor_def)
next
  case (MPtr k)
  then have "ctor b = 4"
    using string_ctor_spell [OF MPtr.prems(1)] string_ctor_spell [OF MPtr.prems(2)]
    by (simp add: ctor_def)
  then show ?case using MPtr by (cases b) (auto simp: ctor_def)
next
  case (MSlice k)
  then have "ctor b = 5"
    using string_ctor_spell [OF MSlice.prems(1)] string_ctor_spell [OF MSlice.prems(2)]
    by (simp add: ctor_def)
  then show ?case using MSlice by (cases b) (auto simp: ctor_def)
next
  case (MOpt k)
  then have "ctor b = 6"
    using string_ctor_spell [OF MOpt.prems(1)] string_ctor_spell [OF MOpt.prems(2)]
    by (simp add: ctor_def)
  then show ?case using MOpt by (cases b) (auto simp: ctor_def)
next
  case (MRes k)
  then have "ctor b = 7"
    using string_ctor_spell [OF MRes.prems(1)] string_ctor_spell [OF MRes.prems(2)]
    by (simp add: ctor_def)
  then show ?case using MRes by (cases b) (auto simp: ctor_def)
next
  case (MLeaf n)
  then have "ctor b = 8"
    using string_ctor_spell [OF MLeaf.prems(1)] string_ctor_spell [OF MLeaf.prems(2)]
    by (simp add: ctor_def)
  then show ?case using MLeaf by (cases b) (auto simp: ctor_def)
next
  case MStr
  then have "ctor b = 2"
    using string_ctor_spell [OF MStr.prems(1)] string_ctor_spell [OF MStr.prems(2)]
    by (simp add: ctor_def)
  then show ?case by (cases b) (auto simp: ctor_def)
next
  case MCstr
  then have "ctor b = 3"
    using string_ctor_spell [OF MCstr.prems(1)] string_ctor_spell [OF MCstr.prems(2)]
    by (simp add: ctor_def)
  then show ?case by (cases b) (auto simp: ctor_def)
next
  case MAny
  then have "ctor b = 11"
    using string_ctor_spell [OF MAny.prems(1)] string_ctor_spell [OF MAny.prems(2)]
    by (simp add: ctor_def)
  then show ?case by (cases b) (auto simp: ctor_def)
qed

subsection \<open>The key of a concrete type\<close>

definition key_const :: "tinfo \<Rightarrow> mkey \<Rightarrow> mkey" where
  "key_const i k = (if ti_const i then MConst k else k)"

text \<open>
  Declared types count by name, instances by the name of their template and their arguments,
  tuples by their elements. Types with variables or symbolic sizes, poison and \<open>never\<close> are
  not mangled by any caller; \<open>mangle_ok\<close> excludes them.
\<close>

fun mangle_key :: "ctype \<Rightarrow> mkey" where
  "mangle_key (TPrim i p) = key_const i (MPrim p)"
| "mangle_key (TPointer i p) =
     key_const i (if kind p = Prim TYPE_UINT8 then MCstr else MPtr (mangle_key p))"
| "mangle_key (TSlice i e) =
     key_const i (if kind e = Prim TYPE_UINT8 then MStr else MSlice (mangle_key e))"
| "mangle_key (TOption i t) = key_const i (MOpt (mangle_key t))"
| "mangle_key (TResult i t) = key_const i (MRes (mangle_key t))"
| "mangle_key (TStruct i s fs as) =
     key_const i
       (if sc_is_tuple s then MTuple (map (\<lambda>f. mangle_key (f_type f)) fs)
        else if as \<noteq> [] then MInst (or_null (instance_base_name (TStruct i s fs as))) (map mangle_key as)
        else MLeaf (or_null (sc_name s)))"
| "mangle_key (TUnion i u vs as) =
     key_const i
       (if as \<noteq> [] then MInst (or_null (instance_base_name (TUnion i u vs as))) (map mangle_key as)
        else MLeaf (un_name u))"
| "mangle_key (TEnum i e r) = key_const i (MLeaf (en_name e))"
| "mangle_key (TStub i s as) =
     key_const i
       (if as \<noteq> [] then MInst (or_null (instance_base_name (TStub i s as))) (map mangle_key as)
        else MLeaf (or_null (instance_base_name (TStub i s as))))"
| "mangle_key (TAnyPtr i) = key_const i MAny"
| "mangle_key (TFixedArray i e n ref) = key_const i (MArr (sint n) (mangle_key e))"
| "mangle_key (TConstInt i v) = key_const i (MInt (sint v))"
| "mangle_key (TFunc i ps r v tp) = key_const i (MFunc (map mangle_key ps) (mangle_key r) v)"
| "mangle_key _ = MLeaf []"

fun mangle_ok :: "ctype \<Rightarrow> bool" where
  "mangle_ok (TPrim i p) \<longleftrightarrow> True"
| "mangle_ok (TPointer i p) \<longleftrightarrow> mangle_ok p"
| "mangle_ok (TSlice i e) \<longleftrightarrow> mangle_ok e"
| "mangle_ok (TOption i t) \<longleftrightarrow> mangle_ok t"
| "mangle_ok (TResult i t) \<longleftrightarrow> mangle_ok t"
| "mangle_ok (TStruct i s fs as) \<longleftrightarrow>
     (if sc_is_tuple s then \<forall>f \<in> set fs. mangle_ok (f_type f)
      else if as \<noteq> [] then name_ok (or_null (instance_base_name (TStruct i s fs as))) \<and> (\<forall>a \<in> set as. mangle_ok a)
      else name_ok (or_null (sc_name s)))"
| "mangle_ok (TUnion i u vs as) \<longleftrightarrow>
     (if as \<noteq> [] then name_ok (or_null (instance_base_name (TUnion i u vs as))) \<and> (\<forall>a \<in> set as. mangle_ok a)
      else name_ok (un_name u))"
| "mangle_ok (TEnum i e r) \<longleftrightarrow> name_ok (en_name e)"
| "mangle_ok (TStub i s as) \<longleftrightarrow>
     name_ok (or_null (instance_base_name (TStub i s as))) \<and> (\<forall>a \<in> set as. mangle_ok a)"
| "mangle_ok (TAnyPtr i) \<longleftrightarrow> True"
| "mangle_ok (TFixedArray i e n ref) \<longleftrightarrow> ref = None \<and> mangle_ok e"
| "mangle_ok (TConstInt i v) \<longleftrightarrow> True"
| "mangle_ok (TFunc i ps r v tp) \<longleftrightarrow> (\<forall>p \<in> set ps. mangle_ok p) \<and> mangle_ok r"
| "mangle_ok _ \<longleftrightarrow> False"

lemma mangle_pieces_eq: "mangle_pieces acc ts = acc @ pieces (map mangle_type_name ts)"
  by (induction ts arbitrary: acc) (simp_all add: mangle_append_piece_def piece_def)

lemma const_tag_spell: "const_tag i (spell k) = spell (key_const i k)"
  by (simp add: const_tag_def key_const_def)

lemma mkey_ok_const [simp]: "mkey_ok (key_const i k) = mkey_ok k"
  by (simp add: key_const_def)

lemma negative_word:
  assumes "sint (v :: u64) < 0"
  shows "unat (- v) = nat (- sint v)"
proof -
  have range: "- (2 ^ 63) \<le> sint v"
    using sint_ge [of v] by simp
  have "- v = word_of_int (- sint v)" by simp
  then have "uint (- v) = (- sint v) mod 2 ^ 64"
    by (simp only: uint_word_of_int) (simp add: take_bit_eq_mod)
  then have "uint (- v) = - sint v"
    using assms range by simp
  then show ?thesis by (simp add: unat_eq_nat_uint)
qed

lemma mangle_spells:
  "mangle_ok t \<Longrightarrow> mangle_type_name t = spell (mangle_key t) \<and> mkey_ok (mangle_key t)"
proof (induction t rule: measure_induct_rule [of size])
  case (less t)
  show ?case
  proof (cases t)
    case (TFunc i ps r v tp)
    have ps: "mangle_type_name p = spell (mangle_key p) \<and> mkey_ok (mangle_key p)" if "p \<in> set ps" for p
    proof -
      have "size p \<le> size_list size ps"
        by (rule size_list_estimation' [OF that]) simp
      then show ?thesis using less.IH less.prems TFunc that by simp
    qed
    then have names: "pieces (map mangle_type_name ps) = pieces (map (spell \<circ> mangle_key) ps)"
      by (intro arg_cong [of _ _ pieces]) simp
    have "mangle_type_name r = spell (mangle_key r) \<and> mkey_ok (mangle_key r)"
      using less.IH less.prems TFunc by simp
    then show ?thesis
      using ps TFunc names
      by (simp add: mangle_pieces_eq mangle_append_piece_def flip: const_tag_spell) (simp add: piece_def)
  next
    case (TStruct i s fs as)
    have fs: "mangle_type_name (f_type f) = spell (mangle_key (f_type f)) \<and> mkey_ok (mangle_key (f_type f))"
      if "f \<in> set fs" "sc_is_tuple s" for f
      using less.IH size_field_lt [OF that(1)] less.prems that TStruct by simp
    have as: "mangle_type_name a = spell (mangle_key a) \<and> mkey_ok (mangle_key a)"
      if "a \<in> set as" "\<not> sc_is_tuple s" for a
    proof -
      have "size a \<le> size_list size as"
        by (rule size_list_estimation' [OF that(1)]) simp
      then show ?thesis using less.IH less.prems TStruct that by (auto split: if_splits)
    qed
    show ?thesis
      using less.prems fs as TStruct
      by (auto simp: mangle_pieces_eq comp_def simp flip: const_tag_spell cong: map_cong split: if_splits)
  next
    case (TUnion i u vs as)
    have as: "mangle_type_name a = spell (mangle_key a) \<and> mkey_ok (mangle_key a)" if "a \<in> set as" for a
    proof -
      have "size a \<le> size_list size as"
        by (rule size_list_estimation' [OF that]) simp
      then show ?thesis using less.IH less.prems TUnion that by (auto split: if_splits)
    qed
    show ?thesis
      using less.prems as TUnion
      by (auto simp: mangle_pieces_eq comp_def simp flip: const_tag_spell cong: map_cong split: if_splits)
  next
    case (TStub i s as)
    have as: "mangle_type_name a = spell (mangle_key a) \<and> mkey_ok (mangle_key a)" if "a \<in> set as" for a
    proof -
      have "size a \<le> size_list size as"
        by (rule size_list_estimation' [OF that]) simp
      then show ?thesis using less.IH less.prems TStub that by (auto split: if_splits)
    qed
    show ?thesis
      using less.prems as TStub
      by (auto simp: mangle_pieces_eq comp_def simp flip: const_tag_spell cong: map_cong split: if_splits)
  next
    case (TConstInt i v)
    then show ?thesis by (simp add: negative_word flip: const_tag_spell)
  qed (use less in \<open>simp_all flip: const_tag_spell\<close>)
qed

lemma mangle_inject:
  "mangle_ok a \<Longrightarrow> mangle_ok b \<Longrightarrow> mangle_type_name a = mangle_type_name b \<longleftrightarrow> mangle_key a = mangle_key b"
  using mangle_spells [of a] mangle_spells [of b] spell_inject by metis

lemma mangle_with_args_inject:
  assumes "name_ok b" "name_ok b'" "\<forall>a \<in> set as. mangle_ok a" "\<forall>a \<in> set as'. mangle_ok a"
    and "as \<noteq> []" "as' \<noteq> []"
  shows "mangle_with_args b as = mangle_with_args b' as' \<longleftrightarrow> b = b' \<and> map mangle_key as = map mangle_key as'"
proof -
  have spells: "mangle_with_args n ts = spell (MInst n (map mangle_key ts)) \<and> mkey_ok (MInst n (map mangle_key ts))"
    if "name_ok n" "\<forall>a \<in> set ts. mangle_ok a" "ts \<noteq> []" for n ts
  proof -
    have names: "pieces (map mangle_type_name ts) = pieces (map (spell \<circ> mangle_key) ts)"
      by (intro arg_cong [of _ _ pieces]) (use that(2) mangle_spells in simp)
    then show ?thesis
      using that mangle_spells names by (simp add: mangle_with_args_def mangle_pieces_eq)
  qed
  have "mangle_with_args b as = mangle_with_args b' as' \<longleftrightarrow>
      MInst b (map mangle_key as) = MInst b' (map mangle_key as')"
    using spells [OF assms(1,3,5)] spells [OF assms(2,4,6)] spell_inject by metis
  then show ?thesis by (simp only: mkey.inject)
qed

subsection \<open>The paths of declarations (\<open>src/pass1.c\<close>)\<close>

definition make_mangled :: "string \<Rightarrow> string \<Rightarrow> string" where
  "make_mangled prefix name = prefix @ ''__'' @ name"

definition mangle_root :: "string option \<Rightarrow> string" where
  "mangle_root ns = (case ns of Some n \<Rightarrow> make_mangled ''fc'' n | None \<Rightarrow> ''fc'')"

text \<open>A path component that keeps the two underscores of a joint away from digits.\<close>

definition segment_ok :: "string \<Rightarrow> bool" where
  "segment_ok s \<longleftrightarrow> s \<noteq> [] \<and> \<not> has_dunder s \<and> \<not> isdigit (hd s) \<and>
     \<not> (\<exists>d r. s = CHR ''_'' # d # r \<and> isdigit d)"

lemma has_dunder_dd: "\<not> has_dunder s \<Longrightarrow> \<not> has_dd s"
  by (induction s rule: has_dd.induct) auto

lemma dd_Cons: "has_dd (x # s) \<Longrightarrow> \<not> has_dd s \<Longrightarrow> \<exists>d r. s = CHR ''_'' # d # r \<and> isdigit d \<and> x = CHR ''_''"
  by (cases s rule: has_dd.cases) auto

lemma dd_joint:
  assumes "\<not> has_dd a" "segment_ok s"
  shows "\<not> has_dd (a @ ''__'' @ s)"
  using assms(1)
proof (induction a rule: has_dd.induct)
  case (1 a b c r)
  then show ?case by simp
qed (use assms(2) has_dunder_dd [of s] in \<open>cases s rule: has_dd.cases; auto simp: segment_ok_def\<close>)+

lemma mangled_name_ok:
  assumes "\<forall>s \<in> set path. segment_ok s" "path \<noteq> []"
  shows "name_ok (foldl make_mangled ''fc'' path)"
proof -
  have "\<not> has_dd (foldl make_mangled ''fc'' path) \<and> (path \<noteq> [] \<longrightarrow> is_mangled_root_name (foldl make_mangled ''fc'' path))"
    using assms(1)
  proof (induction path rule: rev_induct)
    case (snoc s path)
    have "\<not> has_dd (make_mangled p s)" if "\<not> has_dd p" for p
      using dd_joint [OF that, of s] snoc.prems by (simp add: make_mangled_def)
    moreover have "is_mangled_root_name (make_mangled p s)" if "is_mangled_root_name p \<or> p = ''fc''" for p
      using that by (auto simp: make_mangled_def root_name_Cons)
    ultimately show ?case using snoc by auto
  qed simp
  then show ?thesis using assms(2) by (simp add: name_ok_def)
qed

subsection \<open>Rotating storage\<close>

text \<open>
  \<open>tn_publish\<close>: a kind's ring of slots and the index of the next one. A slot holds the string
  published last; publishing frees what the slot held before, so a pointer handed out stays
  valid until its slot comes round again.
\<close>

record tn_ring =
  tn_slots :: "nat option list"
  tn_idx :: nat
  tn_freed :: "nat set"

definition tn_publish :: "nat \<Rightarrow> tn_ring \<Rightarrow> tn_ring" where
  "tn_publish owned r =
     (let i = tn_idx r; n = length (tn_slots r)
      in \<lparr>tn_slots = (tn_slots r)[i := Some owned], tn_idx = (i + 1) mod n,
          tn_freed = tn_freed r \<union> (case tn_slots r ! i of None \<Rightarrow> {} | Some p \<Rightarrow> {p})\<rparr>)"

definition tn_new :: "nat \<Rightarrow> tn_ring" where
  "tn_new n = \<lparr>tn_slots = replicate n None, tn_idx = 0, tn_freed = {}\<rparr>"

definition ring_after :: "nat \<Rightarrow> nat list \<Rightarrow> tn_ring \<Rightarrow> bool" where
  "ring_after n ps r \<longleftrightarrow> length (tn_slots r) = n \<and> tn_idx r = length ps mod n \<and>
     (\<forall>k < length ps. length ps \<le> k + n \<longrightarrow> tn_slots r ! (k mod n) = Some (ps ! k)) \<and>
     (\<forall>j < n. length ps \<le> j \<longrightarrow> tn_slots r ! j = None) \<and>
     tn_freed r = set (take (length ps - n) ps)"

lemma ring_after_new: "ring_after n [] (tn_new n)"
  by (simp add: ring_after_def tn_new_def)

lemma ring_after_publish:
  assumes ring: "ring_after n ps r" and pos: "0 < n"
  shows "ring_after n (ps @ [p]) (tn_publish p r)"
proof -
  define m where "m = length ps"
  note r = ring [unfolded ring_after_def, folded m_def]
  have freed: "tn_freed (tn_publish p r) = set (take (Suc m - n) (ps @ [p]))"
  proof (cases "n \<le> m")
    case True
    have "m - n < m" "m \<le> m - n + n" using True pos by simp_all
    then have "tn_slots r ! ((m - n) mod n) = Some (ps ! (m - n))"
      using r by blast
    then have old: "tn_slots r ! (m mod n) = Some (ps ! (m - n))"
      using True by (simp add: le_mod_geq)
    have "take (Suc m - n) (ps @ [p]) = take (m - n) ps @ [ps ! (m - n)]"
      using True pos by (simp add: Suc_diff_le take_Suc_conv_app_nth m_def)
    then show ?thesis using r old True by (simp add: tn_publish_def Let_def)
  next
    case False
    then have "tn_slots r ! (m mod n) = None" using r by simp
    then show ?thesis using r False by (simp add: tn_publish_def Let_def)
  qed
  have kept: "tn_slots (tn_publish p r) ! (k mod n) = Some ((ps @ [p]) ! k)"
    if k: "k < Suc m" "Suc m \<le> k + n" for k
  proof (cases "k = m")
    case True
    then show ?thesis using r pos by (simp add: tn_publish_def Let_def m_def)
  next
    case False
    then have lt: "k < m" using k by simp
    have "k mod n \<noteq> m mod n"
    proof
      assume "k mod n = m mod n"
      then have "n dvd m - k" using lt by (metis less_imp_le mod_eq_dvd_iff_nat)
      then show False using lt k pos by (auto dest!: dvd_imp_le)
    qed
    then show ?thesis
      using r lt k by (simp add: tn_publish_def Let_def nth_append m_def)
  qed
  have empty: "tn_slots (tn_publish p r) ! j = None" if "j < n" "Suc m \<le> j" for j
    using r that by (simp add: tn_publish_def Let_def)
  show ?thesis
    using r freed kept empty by (simp add: ring_after_def m_def tn_publish_def Let_def mod_Suc_eq)
qed

lemma ring_after_fold: "0 < n \<Longrightarrow> ring_after n ps (fold tn_publish ps (tn_new n))"
  by (induction ps rule: rev_induct) (simp_all add: ring_after_new ring_after_publish)

subsection \<open>Properties\<close>

text \<open>
  C24: \<open>mangle_type_name\<close> is injective up to what distinguishes C types: two concrete types
  mangle to one string only if they have one structure over the same declared names (the
  alias names and source locations they carry aside), and then they do.
\<close>

theorem mangling_injective:
  assumes "mangle_ok a" and "mangle_ok b"
  shows "mangle_type_name a = mangle_type_name b \<longleftrightarrow> mangle_key a = mangle_key b"
  using assms by (rule mangle_inject)

lemma mangling_injective_witness:
  "mangle_type_name (TPointer plain (TPrim plain TYPE_INT32)) \<noteq>
   mangle_type_name (TSlice plain (TPrim plain TYPE_INT32))"
  using mangling_injective [of "TPointer plain (TPrim plain TYPE_INT32)" "TSlice plain (TPrim plain TYPE_INT32)"]
  by (simp add: key_const_def)

text \<open>
  C23: Two generic instances share a C symbol only if they are the same instance. With bases
  that are declaration paths whose components are not an underscore and a digit at their
  start, \<open>mangle_generic_name\<close> returns one interned pointer for both calls exactly when the
  bases and the argument structures agree, and each pointer denotes the spelled name.
\<close>

theorem instance_symbols_unique:
  assumes "table_ok tbl" and "it_count tbl + 2 \<le> 2 ^ 28"
    and "\<forall>s \<in> set p \<union> set p'. segment_ok s" and "p \<noteq> []" and "p' \<noteq> []"
    and "\<forall>a \<in> set as \<union> set as'. mangle_ok a" and "as \<noteq> []" and "as' \<noteq> []"
  shows "\<exists>t1 t2 x y.
    mangle_generic_name tbl (foldl make_mangled ''fc'' p) as = Some (t1, x) \<and>
    mangle_generic_name t1 (foldl make_mangled ''fc'' p') as' = Some (t2, y) \<and>
    (x = y \<longleftrightarrow> foldl make_mangled ''fc'' p = foldl make_mangled ''fc'' p' \<and>
       map mangle_key as = map mangle_key as')"
proof -
  define s where "s = mangle_with_args (foldl make_mangled ''fc'' p) as"
  define s' where "s' = mangle_with_args (foldl make_mangled ''fc'' p') as'"
  obtain t2 ps where run: "intern_all intern tbl [s, s'] = Some (t2, ps)" "length ps = 2"
    "ps ! 0 = ps ! 1 \<longleftrightarrow> s = s'"
    using names.pointers_are_names [of tbl "[s, s']"] assms(1,2) by (auto simp: less_Suc_eq)
  have "s = s' \<longleftrightarrow> foldl make_mangled ''fc'' p = foldl make_mangled ''fc'' p' \<and>
      map mangle_key as = map mangle_key as'"
    unfolding s_def s'_def using assms by (intro mangle_with_args_inject mangled_name_ok) auto
  with run show ?thesis
    by (auto simp: mangle_generic_name_def s_def s'_def split: option.splits prod.splits)
qed

lemma instance_symbols_unique_witness:
  "\<exists>t1 t2 x y.
    mangle_generic_name intern_init ''fc__m__box'' [TPrim plain TYPE_INT32] = Some (t1, x) \<and>
    mangle_generic_name t1 ''fc__m__box'' [TPrim plain TYPE_INT64] = Some (t2, y) \<and> x \<noteq> y"
  using instance_symbols_unique [of intern_init "[''m'', ''box'']" "[''m'', ''box'']"
      "[TPrim plain TYPE_INT32]" "[TPrim plain TYPE_INT64]"]
    table_ok_init by (simp add: intern_init_def make_mangled_def segment_ok_def key_const_def plain_def char_class_defs)


text \<open>
  A display string is freed only when as many names have been published as its ring has
  slots: after publishing \<open>ps\<close> on a fresh ring of \<open>n\<close> slots, exactly the pointers before the
  last \<open>n\<close> have been freed.
\<close>

theorem published_names_live:
  assumes "0 < n"
  shows "tn_freed (fold tn_publish ps (tn_new n)) = set (take (length ps - n) ps)"
  using ring_after_fold [OF assms, of ps] by (simp add: ring_after_def)

lemma published_names_live_witness:
  "tn_freed (fold tn_publish [10, 11, 12, 13, 14] (tn_new 4)) = {10}"
  using published_names_live [of 4 "[10, 11, 12, 13, 14]"] by simp

end
