(* ===== verification/FC_Scan.thy ===== *)
theory FC_Scan
  imports FC_Type FC_Text
begin

section \<open>The scanner (\<open>src/lexer.c\<close>, phase 1)\<close>

text \<open>
  The state of the lexer, its character primitives, the scanners of each kind of token,
  \<open>scan_token\<close> and the loop \<open>raw_tokenize\<close>. The source is the string of the buffer's bytes
  before the terminator and a pointer into it is an offset. A scanner returns \<open>Inl\<close> of the
  location and message where the code calls \<open>diag_fatal\<close>. Left out are the fields that only
  publish the arrays in progress to the language server, and the intern table, which the
  lexer stores and never uses.

  Every scanner moves the position forward within the buffer and keeps line and column those
  of the position: \<open>goto\<close> is that move, and each function is shown to be one. From it follow
  the termination of the whole scan, the bounds of every read and the spans of the tokens.
\<close>

type_synonym fatal = "src_loc \<times> string"

definition MAX_INTERP_DEPTH :: nat where "MAX_INTERP_DEPTH = 8"

text \<open>\<open>Flag\<close>: a name, and a value unless the flag is bare.\<close>

record cflag =
  fl_name :: string
  fl_value :: "string option"

record lexer =
  lx_source :: string
  lx_current :: nat
  lx_start :: nat
  lx_line :: nat
  lx_col :: nat
  lx_start_col :: nat
  lx_start_line :: nat
  lx_interp_depth :: nat
  lx_interp_brace :: "int list"
  lx_scan_fmt :: bool
  lx_fmt_start :: nat
  lx_fmt_len :: nat
  lx_fmt_line :: nat
  lx_fmt_col :: nat
  lx_flags :: "cflag list"
  lx_prev :: token_kind
  lx_prev_prev :: token_kind

definition lexer_init :: "string \<Rightarrow> cflag list \<Rightarrow> lexer" where
  "lexer_init source flags =
     \<lparr>lx_source = source, lx_current = 0, lx_start = 0, lx_line = 1, lx_col = 1,
      lx_start_col = 1, lx_start_line = 1, lx_interp_depth = 0,
      lx_interp_brace = replicate MAX_INTERP_DEPTH 0, lx_scan_fmt = False, lx_fmt_start = 0,
      lx_fmt_len = 0, lx_fmt_line = 0, lx_fmt_col = 0, lx_flags = flags,
      lx_prev = Sp TOK_EOF, lx_prev_prev = Sp TOK_EOF\<rparr>"

subsection \<open>Characters and tokens\<close>

definition peek :: "lexer \<Rightarrow> char" where "peek l = at_c (lx_source l) (lx_current l)"

definition peek_next :: "lexer \<Rightarrow> char" where
  "peek_next l = (if peek l \<noteq> nul then at_c (lx_source l) (lx_current l + 1) else nul)"

definition peek_at :: "lexer \<Rightarrow> nat \<Rightarrow> char" where
  "peek_at l n =
     (if \<exists>i < n. at_c (lx_source l) (lx_current l + i) = nul then nul
      else at_c (lx_source l) (lx_current l + n))"

definition prev_char :: "lexer \<Rightarrow> char" where
  "prev_char l = at_c (lx_source l) (lx_current l - 1)"

definition at_end :: "lexer \<Rightarrow> bool" where "at_end l \<longleftrightarrow> peek l = nul"

definition advance :: "lexer \<Rightarrow> lexer" where
  "advance l =
     (if peek l = newline then l\<lparr>lx_current := lx_current l + 1, lx_line := lx_line l + 1, lx_col := 1\<rparr>
      else l\<lparr>lx_current := lx_current l + 1, lx_col := lx_col l + 1\<rparr>)"

definition match_char :: "char \<Rightarrow> lexer \<Rightarrow> bool \<times> lexer" where
  "match_char expected l = (if at_end l \<or> peek l \<noteq> expected then (False, l) else (True, advance l))"

definition make_token :: "lexer \<Rightarrow> token_kind \<Rightarrow> token" where
  "make_token l k =
     \<lparr>t_kind = k, t_start = Src (lx_start l), t_length = lx_current l - lx_start l,
      t_line = lx_start_line l, t_col = lx_start_col l\<rparr>"

definition error_token :: "lexer \<Rightarrow> string \<Rightarrow> token" where
  "error_token l msg =
     \<lparr>t_kind = Sp TOK_ERROR, t_start = Static msg, t_length = length msg,
      t_line = lx_start_line l, t_col = lx_start_col l\<rparr>"

lemma peek_in: "peek l \<noteq> nul \<Longrightarrow> lx_current l < length (lx_source l)"
  unfolding peek_def by (rule at_c_not_nul)

lemma advance_simps [simp]:
  "lx_source (advance l) = lx_source l" "lx_current (advance l) = Suc (lx_current l)"
  by (simp_all add: advance_def)

text \<open>
  The loops that advance while the next character is in a class. No class the code asks for
  holds the terminator (\<open>advance_while_class\<close>), so the test for the end of the buffer is the
  code's own where the loop has one and changes nothing where it has none.
\<close>

function advance_while :: "(char \<Rightarrow> bool) \<Rightarrow> lexer \<Rightarrow> lexer" where
  "advance_while P l = (if \<not> at_end l \<and> P (peek l) then advance_while P (advance l) else l)"
  by pat_completeness auto
termination
  by (relation "measure (\<lambda>(P, l). length (lx_source l) - lx_current l)")
    (auto simp: at_end_def dest!: peek_in)

declare advance_while.simps [simp del]

lemma advance_while_class:
  "\<not> P nul \<Longrightarrow> advance_while P l = (if P (peek l) then advance_while P (advance l) else l)"
  by (subst advance_while.simps) (auto simp: at_end_def)

lemma advance_while_forward [simp]:
  "lx_source (advance_while P l) = lx_source l" "lx_current l \<le> lx_current (advance_while P l)"
proof -
  have "lx_source (advance_while P l) = lx_source l \<and> lx_current l \<le> lx_current (advance_while P l)"
  proof (induction P l rule: advance_while.induct)
    case (1 P l)
    then show ?case by (auto simp: advance_while.simps [of P l])
  qed
  then show "lx_source (advance_while P l) = lx_source l" "lx_current l \<le> lx_current (advance_while P l)"
    by simp_all
qed

text \<open>\<open>advance\<close> called a fixed number of times.\<close>

definition advance_n :: "nat \<Rightarrow> lexer \<Rightarrow> lexer" where "advance_n n l = (advance ^^ n) l"

subsection \<open>Comments\<close>

definition skip_line_comment :: "lexer \<Rightarrow> lexer" where
  "skip_line_comment l = advance_while (\<lambda>c. c \<noteq> newline) l"

function block_comment_loop :: "nat \<Rightarrow> lexer \<Rightarrow> nat \<times> lexer" where
  "block_comment_loop depth l =
     (if \<not> at_end l \<and> 0 < depth then
        (if peek l = CHR ''/'' \<and> peek_next l = CHR ''*'' then
           block_comment_loop (depth + 1) (advance (advance l))
         else if peek l = CHR ''*'' \<and> peek_next l = CHR ''/'' then
           block_comment_loop (depth - 1) (advance (advance l))
         else block_comment_loop depth (advance l))
      else (depth, l))"
  by pat_completeness auto
termination
  by (relation "measure (\<lambda>(d, l). length (lx_source l) - lx_current l)")
    (auto simp: at_end_def intro!: diff_less_mono2 peek_in)

declare block_comment_loop.simps [simp del]

definition skip_block_comment :: "lexer \<Rightarrow> fatal + lexer" where
  "skip_block_comment l =
     (let (depth, l) = block_comment_loop 1 l
      in if 0 < depth then Inl (mk_loc (lx_line l) (lx_col l), ''unterminated block comment'') else Inr l)"

lemma block_comment_forward:
  "block_comment_loop d l = (d', l') \<Longrightarrow> lx_source l' = lx_source l \<and> lx_current l \<le> lx_current l'"
  by (induction d l rule: block_comment_loop.induct)
    (subst (asm) (4) block_comment_loop.simps, auto split: if_splits)

lemma skip_line_comment_forward:
  "peek l = CHR ''/'' \<Longrightarrow> lx_source (skip_line_comment l) = lx_source l \<and> lx_current l < lx_current (skip_line_comment l)"
  using advance_while_forward(2) [of "advance l" "\<lambda>c. c \<noteq> newline"]
  by (simp add: skip_line_comment_def at_end_def Suc_le_eq advance_while.simps [of "\<lambda>c. c \<noteq> newline" l])

lemma skip_block_comment_forward:
  "skip_block_comment l = Inr l' \<Longrightarrow> lx_source l' = lx_source l \<and> lx_current l \<le> lx_current l'"
  using block_comment_forward by (auto simp: skip_block_comment_def split: prod.splits if_splits)

subsection \<open>Identifiers and keywords\<close>

definition KEYWORDS :: "(string \<times> token_kind) list" where
  "KEYWORDS =
     [(''let'', Kw TOK_LET), (''mut'', Kw TOK_MUT), (''struct'', Kw TOK_STRUCT),
      (''union'', Kw TOK_UNION), (''enum'', Kw TOK_ENUM), (''module'', Kw TOK_MODULE),
      (''namespace'', Kw TOK_NAMESPACE), (''import'', Kw TOK_IMPORT), (''from'', Kw TOK_FROM),
      (''as'', Kw TOK_AS), (''extern'', Kw TOK_EXTERN), (''private'', Kw TOK_PRIVATE),
      (''match'', Kw TOK_MATCH), (''with'', Kw TOK_WITH), (''when'', Kw TOK_WHEN),
      (''if'', Kw TOK_IF), (''then'', Kw TOK_THEN), (''else'', Kw TOK_ELSE), (''for'', Kw TOK_FOR),
      (''in'', Kw TOK_IN), (''loop'', Kw TOK_LOOP), (''do'', Kw TOK_DO), (''break'', Kw TOK_BREAK),
      (''continue'', Kw TOK_CONTINUE), (''return'', Kw TOK_RETURN), (''defer'', Kw TOK_DEFER),
      (''ignore'', Kw TOK_IGNORE), (''some'', Kw TOK_SOME), (''true'', Kw TOK_TRUE),
      (''false'', Kw TOK_FALSE), (''none'', Kw TOK_NONE), (''ok'', Kw TOK_OK), (''err'', Kw TOK_ERR),
      (''error'', Kw TOK_ERROR_KW), (''void'', Kw TOK_VOID), (''guarded'', Kw TOK_GUARDED),
      (''unguarded'', Kw TOK_UNGUARDED), (''checked'', Kw TOK_CHECKED),
      (''unchecked'', Kw TOK_UNCHECKED), (''alloc'', Bi TOK_ALLOC), (''alloca'', Bi TOK_ALLOCA),
      (''free'', Bi TOK_FREE), (''sizeof'', Bi TOK_SIZEOF), (''alignof'', Bi TOK_ALIGNOF),
      (''bitcast'', Bi TOK_BITCAST), (''enum_of'', Bi TOK_ENUM_OF), (''default'', Bi TOK_DEFAULT),
      (''const'', Bi TOK_CONST), (''assert'', Bi TOK_ASSERT), (''static_assert'', Bi TOK_STATIC_ASSERT),
      (''error_name'', Bi TOK_ERROR_NAME), (''atomic_load_acquire'', Bi TOK_ATOMIC_LOAD),
      (''atomic_store_release'', Bi TOK_ATOMIC_STORE)]"

definition lexer_keyword_count :: nat where "lexer_keyword_count = length KEYWORDS"

definition lexer_keyword :: "nat \<Rightarrow> string" where "lexer_keyword i = fst (KEYWORDS ! i)"

definition check_keyword :: "string \<Rightarrow> token_kind" where
  "check_keyword s = (case find (\<lambda>(kw, k). kw = s) KEYWORDS of Some (kw, k) \<Rightarrow> k | None \<Rightarrow> Idt TOK_IDENT)"

definition is_word_char :: "char \<Rightarrow> bool" where
  "is_word_char c \<longleftrightarrow> isalnum c \<or> c = CHR ''_''"

definition extern_c_name_pos :: "lexer \<Rightarrow> bool" where
  "extern_c_name_pos l \<longleftrightarrow>
     lx_prev l = Kw TOK_EXTERN \<or>
     (lx_prev l = Kw TOK_STRUCT \<or> lx_prev l = Kw TOK_UNION) \<and> lx_prev_prev l = Kw TOK_EXTERN"

definition start_text :: "lexer \<Rightarrow> string" where
  "start_text l = sub_c (lx_source l) (lx_start l) (lx_current l - lx_start l)"

definition scan_identifier :: "lexer \<Rightarrow> fatal + token \<times> lexer" where
  "scan_identifier l0 =
     (let l = advance_while is_word_char l0;
          kw = check_keyword (start_text l)
      in if kw = Idt TOK_IDENT \<and> \<not> extern_c_name_pos l \<and> has_dunder (start_text l)
         then Inl (mk_loc (lx_line l) (lx_start_col l),
                   ''identifier '' @ [squote] @ start_text l @ [squote] @ '' contains '' @ [squote] @ ''__'' @
                   [squote] @ '' (double underscore), which is reserved'')
         else Inr (make_token l kw, l))"

subsection \<open>Numbers\<close>

definition is_bin_digit :: "char \<Rightarrow> bool" where "is_bin_digit c \<longleftrightarrow> c = CHR ''0'' \<or> c = CHR ''1''"

definition is_oct_digit :: "char \<Rightarrow> bool" where "is_oct_digit c \<longleftrightarrow> 48 \<le> byte c \<and> byte c \<le> 55"

definition is_dec_digit :: "char \<Rightarrow> bool" where "is_dec_digit c = isdigit c"

definition is_hex_digit :: "char \<Rightarrow> bool" where "is_hex_digit c = isxdigit c"

definition digit_here :: "(char \<Rightarrow> bool) \<Rightarrow> lexer \<Rightarrow> bool" where
  "digit_here is_digit l \<longleftrightarrow>
     is_digit (peek l) \<or>
     (peek l = CHR ''_'' \<and> is_digit (prev_char l) \<and> is_digit (peek_next l))"

text \<open>The loop of \<open>scan_digits\<close>; no digit class holds the terminator.\<close>

function scan_digits_loop :: "(char \<Rightarrow> bool) \<Rightarrow> bool \<Rightarrow> lexer \<Rightarrow> bool \<times> lexer" where
  "scan_digits_loop is_digit any l =
     (if \<not> at_end l \<and> digit_here is_digit l
      then scan_digits_loop is_digit (any \<or> peek l \<noteq> CHR ''_'') (advance l)
      else (any, l))"
  by pat_completeness auto
termination
  by (relation "measure (\<lambda>(d, a, l). length (lx_source l) - lx_current l)")
    (auto simp: at_end_def intro!: diff_less_mono2 peek_in)

declare scan_digits_loop.simps [simp del]

definition scan_digits :: "(char \<Rightarrow> bool) \<Rightarrow> lexer \<Rightarrow> bool \<times> lexer" where
  "scan_digits is_digit l = scan_digits_loop is_digit False l"

definition is_sign :: "char \<Rightarrow> bool" where "is_sign c \<longleftrightarrow> c = CHR ''+'' \<or> c = CHR ''-''"

definition scan_exponent :: "char \<Rightarrow> lexer \<Rightarrow> bool \<times> lexer" where
  "scan_exponent marker l =
     (if tolower (peek l) \<noteq> marker then (False, l)
      else if \<not> isdigit (peek_next l) \<and> \<not> (is_sign (peek_next l) \<and> isdigit (peek_at l 2)) then (False, l)
      else let l1 = advance l;
               l2 = (if is_sign (peek l1) then advance l1 else l1);
               l3 = snd (scan_digits is_dec_digit l2)
           in (True, l3))"

definition finish_suffixed ::
  "string \<Rightarrow> token_kind \<Rightarrow> (string \<Rightarrow> ctype option) \<Rightarrow> lexer \<Rightarrow> token \<times> lexer" where
  "finish_suffixed lead k suffix_type l =
     (if peek l \<noteq> nul \<and> peek l \<in> set lead \<and> isalnum (peek_next l) then
        (let l1 = advance_while isalnum l;
             suffix = sub_c (lx_source l) (lx_current l) (lx_current l1 - lx_current l)
         in if suffix_type suffix = None then (error_token l1 ''invalid suffix on numeric literal'', l1)
            else (make_token l1 k, l1))
      else (make_token l k, l))"

definition finish_int :: "lexer \<Rightarrow> token \<times> lexer" where
  "finish_int l = finish_suffixed ''iu'' (Lit TOK_INT_LIT) type_from_int_suffix l"

definition finish_float :: "lexer \<Rightarrow> token \<times> lexer" where
  "finish_float l = finish_suffixed ''f'' (Lit TOK_FLOAT_LIT) type_from_float_suffix l"

definition scan_hex :: "lexer \<Rightarrow> fatal + token \<times> lexer" where
  "scan_hex l0 =
     (let l1 = advance l0;
          (has_digit, l2) = scan_digits is_hex_digit l1;
          has_dot = (peek l2 = CHR ''.'' \<and> isxdigit (peek_next l2));
          (frac, l3) = (if has_dot then scan_digits is_hex_digit (advance l2) else (False, l2));
          has_digit = (has_digit \<or> frac);
          (has_exp, l4) = scan_exponent (CHR ''p'') l3
      in if has_dot \<and> \<not> has_exp then
           Inl (mk_loc (lx_line l4) (lx_start_col l4),
                ''hex float literal requires a binary exponent ('' @ [squote] @ ''p'' @ [squote] @ '' or '' @
                [squote] @ ''P'' @ [squote] @ '' followed by decimal digits)'')
         else if has_dot \<or> has_exp then
           (if \<not> has_digit then
              Inl (mk_loc (lx_line l4) (lx_start_col l4), ''hex float literal requires at least one mantissa digit'')
            else Inr (finish_float l4))
         else if \<not> has_digit then
           Inr (error_token l4 (''a '' @ [squote] @ ''0x'' @ [squote] @ '' prefix must be followed by a hex digit''), l4)
         else Inr (finish_int l4))"

definition scan_prefixed :: "(char \<Rightarrow> bool) \<Rightarrow> string \<Rightarrow> lexer \<Rightarrow> token \<times> lexer" where
  "scan_prefixed is_digit msg l0 =
     (let l1 = advance l0; (any, l2) = scan_digits is_digit l1
      in if any then finish_int l2 else (error_token l2 msg, l2))"

definition scan_decimal :: "lexer \<Rightarrow> token \<times> lexer" where
  "scan_decimal l0 =
     (let l1 = snd (scan_digits is_dec_digit l0);
          frac = (peek l1 = CHR ''.'' \<and> isdigit (peek_next l1));
          l2 = (if frac then snd (scan_digits is_dec_digit (advance l1)) else l1)
      in if peek l2 = CHR ''e'' \<or> peek l2 = CHR ''E'' then
           (let (has_exp, l3) = scan_exponent (CHR ''e'') l2
            in if has_exp then finish_float l3
               else (error_token l3 ''float exponent requires at least one digit'', l3))
         else if frac then finish_float l2 else finish_int l2)"

definition scan_number_body :: "lexer \<Rightarrow> fatal + token \<times> lexer" where
  "scan_number_body l =
     (let base = tolower (peek l)
      in if prev_char l = CHR ''0'' \<and> base = CHR ''x'' then scan_hex l
         else if prev_char l = CHR ''0'' \<and> base = CHR ''b'' then
           Inr (scan_prefixed is_bin_digit
             (''a '' @ [squote] @ ''0b'' @ [squote] @ '' prefix must be followed by a binary digit'') l)
         else if prev_char l = CHR ''0'' \<and> base = CHR ''o'' then
           Inr (scan_prefixed is_oct_digit
             (''a '' @ [squote] @ ''0o'' @ [squote] @ '' prefix must be followed by an octal digit'') l)
         else Inr (scan_decimal l))"

definition scan_number :: "lexer \<Rightarrow> fatal + token \<times> lexer" where
  "scan_number l0 =
     bindE (scan_number_body l0) (\<lambda>(t, l).
       if t_kind t \<noteq> Sp TOK_ERROR \<and> is_word_char (peek l)
       then Inr (error_token l ''invalid suffix on numeric literal'', l)
       else Inr (t, l))"

subsection \<open>Strings and characters\<close>

definition check_interp_spec :: "lexer \<Rightarrow> nat \<Rightarrow> nat" where
  "check_interp_spec l p =
     (let n = fst (interp_spec_scan (lx_source l) p)
      in if 0 < n \<and> at_c (lx_source l) (p + n) = CHR ''{'' then n else 0)"

definition scan_escape :: "lexer \<Rightarrow> string option \<times> lexer" where
  "scan_escape l =
     (if 0 \<le> simple_escape_byte (peek l) then (None, advance l)
      else if peek l = CHR ''x'' then
        (let l1 = advance l
         in if \<not> isxdigit (peek l1) then (Some (backslash # ''x escape requires exactly two hex digits''), l1)
            else let l2 = advance l1
                 in if \<not> isxdigit (peek l2)
                    then (Some (backslash # ''x escape requires exactly two hex digits''), l2)
                    else (None, advance l2))
      else (Some ''unrecognized escape sequence'', l))"

text \<open>A token of literal text, from \<open>text_start\<close> to here.\<close>

definition text_token :: "lexer \<Rightarrow> token_kind \<Rightarrow> nat \<Rightarrow> token" where
  "text_token l k text_start =
     \<lparr>t_kind = k, t_start = Src text_start, t_length = lx_current l - text_start,
      t_line = lx_line l, t_col = lx_start_col l\<rparr>"

text \<open>At a \<open>%\<close> that starts a format spec: the text so far, and the expression entered.\<close>

definition enter_interp :: "lexer \<Rightarrow> token_kind \<Rightarrow> nat \<Rightarrow> nat \<Rightarrow> token \<times> lexer" where
  "enter_interp l tok_kind text_start spec_len =
     (let t = text_token l tok_kind text_start;
          l1 = advance l;
          l2 = l1\<lparr>lx_fmt_start := lx_current l1, lx_fmt_len := spec_len, lx_fmt_line := lx_line l1,
                  lx_fmt_col := lx_col l1\<rparr>;
          l3 = advance (advance_n spec_len l2)
      in if lx_interp_depth l3 \<ge> MAX_INTERP_DEPTH
         then (error_token l3 ''string interpolation nested too deeply'', l3)
         else (t, l3\<lparr>lx_interp_depth := lx_interp_depth l3 + 1,
                     lx_interp_brace := (lx_interp_brace l3)[lx_interp_depth l3 := 1],
                     lx_scan_fmt := True\<rparr>))"

definition close_string :: "lexer \<Rightarrow> token_kind \<Rightarrow> nat \<Rightarrow> token \<times> lexer" where
  "close_string l tok_kind text_start =
     (if at_end l \<or> peek l = newline then (error_token l ''unterminated string'', l)
      else if tok_kind = Itp TOK_INTERP_MID then (text_token l (Itp TOK_INTERP_END) text_start, advance l)
      else let l1 = advance l
           in (make_token l1 (if tok_kind = Itp TOK_CINTERP_START then Lit TOK_CSTRING_LIT else Lit TOK_STRING_LIT), l1))"

lemma scan_escape_forward:
  "lx_source (snd (scan_escape l)) = lx_source l \<and> lx_current l \<le> lx_current (snd (scan_escape l))"
  by (simp add: scan_escape_def Let_def)

lemma escape_shrinks:
  assumes "(e, l2) = scan_escape (advance l)" and "peek l = backslash"
  shows "length (lx_source l2) - lx_current l2 < length (lx_source l) - lx_current l"
  using scan_escape_forward [of "advance l"] peek_in [of l] assms(2)
  unfolding assms(1) [symmetric] by (auto simp: diff_less_mono2 Suc_le_eq)

function string_loop :: "token_kind \<Rightarrow> nat \<Rightarrow> lexer \<Rightarrow> token \<times> lexer" where
  "string_loop tok_kind text_start l =
     (if \<not> at_end l \<and> peek l \<noteq> dquote \<and> peek l \<noteq> newline then
        (if peek l = backslash then
           (let l1 = advance l
            in if at_end l1 then close_string l1 tok_kind text_start
               else case scan_escape l1 of
                      (Some msg, l2) \<Rightarrow> (error_token l2 msg, l2)
                    | (None, l2) \<Rightarrow> string_loop tok_kind text_start l2)
         else if peek l = CHR ''%'' \<and> at_c (lx_source l) (lx_current l + 1) = CHR ''%'' then
           string_loop tok_kind text_start (advance (advance l))
         else if peek l = CHR ''%'' \<and> 0 < check_interp_spec l (lx_current l + 1) then
           enter_interp l tok_kind text_start (check_interp_spec l (lx_current l + 1))
         else string_loop tok_kind text_start (advance l))
      else close_string l tok_kind text_start)"
  by pat_completeness auto
termination
  by (relation "measure (\<lambda>(k, s, l). length (lx_source l) - lx_current l)")
    (auto simp: at_end_def intro!: diff_less_mono2 peek_in escape_shrinks)

declare string_loop.simps [simp del]

definition scan_string_body :: "lexer \<Rightarrow> token_kind \<Rightarrow> token \<times> lexer" where
  "scan_string_body l tok_kind = string_loop tok_kind (lx_current l) l"

definition scan_string :: "lexer \<Rightarrow> token \<times> lexer" where
  "scan_string l = scan_string_body (advance l) (Itp TOK_INTERP_START)"

definition scan_cstring :: "lexer \<Rightarrow> token \<times> lexer" where
  "scan_cstring l = scan_string_body (advance l) (Itp TOK_CINTERP_START)"

definition scan_char_lit :: "lexer \<Rightarrow> token \<times> lexer" where
  "scan_char_lit l0 =
     (let l1 = advance l0;
          (err, l2) =
            (if peek l1 = backslash then scan_escape (advance l1)
             else if at_end l1 \<or> peek l1 = newline then (Some ''unterminated char literal'', l1)
             else (None, advance l1))
      in case err of
           Some msg \<Rightarrow> (error_token l2 msg, l2)
         | None \<Rightarrow>
             if peek l2 \<noteq> squote then (error_token l2 ''unterminated char literal'', l2)
             else let l3 = advance l2 in (make_token l3 (Lit TOK_CHAR_LIT), l3))"

subsection \<open>One token\<close>

text \<open>At an apostrophe, its character consumed: a character literal or a type variable.\<close>

definition scan_quote :: "lexer \<Rightarrow> fatal + token \<times> lexer" where
  "scan_quote l =
     (let reset = l\<lparr>lx_current := lx_start l, lx_col := lx_start_col l\<rparr>
      in if peek l = backslash then Inr (scan_char_lit reset)
         else if isalpha (peek l) then
           (let l1 = advance l
            in if peek l1 = squote
               then Inr (scan_char_lit (l1\<lparr>lx_current := lx_start l1, lx_col := lx_start_col l1\<rparr>))
               else let l2 = advance_while is_word_char (l1\<lparr>lx_current := lx_current l, lx_col := lx_col l\<rparr>)
                    in if has_dunder (start_text l2)
                       then Inl (mk_loc (lx_line l2) (lx_start_col l2),
                                 ''type variable '' @ [squote] @ start_text l2 @ [squote] @ '' contains '' @
                                 [squote] @ ''__'' @ [squote] @ '' (double underscore), which is reserved'')
                       else Inr (make_token l2 (Idt TOK_TYPE_VAR), l2))
         else Inr (scan_char_lit reset))"

text \<open>After a \<open>#\<close>: the directive's word, and the \<open>if\<close> of an \<open>else if\<close>.\<close>

definition scan_directive :: "lexer \<Rightarrow> token \<times> lexer" where
  "scan_directive l0 =
     (let l1 = advance_while (\<lambda>c. c = CHR '' '') l0;
          l2 = advance_while isalpha l1;
          word = sub_c (lx_source l2) (lx_current l1) (lx_current l2 - lx_current l1)
      in if word = ''end'' then (make_token l2 (Pp TOK_HASH_END), l2)
         else if word = ''else'' then
           (let l3 = advance_while (\<lambda>c. c = CHR '' '') l2; i = lx_current l3; s = lx_source l3
            in if at_c s i = CHR ''i'' \<and> at_c s (i + 1) = CHR ''f'' \<and>
                  \<not> isalpha (at_c s (i + 2)) \<and> at_c s (i + 2) \<noteq> CHR ''_''
               then (let l4 = advance (advance l3) in (make_token l4 (Pp TOK_HASH_ELSE_IF), l4))
               else (let l4 = l3\<lparr>lx_current := lx_current l2, lx_col := lx_col l2\<rparr>
                     in (make_token l4 (Pp TOK_HASH_ELSE), l4)))
         else if word = ''if'' then (make_token l2 (Pp TOK_HASH_IF), l2)
         else (error_token l2 ''unknown preprocessor directive'', l2))"

text \<open>The one-character arms of the switch that look no further.\<close>

definition single_char_token :: "char \<Rightarrow> token_kind option" where
  "single_char_token c =
     map_of [(CHR ''+'', Op TOK_PLUS), (CHR ''*'', Op TOK_STAR), (CHR ''/'', Op TOK_SLASH),
             (CHR ''%'', Op TOK_PERCENT), (CHR ''^'', Op TOK_CARET), (CHR ''~'', Op TOK_TILDE),
             (CHR ''?'', Op TOK_QUESTION), (CHR '';'', Op TOK_SEMICOLON), (CHR ''('', Dl TOK_LPAREN),
             (CHR '')'', Dl TOK_RPAREN), (CHR ''['', Dl TOK_LBRACKET), (CHR '']'', Dl TOK_RBRACKET),
             (CHR ''{'', Dl TOK_LBRACE), (CHR ''}'', Dl TOK_RBRACE), (CHR '','', Op TOK_COMMA)] c"

definition if_match :: "char \<Rightarrow> token_kind \<Rightarrow> (lexer \<Rightarrow> token \<times> lexer) \<Rightarrow> lexer \<Rightarrow> token \<times> lexer" where
  "if_match expected yes no l =
     (let (m, l1) = match_char expected l in if m then (make_token l1 yes, l1) else no l1)"

definition tok_or :: "token_kind \<Rightarrow> lexer \<Rightarrow> token \<times> lexer" where
  "tok_or k l = (make_token l k, l)"

definition scan_operator :: "char \<Rightarrow> lexer \<Rightarrow> token \<times> lexer" where
  "scan_operator c l =
     (case single_char_token c of
        Some k \<Rightarrow> tok_or k l
      | None \<Rightarrow>
          if c = CHR ''-'' then if_match (CHR ''>'') (Op TOK_ARROW) (tok_or (Op TOK_MINUS)) l
          else if c = CHR ''='' then if_match (CHR ''='') (Op TOK_EQEQ) (tok_or (Op TOK_EQ)) l
          else if c = CHR ''!'' then if_match (CHR ''='') (Op TOK_BANGEQ) (tok_or (Op TOK_BANG)) l
          else if c = CHR ''<'' then
            if_match (CHR ''='') (Op TOK_LTEQ) (if_match (CHR ''<'') (Op TOK_LTLT) (tok_or (Op TOK_LT))) l
          else if c = CHR ''>'' then
            if_match (CHR ''='') (Op TOK_GTEQ) (if_match (CHR ''>'') (Op TOK_GTGT) (tok_or (Op TOK_GT))) l
          else if c = CHR ''&'' then if_match (CHR ''&'') (Op TOK_AMPAMP) (tok_or (Op TOK_AMP)) l
          else if c = CHR ''|'' then if_match (CHR ''|'') (Op TOK_PIPEPIPE) (tok_or (Op TOK_PIPE)) l
          else if c = CHR ''.'' then
            (let (m, l1) = match_char (CHR ''.'') l
             in if m then if_match (CHR ''.'') (Op TOK_ELLIPSIS) (tok_or (Op TOK_DOTDOT)) l1
                else tok_or (Op TOK_DOT) l1)
          else if c = CHR '':'' then if_match (CHR '':'') (Op TOK_COLONCOLON) (tok_or (Op TOK_COLON)) l
          else if c = CHR ''#'' then scan_directive l
          else (error_token l ''unexpected character'', l))"

definition scan_plain :: "lexer \<Rightarrow> fatal + token \<times> lexer" where
  "scan_plain l0 =
     (let c = peek l0; l = advance l0
      in if isalpha c \<or> c = CHR ''_'' then
           (if c = CHR ''c'' \<and> peek l = dquote then Inr (scan_cstring l) else scan_identifier l)
         else if isdigit c then scan_number l
         else if c = squote then scan_quote l
         else if c = dquote then Inr (scan_string (l\<lparr>lx_current := lx_start l, lx_col := lx_start_col l\<rparr>))
         else if c = newline then Inr (make_token l (Lay TOK_NEWLINE), l)
         else Inr (scan_operator c l))"

text \<open>The brace count of the innermost interpolation, and whether a \<open>}\<close> closed it.\<close>

definition track_brace :: "lexer \<Rightarrow> bool \<times> lexer" where
  "track_brace l =
     (if 0 < lx_interp_depth l then
        (let idx = lx_interp_depth l - 1; b = lx_interp_brace l
         in if peek l = CHR ''{'' then (False, l\<lparr>lx_interp_brace := b[idx := b ! idx + 1]\<rparr>)
            else if peek l = CHR ''}'' then
              (b ! idx - 1 = 0, l\<lparr>lx_interp_brace := b[idx := b ! idx - 1]\<rparr>)
            else (False, l))
      else (False, l))"

definition start_here :: "lexer \<Rightarrow> lexer" where
  "start_here l = l\<lparr>lx_start := lx_current l, lx_start_col := lx_col l, lx_start_line := lx_line l\<rparr>"

definition scan_token :: "lexer \<Rightarrow> fatal + token \<times> lexer" where
  "scan_token l =
     (if lx_scan_fmt l then
        Inr (\<lparr>t_kind = Itp TOK_FMT_SPEC, t_start = Src (lx_fmt_start l), t_length = lx_fmt_len l,
              t_line = lx_fmt_line l, t_col = lx_fmt_col l\<rparr>, l\<lparr>lx_scan_fmt := False\<rparr>)
      else
        (let l1 = start_here l
         in if at_end l1 then Inr (make_token l1 (Sp TOK_EOF), l1)
            else let (closed, l2) = track_brace l1
                 in if closed then
                      Inr (let l3 = advance l2
                           in scan_string_body (l3\<lparr>lx_interp_depth := lx_interp_depth l3 - 1\<rparr>) (Itp TOK_INTERP_MID))
                    else scan_plain l2))"

subsection \<open>The whole source\<close>

function skip_blanks :: "lexer \<Rightarrow> fatal + lexer" where
  "skip_blanks l =
     (if peek l = CHR '' '' \<or> peek l = CHR 0x0D then skip_blanks (advance l)
      else if peek l = CHR 0x09 then
        Inl (mk_loc (lx_line l) (lx_col l), ''tabs are not allowed; use spaces for indentation'')
      else if peek l = CHR ''/'' \<and> peek_next l = CHR ''/'' then skip_blanks (skip_line_comment l)
      else if peek l = CHR ''/'' \<and> peek_next l = CHR ''*'' then
        (case skip_block_comment (advance (advance l)) of Inl e \<Rightarrow> Inl e | Inr l' \<Rightarrow> skip_blanks l')
      else Inr l)"
  by pat_completeness auto
termination
proof (relation "measure (\<lambda>l. length (lx_source l) - lx_current l)", goal_cases)
  case (3 l)
  then show ?case
    using skip_line_comment_forward [of l] peek_in [of l] by (auto intro: diff_less_mono2)
next
  case (4 l l')
  then show ?case
    using skip_block_comment_forward [of "advance (advance l)" l'] peek_in [of l] by (auto simp: diff_less_mono2)
qed (auto intro!: diff_less_mono2 peek_in)

declare skip_blanks.simps [simp del]

text \<open>Each round blanks, one token, and its kind remembered. The list is the output array.\<close>

definition remember :: "token \<Rightarrow> lexer \<Rightarrow> lexer" where
  "remember t l = l\<lparr>lx_prev_prev := lx_prev l, lx_prev := t_kind t\<rparr>"

partial_function (option) raw_tokens :: "lexer \<Rightarrow> (fatal + token list \<times> lexer) option" where
  "raw_tokens l =
     (case skip_blanks l of
        Inl e \<Rightarrow> Some (Inl e)
      | Inr l1 \<Rightarrow>
          (case scan_token l1 of
             Inl e \<Rightarrow> Some (Inl e)
           | Inr (t, l2) \<Rightarrow>
               if t_kind t = Sp TOK_ERROR
               then Some (Inl (mk_loc (t_line t) (t_col t), tok_text (lx_source l2) t))
               else if t_kind t = Sp TOK_EOF then Some (Inr ([t], remember t l2))
               else Option.bind (raw_tokens (remember t l2)) (\<lambda>r.
                 case r of Inl e \<Rightarrow> Some (Inl e) | Inr (ts, l3) \<Rightarrow> Some (Inr (t # ts, l3)))))"

declare raw_tokens.simps [code]

definition raw_tokenize :: "lexer \<Rightarrow> (fatal + token list) option" where
  "raw_tokenize l = map_option (map_sum id fst) (raw_tokens l)"

subsection \<open>Every scanner is a move forward\<close>

text \<open>Line and column of an offset: one more than the newlines, and the characters since the last.\<close>

definition line_of :: "string \<Rightarrow> nat \<Rightarrow> nat" where
  "line_of src i = Suc (length (filter (\<lambda>c. c = newline) (take i src)))"

definition col_of :: "string \<Rightarrow> nat \<Rightarrow> nat" where
  "col_of src i = Suc (length (takeWhile (\<lambda>c. c \<noteq> newline) (rev (take i src))))"

definition goto :: "lexer \<Rightarrow> nat \<Rightarrow> lexer" where
  "goto l i = l\<lparr>lx_current := i, lx_line := line_of (lx_source l) i, lx_col := col_of (lx_source l) i\<rparr>"

definition placed :: "lexer \<Rightarrow> bool" where
  "placed l \<longleftrightarrow> l = goto l (lx_current l) \<and> lx_current l \<le> length (lx_source l)"

definition fwd :: "lexer \<Rightarrow> lexer \<Rightarrow> bool" where
  "fwd l l' \<longleftrightarrow> (\<exists>i. l' = goto l i \<and> lx_current l \<le> i \<and> i \<le> length (lx_source l))"

lemma goto_simps [simp]:
  "lx_source (goto l i) = lx_source l" "lx_current (goto l i) = i" "lx_start (goto l i) = lx_start l"
  "goto (goto l i) j = goto l j"
  by (simp_all add: goto_def)

lemma placed_init: "placed (lexer_init src flags)"
  by (simp add: placed_def goto_def lexer_init_def line_of_def col_of_def)

lemma fwd_refl [simp]: "placed l \<Longrightarrow> fwd l l"
  by (auto simp: fwd_def placed_def)

lemma fwd_trans [trans]: "fwd l m \<Longrightarrow> fwd m n \<Longrightarrow> fwd l n"
  by (auto simp: fwd_def)

lemma fwd_placed: "fwd l l' \<Longrightarrow> placed l'"
  by (auto simp: fwd_def placed_def)

lemma fwd_facts:
  assumes "fwd l l'"
  shows "lx_source l' = lx_source l" "lx_current l \<le> lx_current l'"
    "lx_current l' \<le> length (lx_source l)" "lx_start l' = lx_start l"
    "lx_start_line l' = lx_start_line l" "lx_start_col l' = lx_start_col l"
    "lx_interp_depth l' = lx_interp_depth l" "lx_interp_brace l' = lx_interp_brace l"
    "lx_scan_fmt l' = lx_scan_fmt l" "lx_prev l' = lx_prev l" "lx_prev_prev l' = lx_prev_prev l"
  using assms by (auto simp: fwd_def goto_def)

lemma next_line: "i < length src \<Longrightarrow>
    line_of src (Suc i) = (if src ! i = newline then Suc (line_of src i) else line_of src i)"
  by (simp add: line_of_def take_Suc_conv_app_nth)

lemma next_col: "i < length src \<Longrightarrow>
    col_of src (Suc i) = (if src ! i = newline then 1 else Suc (col_of src i))"
  by (simp add: col_of_def take_Suc_conv_app_nth)

lemma advance_goto:
  assumes "placed l" and "lx_current l < length (lx_source l)"
  shows "advance l = goto l (Suc (lx_current l))"
proof -
  have "lx_line l = line_of (lx_source l) (lx_current l)" "lx_col l = col_of (lx_source l) (lx_current l)"
    using assms(1) unfolding placed_def goto_def by (metis lexer.select_convs(4,5) lexer.surjective lexer.update_convs(4,5))+
  then show ?thesis
    using assms(2) by (simp add: advance_def goto_def peek_def at_c_in next_line next_col)
qed

lemma fwd_advance: "placed l \<Longrightarrow> peek l \<noteq> nul \<Longrightarrow> fwd l (advance l)"
  using advance_goto [of l] peek_in [of l] by (auto simp: fwd_def Suc_le_eq)

lemma fwd_advance_while: "placed l \<Longrightarrow> fwd l (advance_while P l)"
proof (induction P l rule: advance_while.induct)
  case (1 P l)
  show ?case
  proof (cases "\<not> at_end l \<and> P (peek l)")
    case True
    then have step: "fwd l (advance l)"
      using fwd_advance 1 by (simp add: at_end_def)
    then show ?thesis
      using 1 True fwd_placed fwd_trans by (simp add: advance_while.simps [of P l])
  qed (use 1 in \<open>auto simp: advance_while.simps [of P l]\<close>)
qed

lemma fwd_advance_n: "placed l \<Longrightarrow> lx_current l + n \<le> length (lx_source l) \<Longrightarrow>
    advance_n n l = goto l (lx_current l + n)"
proof (induction n)
  case (Suc n)
  then have "advance_n (Suc n) l = advance (goto l (lx_current l + n))"
    by (simp add: advance_n_def)
  also have "\<dots> = goto l (lx_current l + Suc n)"
    using Suc.prems by (subst advance_goto) (simp_all add: placed_def)
  finally show ?case .
qed (auto simp: advance_n_def placed_def)

lemma fwd_advance2:
  "placed l \<Longrightarrow> peek l \<noteq> nul \<Longrightarrow> peek_next l \<noteq> nul \<Longrightarrow> fwd l (advance (advance l))"
  by (rule fwd_trans [OF fwd_advance fwd_advance]) (auto simp: peek_next_def peek_def intro: fwd_placed [OF fwd_advance])

lemma fwd_then: "fwd l m \<Longrightarrow> (placed m \<Longrightarrow> fwd m n) \<Longrightarrow> fwd l n"
  using fwd_placed fwd_trans by blast

lemma fwd_block_comment: "placed l \<Longrightarrow> block_comment_loop d l = (d', l') \<Longrightarrow> fwd l l'"
proof (induction d l rule: block_comment_loop.induct)
  case (1 d l)
  note unf = block_comment_loop.simps [of d l]
  have adv2: "fwd l (advance (advance l))" if "peek l \<noteq> nul" "peek_next l \<noteq> nul"
    using fwd_advance2 1(4) that by simp
  consider "\<not> (\<not> at_end l \<and> 0 < d)"
    | "\<not> at_end l \<and> 0 < d" "peek l = CHR ''/'' \<and> peek_next l = CHR ''*''"
    | "\<not> at_end l \<and> 0 < d" "\<not> (peek l = CHR ''/'' \<and> peek_next l = CHR ''*'')" "peek l = CHR ''*'' \<and> peek_next l = CHR ''/''"
    | "\<not> at_end l \<and> 0 < d" "\<not> (peek l = CHR ''/'' \<and> peek_next l = CHR ''*'')" "\<not> (peek l = CHR ''*'' \<and> peek_next l = CHR ''/'')"
    by blast
  then show ?case
  proof cases
    case 1
    then show ?thesis using 1 \<open>placed l\<close> \<open>block_comment_loop d l = (d', l')\<close> unf by auto
  next
    case 2
    show ?thesis
      by (rule fwd_then [OF adv2], use 2 in simp, use 2 in simp, rule 1(1) [OF 2])
        (use 2 \<open>block_comment_loop d l = (d', l')\<close> unf in simp_all)
  next
    case 3
    show ?thesis
      by (rule fwd_then [OF adv2], use 3 in simp, use 3 in simp, rule 1(2) [OF 3])
        (use 3 \<open>block_comment_loop d l = (d', l')\<close> unf in simp_all)
  next
    case 4
    show ?thesis
      by (rule fwd_then [OF fwd_advance [OF \<open>placed l\<close>]], use 4 in \<open>simp add: at_end_def\<close>, rule 1(3) [OF 4])
        (use 4 \<open>block_comment_loop d l = (d', l')\<close> unf in auto)
  qed
qed

lemma fwd_skip_line_comment: "placed l \<Longrightarrow> fwd l (skip_line_comment l)"
  unfolding skip_line_comment_def by (rule fwd_advance_while)

lemma fwd_skip_block_comment: "placed l \<Longrightarrow> skip_block_comment l = Inr l' \<Longrightarrow> fwd l l'"
  by (auto simp: skip_block_comment_def intro: fwd_block_comment split: prod.splits if_splits)

lemma fwd_skip_blanks: "placed l \<Longrightarrow> skip_blanks l = Inr l' \<Longrightarrow> fwd l l'"
proof (induction l rule: skip_blanks.induct)
  case (1 l)
  note res = 1(5) [unfolded skip_blanks.simps [of l]]
  consider "peek l = CHR '' '' \<or> peek l = CHR 0x0D"
    | "peek l = CHR ''/'' \<and> peek_next l = CHR ''/''"
    | m where "peek l = CHR ''/'' \<and> peek_next l = CHR ''*''" "skip_block_comment (advance (advance l)) = Inr m"
    | "l' = l"
    using res by (auto split: if_splits sum.splits)
  then show ?case
  proof cases
    case 1
    then show ?thesis
      using fwd_then [OF fwd_advance [of l]] "1.IH"(1) 1 "1.prems" res by auto
  next
    case 2
    then show ?thesis
      using fwd_then [OF fwd_skip_line_comment [of l]] "1.IH"(2) "1.prems" res by auto
  next
    case 3
    have "fwd l m"
      using fwd_then [OF fwd_advance2 [of l] fwd_skip_block_comment] 3 "1.prems" by auto
    then show ?thesis
      using fwd_then [of l m] "1.IH"(3) [of m] 3 "1.prems" res by auto
  qed (use 1 in simp)
qed

subsection \<open>What a scanner returns\<close>

text \<open>
  A move forward and the token from the start to there, of one of the kinds \<open>K\<close>, or an error
  token.
\<close>

definition made :: "token_kind set \<Rightarrow> lexer \<Rightarrow> token \<times> lexer \<Rightarrow> bool" where
  "made K l r \<longleftrightarrow>
     (fwd l (snd r) \<and> (\<exists>k \<in> K. fst r = make_token (snd r) k)) \<or> (\<exists>m msg. fst r = error_token m msg)"

lemma made_token: "fwd l l' \<Longrightarrow> k \<in> K \<Longrightarrow> made K l (make_token l' k, l')"
  by (auto simp: made_def)

lemma made_error [simp]: "made K l (error_token l' msg, m)"
  by (auto simp: made_def)

lemma made_after: "fwd l m \<Longrightarrow> made K m r \<Longrightarrow> made K l r"
  using fwd_trans by (auto simp: made_def)

lemma made_mono: "made K l r \<Longrightarrow> K \<subseteq> K' \<Longrightarrow> made K' l r"
  by (auto simp: made_def)

lemma peek_class: "isalpha (peek l) \<or> isdigit (peek l) \<or> isalnum (peek l) \<or> isxdigit (peek l) \<Longrightarrow> peek l \<noteq> nul"
  by (metis nul_in_no_class)

lemma fwd_scan_digits_loop: "placed l \<Longrightarrow> fwd l (snd (scan_digits_loop P any l))"
proof (induction P any l rule: scan_digits_loop.induct)
  case (1 P any l)
  then show ?case
    using fwd_then [OF fwd_advance [of l]]
    by (auto simp: scan_digits_loop.simps [of P any l] at_end_def)
qed

lemma fwd_scan_digits: "placed l \<Longrightarrow> scan_digits P l = (any, l') \<Longrightarrow> fwd l l'"
  using fwd_scan_digits_loop by (metis scan_digits_def snd_conv)

lemma sign_not_nul: "is_sign c \<Longrightarrow> c \<noteq> nul"
  by (auto simp: is_sign_def)

lemma fwd_scan_exponent:
  assumes "placed l" and "marker \<noteq> nul" and "scan_exponent marker l = (b, l')"
  shows "fwd l l'"
proof -
  define l2 where "l2 = (if is_sign (peek (advance l)) then advance (advance l) else advance l)"
  have here: "peek l \<noteq> nul" if "tolower (peek l) = marker"
    using that assms(2) by (auto simp: tolower_def)
  have two: "fwd l l2" if "tolower (peek l) = marker"
  proof (rule fwd_then [OF fwd_advance [OF assms(1) here [OF that]]])
    assume "placed (advance l)"
    then show "fwd (advance l) l2"
      using fwd_advance sign_not_nul by (simp add: l2_def)
  qed
  have "fwd l (snd (scan_digits is_dec_digit l2))" if "tolower (peek l) = marker"
    by (rule fwd_then [OF two [OF that]]) (simp add: scan_digits_def fwd_scan_digits_loop)
  then show ?thesis
    using assms by (auto simp: scan_exponent_def l2_def Let_def split: if_splits)
qed

lemma made_finish: "placed l \<Longrightarrow> made {k} l (finish_suffixed lead k f l)"
  by (auto simp: finish_suffixed_def Let_def intro!: made_token fwd_advance_while)

abbreviation "number_kinds \<equiv> {Lit TOK_INT_LIT, Lit TOK_FLOAT_LIT}"

lemma made_finish_int: "placed l \<Longrightarrow> made number_kinds l (finish_int l)"
  unfolding finish_int_def by (rule made_mono [OF made_finish]) auto

lemma made_finish_float: "placed l \<Longrightarrow> made number_kinds l (finish_float l)"
  unfolding finish_float_def by (rule made_mono [OF made_finish]) auto

lemma made_scan_hex:
  assumes "placed l" and "peek l \<noteq> nul" and "scan_hex l = Inr r"
  shows "made number_kinds l r"
proof -
  obtain b2 l2 where l2: "scan_digits is_hex_digit (advance l) = (b2, l2)" by fastforce
  define dot where "dot = (peek l2 = CHR ''.'' \<and> isxdigit (peek_next l2))"
  obtain b3 l3 where l3: "(if dot then scan_digits is_hex_digit (advance l2) else (False, l2)) = (b3, l3)"
    by fastforce
  obtain b4 l4 where l4: "scan_exponent (CHR ''p'') l3 = (b4, l4)" by fastforce
  have f2: "fwd l l2"
    using fwd_then [OF fwd_advance [OF assms(1,2)]] fwd_scan_digits [OF _ l2] by blast
  have f3: "fwd l2 l3" if "placed l2"
    using that l3 fwd_then [OF fwd_advance [OF that]] fwd_scan_digits
    by (auto simp: dot_def split: if_splits)
  have f4: "fwd l l4"
    by (rule fwd_then [OF f2], rule fwd_then [OF f3], assumption) (rule fwd_scan_exponent [OF _ _ l4], simp_all)
  have "r = finish_float l4 \<or> r = finish_int l4 \<or> (\<exists>m. r = (error_token l4 m, l4))"
    using assms(3) l2 l3 l4 dot_def
    by (auto simp: scan_hex_def Let_def split: if_splits prod.splits)
  then show ?thesis
    using made_after [OF f4 made_finish_int] made_after [OF f4 made_finish_float] fwd_placed [OF f4] by auto
qed

lemma made_scan_prefixed:
  assumes "placed l" and "peek l \<noteq> nul"
  shows "made number_kinds l (scan_prefixed P msg l)"
proof -
  obtain b2 l2 where l2: "scan_digits P (advance l) = (b2, l2)" by fastforce
  have f2: "fwd l l2"
    using fwd_then [OF fwd_advance [OF assms]] fwd_scan_digits [OF _ l2] by blast
  then show ?thesis
    using made_after [OF f2 made_finish_int] made_error fwd_placed [OF f2] l2
    by (simp add: scan_prefixed_def Let_def)
qed

lemma made_scan_decimal:
  assumes "placed l"
  shows "made number_kinds l (scan_decimal l)"
proof -
  define l1 where "l1 = snd (scan_digits is_dec_digit l)"
  define frac where "frac = (peek l1 = CHR ''.'' \<and> isdigit (peek_next l1))"
  define l2 where "l2 = (if frac then snd (scan_digits is_dec_digit (advance l1)) else l1)"
  obtain b l3 where l3: "scan_exponent (CHR ''e'') l2 = (b, l3)" by fastforce
  have dig: "fwd m (snd (scan_digits is_dec_digit m))" if "placed m" for m
    using that fwd_scan_digits_loop by (simp add: scan_digits_def)
  have "fwd l1 l2" if "placed l1"
    using that fwd_then [OF fwd_advance [OF that] dig] by (auto simp: l2_def frac_def)
  then have f2: "fwd l l2"
    using fwd_then [OF dig [OF assms]] by (simp add: l1_def)
  then have f3: "fwd l l3"
    by (rule fwd_then) (rule fwd_scan_exponent [OF _ _ l3], simp_all)
  show ?thesis
    using f2 f3 made_after [OF f2] made_after [OF f3] made_finish_int made_finish_float made_error fwd_placed l3
    unfolding scan_decimal_def l1_def [symmetric] frac_def [symmetric] l2_def [symmetric] Let_def
    by auto
qed

lemma made_scan_number:
  assumes "placed l" and "scan_number l = Inr r"
  shows "made number_kinds l r"
proof -
  have here: "peek l \<noteq> nul" if "tolower (peek l) = c" "c \<noteq> nul" for c
    using that by (auto simp: tolower_def)
  have body: "made number_kinds l q" if "scan_number_body l = Inr q" for q
    using that made_scan_hex [OF assms(1)] made_scan_prefixed [OF assms(1)] made_scan_decimal [OF assms(1)]
      here [of "CHR ''x''"] here [of "CHR ''b''"] here [of "CHR ''o''"]
    by (auto simp: scan_number_body_def Let_def split: if_splits)
  show ?thesis
    using assms(2) body by (auto simp: scan_number_def bindE_Inr_iff split: if_splits)
qed

lemma fwd_scan_escape:
  assumes "placed l" and "peek l \<noteq> nul" and "scan_escape l = (e, l')"
  shows "fwd l l'"
proof -
  have x: "peek m \<noteq> nul" if "isxdigit (peek m)" for m
    using that peek_class by blast
  have one: "fwd l (advance l)"
    by (rule fwd_advance [OF assms(1,2)])
  have two: "fwd l (advance (advance l))" if "isxdigit (peek (advance l))"
    by (rule fwd_then [OF one]) (rule fwd_advance, simp_all add: x that)
  have three: "fwd l (advance (advance (advance l)))"
    if "isxdigit (peek (advance l))" "isxdigit (peek (advance (advance l)))"
    by (rule fwd_then [OF two [OF that(1)]]) (rule fwd_advance, simp_all add: x that)
  show ?thesis
    using assms one two three by (auto simp: scan_escape_def Let_def split: if_splits)
qed

lemma made_scan_char_lit:
  assumes "placed l" and "peek l = squote"
  shows "made {Lit TOK_CHAR_LIT} (advance l) (scan_char_lit l)"
proof -
  define l1 where "l1 = advance l"
  define r where "r = (if peek l1 = backslash then scan_escape (advance l1)
             else if at_end l1 \<or> peek l1 = newline then (Some ''unterminated char literal'', l1)
             else (None, advance l1))"
  have f1: "fwd l l1"
    using assms fwd_advance by (simp add: l1_def)
  have "fwd l1 (snd r)" if "placed l1"
  proof (cases "peek l1 = backslash")
    case True
    then have adv: "fwd l1 (advance l1)" using fwd_advance [OF that] by simp
    show ?thesis
    proof (cases "peek (advance l1) = nul")
      case True
      then have "snd (scan_escape (advance l1)) = advance l1"
        by (simp add: scan_escape_def simple_escape_byte_def)
      then show ?thesis using adv \<open>peek l1 = backslash\<close> by (simp add: r_def)
    next
      case False
      show ?thesis
        using True fwd_then [OF adv fwd_scan_escape [OF _ False prod.collapse [symmetric]]] by (simp add: r_def)
    qed
  next
    case False
    then show ?thesis using that fwd_advance by (simp add: r_def at_end_def)
  qed
  then have f2: "fwd l1 (snd r)" using fwd_placed [OF f1] by blast
  show ?thesis
    unfolding scan_char_lit_def l1_def [symmetric] r_def [symmetric] Let_def
    using fwd_then [OF f2 fwd_advance] by (auto intro!: made_token split: option.splits prod.splits)
qed

text \<open>
  A string scanner closes the literal, ends an interpolated one, or enters an expression,
  leaving the format spec for the next call.
\<close>

definition entered :: "lexer \<Rightarrow> nat \<Rightarrow> lexer" where
  "entered m n = (goto m (lx_current m + n + 2))
     \<lparr>lx_fmt_start := lx_current m + 1, lx_fmt_len := n,
      lx_fmt_line := line_of (lx_source m) (lx_current m + 1),
      lx_fmt_col := col_of (lx_source m) (lx_current m + 1),
      lx_interp_depth := lx_interp_depth m + 1,
      lx_interp_brace := (lx_interp_brace m)[lx_interp_depth m := 1], lx_scan_fmt := True\<rparr>"

inductive string_made :: "lexer \<Rightarrow> nat \<Rightarrow> token \<times> lexer \<Rightarrow> bool" for l ts where
  whole: "made {Lit TOK_STRING_LIT, Lit TOK_CSTRING_LIT} l r \<Longrightarrow> string_made l ts r"
| last: "fwd l m \<Longrightarrow> peek m = dquote \<Longrightarrow> string_made l ts (text_token m (Itp TOK_INTERP_END) ts, advance m)"
| enter: "fwd l m \<Longrightarrow> lx_current m + n + 2 \<le> length (lx_source m) \<Longrightarrow> lx_interp_depth m < MAX_INTERP_DEPTH \<Longrightarrow>
    k \<in> {Itp TOK_INTERP_START, Itp TOK_CINTERP_START, Itp TOK_INTERP_MID} \<Longrightarrow>
    string_made l ts (text_token m k ts, entered m n)"

lemma string_made_after: "string_made m ts r \<Longrightarrow> fwd l m \<Longrightarrow> string_made l ts r"
  by (induction rule: string_made.induct) (auto intro: string_made.intros made_after dest: fwd_trans)

lemma string_made_close:
  assumes "placed l"
  shows "string_made l ts (close_string l k ts) \<or> \<not> (peek l = dquote \<or> peek l = newline \<or> at_end l)"
proof (cases "peek l = dquote")
  case True
  then have "fwd l (advance l)" "\<not> at_end l" "peek l \<noteq> newline"
    using fwd_advance assms by (simp_all add: at_end_def)
  then show ?thesis
    using True assms by (auto simp: close_string_def Let_def intro: string_made.intros made_token)
qed (auto simp: close_string_def intro: string_made.whole)

lemma string_made_enter:
  assumes "placed l" and "peek l = CHR ''%''" and "0 < check_interp_spec l (lx_current l + 1)"
    and "k \<in> {Itp TOK_INTERP_START, Itp TOK_CINTERP_START, Itp TOK_INTERP_MID}"
  shows "string_made l ts (enter_interp l k ts (check_interp_spec l (lx_current l + 1)))"
proof -
  define n where "n = check_interp_spec l (lx_current l + 1)"
  define i where "i = lx_current l"
  have "at_c (lx_source l) (i + 1 + n) = CHR ''{''"
    using assms(3) by (auto simp: n_def i_def check_interp_spec_def Let_def split: if_splits)
  then have inside: "i + 1 + n < length (lx_source l)"
    using at_c_not_nul [of "lx_source l" "i + 1 + n"] by simp
  have l1: "advance l = goto l (i + 1)"
    using advance_goto [OF assms(1)] inside by (simp add: i_def)
  define l2 where "l2 = (goto l (i + 1))\<lparr>lx_fmt_start := i + 1, lx_fmt_len := n,
      lx_fmt_line := line_of (lx_source l) (i + 1), lx_fmt_col := col_of (lx_source l) (i + 1)\<rparr>"
  have p2: "placed l2" and c2: "lx_current l2 = i + 1" "lx_source l2 = lx_source l"
    using inside by (simp_all add: l2_def placed_def goto_def)
  have "advance_n n l2 = goto l2 (i + 1 + n)"
    using fwd_advance_n [OF p2] c2 inside by simp
  then have "advance (advance_n n l2) = goto l2 (i + n + 2)"
    using inside c2 by (subst advance_goto) (simp_all add: placed_def)
  then have l3: "advance (advance_n n l2) = goto l2 (i + n + 2)" .
  have fields: "lx_fmt_start l2 = i + 1" "lx_interp_depth l2 = lx_interp_depth l"
    by (simp_all add: l2_def goto_def)
  have enter: "enter_interp l k ts n =
      (if lx_interp_depth l \<ge> MAX_INTERP_DEPTH
       then (error_token (goto l2 (i + n + 2)) ''string interpolation nested too deeply'', goto l2 (i + n + 2))
       else (text_token l k ts, entered l n))"
    using l3 by (simp add: enter_interp_def l1 Let_def l2_def goto_def entered_def i_def)
  then show ?thesis
    unfolding n_def [symmetric] using assms(1,4) inside
    by (auto simp: i_def intro: string_made.intros)
qed

abbreviation "interp_text_kinds \<equiv> {Itp TOK_INTERP_START, Itp TOK_CINTERP_START, Itp TOK_INTERP_MID}"

lemma string_made_loop:
  "placed l \<Longrightarrow> k \<in> interp_text_kinds \<Longrightarrow> string_made l ts (string_loop k ts l)"
proof (induction k ts l rule: string_loop.induct)
  case (1 k ts l)
  note unf = string_loop.simps [of k ts l]
  show ?case
  proof (cases "\<not> at_end l \<and> peek l \<noteq> dquote \<and> peek l \<noteq> newline")
    case outer: False
    then show ?thesis using string_made_close [OF 1(4), of ts k] unf by auto
  next
    case outer: True
    then have adv: "fwd l (advance l)" using fwd_advance [OF 1(4)] by (simp add: at_end_def)
    note rest = string_made_after [OF _ fwd_trans]
    show ?thesis
    proof (cases "peek l = backslash")
      case esc: True
      obtain e l2 where e: "scan_escape (advance l) = (e, l2)" by fastforce
      show ?thesis
      proof (cases "at_end (advance l)")
        case True
        then show ?thesis
          using outer esc unf by (simp add: close_string_def Let_def string_made.whole)
      next
        case False
        then have f2: "fwd l l2"
          using fwd_then [OF adv fwd_scan_escape [OF _ _ e]] by (simp add: at_end_def)
        show ?thesis
        proof (cases e)
          case None
          have "string_made l2 ts (string_loop k ts l2)"
            using 1(1) [OF outer esc refl False e [symmetric] None] fwd_placed [OF f2] "1.prems"(2) by blast
          then show ?thesis
            using string_made_after [OF _ f2] outer esc False e None unf by simp
        next
          case (Some msg)
          then show ?thesis
            using outer esc False e unf by (simp add: string_made.whole)
        qed
      qed
    next
      case esc: False
      consider "peek l = CHR ''%'' \<and> at_c (lx_source l) (lx_current l + 1) = CHR ''%''"
        | "\<not> (peek l = CHR ''%'' \<and> at_c (lx_source l) (lx_current l + 1) = CHR ''%'')"
          "peek l = CHR ''%'' \<and> 0 < check_interp_spec l (lx_current l + 1)"
        | "\<not> (peek l = CHR ''%'' \<and> at_c (lx_source l) (lx_current l + 1) = CHR ''%'')"
          "\<not> (peek l = CHR ''%'' \<and> 0 < check_interp_spec l (lx_current l + 1))"
        by blast
      then show ?thesis
      proof cases
        case 1
        then have "fwd l (advance (advance l))"
          using fwd_advance2 [OF \<open>placed l\<close>] by (simp add: peek_next_def)
        then show ?thesis
          using string_made_after [OF "1.IH"(2) [OF outer esc 1]] fwd_placed "1.prems" 1 outer esc unf by simp
      next
        case 2
        then show ?thesis
          using string_made_enter [OF \<open>placed l\<close>] "1.prems" outer esc unf by auto
      next
        case 3
        then show ?thesis
          using string_made_after [OF "1.IH"(3) [OF outer esc 3] adv] fwd_placed [OF adv] "1.prems" outer esc unf
          by auto
      qed
    qed
  qed
qed

lemma string_made_body:
  "placed l \<Longrightarrow> k \<in> interp_text_kinds \<Longrightarrow> string_made l (lx_current l) (scan_string_body l k)"
  unfolding scan_string_body_def by (rule string_made_loop)

text \<open>The restored positions: a run without newlines leaves the line as it was.\<close>

lemma advance_while_same_line:
  "\<not> P newline \<Longrightarrow> \<exists>i c. advance_while P l = l\<lparr>lx_current := i, lx_col := c\<rparr>"
proof (induction P l rule: advance_while.induct)
  case (1 P l)
  show ?case
  proof (cases "\<not> at_end l \<and> P (peek l)")
    case True
    then have "peek l \<noteq> newline" using 1(2) by metis
    then have "advance l = l\<lparr>lx_current := lx_current l + 1, lx_col := lx_col l + 1\<rparr>"
      by (simp add: advance_def)
    moreover obtain i c where "advance_while P (advance l) = (advance l)\<lparr>lx_current := i, lx_col := c\<rparr>"
      using 1 True by blast
    ultimately show ?thesis using True by (auto simp: advance_while.simps [of P l])
  next
    case False
    then have "advance_while P l = l\<lparr>lx_current := lx_current l, lx_col := lx_col l\<rparr>"
      by (auto simp: advance_while.simps [of P l])
    then show ?thesis by blast
  qed
qed

abbreviation "hash_kinds \<equiv> {Pp TOK_HASH_IF, Pp TOK_HASH_ELSE, Pp TOK_HASH_ELSE_IF, Pp TOK_HASH_END}"

lemma made_scan_directive:
  assumes "placed l"
  shows "made hash_kinds l (scan_directive l)"
proof -
  define l1 where "l1 = advance_while (\<lambda>c. c = CHR '' '') l"
  define l2 where "l2 = advance_while isalpha l1"
  define l3 where "l3 = advance_while (\<lambda>c. c = CHR '' '') l2"
  have f2: "fwd l l2"
    using fwd_then [OF fwd_advance_while fwd_advance_while] assms by (simp add: l1_def l2_def)
  then have f3: "fwd l l3"
    using fwd_then [OF f2 fwd_advance_while] by (simp add: l3_def)
  have f4: "fwd l (advance (advance l3))"
    if "at_c (lx_source l3) (lx_current l3) = CHR ''i''" "at_c (lx_source l3) (lx_current l3 + 1) = CHR ''f''"
    using fwd_then [OF f3 fwd_advance2] that by (simp add: peek_def peek_next_def)
  have "l3\<lparr>lx_current := lx_current l2, lx_col := lx_col l2\<rparr> = l2"
    using advance_while_same_line [of "\<lambda>c. c = CHR '' ''" l2] by (auto simp: l3_def)
  then show ?thesis
    unfolding scan_directive_def l1_def [symmetric] l2_def [symmetric] l3_def [symmetric] Let_def
    using f2 f4 by (auto intro: made_token)
qed

definition plain_kinds :: "token_kind set" where
  "plain_kinds = {k. k \<noteq> Idt TOK_IDENT \<and> k \<noteq> Sp TOK_EOF \<and> k \<noteq> Sp TOK_ERROR \<and> k \<notin> range Itp \<and>
     k \<noteq> Lay TOK_INDENT \<and> k \<noteq> Lay TOK_DEDENT}"

lemma plain_in: "Op a \<in> plain_kinds" "Dl b \<in> plain_kinds" "Lay TOK_NEWLINE \<in> plain_kinds" "Lit d \<in> plain_kinds"
    "Idt TOK_TYPE_VAR \<in> plain_kinds" "Kw e \<in> plain_kinds" "Bi f \<in> plain_kinds" "Pp g \<in> plain_kinds"
  by (auto simp: plain_kinds_def)

lemma single_char_kind: "single_char_token c = Some k \<Longrightarrow> k \<in> plain_kinds"
  unfolding single_char_token_def by (drule map_of_SomeD) (auto simp: plain_kinds_def)

lemma made_tok_or: "placed l \<Longrightarrow> k \<in> K \<Longrightarrow> made K l (tok_or k l)"
  by (simp add: tok_or_def made_token)

lemma fwd_match: "placed l \<Longrightarrow> match_char c l = (b, l') \<Longrightarrow> fwd l l'"
  by (auto simp: match_char_def at_end_def fwd_advance split: if_splits)

lemma made_if_match:
  assumes "placed l" and "k \<in> K" and "\<And>m. placed m \<Longrightarrow> made K m (no m)"
  shows "made K l (if_match c k no l)"
proof -
  obtain b l1 where m: "match_char c l = (b, l1)" by fastforce
  note f = fwd_match [OF assms(1) m]
  show ?thesis
    using made_after [OF f assms(3) [OF fwd_placed [OF f]]] made_token [OF f assms(2)] m
    by (simp add: if_match_def)
qed

lemma made_scan_operator:
  assumes "placed l"
  shows "made plain_kinds l (scan_operator c l)"
proof -
  have dots: "made plain_kinds l (let (m, l1) = match_char (CHR ''.'') l
             in if m then if_match (CHR ''.'') (Op TOK_ELLIPSIS) (tok_or (Op TOK_DOTDOT)) l1
                else tok_or (Op TOK_DOT) l1)"
  proof -
    obtain b l1 where m: "match_char (CHR ''.'') l = (b, l1)" by fastforce
    note f = fwd_match [OF assms m]
    show ?thesis
      using m fwd_placed [OF f]
      by (auto simp: plain_kinds_def intro!: made_after [OF f] made_if_match made_tok_or)
  qed
  have dir: "made plain_kinds l (scan_directive l)"
    by (rule made_mono [OF made_scan_directive [OF assms]]) (auto simp: plain_kinds_def)
  have cond: "made K l (if b then x else y)" if "made K l x" "made K l y" for b K x y
    using that by simp
  show ?thesis
  proof (cases "single_char_token c")
    case None
    then show ?thesis
      unfolding scan_operator_def
      by (simp only: option.case) (intro cond made_if_match made_tok_or dots dir made_error assms plain_in; assumption?)
  next
    case (Some k)
    then show ?thesis
      using made_tok_or [OF assms single_char_kind] by (simp add: scan_operator_def)
  qed
qed

definition ident_text :: "string \<Rightarrow> bool" where
  "ident_text s \<longleftrightarrow> s \<noteq> [] \<and> \<not> isdigit (hd s) \<and> (\<forall>c \<in> set s. is_word_char c) \<and> s \<notin> fst ` set KEYWORDS"

inductive scanned :: "lexer \<Rightarrow> token \<times> lexer \<Rightarrow> bool" for l where
  other: "made plain_kinds (advance l) r \<Longrightarrow> scanned l r"
| ident: "fwd (advance l) m \<Longrightarrow> ident_text (start_text m) \<Longrightarrow> extern_c_name_pos l \<or> \<not> has_dunder (start_text m) \<Longrightarrow>
    scanned l (make_token m (Idt TOK_IDENT), m)"
| str: "fwd (advance l) m \<Longrightarrow> string_made m (lx_current m) r \<Longrightarrow> scanned l r"

lemma advance_while_chars:
  assumes "lx_current l \<le> i" and "i < lx_current (advance_while P l)"
  shows "P (at_c (lx_source l) i)"
  using assms
proof (induction P l rule: advance_while.induct)
  case (1 P l)
  then have P: "\<not> at_end l \<and> P (peek l)"
    by (metis advance_while.simps not_le)
  show ?case
  proof (cases "i = lx_current l")
    case True
    then show ?thesis using P by (simp add: peek_def)
  next
    case False
    then show ?thesis
      using 1 P by (simp add: advance_while.simps [of P l])
  qed
qed

lemma check_keyword_map: "check_keyword s = (case map_of KEYWORDS s of Some k \<Rightarrow> k | None \<Rightarrow> Idt TOK_IDENT)"
proof -
  have "find (\<lambda>(kw, k). kw = s) xs = map_option (Pair s) (map_of xs s)" for xs :: "(string \<times> token_kind) list"
    by (induction xs) auto
  then show ?thesis by (simp add: check_keyword_def split: option.split)
qed

lemma keyword_kinds: "map_of KEYWORDS s = Some k \<Longrightarrow> k \<in> plain_kinds"
  by (drule map_of_SomeD) (auto simp: KEYWORDS_def plain_in)

lemma check_keyword_ident: "check_keyword s = Idt TOK_IDENT \<Longrightarrow> s \<notin> fst ` set KEYWORDS"
  using keyword_kinds [of s] by (auto simp: check_keyword_map map_of_eq_None_iff plain_kinds_def split: option.splits)

lemma check_keyword_plain: "check_keyword s \<noteq> Idt TOK_IDENT \<Longrightarrow> check_keyword s \<in> plain_kinds"
  using keyword_kinds [of s] by (auto simp: check_keyword_map split: option.splits)

lemma sub_c_map: "i + n \<le> length s \<Longrightarrow> sub_c s i n = map (at_c s) [i ..< i + n]"
  by (rule nth_equalityI) (simp_all add: sub_c_def at_c_def)

lemma scanned_identifier:
  assumes "placed l" and "lx_start l = lx_current l" and "isalpha (peek l) \<or> peek l = CHR ''_''"
    and "scan_identifier (advance l) = Inr r"
  shows "scanned l r"
proof -
  define m where "m = advance_while is_word_char (advance l)"
  have f1: "fwd l (advance l)"
    using assms(1,3) peek_class fwd_advance by fastforce
  have f2: "fwd (advance l) m"
    unfolding m_def using fwd_placed [OF f1] by (rule fwd_advance_while)
  note facts = fwd_facts [OF f1] fwd_facts [OF f2]
  have inside: "lx_current l < lx_current m" "lx_current m \<le> length (lx_source l)"
    using facts by simp_all
  have first: "\<not> isdigit (peek l)" "is_word_char (peek l)"
    using assms(3) by (auto simp: char_class_defs is_word_char_def)
  have chars: "start_text m = map (at_c (lx_source l)) [lx_current l ..< lx_current m]"
    using inside facts assms(2) by (simp add: start_text_def sub_c_map)
  have words: "is_word_char (at_c (lx_source l) i)" if "lx_current l \<le> i" "i < lx_current m" for i
  proof (cases "i = lx_current l")
    case True
    then show ?thesis using first by (simp add: peek_def)
  next
    case False
    then show ?thesis using advance_while_chars [of "advance l" i is_word_char] that by (simp add: m_def)
  qed
  have ident: "ident_text (start_text m)" if "check_keyword (start_text m) = Idt TOK_IDENT"
    using words first inside(1) check_keyword_ident [OF that]
    by (auto simp: ident_text_def chars hd_map peek_def)
  have ext: "extern_c_name_pos m = extern_c_name_pos l"
    using facts by (simp add: extern_c_name_pos_def)
  have r: "r = (make_token m (check_keyword (start_text m)), m)"
    "check_keyword (start_text m) = Idt TOK_IDENT \<Longrightarrow> extern_c_name_pos l \<or> \<not> has_dunder (start_text m)"
    using assms(4) ext by (auto simp: scan_identifier_def m_def [symmetric] Let_def split: if_splits)
  show ?thesis
  proof (cases "check_keyword (start_text m) = Idt TOK_IDENT")
    case True
    then show ?thesis using scanned.ident [OF f2 ident] r by simp
  next
    case False
    then show ?thesis
      using scanned.other [OF made_token [OF f2 check_keyword_plain]] r by simp
  qed
qed

lemma start_here_eq:
  "start_here l = l \<longleftrightarrow> lx_start l = lx_current l \<and> lx_start_col l = lx_col l \<and> lx_start_line l = lx_line l"
  by (cases l) (auto simp: start_here_def)

lemma scanned_quote:
  assumes "placed l" and "start_here l = l" and "peek l = squote" and "scan_quote (advance l) = Inr r"
  shows "scanned l r"
proof -
  have f1: "fwd l (advance l)" and p1: "placed (advance l)"
    using fwd_advance [of l] fwd_placed assms(1,3) by auto
  have at: "lx_start l = lx_current l" "lx_start_col l = lx_col l" "lx_start_line l = lx_line l"
    using assms(2) by (simp_all add: start_here_eq)
  have reset: "(advance l)\<lparr>lx_current := lx_start (advance l), lx_col := lx_start_col (advance l)\<rparr> = l"
    using at assms(3) by (simp add: advance_def)
  have lit: "scanned l (scan_char_lit l)"
    using made_scan_char_lit [OF assms(1,3)] by (rule scanned.other [OF made_mono]) (simp add: plain_in)
  define l2 where "l2 = advance (advance l)"
  show ?thesis
  proof (cases "isalpha (peek (advance l))")
    case True
    then have "peek (advance l) \<noteq> newline" by auto
    then have two: "l2\<lparr>lx_current := lx_start l2, lx_col := lx_start_col l2\<rparr> = l"
      "l2\<lparr>lx_current := lx_current (advance l), lx_col := lx_col (advance l)\<rparr> = advance l"
      using reset at assms(3) by (simp_all add: l2_def advance_def)
    have "fwd (advance l) (advance_while is_word_char (advance l))"
      by (rule fwd_advance_while [OF p1])
    then show ?thesis
      using True lit assms(4) two unfolding l2_def
      by (auto simp: scan_quote_def Let_def reset intro!: scanned.other made_token plain_in split: if_splits)
  next
    case False
    then show ?thesis
      using lit assms(4) by (auto simp: scan_quote_def Let_def reset split: if_splits)
  qed
qed

lemma scanned_plain:
  assumes "placed l" and "start_here l = l" and "peek l \<noteq> nul" and "scan_plain l = Inr r"
  shows "scanned l r"
proof -
  have f1: "fwd l (advance l)" and p1: "placed (advance l)"
    using fwd_advance [of l] fwd_placed assms(1,3) by auto
  have at: "lx_start l = lx_current l" "lx_start_col l = lx_col l"
    using assms(2) by (simp_all add: start_here_eq)
  have cstr: "scanned l (scan_cstring (advance l))" if "peek (advance l) = dquote"
  proof -
    have f2: "fwd (advance l) (advance (advance l))"
      using that p1 by (intro fwd_advance) simp_all
    then show ?thesis
      using scanned.str [OF f2 string_made_body] fwd_placed [OF f2] by (simp add: scan_cstring_def)
  qed
  have reset: "(advance l)\<lparr>lx_current := lx_start (advance l), lx_col := lx_start_col (advance l)\<rparr> = l"
    if "peek l \<noteq> newline"
    using at that by (simp add: advance_def)
  have str: "scanned l (scan_string l)"
    using scanned.str [of l "advance l", OF _ string_made_body] p1 by (simp add: scan_string_def)
  have num: "scanned l q" if "scan_number (advance l) = Inr q" for q
    by (rule scanned.other [OF made_mono [OF made_scan_number [OF p1 that]]]) (simp add: plain_in)
  show ?thesis
    using assms(4) scanned_identifier [OF assms(1) at(1)] num scanned_quote [OF assms(1,2)] str cstr reset
      made_scan_operator [OF p1] p1
    by (auto simp: scan_plain_def Let_def intro!: scanned.other made_token plain_in split: if_splits)
qed

subsection \<open>The invariant of the scan\<close>

definition lexer_ok :: "lexer \<Rightarrow> bool" where
  "lexer_ok l \<longleftrightarrow> placed l \<and> length (lx_interp_brace l) = MAX_INTERP_DEPTH \<and>
     lx_interp_depth l \<le> MAX_INTERP_DEPTH \<and>
     (lx_scan_fmt l \<longrightarrow> lx_fmt_start l + lx_fmt_len l \<le> lx_current l \<and>
        lx_fmt_line l = line_of (lx_source l) (lx_fmt_start l) \<and>
        lx_fmt_col l = col_of (lx_source l) (lx_fmt_start l))"

text \<open>Where the next token may start, and a measure that every token decreases.\<close>

definition front :: "lexer \<Rightarrow> nat" where
  "front l = (if lx_scan_fmt l then lx_fmt_start l else lx_current l)"

definition togo :: "lexer \<Rightarrow> nat" where
  "togo l = 2 * (length (lx_source l) - lx_current l) + (if lx_scan_fmt l then 1 else 0)"

definition token_fits :: "token \<Rightarrow> nat \<Rightarrow> nat \<Rightarrow> bool" where
  "token_fits t a b \<longleftrightarrow> (\<exists>i. t_start t = Src i \<and> a \<le> i \<and> i + t_length t \<le> b)"

text \<open>
  A token is located at its first byte. The text of an interpolated string is located at the
  quote or brace before it.
\<close>

definition token_located :: "string \<Rightarrow> token \<Rightarrow> bool" where
  "token_located src t \<longleftrightarrow> (\<exists>i. t_start t = Src i \<and>
     (t_kind t \<in> interp_text_kinds \<union> {Itp TOK_INTERP_END} \<or>
      t_line t = line_of src i \<and> t_col t = col_of src i))"

definition token_from :: "lexer \<Rightarrow> token \<Rightarrow> lexer \<Rightarrow> bool" where
  "token_from l t l' \<longleftrightarrow> lexer_ok l' \<and> lx_source l' = lx_source l \<and> lx_prev l' = lx_prev l \<and>
     lx_prev_prev l' = lx_prev_prev l \<and> lx_start l < lx_current l' \<and>
     token_fits t (lx_start l) (front l') \<and> token_located (lx_source l) t"

text \<open>A lexer that has begun a token: its start is where the token begins.\<close>

definition begun :: "lexer \<Rightarrow> bool" where
  "begun l \<longleftrightarrow> lexer_ok l \<and> \<not> lx_scan_fmt l \<and> lx_start l \<le> lx_current l \<and>
     lx_start_line l = line_of (lx_source l) (lx_start l) \<and> lx_start_col l = col_of (lx_source l) (lx_start l)"

lemma lexer_ok_fwd:
  assumes "lexer_ok l" and "\<not> lx_scan_fmt l" and "fwd l l'"
  shows "lexer_ok l' \<and> \<not> lx_scan_fmt l'"
  using assms fwd_placed [OF assms(3)] fwd_facts [OF assms(3)] by (simp add: lexer_ok_def)

lemma begun_fwd:
  assumes "begun l" and "fwd l l'"
  shows "begun l'"
  using assms lexer_ok_fwd [OF _ _ assms(2)] fwd_facts [OF assms(2)] by (simp add: begun_def)

lemma token_from_make:
  assumes "begun l" and "fwd l l'" and "lx_start l < lx_current l'"
  shows "token_from l (make_token l' k) l'"
  using assms lexer_ok_fwd [OF _ _ assms(2)] fwd_facts [OF assms(2)]
  by (auto simp: token_from_def begun_def token_fits_def token_located_def make_token_def front_def)

lemma token_from_string:
  assumes "begun l" and "lx_start l < lx_current l" and "string_made l (lx_current l) (t, l')"
    and "t_kind t \<noteq> Sp TOK_ERROR"
  shows "token_from l t l' \<and> t_kind t \<in> plain_kinds \<union> range Itp"
  using assms(3)
proof cases
  case whole
  then obtain k where "fwd l l'" "t = make_token l' k" "k \<in> plain_kinds"
    using assms(4) by (auto simp: made_def error_token_def plain_in)
  then show ?thesis
    using token_from_make [OF assms(1)] assms(2) fwd_facts by (fastforce simp: make_token_def)
next
  case (last m)
  have adv: "fwd m (advance m)"
    using last fwd_placed by (intro fwd_advance) auto
  note facts = fwd_facts [OF last(3)] fwd_facts [OF adv]
  have ok: "lexer_ok (advance m)" "\<not> lx_scan_fmt (advance m)"
    using begun_fwd [OF begun_fwd [OF assms(1) last(3)] adv] by (auto simp: begun_def)
  show ?thesis
    using assms(1,2) last facts ok
    by (auto simp: token_from_def token_fits_def token_located_def text_token_def front_def)
next
  case (enter m n k)
  note facts = fwd_facts [OF enter(3)]
  have m: "begun m" by (rule begun_fwd [OF assms(1) enter(3)])
  have "placed (entered m n)"
    using enter(4) m by (simp add: placed_def entered_def goto_def)
  moreover have "length (lx_interp_brace (entered m n)) = MAX_INTERP_DEPTH"
    "lx_interp_depth (entered m n) = lx_interp_depth m + 1"
    "lx_fmt_start (entered m n) = lx_current m + 1" "lx_fmt_len (entered m n) = n"
    "lx_fmt_line (entered m n) = line_of (lx_source m) (lx_current m + 1)"
    "lx_fmt_col (entered m n) = col_of (lx_source m) (lx_current m + 1)"
    "lx_source (entered m n) = lx_source m" "lx_current (entered m n) = lx_current m + n + 2"
    "lx_scan_fmt (entered m n)" "lx_prev (entered m n) = lx_prev m" "lx_prev_prev (entered m n) = lx_prev_prev m"
    using m by (simp_all add: entered_def goto_def begun_def lexer_ok_def)
  ultimately show ?thesis
    using enter m facts assms(2)
    by (auto simp: token_from_def lexer_ok_def token_fits_def token_located_def text_token_def front_def)
qed

text \<open>What one call of \<open>scan_token\<close> gives; identifiers keep the compiler's reserved \<open>__\<close> out.\<close>

definition ident_legal :: "lexer \<Rightarrow> token \<Rightarrow> bool" where
  "ident_legal l t \<longleftrightarrow> t_kind t = Idt TOK_IDENT \<longrightarrow>
     ident_text (tok_text (lx_source l) t) \<and> (extern_c_name_pos l \<or> \<not> has_dunder (tok_text (lx_source l) t))"

definition step_ok :: "lexer \<Rightarrow> token \<Rightarrow> lexer \<Rightarrow> bool" where
  "step_ok l t l' \<longleftrightarrow> lexer_ok l' \<and> lx_source l' = lx_source l \<and> lx_prev l' = lx_prev l \<and>
     lx_prev_prev l' = lx_prev_prev l \<and> token_fits t (front l) (front l') \<and>
     token_located (lx_source l) t \<and> ident_legal l t \<and> t_kind t \<notin> {Lay TOK_INDENT, Lay TOK_DEDENT} \<and>
     (t_kind t = Sp TOK_EOF \<or> togo l' < togo l)"

lemma token_from_step:
  assumes "token_from l t l'" and "\<not> lx_scan_fmt l" and "lx_start l = lx_current l" and "ident_legal l t"
    and "t_kind t \<notin> {Lay TOK_INDENT, Lay TOK_DEDENT}"
  shows "step_ok l t l'"
proof -
  have "lx_current l' \<le> length (lx_source l)" "lx_current l < lx_current l'" "lx_source l' = lx_source l"
    using assms by (auto simp: token_from_def lexer_ok_def placed_def)
  then have "togo l' < togo l" using assms(2) by (simp add: togo_def) arith
  then show ?thesis
    using assms by (simp add: step_ok_def token_from_def front_def)
qed

lemma scanned_step:
  assumes "begun l" and "start_here l = l" and "peek l \<noteq> nul" and "scanned l (t, l')"
    and "t_kind t \<noteq> Sp TOK_ERROR"
  shows "step_ok l t l'"
proof -
  have at: "lx_start l = lx_current l" using assms(2) by (simp add: start_here_eq)
  have f1: "fwd l (advance l)"
    using assms(1,3) fwd_advance by (simp add: begun_def lexer_ok_def)
  have b1: "begun (advance l)" by (rule begun_fwd [OF assms(1) f1])
  have quiet: "\<not> lx_scan_fmt l" using assms(1) by (simp add: begun_def)
  have far: "lx_start l < lx_current m" if "fwd (advance l) m" for m
    using fwd_facts [OF that] at by simp
  have lift: "token_from l t l'" if "token_from (advance l) t l'"
    using that fwd_facts [OF f1] by (simp add: token_from_def)
  show ?thesis
    using assms(4)
  proof cases
    case other
    then obtain k where k: "fwd (advance l) l'" "t = make_token l' k" "k \<in> plain_kinds"
      using assms(5) by (auto simp: made_def error_token_def)
    have "token_from l t l'"
      using token_from_make [OF assms(1) fwd_trans [OF f1 k(1)] far [OF k(1)]] k by simp
    moreover have "ident_legal l t" "t_kind t \<notin> {Lay TOK_INDENT, Lay TOK_DEDENT}"
      using k by (simp_all add: ident_legal_def make_token_def plain_kinds_def)
    ultimately show ?thesis using token_from_step quiet at by blast
  next
    case ident
    have "token_from l t l'"
      using token_from_make [OF assms(1) fwd_trans [OF f1 ident(2)] far [OF ident(2)]] ident by simp
    moreover have "ident_legal l t" "t_kind t \<notin> {Lay TOK_INDENT, Lay TOK_DEDENT}"
      using ident fwd_facts [OF f1] fwd_facts [OF ident(2)]
      by (simp_all add: ident_legal_def make_token_def start_text_def)
    ultimately show ?thesis using token_from_step quiet at by blast
  next
    case (str m)
    have bm: "begun m" by (rule begun_fwd [OF b1 str(1)])
    have "lx_start m < lx_current m"
      using far [OF str(1)] fwd_facts [OF f1] fwd_facts [OF str(1)] by simp
    from token_from_string [OF bm this str(2) assms(5)]
    have "token_from l t l'" "t_kind t \<in> plain_kinds \<union> range Itp"
      using fwd_facts [OF f1] fwd_facts [OF str(1)] by (auto simp: token_from_def)
    then show ?thesis
      using token_from_step [OF _ quiet at] by (auto simp: ident_legal_def plain_kinds_def)
  qed
qed

lemma step_ok_cong:
  assumes "step_ok m t l'" and "lx_source m = lx_source l" and "lx_prev m = lx_prev l"
    and "lx_prev_prev m = lx_prev_prev l" and "front m = front l" and "togo m = togo l"
  shows "step_ok l t l'"
  using assms by (simp add: step_ok_def ident_legal_def extern_c_name_pos_def)

lemma scan_token_step:
  assumes "lexer_ok l" and "scan_token l = Inr (t, l')" and "t_kind t \<noteq> Sp TOK_ERROR"
  shows "step_ok l t l'"
proof (cases "lx_scan_fmt l")
  case True
  then have t: "t = \<lparr>t_kind = Itp TOK_FMT_SPEC, t_start = Src (lx_fmt_start l), t_length = lx_fmt_len l,
      t_line = lx_fmt_line l, t_col = lx_fmt_col l\<rparr>" "l' = l\<lparr>lx_scan_fmt := False\<rparr>"
    using assms(2) by (simp_all add: scan_token_def)
  have "placed l'" using assms(1) t(2) by (cases l) (simp add: lexer_ok_def placed_def goto_def)
  then show ?thesis
    using assms(1) True unfolding t
    by (simp add: step_ok_def lexer_ok_def token_fits_def token_located_def ident_legal_def front_def togo_def)
next
  case False
  define l1 where "l1 = start_here l"
  have l1: "lx_source l1 = lx_source l" "lx_prev l1 = lx_prev l" "lx_prev_prev l1 = lx_prev_prev l"
    "front l1 = front l" "togo l1 = togo l" "lx_current l1 = lx_current l" "start_here l1 = l1"
    by (simp_all add: l1_def start_here_def front_def togo_def)
  have "placed l1"
    using assms(1) by (cases l) (simp add: l1_def lexer_ok_def placed_def goto_def start_here_def)
  moreover have "lx_line l = line_of (lx_source l) (lx_current l)" "lx_col l = col_of (lx_source l) (lx_current l)"
    using assms(1) by (cases l; simp add: lexer_ok_def placed_def goto_def)+
  ultimately have b1: "begun l1"
    using assms(1) False by (simp add: begun_def lexer_ok_def l1_def start_here_def)
  obtain closed l2 where track: "track_brace l1 = (closed, l2)" by fastforce
  then obtain b where l2: "l2 = l1\<lparr>lx_interp_brace := b\<rparr>" "length b = length (lx_interp_brace l1)"
    and closing: "closed \<Longrightarrow> 0 < lx_interp_depth l1 \<and> peek l1 = CHR ''}''"
    by (cases l1) (fastforce simp: track_brace_def Let_def split: if_splits)
  have b2: "begun l2" "start_here l2 = l2" "peek l2 = peek l1"
    using b1 l1(7) l2 by (cases l1; simp add: begun_def lexer_ok_def placed_def goto_def start_here_def peek_def)+
  have "front l2 = front l1" "togo l2 = togo l1"
    by (simp_all add: l2(1) front_def togo_def)
  then have same: "lx_source l2 = lx_source l" "lx_prev l2 = lx_prev l" "lx_prev_prev l2 = lx_prev_prev l"
    "front l2 = front l" "togo l2 = togo l"
    using l1 l2(1) by simp_all
  show ?thesis
  proof (cases "at_end l1")
    case True
    then have t: "t = make_token l1 (Sp TOK_EOF)" "l' = l1"
      using assms(2) False by (auto simp: scan_token_def l1_def [symmetric])
    have "lx_start l1 = lx_current l1" using l1(7) by (simp add: start_here_eq)
    then show ?thesis
      using b1 l1 False unfolding t
      by (simp add: step_ok_def begun_def token_fits_def token_located_def ident_legal_def front_def make_token_def)
  next
    case going: False
    then have here: "peek l1 \<noteq> nul" by (simp add: at_end_def)
    show ?thesis
    proof (cases closed)
      case True
      define m where "m = (advance l2)\<lparr>lx_interp_depth := lx_interp_depth (advance l2) - 1\<rparr>"
      have f2: "fwd l2 (advance l2)"
        using b2 here fwd_advance by (simp add: begun_def lexer_ok_def)
      note facts = fwd_facts [OF f2]
      have "begun (advance l2)" by (rule begun_fwd [OF b2(1) f2])
      then have bm: "begun m"
        by (cases "advance l2") (auto simp: m_def begun_def lexer_ok_def placed_def goto_def)
      have at: "lx_start l2 = lx_current l2" using b2(2) by (simp add: start_here_eq)
      have far: "lx_start m < lx_current m" using at facts by (simp add: m_def)
      have "(t, l') = scan_string_body m (Itp TOK_INTERP_MID)"
        using assms(2) \<open>\<not> lx_scan_fmt l\<close> going True track
        by (simp add: scan_token_def l1_def [symmetric] m_def Let_def)
      then have "string_made m (lx_current m) (t, l')"
        using bm string_made_body [of m] by (simp add: begun_def lexer_ok_def)
      from token_from_string [OF bm far this assms(3)]
      have "token_from l2 t l'" "t_kind t \<in> plain_kinds \<union> range Itp"
        using facts by (auto simp: token_from_def m_def)
      moreover have "\<not> lx_scan_fmt l2" using b2(1) by (simp add: begun_def)
      ultimately have "step_ok l2 t l'"
        using token_from_step [OF _ _ at] by (auto simp: ident_legal_def plain_kinds_def)
      then show ?thesis using step_ok_cong same by metis
    next
      case False
      have "scan_plain l2 = Inr (t, l')"
        using assms(2) \<open>\<not> lx_scan_fmt l\<close> going False track
        by (simp add: scan_token_def l1_def [symmetric])
      then have "scanned l2 (t, l')"
        using scanned_plain b2 here by (simp add: begun_def lexer_ok_def)
      then show ?thesis
        using scanned_step [OF b2(1,2)] b2(3) here assms(3) same step_ok_cong by metis
    qed
  qed
qed

subsection \<open>The tokens of a source\<close>

lemma step_ok_remember: "lexer_ok l \<Longrightarrow> lexer_ok (remember t l)"
  by (cases l) (simp add: remember_def lexer_ok_def placed_def goto_def)

text \<open>
  The tokens from \<open>a\<close> on: each lies in the source after the one before it, is located there,
  and no identifier but the C name of an \<open>extern\<close> has two underscores in a row; only the last
  is \<open>EOF\<close>. \<open>p\<close> and \<open>q\<close> are the kinds of the last two tokens.
\<close>

fun tokens_ok :: "string \<Rightarrow> nat \<Rightarrow> token_kind \<Rightarrow> token_kind \<Rightarrow> token list \<Rightarrow> bool" where
  "tokens_ok src a q p [] \<longleftrightarrow> False"
| "tokens_ok src a q p (t # ts) \<longleftrightarrow>
     (\<exists>i. t_start t = Src i \<and> a \<le> i \<and> i + t_length t \<le> length src \<and>
        (if t_kind t = Sp TOK_EOF then ts = [] else tokens_ok src (i + t_length t) p (t_kind t) ts)) \<and>
     token_located src t \<and> t_kind t \<noteq> Sp TOK_ERROR \<and> t_kind t \<notin> {Lay TOK_INDENT, Lay TOK_DEDENT} \<and>
     (t_kind t = Idt TOK_IDENT \<longrightarrow> ident_text (tok_text src t) \<and>
        (p = Kw TOK_EXTERN \<or> p \<in> {Kw TOK_STRUCT, Kw TOK_UNION} \<and> q = Kw TOK_EXTERN \<or>
         \<not> has_dunder (tok_text src t)))"

lemma tokens_ok_mono: "tokens_ok src b q p ts \<Longrightarrow> a \<le> b \<Longrightarrow> tokens_ok src a q p ts"
  by (cases ts) (auto intro: le_trans)

lemma front_bound: "lexer_ok l \<Longrightarrow> front l \<le> length (lx_source l)"
  by (auto simp: lexer_ok_def placed_def front_def)

lemma lexer_ok_moved:
  assumes "lexer_ok l" and "fwd l l'"
  shows "lexer_ok l' \<and> front l \<le> front l' \<and> togo l' \<le> togo l"
proof -
  obtain i where i: "l' = goto l i" "lx_current l \<le> i" "i \<le> length (lx_source l)"
    using assms(2) by (auto simp: fwd_def)
  have fmt: "lx_scan_fmt l' = lx_scan_fmt l" "lx_fmt_start l' = lx_fmt_start l" "lx_fmt_len l' = lx_fmt_len l"
    "lx_fmt_line l' = lx_fmt_line l" "lx_fmt_col l' = lx_fmt_col l"
    by (simp_all add: i(1) goto_def)
  note facts = fwd_facts [OF assms(2)] fwd_placed [OF assms(2)]
  have "lexer_ok l'"
    using assms(1) facts fmt by (auto simp: lexer_ok_def)
  moreover have "front l \<le> front l'" using facts fmt assms(1) by (simp add: front_def)
  moreover have "togo l' \<le> togo l" using facts fmt by (simp add: togo_def)
  ultimately show ?thesis by blast
qed

lemma raw_tokens_ok:
  assumes "lexer_ok l"
  shows "\<exists>r. raw_tokens l = Some r \<and>
    (\<forall>ts l'. r = Inr (ts, l') \<longrightarrow> tokens_ok (lx_source l) (front l) (lx_prev_prev l) (lx_prev l) ts)"
  using assms
proof (induction "togo l" arbitrary: l rule: less_induct)
  case less
  show ?case
  proof (cases "\<exists>l1 t l2. skip_blanks l = Inr l1 \<and> scan_token l1 = Inr (t, l2) \<and> t_kind t \<noteq> Sp TOK_ERROR")
    case False
    have "\<exists>e. raw_tokens l = Some (Inl e)"
    proof (cases "skip_blanks l")
      case (Inl e)
      then show ?thesis by (subst raw_tokens.simps) simp
    next
      case (Inr l1)
      show ?thesis
      proof (cases "scan_token l1")
        case (Inl e)
        then show ?thesis using Inr by (subst raw_tokens.simps) simp
      next
        case (Inr r)
        then have "t_kind (fst r) = Sp TOK_ERROR"
          using False \<open>skip_blanks l = Inr l1\<close> by (cases r) auto
        then show ?thesis
          using Inr \<open>skip_blanks l = Inr l1\<close> by (cases r) (subst raw_tokens.simps, simp)
      qed
    qed
    then show ?thesis by auto
  next
    case True
    then obtain l1 t l2 where run: "skip_blanks l = Inr l1" "scan_token l1 = Inr (t, l2)" "t_kind t \<noteq> Sp TOK_ERROR"
      by blast
    have f: "fwd l l1"
      using fwd_skip_blanks run(1) less.prems by (simp add: lexer_ok_def)
    note facts = fwd_facts [OF f] and moved = lexer_ok_moved [OF less.prems f]
    have step: "step_ok l1 t l2" using scan_token_step moved run by blast
    define l3 where "l3 = remember t l2"
    have l3: "lexer_ok l3" "lx_source l3 = lx_source l" "front l3 = front l2" "togo l3 = togo l2"
      "lx_prev l3 = t_kind t" "lx_prev_prev l3 = lx_prev l"
      using step step_ok_remember facts
      by (simp_all add: l3_def step_ok_def) (simp_all add: remember_def front_def togo_def)
    obtain i where i: "t_start t = Src i" "front l1 \<le> i" "i + t_length t \<le> front l2"
      using step by (auto simp: step_ok_def token_fits_def)
    have bound: "front l2 \<le> length (lx_source l)"
      using front_bound step facts by (metis step_ok_def)
    have head: "token_located (lx_source l) t" "t_kind t \<noteq> Lay TOK_INDENT" "t_kind t \<noteq> Lay TOK_DEDENT"
      "t_kind t = Idt TOK_IDENT \<longrightarrow> ident_text (tok_text (lx_source l) t) \<and>
        (lx_prev l = Kw TOK_EXTERN \<or> lx_prev l \<in> {Kw TOK_STRUCT, Kw TOK_UNION} \<and> lx_prev_prev l = Kw TOK_EXTERN \<or>
         \<not> has_dunder (tok_text (lx_source l) t))"
      using step facts by (auto simp: step_ok_def ident_legal_def extern_c_name_pos_def)
    show ?thesis
    proof (cases "t_kind t = Sp TOK_EOF")
      case True
      then show ?thesis
        using run i bound moved head by (subst raw_tokens.simps) auto
    next
      case False
      then have "togo l3 < togo l"
        using step l3 moved by (auto simp: step_ok_def)
      from less.hyps [OF this l3(1)] obtain r where r: "raw_tokens l3 = Some r"
        "\<forall>ts l'. r = Inr (ts, l') \<longrightarrow> tokens_ok (lx_source l) (front l2) (lx_prev l) (t_kind t) ts"
        using l3 by auto
      have "raw_tokens l = Some (case r of Inl e \<Rightarrow> Inl e | Inr (ts, l') \<Rightarrow> Inr (t # ts, l'))"
        using run False r(1) by (subst raw_tokens.simps) (simp add: l3_def split: sum.split)
      moreover have "tokens_ok (lx_source l) (front l) (lx_prev_prev l) (lx_prev l) (t # ts)"
        if "r = Inr (ts, l')" for ts l'
        using r(2) that i bound moved head False run(3) tokens_ok_mono [of "lx_source l" "front l2"] by auto
      ultimately show ?thesis by (auto split: sum.splits)
    qed
  qed
qed

lemma lexer_ok_init: "lexer_ok (lexer_init src flags)"
  using placed_init [of src flags] by (simp add: lexer_ok_def) (simp add: lexer_init_def)

lemma raw_tokenize_total: "\<exists>r. raw_tokenize (lexer_init src flags) = Some r"
  using raw_tokens_ok [OF lexer_ok_init, of src flags] by (auto simp: raw_tokenize_def)

lemma raw_tokenize_placed:
  assumes "raw_tokenize (lexer_init src flags) = Some (Inr ts)"
  shows "tokens_ok src 0 (Sp TOK_EOF) (Sp TOK_EOF) ts"
  using raw_tokens_ok [OF lexer_ok_init, of src flags] assms
  by (cases "raw_tokens (lexer_init src flags)")
    (auto simp: raw_tokenize_def map_sum_def lexer_init_def front_def split: sum.splits)

subsection \<open>Properties\<close>

text \<open>
  C22: Lexing ends. On every source and flags the scan returns its tokens or the first
  fatal error: blanks, comments and each token consume the source, and the token of a format
  spec, which consumes nothing, comes only after one that did.
\<close>

theorem raw_tokenize_returns: "\<exists>r. raw_tokenize (lexer_init src flags) = Some r"
  by (rule raw_tokenize_total)



text \<open>
  The keyword table and the kind names agree: the table's words are distinct, each lexes
  as its kind, and diagnostics spell that kind as the quoted word.
\<close>

theorem keywords_agree:
  "distinct (map fst KEYWORDS) \<and>
   list_all (\<lambda>(kw, k). check_keyword kw = k \<and> token_kind_name k = [squote] @ kw @ [squote]) KEYWORDS"
  by code_simp

end
