(* ===== verification/FC_Cond.thy ===== *)
theory FC_Cond
  imports FC_Scan "HOL-Library.Sublist"
begin

section \<open>Conditional compilation (\<open>src/lexer.c\<close>, phase 1.5)\<close>

text \<open>
  The recursive-descent evaluator of \<open>#if\<close> expressions and \<open>filter_conditionals\<close>, which drops
  the directives and the inactive branches from the token array. A position is an index into
  the array. The lemmas relate the evaluator to the boolean meaning of an expression tree and
  the filter, a machine over two stacks, to the selection of branches in a tree of blocks.
\<close>

definition MAX_COND_DEPTH :: nat where "MAX_COND_DEPTH = 32"

fun flag_lookup :: "cflag list \<Rightarrow> string \<Rightarrow> cflag option" where
  "flag_lookup [] name = None"
| "flag_lookup (f # fs) name = (if fl_name f = name then Some f else flag_lookup fs name)"

record cond_eval =
  ce_src :: string
  ce_tokens :: "token list"
  ce_flags :: "cflag list"
  ce_loc :: src_loc

definition tok_loc :: "token \<Rightarrow> src_loc" where "tok_loc t = mk_loc (t_line t) (t_col t)"

definition at_expr_end :: "cond_eval \<Rightarrow> nat \<Rightarrow> bool" where
  "at_expr_end e pos \<longleftrightarrow> length (ce_tokens e) \<le> pos \<or> t_kind (ce_tokens e ! pos) = Lay TOK_NEWLINE"

text \<open>The token at the position is of this kind.\<close>

definition sees :: "cond_eval \<Rightarrow> nat \<Rightarrow> token_kind \<Rightarrow> bool" where
  "sees e pos k \<longleftrightarrow> \<not> at_expr_end e pos \<and> t_kind (ce_tokens e ! pos) = k"

text \<open>A string literal token includes its quotes; the content is inside.\<close>

definition literal_content :: "string \<Rightarrow> string" where
  "literal_content s = take (length s - 2) (drop 1 s)"

definition flag_equals :: "cflag option \<Rightarrow> string \<Rightarrow> bool" where
  "flag_equals f content = (case f of None \<Rightarrow> False | Some f \<Rightarrow> fl_value f = Some content)"

text \<open>The arm of \<open>eval_primary\<close> for an identifier, at the position after it.\<close>

definition eval_ident :: "cond_eval \<Rightarrow> token \<Rightarrow> nat \<Rightarrow> fatal + bool \<times> nat" where
  "eval_ident e t pos =
     (let f = flag_lookup (ce_flags e) (tok_text (ce_src e) t)
      in if sees e pos (Op TOK_EQEQ) \<or> sees e pos (Op TOK_BANGEQ) then
           (if \<not> sees e (pos + 1) (Lit TOK_STRING_LIT) then
              Inl (tok_loc t, ''expected string literal after '' @ [squote] @ ''=='' @ [squote] @ '' or '' @
                   [squote] @ ''!='' @ [squote] @ '' in #if expression'')
            else
              let eq = flag_equals f (literal_content (tok_text (ce_src e) (ce_tokens e ! (pos + 1))))
              in Inr (if t_kind (ce_tokens e ! pos) = Op TOK_EQEQ then eq else \<not> eq, pos + 2))
         else Inr (f \<noteq> None, pos))"

text \<open>
  The evaluator; \<open>and_loop\<close> and \<open>or_loop\<close> are the \<open>while\<close> loops of \<open>eval_and\<close> and \<open>eval_or\<close>.
\<close>

function (domintros) eval_or :: "cond_eval \<Rightarrow> nat \<Rightarrow> fatal + bool \<times> nat"
  and or_loop :: "cond_eval \<Rightarrow> bool \<Rightarrow> nat \<Rightarrow> fatal + bool \<times> nat"
  and eval_and :: "cond_eval \<Rightarrow> nat \<Rightarrow> fatal + bool \<times> nat"
  and and_loop :: "cond_eval \<Rightarrow> bool \<Rightarrow> nat \<Rightarrow> fatal + bool \<times> nat"
  and eval_unary :: "cond_eval \<Rightarrow> nat \<Rightarrow> fatal + bool \<times> nat"
  and eval_primary :: "cond_eval \<Rightarrow> nat \<Rightarrow> fatal + bool \<times> nat"
where
  "eval_or e pos = bindE (eval_and e pos) (\<lambda>r. or_loop e (fst r) (snd r))"
| "or_loop e left pos =
     (if sees e pos (Op TOK_PIPEPIPE)
      then bindE (eval_and e (pos + 1)) (\<lambda>r. or_loop e (left \<or> fst r) (snd r))
      else Inr (left, pos))"
| "eval_and e pos = bindE (eval_unary e pos) (\<lambda>r. and_loop e (fst r) (snd r))"
| "and_loop e left pos =
     (if sees e pos (Op TOK_AMPAMP)
      then bindE (eval_unary e (pos + 1)) (\<lambda>r. and_loop e (left \<and> fst r) (snd r))
      else Inr (left, pos))"
| "eval_unary e pos =
     (if sees e pos (Op TOK_BANG)
      then bindE (eval_unary e (pos + 1)) (\<lambda>r. Inr (\<not> fst r, snd r))
      else eval_primary e pos)"
| "eval_primary e pos =
     (if at_expr_end e pos then Inl (ce_loc e, ''unexpected end of #if expression'')
      else if t_kind (ce_tokens e ! pos) = Dl TOK_LPAREN then
        bindE (eval_or e (pos + 1)) (\<lambda>r.
          if \<not> sees e (snd r) (Dl TOK_RPAREN)
          then Inl (tok_loc (ce_tokens e ! pos), ''expected '' @ [squote] @ '')'' @ [squote] @ '' in #if expression'')
          else Inr (fst r, snd r + 1))
      else if t_kind (ce_tokens e ! pos) = Idt TOK_IDENT then eval_ident e (ce_tokens e ! pos) (pos + 1)
      else Inl (tok_loc (ce_tokens e ! pos),
                ''expected identifier, '' @ [squote] @ ''!'' @ [squote] @ '', or '' @ [squote] @ ''('' @ [squote] @
                '' in #if expression''))"
  by pat_completeness auto

abbreviation "eval_dom \<equiv> eval_or_or_loop_eval_and_and_loop_eval_unary_eval_primary_dom"

lemma sees_in: "sees e pos k \<Longrightarrow> pos < length (ce_tokens e)"
  by (simp add: sees_def at_expr_end_def)

lemma eval_ident_progress:
  "eval_ident e t pos = Inr (b, p) \<Longrightarrow> pos \<le> length (ce_tokens e) \<Longrightarrow> pos \<le> p \<and> p \<le> length (ce_tokens e)"
  using sees_in by (fastforce simp: eval_ident_def Let_def split: if_splits)

lemma eval_progress_dom:
  "eval_dom (Inl (Inl (e1, p1))) \<Longrightarrow> (\<forall>b p. eval_or e1 p1 = Inr (b, p) \<longrightarrow> p1 < p \<and> p \<le> length (ce_tokens e1))"
  "eval_dom (Inl (Inr (Inl (e2, l2, p2)))) \<Longrightarrow> (p2 \<le> length (ce_tokens e2) \<longrightarrow>
     (\<forall>b p. or_loop e2 l2 p2 = Inr (b, p) \<longrightarrow> p2 \<le> p \<and> p \<le> length (ce_tokens e2)))"
  "eval_dom (Inl (Inr (Inr (e3, p3)))) \<Longrightarrow> (\<forall>b p. eval_and e3 p3 = Inr (b, p) \<longrightarrow> p3 < p \<and> p \<le> length (ce_tokens e3))"
  "eval_dom (Inr (Inl (e4, l4, p4))) \<Longrightarrow> (p4 \<le> length (ce_tokens e4) \<longrightarrow>
     (\<forall>b p. and_loop e4 l4 p4 = Inr (b, p) \<longrightarrow> p4 \<le> p \<and> p \<le> length (ce_tokens e4)))"
  "eval_dom (Inr (Inr (Inl (e5, p5)))) \<Longrightarrow> (\<forall>b p. eval_unary e5 p5 = Inr (b, p) \<longrightarrow> p5 < p \<and> p \<le> length (ce_tokens e5))"
  "eval_dom (Inr (Inr (Inr (e6, p6)))) \<Longrightarrow> (\<forall>b p. eval_primary e6 p6 = Inr (b, p) \<longrightarrow> p6 < p \<and> p \<le> length (ce_tokens e6))"
proof (induction rule: eval_or_or_loop_eval_and_and_loop_eval_unary_eval_primary.pinduct)
  case (1 e pos)
  then show ?case by (fastforce simp: eval_or.psimps bindE_Inr_iff)
next
  case (2 e left pos)
  then show ?case
    by (fastforce simp: or_loop.psimps bindE_Inr_iff split: if_splits)
next
  case (3 e pos)
  then show ?case by (fastforce simp: eval_and.psimps bindE_Inr_iff)
next
  case (4 e left pos)
  then show ?case
    by (fastforce simp: and_loop.psimps bindE_Inr_iff split: if_splits)
next
  case (5 e pos)
  then show ?case
    by (fastforce simp: eval_unary.psimps bindE_Inr_iff split: if_splits)
next
  case (6 e pos)
  then show ?case
    using sees_in eval_ident_progress [of e "ce_tokens e ! pos" "pos + 1"]
    by (fastforce simp: eval_primary.psimps bindE_Inr_iff at_expr_end_def split: if_splits)
qed

lemma eval_total: "All eval_dom"
proof (relation "measures
    [\<lambda>x. (case x of Inl (Inl (e, p)) \<Rightarrow> length (ce_tokens e) - p | Inl (Inr (Inl (e, l, p))) \<Rightarrow> length (ce_tokens e) - p
      | Inl (Inr (Inr (e, p))) \<Rightarrow> length (ce_tokens e) - p | Inr (Inl (e, l, p)) \<Rightarrow> length (ce_tokens e) - p
      | Inr (Inr (Inl (e, p))) \<Rightarrow> length (ce_tokens e) - p | Inr (Inr (Inr (e, p))) \<Rightarrow> length (ce_tokens e) - p),
     \<lambda>x. (case x of Inl (Inl _) \<Rightarrow> 3 | Inl (Inr (Inl _)) \<Rightarrow> 0 | Inl (Inr (Inr _)) \<Rightarrow> 2 | Inr (Inl _) \<Rightarrow> 0
      | Inr (Inr (Inl _)) \<Rightarrow> 1 | Inr (Inr (Inr _)) \<Rightarrow> (0 :: nat))]", goal_cases)
  case (3 e pos x)
  then show ?case using eval_progress_dom(3) [of e pos] by (cases x) (force simp: less_diff_iff)
next
  case (5 e left pos x)
  then show ?case using eval_progress_dom(3) [of e "pos + 1"] sees_in by (cases x) force
next
  case (7 e pos x)
  then show ?case using eval_progress_dom(5) [of e pos] by (cases x) force
next
  case (9 e left pos x)
  then show ?case using eval_progress_dom(5) [of e "pos + 1"] sees_in by (cases x) force
qed (auto dest!: sees_in simp: at_expr_end_def)

termination eval_or
  by (rule eval_total)

declare eval_or.simps [simp del] or_loop.simps [simp del] eval_and.simps [simp del] and_loop.simps [simp del]
  eval_unary.simps [simp del] eval_primary.simps [simp del]

lemma eval_or_progress: "eval_or e pos = Inr (b, p) \<Longrightarrow> pos < p \<and> p \<le> length (ce_tokens e)"
  using eval_progress_dom(1) [of e pos] eval_total by blast

definition eval_cond_expr ::
  "string \<Rightarrow> token list \<Rightarrow> nat \<Rightarrow> cflag list \<Rightarrow> src_loc \<Rightarrow> fatal + bool \<times> nat" where
  "eval_cond_expr src tokens i flags directive_loc =
     (let e = \<lparr>ce_src = src, ce_tokens = tokens, ce_flags = flags, ce_loc = directive_loc\<rparr>
      in if at_expr_end e (i + 1) then Inl (directive_loc, ''#if requires an expression'')
         else bindE (eval_or e (i + 1)) (\<lambda>r.
           if \<not> at_expr_end e (snd r)
           then Inl (tok_loc (tokens ! snd r), ''unexpected token in #if expression'')
           else Inr (fst r, snd r - 1)))"

subsection \<open>The filter\<close>

record filter_state =
  fs_active :: "bool list"
  fs_done :: "bool list"
  fs_depth :: nat
  fs_out :: "token list"

definition filter_init :: filter_state where
  "filter_init =
     \<lparr>fs_active = (replicate MAX_COND_DEPTH False)[0 := True],
      fs_done = (replicate MAX_COND_DEPTH False)[0 := True], fs_depth = 0, fs_out = []\<rparr>"

definition skip_newline :: "token list \<Rightarrow> nat \<Rightarrow> nat" where
  "skip_newline tokens i =
     (if i + 1 < length tokens \<and> t_kind (tokens ! (i + 1)) = Lay TOK_NEWLINE then i + 1 else i)"

definition parent_active :: "filter_state \<Rightarrow> bool" where
  "parent_active s = (if 2 \<le> fs_depth s then fs_active s ! (fs_depth s - 1) else True)"

definition hash_if :: "string \<Rightarrow> cflag list \<Rightarrow> token list \<Rightarrow> nat \<Rightarrow> filter_state \<Rightarrow> fatal + nat \<times> filter_state" where
  "hash_if src flags tokens i s =
     (let t = tokens ! i; d = fs_depth s + 1
      in if t_col t \<noteq> 1 then Inl (tok_loc t, ''#if must appear at column 1'')
         else if MAX_COND_DEPTH \<le> d then Inl (tok_loc t, ''too many nested #if directives'')
         else bindE (eval_cond_expr src tokens i flags (tok_loc t)) (\<lambda>r.
           Inr (skip_newline tokens (snd r),
                s\<lparr>fs_depth := d, fs_active := (fs_active s)[d := fs_active s ! fs_depth s \<and> fst r],
                  fs_done := (fs_done s)[d := fst r]\<rparr>)))"

definition hash_else_if :: "string \<Rightarrow> cflag list \<Rightarrow> token list \<Rightarrow> nat \<Rightarrow> filter_state \<Rightarrow> fatal + nat \<times> filter_state" where
  "hash_else_if src flags tokens i s =
     (let t = tokens ! i; d = fs_depth s
      in if t_col t \<noteq> 1 then Inl (tok_loc t, ''#else if must appear at column 1'')
         else if d = 0 then Inl (tok_loc t, ''#else if without matching #if'')
         else bindE (eval_cond_expr src tokens i flags (tok_loc t)) (\<lambda>r.
           Inr (skip_newline tokens (snd r),
                s\<lparr>fs_active := (fs_active s)[d := parent_active s \<and> \<not> fs_done s ! d \<and> fst r],
                  fs_done := (if fst r then (fs_done s)[d := True] else fs_done s)\<rparr>)))"

definition hash_else :: "token list \<Rightarrow> nat \<Rightarrow> filter_state \<Rightarrow> fatal + nat \<times> filter_state" where
  "hash_else tokens i s =
     (let t = tokens ! i; d = fs_depth s
      in if t_col t \<noteq> 1 then Inl (tok_loc t, ''#else must appear at column 1'')
         else if d = 0 then Inl (tok_loc t, ''#else without matching #if'')
         else Inr (skip_newline tokens i,
                   s\<lparr>fs_active := (fs_active s)[d := parent_active s \<and> \<not> fs_done s ! d],
                     fs_done := (fs_done s)[d := True]\<rparr>))"

definition hash_end :: "token list \<Rightarrow> nat \<Rightarrow> filter_state \<Rightarrow> fatal + nat \<times> filter_state" where
  "hash_end tokens i s =
     (let t = tokens ! i; d = fs_depth s
      in if t_col t \<noteq> 1 then Inl (tok_loc t, ''#end must appear at column 1'')
         else if d = 0 then Inl (tok_loc t, ''#end without matching #if'')
         else Inr (skip_newline tokens i, s\<lparr>fs_depth := d - 1\<rparr>))"

text \<open>One round of the loop: the index of the last token it consumed, and the state.\<close>

definition filter_step :: "string \<Rightarrow> cflag list \<Rightarrow> token list \<Rightarrow> nat \<Rightarrow> filter_state \<Rightarrow> fatal + nat \<times> filter_state" where
  "filter_step src flags tokens i s =
     (let k = t_kind (tokens ! i)
      in if k = Pp TOK_HASH_IF then hash_if src flags tokens i s
         else if k = Pp TOK_HASH_ELSE_IF then hash_else_if src flags tokens i s
         else if k = Pp TOK_HASH_ELSE then hash_else tokens i s
         else if k = Pp TOK_HASH_END then hash_end tokens i s
         else Inr (i, if fs_active s ! fs_depth s then s\<lparr>fs_out := fs_out s @ [tokens ! i]\<rparr> else s))"

lemma skip_newline_ge: "i \<le> skip_newline tokens i"
  by (simp add: skip_newline_def)

lemma eval_cond_expr_progress:
  assumes "eval_cond_expr src tokens i flags loc = Inr r"
  shows "i < snd r"
proof -
  obtain q where "eval_or \<lparr>ce_src = src, ce_tokens = tokens, ce_flags = flags, ce_loc = loc\<rparr> (i + 1) = Inr q"
    "r = (fst q, snd q - 1)"
    using assms by (auto simp: eval_cond_expr_def Let_def bindE_Inr_iff split: if_splits)
  then show ?thesis
    using eval_or_progress [of _ "i + 1" "fst q" "snd q"] by fastforce
qed

lemma filter_step_progress:
  assumes "filter_step src flags tokens i s = Inr r"
  shows "i \<le> fst r"
proof -
  have "i \<le> skip_newline tokens (snd q)" if "eval_cond_expr src tokens i flags loc = Inr q" for loc q
    using eval_cond_expr_progress [OF that] skip_newline_ge [of "snd q" tokens] by simp
  then have "hash_if src flags tokens i s = Inr r \<Longrightarrow> i \<le> fst r" "hash_else_if src flags tokens i s = Inr r \<Longrightarrow> i \<le> fst r"
    by (auto simp: hash_if_def hash_else_if_def Let_def bindE_Inr_iff split: if_splits)
  moreover have "hash_else tokens i s = Inr r \<Longrightarrow> i \<le> fst r" "hash_end tokens i s = Inr r \<Longrightarrow> i \<le> fst r"
    by (auto simp: hash_else_def hash_end_def Let_def skip_newline_ge split: if_splits)
  ultimately show ?thesis
    using assms by (auto simp: filter_step_def Let_def split: if_splits)
qed

function filter_loop :: "string \<Rightarrow> cflag list \<Rightarrow> token list \<Rightarrow> nat \<Rightarrow> filter_state \<Rightarrow> fatal + filter_state" where
  "filter_loop src flags tokens i s =
     (if i < length tokens
      then bindE (filter_step src flags tokens i s) (\<lambda>r. filter_loop src flags tokens (fst r + 1) (snd r))
      else Inr s)"
  by pat_completeness auto
termination
  by (relation "measure (\<lambda>(src, flags, tokens, i, s). length tokens - i)")
    (auto dest!: filter_step_progress intro: diff_less_mono2)

declare filter_loop.simps [simp del]

definition filter_conditionals :: "string \<Rightarrow> cflag list \<Rightarrow> token list \<Rightarrow> fatal + token list" where
  "filter_conditionals src flags tokens =
     bindE (filter_loop src flags tokens 0 filter_init) (\<lambda>s.
       if fs_depth s \<noteq> 0 then Inl (mk_loc (t_line (last tokens)) 1, ''unclosed #if (missing #end)'')
       else Inr (fs_out s))"

subsection \<open>Expressions and their meaning\<close>

datatype cond =
    CFlag string | CEq string string | CNe string string
  | CNot cond | CAnd cond cond | COr cond cond

fun flag_value :: "cflag list \<Rightarrow> string \<Rightarrow> string option" where
  "flag_value flags n = (case flag_lookup flags n of None \<Rightarrow> None | Some f \<Rightarrow> fl_value f)"

fun ceval :: "cflag list \<Rightarrow> cond \<Rightarrow> bool" where
  "ceval flags (CFlag n) \<longleftrightarrow> n \<in> fl_name ` set flags"
| "ceval flags (CEq n v) \<longleftrightarrow> flag_value flags n = Some v"
| "ceval flags (CNe n v) \<longleftrightarrow> flag_value flags n \<noteq> Some v"
| "ceval flags (CNot c) \<longleftrightarrow> \<not> ceval flags c"
| "ceval flags (CAnd a b) \<longleftrightarrow> ceval flags a \<and> ceval flags b"
| "ceval flags (COr a b) \<longleftrightarrow> ceval flags a \<or> ceval flags b"

text \<open>The spelling of an expression at a level of precedence: 0 for \<open>||\<close>, 1 for \<open>&&\<close>, 2 for \<open>!\<close>.\<close>

type_synonym spelled = "token_kind \<times> string"

definition parens :: "bool \<Rightarrow> spelled list \<Rightarrow> spelled list" where
  "parens b ss = (if b then (Dl TOK_LPAREN, ''('') # ss @ [(Dl TOK_RPAREN, '')'')] else ss)"

definition quoted :: "string \<Rightarrow> spelled" where
  "quoted v = (Lit TOK_STRING_LIT, dquote # v @ [dquote])"

fun render :: "nat \<Rightarrow> cond \<Rightarrow> spelled list" where
  "render lvl (CFlag n) = [(Idt TOK_IDENT, n)]"
| "render lvl (CEq n v) = [(Idt TOK_IDENT, n), (Op TOK_EQEQ, ''==''), quoted v]"
| "render lvl (CNe n v) = [(Idt TOK_IDENT, n), (Op TOK_BANGEQ, ''!=''), quoted v]"
| "render lvl (CNot c) = (Op TOK_BANG, ''!'') # render 2 c"
| "render lvl (CAnd a b) = parens (1 < lvl) (render 1 a @ (Op TOK_AMPAMP, ''&&'') # render 2 b)"
| "render lvl (COr a b) = parens (0 < lvl) (render 0 a @ (Op TOK_PIPEPIPE, ''||'') # render 1 b)"

definition spelling :: "string \<Rightarrow> token \<Rightarrow> spelled" where
  "spelling src t = (t_kind t, tok_text src t)"

definition reads :: "cond_eval \<Rightarrow> nat \<Rightarrow> spelled list \<Rightarrow> bool" where
  "reads e pos ss \<longleftrightarrow> map (spelling (ce_src e)) (take (length ss) (drop pos (ce_tokens e))) = ss"

lemma reads_Nil [simp]: "reads e pos []"
  by (simp add: reads_def)

lemma reads_Cons [simp]:
  "reads e pos (s # ss) \<longleftrightarrow> pos < length (ce_tokens e) \<and> spelling (ce_src e) (ce_tokens e ! pos) = s \<and> reads e (pos + 1) ss"
proof (cases "pos < length (ce_tokens e)")
  case True
  then have "drop pos (ce_tokens e) = ce_tokens e ! pos # drop (pos + 1) (ce_tokens e)"
    by (simp add: Cons_nth_drop_Suc)
  then show ?thesis using True by (simp add: reads_def)
qed (simp add: reads_def)

lemma reads_append [simp]: "reads e pos (ss @ ts) \<longleftrightarrow> reads e pos ss \<and> reads e (pos + length ss) ts"
  by (induction ss arbitrary: pos) auto

lemma sees_spelled:
  "pos < length (ce_tokens e) \<Longrightarrow> spelling (ce_src e) (ce_tokens e ! pos) = (k, s) \<Longrightarrow> k \<noteq> Lay TOK_NEWLINE \<Longrightarrow>
    sees e pos k' \<longleftrightarrow> k' = k"
  by (auto simp: sees_def at_expr_end_def spelling_def)

lemma flag_present: "(\<exists>f. flag_lookup flags n = Some f) \<longleftrightarrow> n \<in> fl_name ` set flags"
  by (induction flags) auto

lemma flag_equals_value: "flag_equals (flag_lookup flags n) v \<longleftrightarrow> flag_value flags n = Some v"
  by (simp add: flag_equals_def split: option.split)

lemma content_quoted [simp]: "literal_content (dquote # v @ [dquote]) = v"
  by (simp add: literal_content_def)

text \<open>What may not follow a bare flag name.\<close>

definition no_compare :: "cond_eval \<Rightarrow> nat \<Rightarrow> bool" where
  "no_compare e p \<longleftrightarrow> \<not> sees e p (Op TOK_EQEQ) \<and> \<not> sees e p (Op TOK_BANGEQ)"

lemma sees_unique: "sees e p k \<Longrightarrow> sees e p k' \<longleftrightarrow> k = k'"
  by (auto simp: sees_def)

lemma and_of_unary: "eval_unary e pos = Inr (v, p) \<Longrightarrow> eval_and e pos = and_loop e v p"
  by (simp add: eval_and.simps)

lemma or_of_and:
  "eval_and e pos = and_loop e v p \<Longrightarrow> \<not> sees e p (Op TOK_AMPAMP) \<Longrightarrow> eval_or e pos = or_loop e v p"
  by (simp add: eval_or.simps and_loop.simps)

lemma unary_of_parens:
  assumes "sees e pos (Dl TOK_LPAREN)" and "eval_or e (pos + 1) = or_loop e v p" and "sees e p (Dl TOK_RPAREN)"
  shows "eval_unary e pos = Inr (v, p + 1)"
proof -
  have "or_loop e v p = Inr (v, p)"
    using sees_unique [OF assms(3)] by (simp add: or_loop.simps)
  then have "eval_or e (pos + 1) = Inr (v, p)" using assms(2) by simp
  moreover have "\<not> at_expr_end e pos" "t_kind (ce_tokens e ! pos) = Dl TOK_LPAREN" "\<not> sees e pos (Op TOK_BANG)"
    using assms(1) by (auto simp: sees_def)
  ultimately show ?thesis
    using assms(3) by (simp add: eval_unary.simps [of e pos] eval_primary.simps [of e pos])
qed

definition means :: "cond_eval \<Rightarrow> cond \<Rightarrow> bool" where
  "means e c \<longleftrightarrow> (\<forall>pos.
     (reads e pos (render 2 c) \<longrightarrow> no_compare e (pos + length (render 2 c)) \<longrightarrow>
        eval_unary e pos = Inr (ceval (ce_flags e) c, pos + length (render 2 c))) \<and>
     (reads e pos (render 1 c) \<longrightarrow> no_compare e (pos + length (render 1 c)) \<longrightarrow>
        eval_and e pos = and_loop e (ceval (ce_flags e) c) (pos + length (render 1 c))) \<and>
     (reads e pos (render 0 c) \<longrightarrow> no_compare e (pos + length (render 0 c)) \<longrightarrow>
        \<not> sees e (pos + length (render 0 c)) (Op TOK_AMPAMP) \<longrightarrow>
        eval_or e pos = or_loop e (ceval (ce_flags e) c) (pos + length (render 0 c))))"

lemma means_leaf:
  assumes "\<And>lvl. render lvl c = ss"
    and "\<And>pos. reads e pos ss \<Longrightarrow> no_compare e (pos + length ss) \<Longrightarrow>
          eval_unary e pos = Inr (ceval (ce_flags e) c, pos + length ss)"
  shows "means e c"
  using assms and_of_unary or_of_and by (simp add: means_def)

lemma cond_means: "means e c"
proof (induction c)
  case (CFlag n)
  show ?case
    by (rule means_leaf [where ss = "[(Idt TOK_IDENT, n)]"])
      (auto simp: eval_unary.simps eval_primary.simps eval_ident_def no_compare_def flag_present
        sees_def at_expr_end_def spelling_def simp del: tok_text.simps)
next
  case (CEq n v)
  show ?case
    by (rule means_leaf [where ss = "render 0 (CEq n v)"])
      (auto simp: eval_unary.simps eval_primary.simps eval_ident_def quoted_def flag_equals_value
        sees_def at_expr_end_def spelling_def simp del: flag_value.simps tok_text.simps)
next
  case (CNe n v)
  show ?case
    by (rule means_leaf [where ss = "render 0 (CNe n v)"])
      (auto simp: eval_unary.simps eval_primary.simps eval_ident_def quoted_def flag_equals_value
        sees_def at_expr_end_def spelling_def simp del: flag_value.simps tok_text.simps)
next
  case (CNot c)
  show ?case
    by (rule means_leaf [where ss = "render 0 (CNot c)"])
      (use CNot in \<open>auto simp: eval_unary.simps sees_spelled means_def add.commute\<close>)
next
  case (CAnd a b)
  define ss where "ss = render 0 (CAnd a b)"
  have ss: "render 1 (CAnd a b) = ss" "render 2 (CAnd a b) = (Dl TOK_LPAREN, ''('') # ss @ [(Dl TOK_RPAREN, '')'')]"
    by (simp_all add: ss_def parens_def)
  have and1: "eval_and e pos = and_loop e (ceval (ce_flags e) (CAnd a b)) (pos + length ss)"
    if "reads e pos ss" "no_compare e (pos + length ss)" for pos
  proof -
    define p where "p = pos + length (render 1 a)"
    have amp: "sees e p (Op TOK_AMPAMP)" "no_compare e p"
      using that(1) by (auto simp: ss_def parens_def p_def sees_spelled no_compare_def)
    have "eval_and e pos = and_loop e (ceval (ce_flags e) a) p"
      using CAnd.IH(1) that(1) amp by (simp add: means_def ss_def parens_def p_def)
    also have "\<dots> = and_loop e (ceval (ce_flags e) (CAnd a b)) (pos + length ss)"
      using CAnd.IH(2) that amp by (subst and_loop.simps) (simp add: means_def ss_def parens_def p_def add.assoc)
    finally show ?thesis .
  qed
  have or0: "eval_or e pos = or_loop e (ceval (ce_flags e) (CAnd a b)) (pos + length ss)"
    if "reads e pos ss" "no_compare e (pos + length ss)" "\<not> sees e (pos + length ss) (Op TOK_AMPAMP)" for pos
    using or_of_and [OF and1] that by simp
  have un2: "eval_unary e pos = Inr (ceval (ce_flags e) (CAnd a b), pos + length ss + 2)"
    if "reads e pos ((Dl TOK_LPAREN, ''('') # ss @ [(Dl TOK_RPAREN, '')'')])" for pos
    using that unary_of_parens [of e pos _ "pos + 1 + length ss"] or0 [of "pos + 1"]
    by (simp add: sees_spelled no_compare_def del: ceval.simps)
  show ?case
    unfolding means_def ss ss_def [symmetric] using and1 or0 un2 by (simp add: ss del: ceval.simps)
next
  case (COr a b)
  define ss where "ss = render 0 (COr a b)"
  have ss: "render 1 (COr a b) = (Dl TOK_LPAREN, ''('') # ss @ [(Dl TOK_RPAREN, '')'')]"
    "render 2 (COr a b) = (Dl TOK_LPAREN, ''('') # ss @ [(Dl TOK_RPAREN, '')'')]"
    by (simp_all add: ss_def parens_def)
  have or0: "eval_or e pos = or_loop e (ceval (ce_flags e) (COr a b)) (pos + length ss)"
    if "reads e pos ss" "no_compare e (pos + length ss)" "\<not> sees e (pos + length ss) (Op TOK_AMPAMP)" for pos
  proof -
    define p where "p = pos + length (render 0 a)"
    have bar: "sees e p (Op TOK_PIPEPIPE)" "no_compare e p" "\<not> sees e p (Op TOK_AMPAMP)"
      using that(1) by (auto simp: ss_def parens_def p_def sees_spelled no_compare_def)
    have "eval_or e pos = or_loop e (ceval (ce_flags e) a) p"
      using COr.IH(1) that(1) bar by (simp add: means_def ss_def parens_def p_def)
    also have "eval_and e (p + 1) = Inr (ceval (ce_flags e) b, pos + length ss)"
      using COr.IH(2) that by (simp add: means_def ss_def parens_def p_def and_loop.simps add.assoc)
    then have "or_loop e (ceval (ce_flags e) a) p = or_loop e (ceval (ce_flags e) (COr a b)) (pos + length ss)"
      using bar(1) by (subst or_loop.simps) simp
    finally show ?thesis .
  qed
  have un2: "eval_unary e pos = Inr (ceval (ce_flags e) (COr a b), pos + length ss + 2)"
    if "reads e pos ((Dl TOK_LPAREN, ''('') # ss @ [(Dl TOK_RPAREN, '')'')])" for pos
    using that unary_of_parens [of e pos _ "pos + 1 + length ss"] or0 [of "pos + 1"]
    by (simp add: sees_spelled no_compare_def del: ceval.simps)
  show ?case
    unfolding means_def ss ss_def [symmetric] using or0 un2 and_of_unary [OF un2] by (simp add: ss del: ceval.simps)
qed

lemma render_head: "\<exists>k s r. render lvl c = (k, s) # r \<and> k \<noteq> Lay TOK_NEWLINE"
  by (induction c arbitrary: lvl) (auto simp: parens_def, (metis append_Cons)+)

lemma eval_cond_expr_means:
  assumes e: "e = \<lparr>ce_src = src, ce_tokens = tokens, ce_flags = flags, ce_loc = loc\<rparr>"
    and reads: "reads e (i + 1) (render 0 c)" and stop: "at_expr_end e (i + 1 + length (render 0 c))"
  shows "eval_cond_expr src tokens i flags loc = Inr (ceval flags c, i + length (render 0 c))"
proof -
  have none: "\<not> sees e (i + 1 + length (render 0 c)) k" for k
    using stop by (simp add: sees_def)
  obtain k s r where "render 0 c = (k, s) # r" "k \<noteq> Lay TOK_NEWLINE"
    using render_head by blast
  then have "\<not> at_expr_end e (i + 1)"
    using reads by (auto simp: at_expr_end_def spelling_def)
  moreover have "eval_or e (i + 1) = or_loop e (ceval (ce_flags e) c) (i + 1 + length (render 0 c))"
    using cond_means [of e c] reads none by (auto simp: means_def no_compare_def)
  then have "eval_or e (i + 1) = Inr (ceval flags c, i + 1 + length (render 0 c))"
    using none by (simp add: or_loop.simps e)
  ultimately show ?thesis
    using stop by (simp add: eval_cond_expr_def e)
qed

subsection \<open>Blocks and the selection of branches\<close>

text \<open>
  A token array as a tree: a token to keep, or a block of directive lines and their bodies. A
  directive line is the list of its tokens.
\<close>

datatype items =
    Stop
  | Keep token items
  | If "token list" cond items branches items
and branches =
    End "token list"
  | ElseIf "token list" cond items branches
  | Else "token list" items "token list"

fun flatten :: "items \<Rightarrow> token list" and flatten_br :: "branches \<Rightarrow> token list" where
  "flatten Stop = []"
| "flatten (Keep t its) = t # flatten its"
| "flatten (If line c body br its) = line @ flatten body @ flatten_br br @ flatten its"
| "flatten_br (End line) = line"
| "flatten_br (ElseIf line c body br) = line @ flatten body @ flatten_br br"
| "flatten_br (Else line body fin) = line @ flatten body @ fin"

fun select :: "cflag list \<Rightarrow> items \<Rightarrow> token list" and select_br :: "cflag list \<Rightarrow> branches \<Rightarrow> token list" where
  "select flags Stop = []"
| "select flags (Keep t its) = t # select flags its"
| "select flags (If line c body br its) =
     (if ceval flags c then select flags body else select_br flags br) @ select flags its"
| "select_br flags (End line) = []"
| "select_br flags (ElseIf line c body br) = (if ceval flags c then select flags body else select_br flags br)"
| "select_br flags (Else line body fin) = select flags body"

abbreviation "directive_kinds \<equiv> {Pp TOK_HASH_IF, Pp TOK_HASH_ELSE_IF, Pp TOK_HASH_ELSE, Pp TOK_HASH_END}"

text \<open>A directive line: the directive at column 1, its expression and the newline.\<close>

definition dir_line :: "string \<Rightarrow> token_kind \<Rightarrow> spelled list \<Rightarrow> token list \<Rightarrow> bool" where
  "dir_line src k ss line \<longleftrightarrow> (\<exists>h cs n. line = h # cs @ [n] \<and> t_kind h = k \<and> t_col h = 1 \<and>
     map (spelling src) cs = ss \<and> t_kind n = Lay TOK_NEWLINE)"

fun lines_ok :: "string \<Rightarrow> nat \<Rightarrow> items \<Rightarrow> bool" and lines_ok_br :: "string \<Rightarrow> nat \<Rightarrow> branches \<Rightarrow> bool" where
  "lines_ok src d Stop \<longleftrightarrow> True"
| "lines_ok src d (Keep t its) \<longleftrightarrow> t_kind t \<notin> directive_kinds \<and> lines_ok src d its"
| "lines_ok src d (If line c body br its) \<longleftrightarrow>
     d + 1 < MAX_COND_DEPTH \<and> dir_line src (Pp TOK_HASH_IF) (render 0 c) line \<and>
     lines_ok src (d + 1) body \<and> lines_ok_br src (d + 1) br \<and> lines_ok src d its"
| "lines_ok_br src d (End line) \<longleftrightarrow> dir_line src (Pp TOK_HASH_END) [] line"
| "lines_ok_br src d (ElseIf line c body br) \<longleftrightarrow>
     dir_line src (Pp TOK_HASH_ELSE_IF) (render 0 c) line \<and> lines_ok src d body \<and> lines_ok_br src d br"
| "lines_ok_br src d (Else line body fin) \<longleftrightarrow>
     dir_line src (Pp TOK_HASH_ELSE) [] line \<and> lines_ok src d body \<and> dir_line src (Pp TOK_HASH_END) [] fin"

lemma dir_line_cond:
  assumes "dir_line src k (render 0 c) line"
  shows "\<exists>j. eval_cond_expr src (pre @ line @ post) (length pre) flags loc = Inr (ceval flags c, j) \<and>
    skip_newline (pre @ line @ post) j + 1 = length pre + length line"
proof -
  obtain h cs n where line: "line = h # cs @ [n]" "map (spelling src) cs = render 0 c" "t_kind n = Lay TOK_NEWLINE"
    using assms by (auto simp: dir_line_def)
  define e where "e = \<lparr>ce_src = src, ce_tokens = pre @ line @ post, ce_flags = flags, ce_loc = loc\<rparr>"
  have len: "length cs = length (render 0 c)" using arg_cong [OF line(2), of length] by simp
  have "reads e (length pre + 1) (render 0 c)"
    using line(2) len by (simp add: reads_def e_def line(1))
  moreover have end_tok: "(pre @ line @ post) ! (length pre + 1 + length (render 0 c)) = n"
    using len by (simp add: line(1) nth_append)
  then have "at_expr_end e (length pre + 1 + length (render 0 c))"
    using line(3) by (simp add: at_expr_end_def e_def)
  ultimately have "eval_cond_expr src (pre @ line @ post) (length pre) flags loc =
      Inr (ceval flags c, length pre + length (render 0 c))"
    by (rule eval_cond_expr_means [OF e_def])
  moreover have "skip_newline (pre @ line @ post) (length pre + length (render 0 c)) + 1 = length pre + length line"
    using end_tok line(3) len by (simp add: skip_newline_def line(1) add.commute add.left_commute)
  ultimately show ?thesis by blast
qed

lemma dir_line_head:
  "dir_line src k ss line \<Longrightarrow> \<exists>t. (pre @ line @ post) ! length pre = t \<and> t_kind t = k \<and> t_col t = 1 \<and>
    length pre < length (pre @ line @ post)"
  by (auto simp: dir_line_def nth_append)

lemma dir_line_plain:
  assumes "dir_line src k [] line"
  shows "skip_newline (pre @ line @ post) (length pre) + 1 = length pre + length line"
  using assms by (auto simp: dir_line_def skip_newline_def nth_append)

text \<open>The state of the filter between two directives.\<close>

definition stacks_ok :: "filter_state \<Rightarrow> bool" where
  "stacks_ok s \<longleftrightarrow> length (fs_active s) = MAX_COND_DEPTH \<and> length (fs_done s) = MAX_COND_DEPTH \<and>
     fs_depth s < MAX_COND_DEPTH \<and> fs_active s ! 0"

definition same_below :: "nat \<Rightarrow> filter_state \<Rightarrow> filter_state \<Rightarrow> bool" where
  "same_below d s s' \<longleftrightarrow> (\<forall>k \<le> d. fs_active s' ! k = fs_active s ! k \<and> fs_done s' ! k = fs_done s ! k)"

text \<open>
  From \<open>s\<close> at the start of \<open>seg\<close> the loop reaches its end in a state at depth \<open>d\<close>, with \<open>out\<close>
  appended and the stacks up to \<open>d\<close> as they were.
\<close>

definition passes :: "string \<Rightarrow> cflag list \<Rightarrow> filter_state \<Rightarrow> token list \<Rightarrow> nat \<Rightarrow> token list \<Rightarrow> bool" where
  "passes src flags s seg d out \<longleftrightarrow> (\<forall>pre post. \<exists>s'. stacks_ok s' \<and> fs_depth s' = d \<and>
     fs_out s' = fs_out s @ out \<and> same_below d s s' \<and>
     filter_loop src flags (pre @ seg @ post) (length pre) s =
       filter_loop src flags (pre @ seg @ post) (length pre + length seg) s')"

lemma passes_Nil: "stacks_ok s \<Longrightarrow> passes src flags s [] (fs_depth s) []"
  unfolding passes_def same_below_def by fastforce

lemma passes_append:
  assumes "passes src flags s a d out"
    and "\<And>s'. stacks_ok s' \<Longrightarrow> fs_depth s' = d \<Longrightarrow> same_below d s s' \<Longrightarrow> passes src flags s' b d' out'"
    and "d' \<le> d"
  shows "passes src flags s (a @ b) d' (out @ out')"
  unfolding passes_def
proof (intro allI)
  fix pre post
  obtain s1 where s1: "stacks_ok s1" "fs_depth s1 = d" "fs_out s1 = fs_out s @ out" "same_below d s s1"
    "filter_loop src flags (pre @ a @ b @ post) (length pre) s =
     filter_loop src flags (pre @ a @ b @ post) (length pre + length a) s1"
    using assms(1) unfolding passes_def by meson
  obtain s2 where s2: "stacks_ok s2" "fs_depth s2 = d'" "fs_out s2 = fs_out s1 @ out'" "same_below d' s1 s2"
    "filter_loop src flags ((pre @ a) @ b @ post) (length (pre @ a)) s1 =
     filter_loop src flags ((pre @ a) @ b @ post) (length (pre @ a) + length b) s2"
    using assms(2) [OF s1(1,2,4)] unfolding passes_def by meson
  have "same_below d' s s2"
    using s1(4) s2(4) assms(3) by (auto simp: same_below_def)
  then show "\<exists>s'. stacks_ok s' \<and> fs_depth s' = d' \<and> fs_out s' = fs_out s @ out @ out' \<and> same_below d' s s' \<and>
       filter_loop src flags (pre @ (a @ b) @ post) (length pre) s =
       filter_loop src flags (pre @ (a @ b) @ post) (length pre + length (a @ b)) s'"
    using s1 s2 by (intro exI [of _ s2]) (simp add: add.assoc)
qed

text \<open>One round of the loop over a directive line.\<close>

lemma passes_line:
  assumes "\<And>pre post. \<exists>j. filter_step src flags (pre @ line @ post) (length pre) s = Inr (j, s') \<and>
      j + 1 = length pre + length line"
    and "line \<noteq> []" and "stacks_ok s'" and "fs_depth s' = d" and "fs_out s' = fs_out s" and "same_below d' s s'"
    and "passes src flags s' seg d' out" and "d' \<le> d"
  shows "passes src flags s (line @ seg) d' out"
  unfolding passes_def
proof (intro allI)
  fix pre post
  obtain j where j: "filter_step src flags (pre @ line @ seg @ post) (length pre) s = Inr (j, s')"
    "j + 1 = length pre + length line"
    using assms(1) by blast
  obtain s2 where s2: "stacks_ok s2" "fs_depth s2 = d'" "fs_out s2 = fs_out s' @ out" "same_below d' s' s2"
    "filter_loop src flags ((pre @ line) @ seg @ post) (length (pre @ line)) s' =
     filter_loop src flags ((pre @ line) @ seg @ post) (length (pre @ line) + length seg) s2"
    using assms(7) unfolding passes_def by meson
  have "filter_loop src flags (pre @ line @ seg @ post) (length pre) s =
      filter_loop src flags (pre @ line @ seg @ post) (length pre + length line) s'"
    using j assms(2) by (simp add: filter_loop.simps [of _ _ _ "length pre"])
  moreover have "same_below d' s s2"
    using s2(4) assms(6) by (simp add: same_below_def)
  ultimately show "\<exists>s'. stacks_ok s' \<and> fs_depth s' = d' \<and> fs_out s' = fs_out s @ out \<and> same_below d' s s' \<and>
       filter_loop src flags (pre @ (line @ seg) @ post) (length pre) s =
       filter_loop src flags (pre @ (line @ seg) @ post) (length pre + length (line @ seg)) s'"
    using s2 assms(5) by (intro exI [of _ s2]) (simp add: add.assoc)
qed

lemma passes_keep:
  assumes "stacks_ok s" and "t_kind t \<notin> directive_kinds"
  shows "passes src flags s [t] (fs_depth s) (if fs_active s ! fs_depth s then [t] else [])"
proof -
  define s' where "s' = (if fs_active s ! fs_depth s then s\<lparr>fs_out := fs_out s @ [t]\<rparr> else s)"
  have step: "filter_step src flags (pre @ [t] @ post) (length pre) s = Inr (length pre, s')" for pre post
    using assms(2) by (simp add: filter_step_def Let_def nth_append s'_def)
  have "stacks_ok s'" "fs_depth s' = fs_depth s" "same_below (fs_depth s) s s'"
    "fs_out s' = fs_out s @ (if fs_active s ! fs_depth s then [t] else [])"
    using assms(1) by (simp_all add: s'_def stacks_ok_def same_below_def)
  moreover have "filter_loop src flags (pre @ [t] @ post) (length pre) s =
      filter_loop src flags (pre @ [t] @ post) (length pre + 1) s'" for pre post
    using step by (simp add: filter_loop.simps [of _ _ _ "length pre"])
  ultimately show ?thesis unfolding passes_def by fastforce
qed

lemma parent_active_eq: "stacks_ok s \<Longrightarrow> 0 < fs_depth s \<Longrightarrow> parent_active s = fs_active s ! (fs_depth s - 1)"
  by (cases "fs_depth s = 1") (auto simp: parent_active_def stacks_ok_def)

lemma step_at_line:
  assumes "dir_line src k ss line"
  shows "\<exists>t. (pre @ line @ post) ! length pre = t \<and> t_kind t = k \<and> t_col t = 1"
  using assms by (auto simp: dir_line_def nth_append)

lemma passes_if:
  assumes "stacks_ok s" and "fs_depth s + 1 < MAX_COND_DEPTH" and "dir_line src (Pp TOK_HASH_IF) (render 0 c) line"
    and "\<And>s'. s' = s\<lparr>fs_depth := fs_depth s + 1,
            fs_active := (fs_active s)[fs_depth s + 1 := fs_active s ! fs_depth s \<and> ceval flags c],
            fs_done := (fs_done s)[fs_depth s + 1 := ceval flags c]\<rparr> \<Longrightarrow> stacks_ok s' \<Longrightarrow>
          passes src flags s' seg (fs_depth s) out"
  shows "passes src flags s (line @ seg) (fs_depth s) out"
proof (rule passes_line [where s' = "s\<lparr>fs_depth := fs_depth s + 1,
            fs_active := (fs_active s)[fs_depth s + 1 := fs_active s ! fs_depth s \<and> ceval flags c],
            fs_done := (fs_done s)[fs_depth s + 1 := ceval flags c]\<rparr>"])
  fix pre post
  obtain j where "eval_cond_expr src (pre @ line @ post) (length pre) flags (tok_loc ((pre @ line @ post) ! length pre)) =
      Inr (ceval flags c, j)" "skip_newline (pre @ line @ post) j + 1 = length pre + length line"
    using dir_line_cond [OF assms(3)] by blast
  moreover obtain t where "(pre @ line @ post) ! length pre = t" "t_kind t = Pp TOK_HASH_IF" "t_col t = 1"
    using step_at_line [OF assms(3)] by blast
  ultimately show "\<exists>j. filter_step src flags (pre @ line @ post) (length pre) s = Inr (j,
      s\<lparr>fs_depth := fs_depth s + 1,
            fs_active := (fs_active s)[fs_depth s + 1 := fs_active s ! fs_depth s \<and> ceval flags c],
            fs_done := (fs_done s)[fs_depth s + 1 := ceval flags c]\<rparr>) \<and> j + 1 = length pre + length line"
    using assms(2) by (simp add: filter_step_def hash_if_def Let_def)
qed (use assms in \<open>auto simp: stacks_ok_def same_below_def dir_line_def\<close>)

lemma passes_else_if:
  assumes "stacks_ok s" and "0 < fs_depth s" and "dir_line src (Pp TOK_HASH_ELSE_IF) (render 0 c) line"
    and "\<And>s'. s' = s\<lparr>fs_active := (fs_active s)[fs_depth s :=
              fs_active s ! (fs_depth s - 1) \<and> \<not> fs_done s ! fs_depth s \<and> ceval flags c],
            fs_done := (if ceval flags c then (fs_done s)[fs_depth s := True] else fs_done s)\<rparr> \<Longrightarrow> stacks_ok s' \<Longrightarrow>
          passes src flags s' seg (fs_depth s - 1) out"
  shows "passes src flags s (line @ seg) (fs_depth s - 1) out"
proof (rule passes_line [where s' = "s\<lparr>fs_active := (fs_active s)[fs_depth s :=
              fs_active s ! (fs_depth s - 1) \<and> \<not> fs_done s ! fs_depth s \<and> ceval flags c],
            fs_done := (if ceval flags c then (fs_done s)[fs_depth s := True] else fs_done s)\<rparr>"
      and d = "fs_depth s"])
  fix pre post
  obtain j where "eval_cond_expr src (pre @ line @ post) (length pre) flags (tok_loc ((pre @ line @ post) ! length pre)) =
      Inr (ceval flags c, j)" "skip_newline (pre @ line @ post) j + 1 = length pre + length line"
    using dir_line_cond [OF assms(3)] by blast
  moreover obtain t where "(pre @ line @ post) ! length pre = t" "t_kind t = Pp TOK_HASH_ELSE_IF" "t_col t = 1"
    using step_at_line [OF assms(3)] by blast
  ultimately show "\<exists>j. filter_step src flags (pre @ line @ post) (length pre) s = Inr (j,
      s\<lparr>fs_active := (fs_active s)[fs_depth s :=
              fs_active s ! (fs_depth s - 1) \<and> \<not> fs_done s ! fs_depth s \<and> ceval flags c],
            fs_done := (if ceval flags c then (fs_done s)[fs_depth s := True] else fs_done s)\<rparr>) \<and>
      j + 1 = length pre + length line"
    using assms(1,2) by (simp add: filter_step_def hash_else_if_def Let_def parent_active_eq)
qed (use assms in \<open>auto simp: stacks_ok_def same_below_def dir_line_def\<close>)

lemma passes_else:
  assumes "stacks_ok s" and "0 < fs_depth s" and "dir_line src (Pp TOK_HASH_ELSE) [] line"
    and "\<And>s'. s' = s\<lparr>fs_active := (fs_active s)[fs_depth s :=
              fs_active s ! (fs_depth s - 1) \<and> \<not> fs_done s ! fs_depth s],
            fs_done := (fs_done s)[fs_depth s := True]\<rparr> \<Longrightarrow> stacks_ok s' \<Longrightarrow>
          passes src flags s' seg (fs_depth s - 1) out"
  shows "passes src flags s (line @ seg) (fs_depth s - 1) out"
proof (rule passes_line [where s' = "s\<lparr>fs_active := (fs_active s)[fs_depth s :=
              fs_active s ! (fs_depth s - 1) \<and> \<not> fs_done s ! fs_depth s],
            fs_done := (fs_done s)[fs_depth s := True]\<rparr>" and d = "fs_depth s"])
  fix pre post
  obtain t where "(pre @ line @ post) ! length pre = t" "t_kind t = Pp TOK_HASH_ELSE" "t_col t = 1"
    using step_at_line [OF assms(3)] by blast
  then show "\<exists>j. filter_step src flags (pre @ line @ post) (length pre) s = Inr (j,
      s\<lparr>fs_active := (fs_active s)[fs_depth s :=
              fs_active s ! (fs_depth s - 1) \<and> \<not> fs_done s ! fs_depth s],
            fs_done := (fs_done s)[fs_depth s := True]\<rparr>) \<and> j + 1 = length pre + length line"
    using assms(1,2) dir_line_plain [OF assms(3)]
    by (simp add: filter_step_def hash_else_def Let_def parent_active_eq)
qed (use assms in \<open>auto simp: stacks_ok_def same_below_def dir_line_def\<close>)

lemma passes_end:
  assumes "stacks_ok s" and "0 < fs_depth s" and "dir_line src (Pp TOK_HASH_END) [] line"
  shows "passes src flags s line (fs_depth s - 1) []"
proof -
  have "passes src flags s (line @ []) (fs_depth s - 1) []"
  proof (rule passes_line [where s' = "s\<lparr>fs_depth := fs_depth s - 1\<rparr>" and d = "fs_depth s - 1"])
    fix pre post
    obtain t where "(pre @ line @ post) ! length pre = t" "t_kind t = Pp TOK_HASH_END" "t_col t = 1"
      using step_at_line [OF assms(3)] by blast
    then show "\<exists>j. filter_step src flags (pre @ line @ post) (length pre) s = Inr (j, s\<lparr>fs_depth := fs_depth s - 1\<rparr>) \<and>
        j + 1 = length pre + length line"
      using assms(2) dir_line_plain [OF assms(3)] by (simp add: filter_step_def hash_end_def Let_def)
  next
    have "stacks_ok (s\<lparr>fs_depth := fs_depth s - 1\<rparr>)" using assms(1) by (auto simp: stacks_ok_def)
    from passes_Nil [OF this]
    show "passes src flags (s\<lparr>fs_depth := fs_depth s - 1\<rparr>) [] (fs_depth s - 1) []" by simp
  qed (use assms in \<open>auto simp: stacks_ok_def same_below_def dir_line_def\<close>)
  then show ?thesis by simp
qed

lemma filter_passes:
  "stacks_ok s1 \<Longrightarrow> lines_ok src (fs_depth s1) its \<Longrightarrow>
     passes src flags s1 (flatten its) (fs_depth s1) (if fs_active s1 ! fs_depth s1 then select flags its else [])"
  "stacks_ok s2 \<Longrightarrow> 0 < fs_depth s2 \<Longrightarrow> lines_ok_br src (fs_depth s2) br \<Longrightarrow>
     passes src flags s2 (flatten_br br) (fs_depth s2 - 1)
       (if fs_active s2 ! (fs_depth s2 - 1) \<and> \<not> fs_done s2 ! fs_depth s2 then select_br flags br else [])"
proof (induction its and br arbitrary: s1 and s2)
  case Stop
  then show ?case using passes_Nil by simp
next
  case (Keep t its)
  have tok: "passes src flags s1 [t] (fs_depth s1) (if fs_active s1 ! fs_depth s1 then [t] else [])"
    using passes_keep Keep.prems by simp
  have rest: "passes src flags s' (flatten its) (fs_depth s1) (if fs_active s1 ! fs_depth s1 then select flags its else [])"
    if "stacks_ok s'" "fs_depth s' = fs_depth s1" "same_below (fs_depth s1) s1 s'" for s'
    using Keep.IH [OF that(1)] Keep.prems that(2,3) by (simp add: same_below_def)
  show ?case
    using passes_append [OF tok rest] by (simp split: if_splits)
next
  case (If line c body br rest)
  define d where "d = fs_depth s1"
  define a where "a = fs_active s1 ! d"
  have ok: "d + 1 < MAX_COND_DEPTH" "dir_line src (Pp TOK_HASH_IF) (render 0 c) line"
    "lines_ok src (d + 1) body" "lines_ok_br src (d + 1) br" "lines_ok src d rest"
    using If.prems by (simp_all add: d_def)
  have block: "passes src flags s1 (line @ flatten body @ flatten_br br) d
      (if a then (if ceval flags c then select flags body else select_br flags br) else [])"
    unfolding d_def
  proof (rule passes_if [OF If.prems(1) _ ok(2)], use ok(1) d_def in simp)
    fix s' assume s': "s' = s1\<lparr>fs_depth := fs_depth s1 + 1,
            fs_active := (fs_active s1)[fs_depth s1 + 1 := fs_active s1 ! fs_depth s1 \<and> ceval flags c],
            fs_done := (fs_done s1)[fs_depth s1 + 1 := ceval flags c]\<rparr>" "stacks_ok s'"
    have top: "fs_depth s' = d + 1" "fs_active s' ! (d + 1) = (a \<and> ceval flags c)" "fs_active s' ! d = a"
      "fs_done s' ! (d + 1) = ceval flags c"
      using If.prems(1) ok(1) by (auto simp: s'(1) d_def a_def stacks_ok_def)
    have body: "passes src flags s' (flatten body) (d + 1) (if a \<and> ceval flags c then select flags body else [])"
      using If.IH(1) [OF s'(2)] ok(3) top by simp
    have br: "passes src flags s'' (flatten_br br) d (if a \<and> \<not> ceval flags c then select_br flags br else [])"
      if "stacks_ok s''" "fs_depth s'' = d + 1" "same_below (d + 1) s' s''" for s''
      using If.IH(2) [OF that(1)] ok(4) top that(2,3) by (simp add: same_below_def)
    show "passes src flags s' (flatten body @ flatten_br br) (fs_depth s1)
        (if a then (if ceval flags c then select flags body else select_br flags br) else [])"
      using passes_append [OF body br] by (simp add: d_def split: if_splits)
  qed
  have rest: "passes src flags s' (flatten rest) d (if a then select flags rest else [])"
    if "stacks_ok s'" "fs_depth s' = d" "same_below d s1 s'" for s'
    using If.IH(3) [OF that(1)] ok(5) that(2,3) by (simp add: same_below_def a_def)
  show ?case
    using passes_append [OF block rest] by (simp add: d_def a_def split: if_splits)
next
  case (End line)
  then show ?case using passes_end by simp
next
  case (ElseIf line c body br)
  define d where "d = fs_depth s2"
  define pa where "pa = fs_active s2 ! (d - 1)"
  define dn where "dn = fs_done s2 ! d"
  have ok: "dir_line src (Pp TOK_HASH_ELSE_IF) (render 0 c) line" "lines_ok src d body" "lines_ok_br src d br"
    using ElseIf.prems by (simp_all add: d_def)
  have dl: "d < MAX_COND_DEPTH" "0 < d" using ElseIf.prems by (simp_all add: d_def stacks_ok_def)
  show ?case
    unfolding flatten_br.simps
  proof (rule passes_else_if [OF ElseIf.prems(1,2) ok(1)])
    fix s' assume s': "s' = s2\<lparr>fs_active := (fs_active s2)[fs_depth s2 :=
              fs_active s2 ! (fs_depth s2 - 1) \<and> \<not> fs_done s2 ! fs_depth s2 \<and> ceval flags c],
            fs_done := (if ceval flags c then (fs_done s2)[fs_depth s2 := True] else fs_done s2)\<rparr>" "stacks_ok s'"
    have top: "fs_depth s' = d" "fs_active s' ! d = (pa \<and> \<not> dn \<and> ceval flags c)" "fs_active s' ! (d - 1) = pa"
      "fs_done s' ! d = (dn \<or> ceval flags c)"
      using ElseIf.prems(1) dl by (auto simp: s'(1) d_def pa_def dn_def stacks_ok_def)
    have body: "passes src flags s' (flatten body) d (if pa \<and> \<not> dn \<and> ceval flags c then select flags body else [])"
      using ElseIf.IH(1) [OF s'(2)] ok(2) top by simp
    have br: "passes src flags s'' (flatten_br br) (d - 1)
        (if pa \<and> \<not> (dn \<or> ceval flags c) then select_br flags br else [])"
      if "stacks_ok s''" "fs_depth s'' = d" "same_below d s' s''" for s''
      using ElseIf.IH(2) [OF that(1)] ok(3) top that(2,3) dl by (simp add: same_below_def)
    show "passes src flags s' (flatten body @ flatten_br br) (fs_depth s2 - 1)
        (if fs_active s2 ! (fs_depth s2 - 1) \<and> \<not> fs_done s2 ! fs_depth s2
         then select_br flags (ElseIf line c body br) else [])"
      using passes_append [OF body br] unfolding d_def [symmetric] pa_def [symmetric] dn_def [symmetric]
      by (auto split: if_splits)
  qed
next
  case (Else line body fin)
  define d where "d = fs_depth s2"
  define pa where "pa = fs_active s2 ! (d - 1)"
  define dn where "dn = fs_done s2 ! d"
  have ok: "dir_line src (Pp TOK_HASH_ELSE) [] line" "lines_ok src d body" "dir_line src (Pp TOK_HASH_END) [] fin"
    using Else.prems by (simp_all add: d_def)
  have dl: "d < MAX_COND_DEPTH" "0 < d" using Else.prems by (simp_all add: d_def stacks_ok_def)
  show ?case
    unfolding flatten_br.simps
  proof (rule passes_else [OF Else.prems(1,2) ok(1)])
    fix s' assume s': "s' = s2\<lparr>fs_active := (fs_active s2)[fs_depth s2 :=
              fs_active s2 ! (fs_depth s2 - 1) \<and> \<not> fs_done s2 ! fs_depth s2],
            fs_done := (fs_done s2)[fs_depth s2 := True]\<rparr>" "stacks_ok s'"
    have top: "fs_depth s' = d" "fs_active s' ! d = (pa \<and> \<not> dn)"
      using Else.prems(1) dl by (auto simp: s'(1) d_def pa_def dn_def stacks_ok_def)
    have body: "passes src flags s' (flatten body) d (if pa \<and> \<not> dn then select flags body else [])"
      using Else.IH [OF s'(2)] ok(2) top by simp
    have fin: "passes src flags s'' fin (d - 1) []" if "stacks_ok s''" "fs_depth s'' = d" for s''
      using passes_end [OF that(1) _ ok(3)] that(2) dl by simp
    show "passes src flags s' (flatten body @ fin) (fs_depth s2 - 1)
        (if fs_active s2 ! (fs_depth s2 - 1) \<and> \<not> fs_done s2 ! fs_depth s2
         then select_br flags (Else line body fin) else [])"
      using passes_append [OF body fin] unfolding d_def [symmetric] pa_def [symmetric] dn_def [symmetric]
      by (auto split: if_splits)
  qed
qed

lemma stacks_ok_init: "stacks_ok filter_init"
  by (simp add: stacks_ok_def filter_init_def MAX_COND_DEPTH_def)

lemma filter_selects:
  assumes "lines_ok src 0 its"
  shows "filter_conditionals src flags (flatten its) = Inr (select flags its)"
proof -
  have "passes src flags filter_init (flatten its) 0 (select flags its)"
    using filter_passes(1) [OF stacks_ok_init, of src its flags] assms
    by (simp add: filter_init_def MAX_COND_DEPTH_def)
  then obtain s' where s': "fs_depth s' = 0" "fs_out s' = select flags its"
    "filter_loop src flags (flatten its) 0 filter_init = filter_loop src flags (flatten its) (length (flatten its)) s'"
    unfolding passes_def by (metis (no_types, lifting) append_Nil append_Nil2 add_0 list.size(3) filter_init_def filter_state.select_convs(4))
  then show ?thesis
    by (simp add: filter_conditionals_def filter_loop.simps [of _ _ _ "length (flatten its)"])
qed

subsection \<open>What the filter keeps\<close>

lemma eval_ends:
  "\<forall>b p. eval_or e1 p1 = Inr (b, p) \<longrightarrow> t_kind (ce_tokens e1 ! (p - 1)) \<noteq> Sp TOK_EOF"
  "\<forall>b p. or_loop e2 l2 p2 = Inr (b, p) \<longrightarrow> p = p2 \<or> t_kind (ce_tokens e2 ! (p - 1)) \<noteq> Sp TOK_EOF"
  "\<forall>b p. eval_and e3 p3 = Inr (b, p) \<longrightarrow> t_kind (ce_tokens e3 ! (p - 1)) \<noteq> Sp TOK_EOF"
  "\<forall>b p. and_loop e4 l4 p4 = Inr (b, p) \<longrightarrow> p = p4 \<or> t_kind (ce_tokens e4 ! (p - 1)) \<noteq> Sp TOK_EOF"
  "\<forall>b p. eval_unary e5 p5 = Inr (b, p) \<longrightarrow> t_kind (ce_tokens e5 ! (p - 1)) \<noteq> Sp TOK_EOF"
  "\<forall>b p. eval_primary e6 p6 = Inr (b, p) \<longrightarrow> t_kind (ce_tokens e6 ! (p - 1)) \<noteq> Sp TOK_EOF"
proof (induction e1 p1 and e2 l2 p2 and e3 p3 and e4 l4 p4 and e5 p5 and e6 p6
    rule: eval_or_or_loop_eval_and_and_loop_eval_unary_eval_primary.induct)
  case (1 e pos)
  then show ?case by (fastforce simp: eval_or.simps bindE_Inr_iff)
next
  case (2 e left pos)
  then show ?case by (fastforce simp: or_loop.simps [of e left pos] bindE_Inr_iff split: if_splits)
next
  case (3 e pos)
  then show ?case by (fastforce simp: eval_and.simps bindE_Inr_iff)
next
  case (4 e left pos)
  then show ?case by (fastforce simp: and_loop.simps [of e left pos] bindE_Inr_iff split: if_splits)
next
  case (5 e pos)
  then show ?case by (fastforce simp: eval_unary.simps [of e pos] bindE_Inr_iff split: if_splits)
next
  case (6 e pos)
  then show ?case
    by (fastforce simp: eval_primary.simps [of e pos] eval_ident_def Let_def sees_def bindE_Inr_iff split: if_splits)
qed

lemma eval_cond_expr_inside:
  assumes "eval_cond_expr src tokens i flags loc = Inr r" and "i < length tokens - 1" and "t_kind (last tokens) = Sp TOK_EOF"
  shows "snd r < length tokens - 1"
proof -
  obtain q where q: "eval_or \<lparr>ce_src = src, ce_tokens = tokens, ce_flags = flags, ce_loc = loc\<rparr> (i + 1) = Inr q"
    "r = (fst q, snd q - 1)"
    using assms by (auto simp: eval_cond_expr_def Let_def bindE_Inr_iff split: if_splits)
  then have "snd q \<le> length tokens" "i + 1 < snd q"
    using eval_or_progress [of _ "i + 1" "fst q" "snd q"] by fastforce+
  moreover have "t_kind (tokens ! (snd q - 1)) \<noteq> Sp TOK_EOF"
    using eval_ends(1) [of "\<lparr>ce_src = src, ce_tokens = tokens, ce_flags = flags, ce_loc = loc\<rparr>" "i + 1"] q
    by (cases q) auto
  then have "snd q - 1 \<noteq> length tokens - 1"
    using assms(2,3) by (metis last_conv_nth list.size(3) not_less_zero zero_diff)
  ultimately show ?thesis using q(2) by simp
qed

lemma skip_newline_inside:
  assumes "j < length tokens - 1" and "t_kind (last tokens) = Sp TOK_EOF"
  shows "skip_newline tokens j < length tokens - 1"
proof (cases "skip_newline tokens j = j")
  case False
  then have "skip_newline tokens j = j + 1" "t_kind (tokens ! (j + 1)) = Lay TOK_NEWLINE"
    by (auto simp: skip_newline_def split: if_splits)
  moreover have "tokens \<noteq> []" using assms(1) by auto
  moreover have "t_kind (last tokens) \<noteq> Lay TOK_NEWLINE" using assms(2) by simp
  ultimately have "j + 1 \<noteq> length tokens - 1"
    by (metis last_conv_nth)
  then show ?thesis using assms(1) \<open>skip_newline tokens j = j + 1\<close> by simp
qed (use assms in simp)

lemma filter_step_cases:
  assumes "filter_step src flags tokens i s = Inr (j, s')" and "stacks_ok s" and "i < length tokens"
  shows "stacks_ok s' \<and>
    (t_kind (tokens ! i) \<in> directive_kinds \<and> fs_out s' = fs_out s \<and>
       (t_kind (last tokens) = Sp TOK_EOF \<longrightarrow> i < length tokens - 1 \<longrightarrow> j < length tokens - 1) \<or>
     t_kind (tokens ! i) \<notin> directive_kinds \<and> j = i \<and> fs_depth s' = fs_depth s \<and>
       fs_out s' = fs_out s @ (if fs_active s ! fs_depth s then [tokens ! i] else []))"
proof -
  have cond: "skip_newline tokens (snd q) < length tokens - 1"
    if "eval_cond_expr src tokens i flags loc = Inr q" "t_kind (last tokens) = Sp TOK_EOF" "i < length tokens - 1" for loc q
    using skip_newline_inside [OF eval_cond_expr_inside [OF that(1,3,2)] that(2)] .
  have "hash_if src flags tokens i s = Inr (j, s') \<Longrightarrow> ?thesis" if "t_kind (tokens ! i) = Pp TOK_HASH_IF"
    using assms(2) cond that by (auto simp: hash_if_def Let_def bindE_Inr_iff stacks_ok_def split: if_splits)
  moreover have "hash_else_if src flags tokens i s = Inr (j, s') \<Longrightarrow> ?thesis" if "t_kind (tokens ! i) = Pp TOK_HASH_ELSE_IF"
    using assms(2) cond that by (auto simp: hash_else_if_def Let_def bindE_Inr_iff stacks_ok_def split: if_splits)
  moreover have "hash_else tokens i s = Inr (j, s') \<Longrightarrow> ?thesis" if "t_kind (tokens ! i) = Pp TOK_HASH_ELSE"
    using assms(2) skip_newline_inside that by (auto simp: hash_else_def Let_def stacks_ok_def split: if_splits)
  moreover have "hash_end tokens i s = Inr (j, s') \<Longrightarrow> ?thesis" if "t_kind (tokens ! i) = Pp TOK_HASH_END"
    using assms(2) skip_newline_inside that by (auto simp: hash_end_def Let_def stacks_ok_def split: if_splits)
  moreover have "?thesis" if "t_kind (tokens ! i) \<notin> directive_kinds"
    using assms that by (auto simp: filter_step_def Let_def stacks_ok_def split: if_splits)
  ultimately show ?thesis
    using assms(1) by (auto simp: filter_step_def Let_def split: if_splits)
qed

lemma filter_loop_keeps:
  assumes "filter_loop src flags tokens i s = Inr s'" and "stacks_ok s"
  shows "\<exists>kept. fs_out s' = fs_out s @ kept \<and> subseq kept (drop i tokens) \<and>
    (\<forall>t \<in> set kept. t_kind t \<notin> directive_kinds)"
  using assms
proof (induction src flags tokens i s rule: filter_loop.induct)
  case (1 src flags tokens i s)
  show ?case
  proof (cases "i < length tokens")
    case False
    then show ?thesis using 1 by (simp add: filter_loop.simps [of src flags tokens i s])
  next
    case True
    then obtain r where r: "filter_step src flags tokens i s = Inr r"
      "filter_loop src flags tokens (fst r + 1) (snd r) = Inr s'"
      using "1.prems"(1) by (auto simp: filter_loop.simps [of src flags tokens i s] bindE_Inr_iff)
    then have step: "filter_step src flags tokens i s = Inr (fst r, snd r)" by simp
    note cases = filter_step_cases [OF step "1.prems"(2) True]
    obtain kept where kept: "fs_out s' = fs_out (snd r) @ kept" "subseq kept (drop (fst r + 1) tokens)"
      "\<forall>t \<in> set kept. t_kind t \<notin> directive_kinds"
      using "1.IH" [OF True r] cases by blast
    define x where "x = (if t_kind (tokens ! i) \<notin> directive_kinds \<and> fs_active s ! fs_depth s then [tokens ! i] else [])"
    have "fs_out (snd r) = fs_out s @ x" using cases by (auto simp: x_def)
    moreover have "i \<le> fst r" using filter_step_progress [OF r(1)] .
    then have "drop (fst r + 1) tokens = drop (fst r - i) (drop (i + 1) tokens)" by simp
    then have "subseq kept (drop (i + 1) tokens)"
      using kept(2) by (metis subseq_order.trans suffix_drop suffix_imp_subseq)
    then have "subseq (x @ kept) (drop i tokens)"
      using True by (auto simp: x_def simp flip: Cons_nth_drop_Suc)
    moreover have "\<forall>t \<in> set (x @ kept). t_kind t \<notin> directive_kinds"
      using kept(3) by (auto simp: x_def)
    ultimately show ?thesis using kept(1) by (intro exI [of _ "x @ kept"]) simp
  qed
qed

lemma filter_loop_eof:
  assumes "filter_loop src flags tokens i s = Inr s'" and "stacks_ok s" and "i < length tokens"
    and "t_kind (last tokens) = Sp TOK_EOF" and "fs_depth s' = 0"
  shows "fs_out s' \<noteq> [] \<and> last (fs_out s') = last tokens"
  using assms
proof (induction src flags tokens i s rule: filter_loop.induct)
  case (1 src flags tokens i s)
  obtain r where r: "filter_step src flags tokens i s = Inr r"
    "filter_loop src flags tokens (fst r + 1) (snd r) = Inr s'"
    using "1.prems"(1,3) by (auto simp: filter_loop.simps [of src flags tokens i s] bindE_Inr_iff)
  then have step: "filter_step src flags tokens i s = Inr (fst r, snd r)" by simp
  note cases = filter_step_cases [OF step "1.prems"(2,3)]
  show ?case
  proof (cases "i = length tokens - 1")
    case True
    then have at: "tokens ! i = last tokens" using "1.prems"(3) by (metis last_conv_nth list.size(3) not_less_zero)
    then have keep: "fst r = i" "fs_depth (snd r) = fs_depth s"
      "fs_out (snd r) = fs_out s @ (if fs_active s ! fs_depth s then [last tokens] else [])"
      using cases "1.prems"(4) by auto
    moreover have "\<not> fst r + 1 < length tokens" using keep(1) True by simp
    ultimately have "s' = snd r" using r(2) by (subst (asm) filter_loop.simps) simp
    then show ?thesis
      using keep "1.prems"(2,5) by (simp add: stacks_ok_def)
  next
    case False
    then have "fst r + 1 < length tokens"
      using cases "1.prems"(3,4) by auto
    then show ?thesis
      using "1.IH" [OF "1.prems"(3) r] cases "1.prems"(4,5) by blast
  qed
qed

subsection \<open>Properties\<close>

text \<open>
  \<open>#if\<close> expressions have their boolean meaning. The tokens of an expression tree, written
  with the precedence \<open>!\<close>, \<open>&&\<close>, \<open>||\<close> and parentheses where it needs them, up to the end of
  the line, evaluate to the value of the tree under the flags, and the evaluator consumes
  exactly them: operators of one level associate to the left, a comparison holds if the flag
  has that value, a bare name if the flag is set, with a value or without.
\<close>

theorem conditions_mean:
  assumes "map (spelling src) cs = render 0 c" and "rest = [] \<or> t_kind (hd rest) = Lay TOK_NEWLINE"
  shows "eval_cond_expr src (pre @ h # cs @ rest) (length pre) flags loc = Inr (ceval flags c, length pre + length cs)"
proof -
  define e where "e = \<lparr>ce_src = src, ce_tokens = pre @ h # cs @ rest, ce_flags = flags, ce_loc = loc\<rparr>"
  have len: "length cs = length (render 0 c)" using arg_cong [OF assms(1), of length] by simp
  have "reads e (length pre + 1) (render 0 c)"
    using assms(1) len by (simp add: reads_def e_def)
  moreover have "at_expr_end e (length pre + 1 + length (render 0 c))"
    using assms(2) len by (cases rest) (auto simp: at_expr_end_def e_def nth_append)
  ultimately show ?thesis
    using eval_cond_expr_means [OF e_def] len by simp
qed

definition static_token :: "token_kind \<Rightarrow> string \<Rightarrow> nat \<Rightarrow> token" where
  "static_token k s c = \<lparr>t_kind = k, t_start = Static s, t_length = length s, t_line = 1, t_col = c\<rparr>"

lemma conditions_mean_witness:
  "eval_cond_expr [] [static_token (Pp TOK_HASH_IF) ''#if'' 1, static_token (Op TOK_BANG) ''!'' 5,
      static_token (Idt TOK_IDENT) ''os'' 6, static_token (Lay TOK_NEWLINE) [] 8] 0
      [\<lparr>fl_name = ''os'', fl_value = None\<rparr>] (mk_loc 1 1) = Inr (False, 2)"
  using conditions_mean [of "[]" "[static_token (Op TOK_BANG) ''!'' 5, static_token (Idt TOK_IDENT) ''os'' 6]"
      "CNot (CFlag ''os'')" "[static_token (Lay TOK_NEWLINE) [] 8]" "[]"]
  by (simp add: spelling_def static_token_def)

text \<open>
  C8: The filter selects branches. On tokens that form blocks of directive lines nested less
  than 32 deep, \<open>filter_conditionals\<close> returns exactly the tokens of the branches the flags
  select: the first branch of a block whose condition holds, else its \<open>#else\<close>, and nothing of
  a block in a branch that is not selected; no directive line remains.
\<close>

theorem filter_selects_branches:
  assumes "lines_ok src 0 its"
  shows "filter_conditionals src flags (flatten its) = Inr (select flags its)"
  using assms by (rule filter_selects)

lemma filter_selects_branches_witness:
  "filter_conditionals [] []
     [static_token (Pp TOK_HASH_IF) ''#if'' 1, static_token (Idt TOK_IDENT) ''a'' 5, static_token (Lay TOK_NEWLINE) [] 6,
      static_token (Idt TOK_IDENT) ''x'' 1,
      static_token (Pp TOK_HASH_ELSE) ''#else'' 1, static_token (Lay TOK_NEWLINE) [] 6,
      static_token (Idt TOK_IDENT) ''y'' 1,
      static_token (Pp TOK_HASH_END) ''#end'' 1, static_token (Lay TOK_NEWLINE) [] 5] =
   Inr [static_token (Idt TOK_IDENT) ''y'' 1]"
  using filter_selects_branches [of "[]"
      "If [static_token (Pp TOK_HASH_IF) ''#if'' 1, static_token (Idt TOK_IDENT) ''a'' 5, static_token (Lay TOK_NEWLINE) [] 6]
        (CFlag ''a'') (Keep (static_token (Idt TOK_IDENT) ''x'' 1) Stop)
        (Else [static_token (Pp TOK_HASH_ELSE) ''#else'' 1, static_token (Lay TOK_NEWLINE) [] 6]
          (Keep (static_token (Idt TOK_IDENT) ''y'' 1) Stop)
          [static_token (Pp TOK_HASH_END) ''#end'' 1, static_token (Lay TOK_NEWLINE) [] 5]) Stop" "[]"]
  by (simp add: dir_line_def static_token_def spelling_def MAX_COND_DEPTH_def)

lemma filter_keeps:
  assumes "filter_conditionals src flags tokens = Inr out"
    and "tokens \<noteq> []" and "t_kind (last tokens) = Sp TOK_EOF"
  shows "subseq out tokens \<and> {t_kind t | t. t \<in> set out} \<inter> directive_kinds = {} \<and> out \<noteq> [] \<and> last out = last tokens"
proof -
  obtain s' where s': "filter_loop src flags tokens 0 filter_init = Inr s'" "fs_depth s' = 0" "out = fs_out s'"
    using assms(1) by (auto simp: filter_conditionals_def bindE_Inr_iff split: if_splits)
  obtain kept where "fs_out s' = fs_out filter_init @ kept" "subseq kept tokens" "\<forall>t \<in> set kept. t_kind t \<notin> directive_kinds"
    using filter_loop_keeps [OF s'(1) stacks_ok_init] by auto
  then have "subseq out tokens" "{t_kind t | t. t \<in> set out} \<inter> directive_kinds = {}"
    using s'(3) by (auto simp: filter_init_def)
  then show ?thesis
    using filter_loop_eof [OF s'(1) stacks_ok_init _ assms(3) s'(2)] assms(2) s'(3) by simp
qed

text \<open>
  Whatever the input, the filter only drops tokens: its result is a subsequence of the
  tokens without any directive, and the end of file, on which the layout pass relies, stays
  the last token.
\<close>

theorem filter_keeps_tokens:
  assumes "filter_conditionals src flags tokens = Inr out"
    and "tokens \<noteq> []" and "t_kind (last tokens) = Sp TOK_EOF"
  shows "subseq out tokens \<and> {t_kind t | t. t \<in> set out} \<inter> directive_kinds = {} \<and> out \<noteq> [] \<and> last out = last tokens"
  using assms by (rule filter_keeps)

lemma filter_keeps_tokens_witness:
  "last (projr (filter_conditionals [] [] [static_token (Idt TOK_IDENT) ''x'' 1, static_token (Sp TOK_EOF) [] 2])) =
   static_token (Sp TOK_EOF) [] 2"
proof -
  have "filter_conditionals [] [] [static_token (Idt TOK_IDENT) ''x'' 1, static_token (Sp TOK_EOF) [] 2] =
      Inr [static_token (Idt TOK_IDENT) ''x'' 1, static_token (Sp TOK_EOF) [] 2]"
    by code_simp
  from filter_keeps_tokens [OF this] this show ?thesis by (simp add: static_token_def)
qed

end
