(* ===== verification/FC_Layout.thy ===== *)
theory FC_Layout
  imports FC_Cond
begin

section \<open>The layout pass (\<open>src/lexer.c\<close>, phase 2)\<close>

text \<open>
  \<open>lexer_tokenize\<close>: the raw tokens are filtered and the newlines replaced by \<open>INDENT\<close>,
  \<open>DEDENT\<close> and separating \<open>NEWLINE\<close> tokens, from the columns of the lines and a stack of open
  blocks. The local variables of the loop are the record \<open>layout\<close>. An error is a message with
  a location, or without one where the code calls \<open>diag_fatal_simple\<close>.
\<close>

type_synonym lex_error = "src_loc option \<times> string"

definition located :: "fatal + 'a \<Rightarrow> lex_error + 'a" where
  "located r = map_sum (\<lambda>(loc, msg). (Some loc, msg)) id r"

definition MAX_INDENT :: nat where "MAX_INDENT = 128"

definition make_layout_token :: "tok_layout \<Rightarrow> nat \<Rightarrow> nat \<Rightarrow> token" where
  "make_layout_token k l c = \<lparr>t_kind = Lay k, t_start = Static [], t_length = 0, t_line = l, t_col = c\<rparr>"

definition make_eof_token :: "nat \<Rightarrow> nat \<Rightarrow> token" where
  "make_eof_token l c = \<lparr>t_kind = Sp TOK_EOF, t_start = Static [], t_length = 0, t_line = l, t_col = c\<rparr>"

definition is_always_block_former :: "token_kind \<Rightarrow> bool" where
  "is_always_block_former k \<longleftrightarrow>
     k \<in> {Op TOK_ARROW, Kw TOK_WITH, Kw TOK_THEN, Kw TOK_ELSE, Kw TOK_LOOP, Kw TOK_DO, Kw TOK_GUARDED,
          Kw TOK_UNGUARDED, Kw TOK_CHECKED, Kw TOK_UNCHECKED}"

record layout =
  ly_out :: "token list"
  ly_cols :: "nat list"
  ly_match :: "bool list"
  ly_depth :: nat
  ly_saw_decl :: bool
  ly_last :: token_kind
  ly_bracket :: nat

definition layout_init :: layout where
  "layout_init =
     \<lparr>ly_out = [], ly_cols = (replicate MAX_INDENT 0)[0 := 1], ly_match = replicate MAX_INDENT False,
      ly_depth = 0, ly_saw_decl = False, ly_last = Sp TOK_EOF, ly_bracket = 0\<rparr>"

definition emit :: "token \<Rightarrow> layout \<Rightarrow> layout" where "emit t s = s\<lparr>ly_out := ly_out s @ [t]\<rparr>"

abbreviation "top_col s \<equiv> ly_cols s ! ly_depth s"

text \<open>Closing one block, located at the newline \<open>t\<close>.\<close>

definition pop_block :: "token \<Rightarrow> layout \<Rightarrow> layout" where
  "pop_block t s = emit (make_layout_token TOK_DEDENT (t_line t) (t_col t)) (s\<lparr>ly_depth := ly_depth s - 1\<rparr>)"

text \<open>Opening one at the first token of its first line.\<close>

definition push_block :: "token \<Rightarrow> bool \<Rightarrow> layout \<Rightarrow> lex_error + layout" where
  "push_block nxt is_match s =
     (let d = ly_depth s + 1
      in if MAX_INDENT \<le> d then Inl (None, ''indentation too deep'')
         else Inr (emit (make_layout_token TOK_INDENT (t_line nxt) (t_col nxt))
                (s\<lparr>ly_depth := d, ly_cols := (ly_cols s)[d := t_col nxt], ly_match := (ly_match s)[d := is_match]\<rparr>)))"

text \<open>The loop that closes same-level match blocks, and the one that closes deeper blocks.\<close>

function close_matches :: "token \<Rightarrow> token \<Rightarrow> layout \<Rightarrow> layout" where
  "close_matches t nxt s =
     (if 0 < ly_depth s \<and> ly_match s ! ly_depth s \<and> t_col nxt \<le> top_col s \<and>
         \<not> (t_col nxt = top_col s \<and> t_kind nxt = Op TOK_PIPE)
      then close_matches t nxt (pop_block t s) else s)"
  by pat_completeness auto
termination
  by (relation "measure (\<lambda>(t, n, s). ly_depth s)") (auto simp: pop_block_def emit_def)

function close_deeper :: "token \<Rightarrow> token \<Rightarrow> layout \<Rightarrow> layout" where
  "close_deeper t nxt s =
     (if 0 < ly_depth s \<and> t_col nxt < top_col s then close_deeper t nxt (pop_block t s) else s)"
  by pat_completeness auto
termination
  by (relation "measure (\<lambda>(t, n, s). ly_depth s)") (auto simp: pop_block_def emit_def)

declare close_matches.simps [simp del] close_deeper.simps [simp del]

definition separate :: "token \<Rightarrow> token_kind set \<Rightarrow> layout \<Rightarrow> layout" where
  "separate t no_after s =
     (if ly_out s \<noteq> [] \<and> t_kind (last (ly_out s)) \<notin> no_after
      then emit (make_layout_token TOK_NEWLINE (t_line t) (t_col t)) s else s)"

definition show_col :: "nat \<Rightarrow> string" where
  "show_col c = ''inconsistent indentation (col '' @ dec_nat c @ '' does not match any block)''"

text \<open>A newline \<open>t\<close> whose next line starts with \<open>nxt\<close>.\<close>

definition layout_line :: "token \<Rightarrow> token \<Rightarrow> layout \<Rightarrow> lex_error + layout" where
  "layout_line t nxt s0 =
     (let block_former = (is_always_block_former (ly_last s0) \<or> ly_last s0 = Op TOK_EQ \<and> ly_saw_decl s0);
          s = close_matches t nxt (s0\<lparr>ly_saw_decl := False\<rparr>)
      in if block_former \<and> top_col s < t_col nxt then push_block nxt False s
         else if ly_last s = Kw TOK_WITH \<and> t_col nxt = top_col s \<and> t_kind nxt = Op TOK_PIPE then push_block nxt True s
         else if t_col nxt = top_col s then Inr (separate t {Lay TOK_INDENT, Lay TOK_NEWLINE} s)
         else if t_col nxt < top_col s then
           (let s1 = close_matches t nxt (close_deeper t nxt s)
            in if t_col nxt \<noteq> top_col s1
               then Inl (Some (mk_loc (t_line nxt) (t_col nxt)), show_col (t_col nxt))
               else Inr (separate t {Lay TOK_NEWLINE} s1))
         else Inr s)"

text \<open>The index of the last newline of the run that starts at \<open>i\<close>.\<close>

definition newline_run :: "token list \<Rightarrow> nat \<Rightarrow> nat" where
  "newline_run raw i = i + length (takeWhile (\<lambda>t. t_kind t = Lay TOK_NEWLINE) (drop (i + 1) raw))"

definition layout_newline :: "token list \<Rightarrow> nat \<Rightarrow> layout \<Rightarrow> lex_error + nat \<times> layout" where
  "layout_newline raw i s =
     (let l = newline_run raw i; j = l + 1
      in if 0 < ly_bracket s then Inr (l, s)
         else if length raw \<le> j \<or> t_kind (raw ! j) = Sp TOK_EOF then Inr (l, s)
         else bindE (layout_line (raw ! i) (raw ! j) s) (\<lambda>s'. Inr (l, s')))"

definition track_bracket :: "token_kind \<Rightarrow> nat \<Rightarrow> nat" where
  "track_bracket k n =
     (if k \<in> {Dl TOK_LPAREN, Dl TOK_LBRACKET, Dl TOK_LBRACE} then n + 1
      else if k \<in> {Dl TOK_RPAREN, Dl TOK_RBRACKET, Dl TOK_RBRACE} then n - 1 else n)"

definition is_decl_keyword :: "token_kind \<Rightarrow> bool" where
  "is_decl_keyword k \<longleftrightarrow>
     k \<in> {Kw TOK_LET, Kw TOK_STRUCT, Kw TOK_UNION, Kw TOK_ENUM, Kw TOK_ERROR_KW, Kw TOK_MODULE}"

definition layout_token :: "token \<Rightarrow> layout \<Rightarrow> layout" where
  "layout_token t s =
     (let s1 = emit t (s\<lparr>ly_bracket := track_bracket (t_kind t) (ly_bracket s)\<rparr>)
      in s1\<lparr>ly_last := t_kind t, ly_saw_decl := ly_saw_decl s1 \<or> is_decl_keyword (t_kind t)\<rparr>)"

definition layout_step :: "token list \<Rightarrow> nat \<Rightarrow> layout \<Rightarrow> lex_error + nat \<times> layout" where
  "layout_step raw i s =
     (let t = raw ! i
      in if t_kind t = Lay TOK_NEWLINE then layout_newline raw i s
         else if t_kind t = Sp TOK_EOF then Inr (i, s)
         else Inr (i, layout_token t s))"

lemma layout_step_forward: "layout_step raw i s = Inr r \<Longrightarrow> i \<le> fst r"
  by (auto simp: layout_step_def layout_newline_def Let_def bindE_Inr_iff newline_run_def split: if_splits)

function layout_loop :: "token list \<Rightarrow> nat \<Rightarrow> layout \<Rightarrow> lex_error + layout" where
  "layout_loop raw i s =
     (if i < length raw
      then bindE (layout_step raw i s) (\<lambda>r. layout_loop raw (fst r + 1) (snd r))
      else Inr s)"
  by pat_completeness auto
termination
  by (relation "measure (\<lambda>(raw, i, s). length raw - i)")
    (auto dest!: layout_step_forward intro: diff_less_mono2)

declare layout_loop.simps [simp del]

text \<open>The dedents of the blocks still open, then the end of file.\<close>

definition layout_end :: "token \<Rightarrow> layout \<Rightarrow> token list" where
  "layout_end raw_eof s =
     ly_out s @ replicate (ly_depth s) (make_layout_token TOK_DEDENT (t_line raw_eof) (t_col raw_eof)) @
     [make_eof_token (t_line raw_eof) (t_col raw_eof)]"

definition layout_pass :: "token list \<Rightarrow> lex_error + token list" where
  "layout_pass raw = bindE (layout_loop raw 0 layout_init) (\<lambda>s. Inr (layout_end (last raw) s))"

definition lexer_tokenize :: "string \<Rightarrow> cflag list \<Rightarrow> (lex_error + token list) option" where
  "lexer_tokenize src flags =
     map_option (\<lambda>r. bindE (located r) (\<lambda>raw.
         bindE (located (filter_conditionals src flags raw)) layout_pass))
       (raw_tokenize (lexer_init src flags))"

subsection \<open>The shape of the output\<close>

definition is_layout :: "token \<Rightarrow> bool" where
  "is_layout t \<longleftrightarrow> (case t_kind t of Lay _ \<Rightarrow> True | _ \<Rightarrow> False)"

text \<open>A token of the program: neither layout nor the end of file.\<close>

definition is_real :: "token \<Rightarrow> bool" where "is_real t \<longleftrightarrow> \<not> is_layout t \<and> t_kind t \<noteq> Sp TOK_EOF"

text \<open>The blocks open after a token list, if no \<open>DEDENT\<close> closes more than is open.\<close>

fun block_depth :: "nat \<Rightarrow> token list \<Rightarrow> nat option" where
  "block_depth n [] = Some n"
| "block_depth n (t # ts) =
     (if t_kind t = Lay TOK_INDENT then block_depth (n + 1) ts
      else if t_kind t = Lay TOK_DEDENT then (if n = 0 then None else block_depth (n - 1) ts)
      else block_depth n ts)"

text \<open>Blocks start and separators are followed by a token of the program.\<close>

definition adjacent_ok :: "token \<Rightarrow> token \<Rightarrow> bool" where
  "adjacent_ok a b \<longleftrightarrow> t_kind a \<in> {Lay TOK_INDENT, Lay TOK_NEWLINE} \<longrightarrow> is_real b"

definition well_separated :: "token list \<Rightarrow> bool" where
  "well_separated ts \<longleftrightarrow> successively adjacent_ok ts \<and> (ts \<noteq> [] \<longrightarrow> t_kind (hd ts) \<noteq> Lay TOK_NEWLINE)"

lemma block_depth_append: "block_depth n (xs @ ys) = Option.bind (block_depth n xs) (\<lambda>m. block_depth m ys)"
  by (induction xs arbitrary: n) auto

lemma layout_kinds [simp]:
  "t_kind (make_layout_token k l c) = Lay k" "is_layout (make_layout_token k l c)"
  "\<not> is_real (make_layout_token k l c)" "t_kind (make_eof_token l c) = Sp TOK_EOF" "\<not> is_real (make_eof_token l c)"
  by (simp_all add: make_layout_token_def make_eof_token_def is_layout_def is_real_def)

abbreviation dedent_at :: "token \<Rightarrow> token" where
  "dedent_at t \<equiv> make_layout_token TOK_DEDENT (t_line t) (t_col t)"

lemma block_depth_dedents: "block_depth (n + m) (replicate n (make_layout_token TOK_DEDENT l c)) = Some m"
  by (induction n) simp_all

text \<open>Closing \<open>n\<close> blocks.\<close>

definition pop_n :: "token \<Rightarrow> nat \<Rightarrow> layout \<Rightarrow> layout" where
  "pop_n t n s = s\<lparr>ly_depth := ly_depth s - n, ly_out := ly_out s @ replicate n (dedent_at t)\<rparr>"

lemma pop_n_0: "pop_n t 0 s = s"
  by (simp add: pop_n_def)

lemma pop_n_pop: "pop_n t n (pop_block t s) = pop_n t (Suc n) s"
  by (simp add: pop_n_def pop_block_def emit_def)

lemma pop_n_pop_n: "pop_n t n (pop_n t m s) = pop_n t (m + n) s"
  by (simp add: pop_n_def replicate_add)

lemma close_matches_pops: "\<exists>n \<le> ly_depth s. close_matches t nxt s = pop_n t n s"
proof (induction t nxt s rule: close_matches.induct)
  case (1 t nxt s)
  show ?case
  proof (cases "0 < ly_depth s \<and> ly_match s ! ly_depth s \<and> t_col nxt \<le> top_col s \<and>
         \<not> (t_col nxt = top_col s \<and> t_kind nxt = Op TOK_PIPE)")
    case True
    then obtain n where "n \<le> ly_depth (pop_block t s)" "close_matches t nxt s = pop_n t n (pop_block t s)"
      using 1 by (auto simp: close_matches.simps [of t nxt s])
    then have "n \<le> ly_depth s - 1" "close_matches t nxt s = pop_n t (Suc n) s"
      by (simp_all add: pop_n_pop) (simp add: pop_block_def emit_def)
    then show ?thesis
      using True by (intro exI [of _ "Suc n"]) auto
  qed (auto simp: close_matches.simps [of t nxt s] intro: exI [of _ 0] simp: pop_n_0)
qed

lemma close_deeper_pops: "\<exists>n \<le> ly_depth s. close_deeper t nxt s = pop_n t n s"
proof (induction t nxt s rule: close_deeper.induct)
  case (1 t nxt s)
  show ?case
  proof (cases "0 < ly_depth s \<and> t_col nxt < top_col s")
    case True
    then obtain n where "n \<le> ly_depth (pop_block t s)" "close_deeper t nxt s = pop_n t n (pop_block t s)"
      using 1 by (auto simp: close_deeper.simps [of t nxt s])
    then have "n \<le> ly_depth s - 1" "close_deeper t nxt s = pop_n t (Suc n) s"
      by (simp_all add: pop_n_pop) (simp add: pop_block_def emit_def)
    then show ?thesis
      using True by (intro exI [of _ "Suc n"]) auto
  qed (auto simp: close_deeper.simps [of t nxt s] intro: exI [of _ 0] simp: pop_n_0)
qed

text \<open>What a newline adds: some dedents, then at most one token that opens or separates.\<close>

inductive line_adds :: "token \<Rightarrow> layout \<Rightarrow> layout \<Rightarrow> bool" for t s where
  continue: "n \<le> ly_depth s \<Longrightarrow> ly_out s' = ly_out s @ replicate n (dedent_at t) \<Longrightarrow> ly_depth s' = ly_depth s - n \<Longrightarrow>
    line_adds t s s'"
| opens: "n \<le> ly_depth s \<Longrightarrow> ly_out s' = ly_out s @ replicate n (dedent_at t) @ [make_layout_token TOK_INDENT l c] \<Longrightarrow>
    ly_depth s' = ly_depth s - n + 1 \<Longrightarrow> line_adds t s s'"
| separates: "n \<le> ly_depth s \<Longrightarrow> ly_out s' = ly_out s @ replicate n (dedent_at t) @ [make_layout_token TOK_NEWLINE l c] \<Longrightarrow>
    ly_depth s' = ly_depth s - n \<Longrightarrow> ly_out s @ replicate n (dedent_at t) \<noteq> [] \<Longrightarrow> line_adds t s s'"

lemma line_adds_separate:
  assumes "n \<le> ly_depth s" and "ly_depth u = ly_depth s - n" and "ly_out u = ly_out s @ replicate n (dedent_at t)"
  shows "line_adds t s (separate t K u)"
  using assms by (auto simp: separate_def emit_def intro: line_adds.intros)

lemma line_adds_push:
  assumes "n \<le> ly_depth s" and "ly_depth u = ly_depth s - n" and "ly_out u = ly_out s @ replicate n (dedent_at t)"
    and "push_block nxt m u = Inr s'"
  shows "line_adds t s s'"
  using assms by (auto simp: push_block_def Let_def emit_def intro: line_adds.opens split: if_splits)

lemma layout_line_adds:
  assumes "layout_line t nxt s = Inr s'"
  shows "line_adds t s s'"
proof -
  define u where "u = close_matches t nxt (s\<lparr>ly_saw_decl := False\<rparr>)"
  obtain n where n: "n \<le> ly_depth s" "u = pop_n t n (s\<lparr>ly_saw_decl := False\<rparr>)"
    using close_matches_pops [of "s\<lparr>ly_saw_decl := False\<rparr>" t nxt] by (auto simp: u_def)
  then have u: "ly_depth u = ly_depth s - n" "ly_out u = ly_out s @ replicate n (dedent_at t)"
    by (simp_all add: pop_n_def)
  obtain m where m: "m \<le> ly_depth u" "close_deeper t nxt u = pop_n t m u"
    using close_deeper_pops by blast
  obtain k where k: "k \<le> ly_depth (pop_n t m u)" "close_matches t nxt (pop_n t m u) = pop_n t k (pop_n t m u)"
    using close_matches_pops by blast
  define v where "v = close_matches t nxt (close_deeper t nxt u)"
  have v: "ly_depth v = ly_depth s - (n + (m + k))" "ly_out v = ly_out s @ replicate (n + (m + k)) (dedent_at t)"
    "n + (m + k) \<le> ly_depth s"
    using u m k n(1) by (auto simp: v_def pop_n_pop_n) (auto simp: pop_n_def replicate_add)
  show ?thesis
    using assms line_adds_push [OF n(1) u] line_adds_separate [OF n(1) u] line_adds_separate [OF v(3,1,2)]
      line_adds.continue [OF n(1) u(2,1)]
    by (auto simp: layout_line_def u_def [symmetric] v_def [symmetric] Let_def split: if_splits)
qed

subsection \<open>The invariant of the loop\<close>

definition input_ok :: "token list \<Rightarrow> bool" where
  "input_ok raw \<longleftrightarrow> (\<forall>t \<in> set raw. is_real t \<or> t_kind t = Lay TOK_NEWLINE \<or> t_kind t = Sp TOK_EOF)"

definition layout_inv :: "token list \<Rightarrow> nat \<Rightarrow> layout \<Rightarrow> bool" where
  "layout_inv raw i s \<longleftrightarrow>
     block_depth 0 (ly_out s) = Some (ly_depth s) \<and> well_separated (ly_out s) \<and>
     filter is_real (ly_out s) = filter is_real (take i raw) \<and>
     (\<forall>t \<in> set (ly_out s). t_kind t \<noteq> Sp TOK_EOF) \<and>
     (ly_out s \<noteq> [] \<and> t_kind (last (ly_out s)) \<in> {Lay TOK_INDENT, Lay TOK_NEWLINE} \<longrightarrow>
        i < length raw \<and> is_real (raw ! i))"

lemma well_separated_snoc:
  "well_separated (ts @ [t]) \<longleftrightarrow> well_separated ts \<and>
     (if ts = [] then t_kind t \<noteq> Lay TOK_NEWLINE else adjacent_ok (last ts) t)"
  by (cases "ts = []") (auto simp: well_separated_def successively_append_iff [of adjacent_ok ts "[t]"])

lemma well_separated_dedents:
  assumes "well_separated ts" and "ts = [] \<or> t_kind (last ts) \<notin> {Lay TOK_INDENT, Lay TOK_NEWLINE}"
  shows "well_separated (ts @ replicate n (dedent_at t)) \<and>
    (ts @ replicate n (dedent_at t) = [] \<or>
     t_kind (last (ts @ replicate n (dedent_at t))) \<notin> {Lay TOK_INDENT, Lay TOK_NEWLINE})"
proof (induction n)
  case 0
  then show ?case using assms by simp
next
  case (Suc n)
  have eq: "ts @ replicate (Suc n) (dedent_at t) = (ts @ replicate n (dedent_at t)) @ [dedent_at t]"
    by (simp add: replicate_append_same)
  show ?case
    unfolding eq well_separated_snoc using Suc by (auto simp: adjacent_ok_def)
qed

lemma layout_token_inv:
  assumes "layout_inv raw i s" and "i < length raw" and "is_real (raw ! i)"
  shows "layout_inv raw (i + 1) (layout_token (raw ! i) s)"
proof -
  have kinds: "t_kind (raw ! i) \<noteq> Lay k" for k
    using assms(3) by (auto simp: is_real_def is_layout_def)
  have out: "ly_out (layout_token (raw ! i) s) = ly_out s @ [raw ! i]" "ly_depth (layout_token (raw ! i) s) = ly_depth s"
    by (simp_all add: layout_token_def Let_def emit_def)
  show ?thesis
    using assms kinds unfolding layout_inv_def out
    by (auto simp: block_depth_append well_separated_snoc adjacent_ok_def take_Suc_conv_app_nth is_real_def)
qed

lemma real_newlines: "\<forall>t \<in> set ts. t_kind t = Lay TOK_NEWLINE \<Longrightarrow> filter is_real ts = []"
  by (auto simp: filter_empty_conv is_real_def is_layout_def)

lemma newline_run_facts:
  assumes "i < length raw" and "t_kind (raw ! i) = Lay TOK_NEWLINE"
  shows "filter is_real (take (newline_run raw i + 1) raw) = filter is_real (take i raw)"
    and "newline_run raw i + 1 < length raw \<Longrightarrow> t_kind (raw ! (newline_run raw i + 1)) \<noteq> Lay TOK_NEWLINE"
proof -
  define ns where "ns = takeWhile (\<lambda>t. t_kind t = Lay TOK_NEWLINE) (drop (i + 1) raw)"
  have run: "newline_run raw i = i + length ns" by (simp add: newline_run_def ns_def)
  have "take (i + 1 + length ns) raw = take (i + 1) raw @ take (length ns) (drop (i + 1) raw)"
    by (rule take_add)
  also have "take (length ns) (drop (i + 1) raw) = ns"
    by (simp add: ns_def takeWhile_eq_take [symmetric])
  finally have "take (newline_run raw i + 1) raw = take i raw @ raw ! i # ns"
    using assms(1) run by (simp add: take_Suc_conv_app_nth)
  moreover have "filter is_real (raw ! i # ns) = []"
    using assms(2) by (intro real_newlines) (auto simp: ns_def dest: set_takeWhileD)
  ultimately show "filter is_real (take (newline_run raw i + 1) raw) = filter is_real (take i raw)"
    by (simp del: filter.simps)
  assume "newline_run raw i + 1 < length raw"
  then have "length ns < length (drop (i + 1) raw)" using run by simp
  from nth_length_takeWhile [OF this [unfolded ns_def]]
  show "t_kind (raw ! (newline_run raw i + 1)) \<noteq> Lay TOK_NEWLINE"
    using assms(1) run by (simp add: ns_def add.commute add.left_commute)
qed

lemma line_adds_inv:
  assumes adds: "line_adds t s s'" and inv: "layout_inv raw j s"
    and out: "ly_out s = [] \<or> t_kind (last (ly_out s)) \<notin> {Lay TOK_INDENT, Lay TOK_NEWLINE}"
    and j: "j < length raw" "is_real (raw ! j)"
  shows "layout_inv raw j s'"
proof -
  have pops: "layout_inv raw j (pop_n t n s) \<and>
      (ly_out (pop_n t n s) = [] \<or> t_kind (last (ly_out (pop_n t n s))) \<notin> {Lay TOK_INDENT, Lay TOK_NEWLINE})"
    if "n \<le> ly_depth s" for n
    using that inv well_separated_dedents [OF _ out, of n t] block_depth_dedents [of n "ly_depth s - n" "t_line t" "t_col t"]
    by (auto simp: layout_inv_def block_depth_append pop_n_def)
  from adds show ?thesis
  proof cases
    case (continue n)
    with pops [of n] show ?thesis by (simp add: layout_inv_def pop_n_def)
  next
    case (opens n l c)
    then have "ly_out s' = ly_out (pop_n t n s) @ [make_layout_token TOK_INDENT l c]" "ly_depth s' = ly_depth (pop_n t n s) + 1"
      by (simp_all add: pop_n_def)
    with pops [OF opens(1)] j show ?thesis
      by (auto simp: layout_inv_def block_depth_append well_separated_snoc adjacent_ok_def)
  next
    case (separates n l c)
    then have "ly_out s' = ly_out (pop_n t n s) @ [make_layout_token TOK_NEWLINE l c]" "ly_depth s' = ly_depth (pop_n t n s)"
      "ly_out (pop_n t n s) \<noteq> []"
      by (simp_all add: pop_n_def)
    with pops [OF separates(1)] j show ?thesis
      by (auto simp: layout_inv_def block_depth_append well_separated_snoc adjacent_ok_def)
  qed
qed

lemma layout_newline_inv:
  assumes inv: "layout_inv raw i s" and i: "i < length raw" "t_kind (raw ! i) = Lay TOK_NEWLINE"
    and input: "input_ok raw" and step: "layout_newline raw i s = Inr r"
  shows "layout_inv raw (fst r + 1) (snd r)"
proof -
  define j where "j = newline_run raw i + 1"
  have not_real: "\<not> is_real (raw ! i)" using i(2) by (simp add: is_real_def is_layout_def)
  note facts = newline_run_facts [OF i, folded j_def]
  have out: "ly_out s = [] \<or> t_kind (last (ly_out s)) \<notin> {Lay TOK_INDENT, Lay TOK_NEWLINE}"
    using inv not_real by (auto simp: layout_inv_def)
  have quiet: "layout_inv raw j s"
    using inv facts(1) out by (auto simp: layout_inv_def)
  show ?thesis
  proof (cases "r = (newline_run raw i, s)")
    case True
    then show ?thesis using quiet by (simp add: j_def)
  next
    case False
    then obtain s' where s': "layout_line (raw ! i) (raw ! j) s = Inr s'" "r = (newline_run raw i, s')"
      "j < length raw" "t_kind (raw ! j) \<noteq> Sp TOK_EOF"
      using step by (auto simp: layout_newline_def Let_def bindE_Inr_iff j_def split: if_splits)
    have real: "is_real (raw ! j)"
      using input s'(3,4) facts(2) by (auto simp: input_ok_def)
    have "layout_inv raw j s'"
      by (rule line_adds_inv [OF layout_line_adds [OF s'(1)] quiet out s'(3) real])
    then show ?thesis by (simp add: s'(2) j_def)
  qed
qed

lemma layout_step_inv:
  assumes "layout_inv raw i s" and "i < length raw" and "input_ok raw" and "layout_step raw i s = Inr r"
  shows "layout_inv raw (fst r + 1) (snd r)"
proof (cases "t_kind (raw ! i) = Lay TOK_NEWLINE")
  case True
  with assms layout_newline_inv show ?thesis by (auto simp: layout_step_def Let_def)
next
  case newline: False
  show ?thesis
  proof (cases "t_kind (raw ! i) = Sp TOK_EOF")
    case True
    then have "layout_inv raw (i + 1) s"
      using assms(1,2) by (auto simp: layout_inv_def take_Suc_conv_app_nth is_real_def)
    then show ?thesis using True newline assms(4) by (auto simp: layout_step_def Let_def)
  next
    case False
    then have "is_real (raw ! i)" using newline assms(2,3) by (auto simp: input_ok_def)
    with layout_token_inv [OF assms(1,2)] False newline assms(4) show ?thesis
      by (auto simp: layout_step_def Let_def)
  qed
qed

lemma layout_loop_inv:
  "layout_loop raw i s = Inr s' \<Longrightarrow> layout_inv raw i s \<Longrightarrow> input_ok raw \<Longrightarrow>
   \<exists>k \<ge> length raw. layout_inv raw k s'"
proof (induction raw i s rule: layout_loop.induct)
  case (1 raw i s)
  show ?case
  proof (cases "i < length raw")
    case True
    then obtain r where r: "layout_step raw i s = Inr r" "layout_loop raw (fst r + 1) (snd r) = Inr s'"
      using "1.prems"(1) by (auto simp: layout_loop.simps [of raw i s] bindE_Inr_iff)
    show ?thesis
      by (rule "1.IH" [OF True r(1) r(2) layout_step_inv [OF "1.prems"(2) True "1.prems"(3) r(1)] "1.prems"(3)])
  next
    case False
    then show ?thesis using "1.prems" by (intro exI [of _ i]) (simp add: layout_loop.simps [of raw i s])
  qed
qed

lemma layout_init_inv: "layout_inv raw 0 layout_init"
  by (simp add: layout_inv_def layout_init_def well_separated_def)

subsection \<open>What the pass returns\<close>

definition layout_ok :: "token list \<Rightarrow> token list \<Rightarrow> bool" where
  "layout_ok raw out \<longleftrightarrow>
     block_depth 0 out = Some 0 \<and> filter is_real out = filter is_real raw \<and> well_separated out \<and>
     (\<exists>ts l c. out = ts @ [make_eof_token l c] \<and> Sp TOK_EOF \<notin> t_kind ` set ts)"

lemma layout_pass_ok:
  assumes "layout_pass raw = Inr out" and "input_ok raw"
  shows "layout_ok raw out"
proof -
  obtain s where s: "layout_loop raw 0 layout_init = Inr s" "out = layout_end (last raw) s"
    using assms(1) by (auto simp: layout_pass_def bindE_Inr_iff)
  obtain k where k: "length raw \<le> k" and inv: "layout_inv raw k s"
    using layout_loop_inv [OF s(1) layout_init_inv assms(2)] by blast
  then have quiet: "ly_out s = [] \<or> t_kind (last (ly_out s)) \<notin> {Lay TOK_INDENT, Lay TOK_NEWLINE}"
    by (auto simp: layout_inv_def)
  define d where "d = ly_out s @ replicate (ly_depth s) (dedent_at (last raw))"
  have out: "out = d @ [make_eof_token (t_line (last raw)) (t_col (last raw))]"
    by (simp add: s(2) layout_end_def d_def)
  have "well_separated d \<and> (d = [] \<or> t_kind (last d) \<notin> {Lay TOK_INDENT, Lay TOK_NEWLINE})"
    unfolding d_def using well_separated_dedents quiet inv by (auto simp: layout_inv_def)
  then have sep: "well_separated out"
    unfolding out well_separated_snoc by (auto simp: adjacent_ok_def)
  have "block_depth 0 d = Some 0"
    using inv block_depth_dedents [of "ly_depth s" 0] by (simp add: d_def block_depth_append layout_inv_def)
  then have depth: "block_depth 0 out = Some 0" by (simp add: out block_depth_append)
  have real: "filter is_real out = filter is_real raw"
    using inv k by (simp add: out d_def layout_inv_def)
  have "Sp TOK_EOF \<notin> t_kind ` set d"
    using inv by (auto simp: d_def layout_inv_def)
  with sep depth real out show ?thesis unfolding layout_ok_def by blast
qed

subsection \<open>The stack of columns\<close>

text \<open>
  The arrays are indexed within their bounds; the base is column 1; a block is deeper than the
  one it stands in, or at its column when it holds the arms of a match.
\<close>

definition stack_ok :: "layout \<Rightarrow> bool" where
  "stack_ok s \<longleftrightarrow>
     length (ly_cols s) = MAX_INDENT \<and> length (ly_match s) = MAX_INDENT \<and> ly_depth s < MAX_INDENT \<and>
     ly_cols s ! 0 = 1 \<and>
     (\<forall>d < ly_depth s. if ly_match s ! Suc d then ly_cols s ! Suc d = ly_cols s ! d
                        else ly_cols s ! d < ly_cols s ! Suc d)"

lemma stack_ok_init: "stack_ok layout_init"
  by (simp add: stack_ok_def layout_init_def MAX_INDENT_def)

lemma stack_ok_cong:
  "stack_ok s \<Longrightarrow> ly_cols s' = ly_cols s \<Longrightarrow> ly_match s' = ly_match s \<Longrightarrow> ly_depth s' \<le> ly_depth s \<Longrightarrow> stack_ok s'"
  by (auto simp: stack_ok_def)

lemma stack_ok_pop_n: "stack_ok s \<Longrightarrow> stack_ok (pop_n t n s)"
  by (erule stack_ok_cong) (simp_all add: pop_n_def)

lemma stack_ok_close: "stack_ok s \<Longrightarrow> stack_ok (close_matches t nxt s)" "stack_ok s \<Longrightarrow> stack_ok (close_deeper t nxt s)"
  using close_matches_pops close_deeper_pops by (metis stack_ok_pop_n)+

lemma stack_ok_separate: "stack_ok s \<Longrightarrow> stack_ok (separate t K s)"
  by (erule stack_ok_cong) (simp_all add: separate_def emit_def)

lemma separate_top [simp]: "top_col (separate t K s) = top_col s"
  by (simp add: separate_def emit_def)

lemma push_block_top: "push_block nxt m s = Inr s' \<Longrightarrow> stack_ok s \<Longrightarrow> top_col s' = t_col nxt"
  by (auto simp: push_block_def Let_def emit_def stack_ok_def split: if_splits)

lemma stack_ok_push:
  assumes "push_block nxt m s = Inr s'" and "stack_ok s"
    and "if m then t_col nxt = top_col s else top_col s < t_col nxt"
  shows "stack_ok s'"
proof -
  have s': "s' = emit (make_layout_token TOK_INDENT (t_line nxt) (t_col nxt))
      (s\<lparr>ly_depth := ly_depth s + 1, ly_cols := (ly_cols s)[ly_depth s + 1 := t_col nxt],
         ly_match := (ly_match s)[ly_depth s + 1 := m]\<rparr>)" and d: "ly_depth s + 1 < MAX_INDENT"
    using assms(1) by (auto simp: push_block_def Let_def split: if_splits)
  have "if ly_match s' ! Suc k then ly_cols s' ! Suc k = ly_cols s' ! k else ly_cols s' ! k < ly_cols s' ! Suc k"
    if "k < ly_depth s'" for k
    using that assms(2,3) d by (cases "k = ly_depth s") (auto simp: s' emit_def stack_ok_def)
  moreover have "length (ly_cols s') = MAX_INDENT \<and> length (ly_match s') = MAX_INDENT \<and>
      ly_depth s' < MAX_INDENT \<and> ly_cols s' ! 0 = 1"
    using assms(2) d by (simp add: stack_ok_def s' emit_def)
  ultimately show ?thesis unfolding stack_ok_def by blast
qed

lemma layout_line_stack:
  assumes "layout_line t nxt s = Inr s'" and "stack_ok s"
  shows "stack_ok s' \<and> top_col s' \<le> t_col nxt"
proof -
  define u where "u = close_matches t nxt (s\<lparr>ly_saw_decl := False\<rparr>)"
  define v where "v = close_matches t nxt (close_deeper t nxt u)"
  have "stack_ok (s\<lparr>ly_saw_decl := False\<rparr>)" using assms(2) by (simp add: stack_ok_def)
  then have uv: "stack_ok u" "stack_ok v" by (simp_all add: u_def v_def stack_ok_close)
  then show ?thesis
    using assms(1) stack_ok_push [of nxt _ u s'] push_block_top [of nxt _ u s'] stack_ok_separate
    by (auto simp: layout_line_def u_def [symmetric] v_def [symmetric] Let_def split: if_splits)
qed

lemma layout_step_stack:
  assumes "layout_step raw i s = Inr r" and "stack_ok s"
  shows "stack_ok (snd r)"
proof -
  have "stack_ok (layout_token t s)" for t
    using assms(2) by (rule stack_ok_cong) (simp_all add: layout_token_def Let_def emit_def)
  then show ?thesis
    using assms layout_line_stack
    by (auto simp: layout_step_def layout_newline_def Let_def bindE_Inr_iff split: if_splits)
qed

subsection \<open>The whole lexer\<close>

lemma tokens_ok_input:
  "tokens_ok src a q p ts \<Longrightarrow>
   ts \<noteq> [] \<and> t_kind (last ts) = Sp TOK_EOF \<and> (\<forall>t \<in> set ts. t_kind t \<notin> {Lay TOK_INDENT, Lay TOK_DEDENT})"
  by (induction ts arbitrary: a q p) (auto split: if_splits)

lemma input_ok_iff: "input_ok raw \<longleftrightarrow> (\<forall>t \<in> set raw. t_kind t \<notin> {Lay TOK_INDENT, Lay TOK_DEDENT})"
proof -
  have "is_real t \<or> t_kind t = Lay TOK_NEWLINE \<or> t_kind t = Sp TOK_EOF \<longleftrightarrow> t_kind t \<notin> {Lay TOK_INDENT, Lay TOK_DEDENT}" for t
    by (cases "t_kind t") (auto simp: is_real_def is_layout_def, (metis tok_layout.exhaust)+)
  then show ?thesis by (simp add: input_ok_def)
qed

lemma located_Inr [simp]: "located r = Inr x \<longleftrightarrow> r = Inr x"
  by (cases r) (auto simp: located_def)

lemma lexer_tokenize_phases:
  assumes "lexer_tokenize src flags = Some (Inr out)"
  obtains raw kept where "raw_tokenize (lexer_init src flags) = Some (Inr raw)"
    "filter_conditionals src flags raw = Inr kept" "layout_pass kept = Inr out"
  using assms by (auto simp: lexer_tokenize_def bindE_Inr_iff)

lemma subseq_set: "subseq xs ys \<Longrightarrow> set xs \<subseteq> set ys"
  by (auto elim: list_emb_set)

subsection \<open>Properties\<close>

text \<open>
  C27: The layout pass is faithful to the program. On tokens as the scanner makes them it keeps
  every token of the program, in order, and what it adds is well formed: each \<open>DEDENT\<close> closes
  an open block and all are closed at the end, an \<open>INDENT\<close> or separator is followed by a token
  of the program, and one \<open>EOF\<close> ends the list.
\<close>

theorem layout_pass_faithful:
  assumes "layout_pass raw = Inr out" and "input_ok raw"
  shows "layout_ok raw out"
  using assms by (rule layout_pass_ok)

text \<open>
  The stacks of columns and match flags are only indexed within their 128 entries, start
  at column 1, and grow deeper except for the same-level block of a match; every step keeps
  this, and past a newline the next line is never left of the open block.
\<close>

theorem layout_stack_in_bounds:
  "stack_ok layout_init \<and>
   (stack_ok s \<and> layout_step raw i s = Inr (j, s') \<longrightarrow> stack_ok s') \<and>
   (stack_ok s \<and> layout_line t nxt s = Inr s' \<longrightarrow> top_col s' \<le> t_col nxt)"
  using stack_ok_init layout_step_stack [of raw i s "(j, s')"] layout_line_stack by auto

text \<open>
  C9: \<open>lexer_tokenize\<close> returns on every source and flags, with tokens or a fatal error. The
  tokens have balanced blocks, well-placed separators, a single \<open>EOF\<close> at the end and no
  preprocessor directive, and those of the program are a subsequence of the scanned ones.
\<close>

theorem lexer_output_ok:
  "\<exists>r. lexer_tokenize src flags = Some r \<and>
     (\<forall>out. r = Inr out \<longrightarrow>
        (\<exists>raw kept. raw_tokenize (lexer_init src flags) = Some (Inr raw) \<and> subseq kept raw \<and>
           layout_ok kept out \<and> {t_kind t | t. t \<in> set out} \<inter> directive_kinds = {}))"
proof -
  obtain r0 where "raw_tokenize (lexer_init src flags) = Some r0" using raw_tokenize_total by blast
  then obtain r where r: "lexer_tokenize src flags = Some r" by (simp add: lexer_tokenize_def)
  have "\<exists>raw kept. raw_tokenize (lexer_init src flags) = Some (Inr raw) \<and> subseq kept raw \<and>
      layout_ok kept out \<and> {t_kind t | t. t \<in> set out} \<inter> directive_kinds = {}" if "r = Inr out" for out
  proof -
    obtain raw kept where ph: "raw_tokenize (lexer_init src flags) = Some (Inr raw)"
      "filter_conditionals src flags raw = Inr kept" "layout_pass kept = Inr out"
      using lexer_tokenize_phases r \<open>r = Inr out\<close> by metis
    note raw = tokens_ok_input [OF raw_tokenize_placed [OF ph(1)]]
    then have kept: "subseq kept raw" "{t_kind t | t. t \<in> set kept} \<inter> directive_kinds = {}"
      using filter_keeps [OF ph(2)] by blast+
    then have "input_ok kept" using raw subseq_set unfolding input_ok_iff by blast
    then have ok: "layout_ok kept out" by (rule layout_pass_ok [OF ph(3)])
    have "t \<in> set kept" if "t \<in> set out" "t_kind t \<in> directive_kinds" for t
    proof -
      have "t \<in> set (filter is_real out)" using that by (auto simp: is_real_def is_layout_def)
      also have "filter is_real out = filter is_real kept" using ok by (simp add: layout_ok_def)
      finally show ?thesis by simp
    qed
    then show ?thesis using ph(1) kept ok by blast
  qed
  then show ?thesis using r by blast
qed

lemma layout_pass_faithful_witness:
  "layout_ok
     [static_token (Kw TOK_LET) ''let'' 1, static_token (Op TOK_EQ) ''='' 5, static_token (Lay TOK_NEWLINE) [] 6,
      static_token (Idt TOK_IDENT) ''x'' 3, static_token (Sp TOK_EOF) [] 4]
     [static_token (Kw TOK_LET) ''let'' 1, static_token (Op TOK_EQ) ''='' 5, make_layout_token TOK_INDENT 1 3,
      static_token (Idt TOK_IDENT) ''x'' 3, make_layout_token TOK_DEDENT 1 4, make_eof_token 1 4]"
  by (rule layout_pass_faithful; code_simp)

lemma layout_stack_in_bounds_witness:
  "stack_ok (snd (projr (layout_step [static_token (Idt TOK_IDENT) ''x'' 3] 0 layout_init)))"
proof -
  let ?raw = "[static_token (Idt TOK_IDENT) ''x'' 3]"
  have "layout_step ?raw 0 layout_init = Inr (0, layout_token (hd ?raw) layout_init)" by code_simp
  with layout_stack_in_bounds [of layout_init ?raw 0 0 "layout_token (hd ?raw) layout_init"]
  show ?thesis by simp
qed

lemma lexer_output_ok_witness:
  "block_depth 0 (projr (the (lexer_tokenize (''f ='' @ [newline] @ ''x'') []))) = Some 0"
proof -
  have "(case lexer_tokenize (''f ='' @ [newline] @ ''x'') [] of Some (Inr out) \<Rightarrow> True | _ \<Rightarrow> False)"
    by code_simp
  with lexer_output_ok [of "(''f ='' @ [newline] @ ''x'')" "[]"] show ?thesis by (auto simp: layout_ok_def split: option.splits sum.splits)
qed

end
