(* ===== verification/FC_Json.thy ===== *)
theory FC_Json
  imports FC_Text
begin

section \<open>JSON values of the language server (\<open>src/json.c\<close>)\<close>

text \<open>
  The parser's pointers \<open>p\<close> and \<open>end\<close> are the rest of the text, and \<open>end - p\<close> its length; an
  error is \<open>None\<close>. A \<open>double\<close> is an abstract value: \<open>strtod\<close> and the \<open>"%.17g"\<close> of
  \<open>snprintf\<close> are parameters, and \<open>as_long\<close> gives the value of a double that passes the
  serializer's test for an integral one. Growing the arrays of items and members has no effect
  on their contents, so an array is a list. Items are pointers that may be \<open>NULL\<close>.
\<close>

datatype 'd json =
    JSON_NULL
  | JSON_BOOL bool
  | JSON_NUMBER 'd
  | JSON_STRING string
  | JSON_ARRAY "'d json option list"
  | JSON_OBJECT "(string \<times> 'd json option) list"

subsection \<open>Constructors and accessors\<close>

text \<open>What a C string function sees of the bytes at a pointer.\<close>

definition c_prefix :: "string \<Rightarrow> string" where
  "c_prefix s = takeWhile (\<lambda>c. c \<noteq> nul) s"

definition json_strn :: "string \<Rightarrow> nat \<Rightarrow> 'd json" where "json_strn s len = JSON_STRING (take len s)"

definition json_str :: "string option \<Rightarrow> 'd json" where
  "json_str s = (case s of None \<Rightarrow> JSON_STRING [] | Some s \<Rightarrow> json_strn s (length (c_prefix s)))"

definition json_array_push :: "'d json \<Rightarrow> 'd json option \<Rightarrow> 'd json" where
  "json_array_push arr v = (case arr of JSON_ARRAY items \<Rightarrow> JSON_ARRAY (items @ [v]) | _ \<Rightarrow> arr)"

definition json_object_set :: "'d json \<Rightarrow> string \<Rightarrow> 'd json option \<Rightarrow> 'd json" where
  "json_object_set obj key v =
     (case obj of JSON_OBJECT ms \<Rightarrow> JSON_OBJECT (ms @ [(c_prefix key, v)]) | _ \<Rightarrow> obj)"

fun member_value :: "(string \<times> 'd json option) list \<Rightarrow> string \<Rightarrow> 'd json option" where
  "member_value [] key = None"
| "member_value ((k, v) # ms) key = (if c_prefix k = c_prefix key then v else member_value ms key)"

definition json_get :: "'d json option \<Rightarrow> string \<Rightarrow> 'd json option" where
  "json_get obj key = (case obj of Some (JSON_OBJECT ms) \<Rightarrow> member_value ms key | _ \<Rightarrow> None)"

definition json_get_str :: "'d json option \<Rightarrow> string \<Rightarrow> string option" where
  "json_get_str obj key = (case json_get obj key of Some (JSON_STRING s) \<Rightarrow> Some s | _ \<Rightarrow> None)"

text \<open>The cast of a double to \<open>long\<close> is the parameter \<open>to_long\<close>.\<close>

definition json_get_int :: "('d \<Rightarrow> int) \<Rightarrow> 'd json option \<Rightarrow> string \<Rightarrow> int option" where
  "json_get_int to_long obj key = (case json_get obj key of Some (JSON_NUMBER d) \<Rightarrow> Some (to_long d) | _ \<Rightarrow> None)"

definition json_index :: "'d json option \<Rightarrow> int \<Rightarrow> 'd json option" where
  "json_index arr i =
     (case arr of Some (JSON_ARRAY items) \<Rightarrow> if i < 0 \<or> int (length items) \<le> i then None else items ! nat i
      | _ \<Rightarrow> None)"

definition json_array_len :: "'d json option \<Rightarrow> nat" where
  "json_array_len arr = (case arr of Some (JSON_ARRAY items) \<Rightarrow> length items | _ \<Rightarrow> 0)"

subsection \<open>Strings\<close>

definition is_ws :: "char \<Rightarrow> bool" where "is_ws c \<longleftrightarrow> c \<in> {CHR '' '', CHR 0x09, CHR 0x0A, CHR 0x0D}"

definition skip_ws :: "string \<Rightarrow> string" where "skip_ws p = dropWhile is_ws p"

definition utf8_encode :: "nat \<Rightarrow> string" where
  "utf8_encode cp =
     (if cp \<le> 0x7F then [char_of cp]
      else if cp \<le> 0x7FF then [char_of (0xC0 OR drop_bit 6 cp), char_of (0x80 OR (cp AND 0x3F))]
      else if cp \<le> 0xFFFF then
        [char_of (0xE0 OR drop_bit 12 cp), char_of (0x80 OR (drop_bit 6 cp AND 0x3F)), char_of (0x80 OR (cp AND 0x3F))]
      else
        [char_of (0xF0 OR drop_bit 18 cp), char_of (0x80 OR (drop_bit 12 cp AND 0x3F)),
         char_of (0x80 OR (drop_bit 6 cp AND 0x3F)), char_of (0x80 OR (cp AND 0x3F))])"

definition hex4 :: "string \<Rightarrow> (nat \<times> string) option" where
  "hex4 p =
     (if length p < 4 \<or> \<not> list_all isxdigit (take 4 p) then None
      else Some (foldl (\<lambda>v c. push_bit 4 v OR nat (hex_digit_val c)) 0 (take 4 p), drop 4 p))"

definition unicode_escape :: "string \<Rightarrow> (string \<times> string) option" where
  "unicode_escape p =
     (case hex4 p of
        None \<Rightarrow> None
      | Some (cp, p1) \<Rightarrow>
          if 0xD800 \<le> cp \<and> cp \<le> 0xDBFF \<and> take 2 p1 = [backslash, CHR ''u''] then
            (case hex4 (drop 2 p1) of
               None \<Rightarrow> None
             | Some (lo, p2) \<Rightarrow>
                 Some (utf8_encode (if 0xDC00 \<le> lo \<and> lo \<le> 0xDFFF
                                    then 0x10000 + push_bit 10 (cp - 0xD800) + (lo - 0xDC00) else cp), p2))
          else Some (utf8_encode cp, p1))"

text \<open>What stands after a backslash: the bytes it decodes to and the rest.\<close>

definition string_escape :: "string \<Rightarrow> (string \<times> string) option" where
  "string_escape p =
     (case p of
        [] \<Rightarrow> None
      | e # p \<Rightarrow>
          if e \<in> {dquote, backslash, CHR ''/''} then Some ([e], p)
          else if e = CHR ''b'' then Some ([CHR 0x08], p)
          else if e = CHR ''f'' then Some ([CHR 0x0C], p)
          else if e = CHR ''n'' then Some ([CHR 0x0A], p)
          else if e = CHR ''r'' then Some ([CHR 0x0D], p)
          else if e = CHR ''t'' then Some ([CHR 0x09], p)
          else if e = CHR ''u'' then unicode_escape p
          else None)"

lemma hex4_length: "hex4 p = Some (v, p') \<Longrightarrow> length p' + 4 = length p"
  by (auto simp: hex4_def split: if_splits)

lemma length_utf8_encode: "length (utf8_encode cp) = (if cp \<le> 0x7F then 1 else if cp \<le> 0x7FF then 2 else if cp \<le> 0xFFFF then 3 else 4)"
  by (simp add: utf8_encode_def)

lemma length_utf8_encode_le: "length (utf8_encode cp) \<le> 4"
  by (simp add: length_utf8_encode)

lemma unicode_escape_shrinks:
  assumes "unicode_escape p = Some (b, p')"
  shows "length b + length p' \<le> length p"
proof -
  have "\<exists>cp. b = utf8_encode cp \<and> length p' + 4 \<le> length p"
    using assms by (fastforce simp: unicode_escape_def dest: hex4_length split: option.splits if_splits)
  then show ?thesis using length_utf8_encode_le add.commute add_le_mono1 order_trans by metis
qed

lemma string_escape_shrinks:
  "string_escape p = Some (b, p') \<Longrightarrow> length b + length p' \<le> length p \<and> length p' < length p"
  by (cases p) (auto simp: string_escape_def dest: unicode_escape_shrinks split: if_splits)

text \<open>The loop of \<open>parse_string\<close>, with the bytes decoded so far.\<close>

function string_body :: "string \<Rightarrow> string \<Rightarrow> (string \<times> string) option" where
  "string_body [] buf = None"
| "string_body (c # p) buf =
     (if c = dquote then Some (buf, p)
      else if c = backslash then
        (case string_escape p of None \<Rightarrow> None | Some (b, p') \<Rightarrow> string_body p' (buf @ b))
      else string_body p (buf @ [c]))"
  by pat_completeness auto
termination
  by (relation "measure (length \<circ> fst)") (auto dest: string_escape_shrinks)

definition parse_string :: "string \<Rightarrow> (string \<times> string) option" where
  "parse_string p = string_body p []"

subsection \<open>Values\<close>

definition is_num_char :: "char \<Rightarrow> bool" where
  "is_num_char c \<longleftrightarrow> isdigit c \<or> c \<in> {CHR ''.'', CHR ''e'', CHR ''E'', CHR ''+'', CHR ''-''}"

definition parse_number :: "(string \<Rightarrow> 'd) \<Rightarrow> string \<Rightarrow> ('d json \<times> string) option" where
  "parse_number strtod p =
     (let tmp = takeWhile is_num_char p
      in if length tmp = 0 \<or> 64 \<le> length tmp then None
         else Some (JSON_NUMBER (strtod tmp), drop (length tmp) p))"

definition lit :: "string \<Rightarrow> string \<Rightarrow> string option" where
  "lit word p = (if take (length word) p = word then Some (drop (length word) p) else None)"

text \<open>The key of a member and the colon after it.\<close>

definition member_key :: "string \<Rightarrow> (string \<times> string) option" where
  "member_key p =
     (if p = [] \<or> hd p \<noteq> dquote then None
      else (case parse_string (tl p) of
              None \<Rightarrow> None
            | Some (key, p1) \<Rightarrow>
                let p2 = skip_ws p1 in if p2 = [] \<or> hd p2 \<noteq> CHR '':'' then None else Some (key, tl p2)))"

text \<open>
  \<open>items_loop\<close> and \<open>members_loop\<close> are the loops of \<open>parse_array\<close> and \<open>parse_object\<close>, with what
  they have collected.
\<close>

function (domintros) parse_value :: "(string \<Rightarrow> 'd) \<Rightarrow> string \<Rightarrow> ('d json \<times> string) option"
  and parse_array :: "(string \<Rightarrow> 'd) \<Rightarrow> string \<Rightarrow> ('d json \<times> string) option"
  and items_loop :: "(string \<Rightarrow> 'd) \<Rightarrow> 'd json option list \<Rightarrow> string \<Rightarrow> ('d json \<times> string) option"
  and parse_object :: "(string \<Rightarrow> 'd) \<Rightarrow> string \<Rightarrow> ('d json \<times> string) option"
  and members_loop :: "(string \<Rightarrow> 'd) \<Rightarrow> (string \<times> 'd json option) list \<Rightarrow> string \<Rightarrow> ('d json \<times> string) option"
where
  "parse_value strtod p0 =
     (case skip_ws p0 of
        [] \<Rightarrow> None
      | c # p \<Rightarrow>
          if c = CHR ''{'' then parse_object strtod p
          else if c = CHR ''['' then parse_array strtod p
          else if c = dquote then map_option (map_prod JSON_STRING id) (parse_string p)
          else if c = CHR ''t'' then map_option (Pair (JSON_BOOL True)) (lit ''true'' (c # p))
          else if c = CHR ''f'' then map_option (Pair (JSON_BOOL False)) (lit ''false'' (c # p))
          else if c = CHR ''n'' then map_option (Pair JSON_NULL) (lit ''null'' (c # p))
          else if c = CHR ''-'' \<or> c = CHR ''+'' \<or> isdigit c then parse_number strtod (c # p)
          else None)"
| "parse_array strtod p0 =
     (let p = skip_ws p0
      in if p \<noteq> [] \<and> hd p = CHR '']'' then Some (JSON_ARRAY [], tl p) else items_loop strtod [] p)"
| "items_loop strtod items p =
     (case parse_value strtod p of
        None \<Rightarrow> None
      | Some (v, p1) \<Rightarrow>
          (case skip_ws p1 of
             [] \<Rightarrow> None
           | c # p2 \<Rightarrow>
               if c = CHR '']'' then Some (JSON_ARRAY (items @ [Some v]), p2)
               else if c \<noteq> CHR '','' then None
               else items_loop strtod (items @ [Some v]) (skip_ws p2)))"
| "parse_object strtod p0 =
     (let p = skip_ws p0
      in if p \<noteq> [] \<and> hd p = CHR ''}'' then Some (JSON_OBJECT [], tl p) else members_loop strtod [] p)"
| "members_loop strtod ms p =
     (case member_key (skip_ws p) of
        None \<Rightarrow> None
      | Some (key, p1) \<Rightarrow>
          (case parse_value strtod p1 of
             None \<Rightarrow> None
           | Some (v, p2) \<Rightarrow>
               (case skip_ws p2 of
                  [] \<Rightarrow> None
                | c # p3 \<Rightarrow>
                    if c = CHR ''}'' then Some (JSON_OBJECT (ms @ [(key, Some v)]), p3)
                    else if c \<noteq> CHR '','' then None
                    else members_loop strtod (ms @ [(key, Some v)]) p3)))"
  by pat_completeness auto

abbreviation "parse_dom \<equiv> parse_value_parse_array_items_loop_parse_object_members_loop_dom"

lemma skip_ws_length: "length (skip_ws p) \<le> length p"
  by (simp add: skip_ws_def length_dropWhile_le)

lemma skip_ws_Cons: "skip_ws p = c # q \<Longrightarrow> length q < length p"
  using skip_ws_length [of p] by simp

lemma string_body_shrinks: "string_body p buf = Some (b, p') \<Longrightarrow> length b + length p' + 1 \<le> length buf + length p"
proof (induction p buf rule: string_body.induct)
  case (2 c p buf)
  then show ?case
    by (fastforce dest: string_escape_shrinks split: if_splits option.splits)
qed simp

lemma parse_string_shrinks: "parse_string p = Some (b, p') \<Longrightarrow> length p' < length p"
  using string_body_shrinks [of p "[]" b p'] by (simp add: parse_string_def)

lemma member_key_shrinks: "member_key p = Some (k, p') \<Longrightarrow> length p' < length p"
proof -
  assume "member_key p = Some (k, p')"
  then obtain q where q: "p \<noteq> []" "parse_string (tl p) = Some (k, q)" "skip_ws q \<noteq> []" "p' = tl (skip_ws q)"
    by (auto simp: member_key_def Let_def split: if_splits option.splits)
  with parse_string_shrinks [OF q(2)] skip_ws_length [of q] show ?thesis by simp
qed

lemma lit_shrinks: "lit word p = Some p' \<Longrightarrow> word \<noteq> [] \<Longrightarrow> length p' < length p"
  by (cases p) (auto simp: lit_def split: if_splits)

lemma parse_number_shrinks: "parse_number strtod p = Some (v, p') \<Longrightarrow> length p' < length p"
  by (cases p) (auto simp: parse_number_def Let_def split: if_splits)

lemma parse_progress_dom:
  fixes s1 s2 s3 s4 s5 :: "string \<Rightarrow> 'd"
  shows
  "parse_dom (Inl (Inl (s1, p1))) \<Longrightarrow> (\<forall>v q. parse_value s1 p1 = Some (v, q) \<longrightarrow> length q < length p1)"
  "parse_dom (Inl (Inr (s2, p2))) \<Longrightarrow> (\<forall>v q. parse_array s2 p2 = Some (v, q) \<longrightarrow> length q < length p2)"
  "parse_dom (Inr (Inl (s3, i3, p3))) \<Longrightarrow> (\<forall>v q. items_loop s3 i3 p3 = Some (v, q) \<longrightarrow> length q < length p3)"
  "parse_dom (Inr (Inr (Inl (s4, p4)))) \<Longrightarrow> (\<forall>v q. parse_object s4 p4 = Some (v, q) \<longrightarrow> length q < length p4)"
  "parse_dom (Inr (Inr (Inr (s5, m5, p5)))) \<Longrightarrow> (\<forall>v q. members_loop s5 m5 p5 = Some (v, q) \<longrightarrow> length q < length p5)"
proof (induction rule: parse_value_parse_array_items_loop_parse_object_members_loop.pinduct)
  case (1 strtod p0)
  show ?case
  proof (intro allI impI)
    fix v q assume eq: "parse_value strtod p0 = Some (v, q)"
    then obtain c p where p: "skip_ws p0 = c # p"
      by (cases "skip_ws p0") (simp_all add: parse_value.psimps [OF 1(1)])
    then have "c = CHR ''{'' \<and> parse_object strtod p = Some (v, q) \<or>
        c \<noteq> CHR ''{'' \<and> c = CHR ''['' \<and> parse_array strtod p = Some (v, q) \<or>
        (\<exists>b. parse_string p = Some (b, q)) \<or> (\<exists>w. w \<noteq> [] \<and> lit w (c # p) = Some q) \<or>
        parse_number strtod (c # p) = Some (v, q)"
      using eq by (auto simp: parse_value.psimps [OF 1(1)] split: if_splits)
    then have "length q \<le> length p"
      using 1(2) [OF p] 1(3) [OF p] parse_string_shrinks lit_shrinks [of _ "c # p" q] parse_number_shrinks [of strtod "c # p" v q]
      by fastforce
    then show "length q < length p0" using skip_ws_Cons [OF p] by simp
  qed
next
  case (2 strtod p0)
  then show ?case
    using skip_ws_length [of p0] by (cases "skip_ws p0") (fastforce simp: parse_array.psimps Let_def split: if_splits)+
next
  case (3 strtod items p)
  show ?case
  proof (intro allI impI)
    fix v q assume eq: "items_loop strtod items p = Some (v, q)"
    then obtain w p1 c p2 where p1: "parse_value strtod p = Some (w, p1)" "skip_ws p1 = c # p2"
      "c = CHR '']'' \<and> q = p2 \<or> c \<noteq> CHR '']'' \<and> c = CHR '','' \<and> items_loop strtod (items @ [Some w]) (skip_ws p2) = Some (v, q)"
      by (auto simp: items_loop.psimps [OF 3(1)] split: list.splits if_splits option.splits)
    with 3(2) skip_ws_Cons [OF p1(2)] have small: "length p2 < length p" by fastforce
    from p1(3) show "length q < length p"
      using small 3(3) [of "(w, p1)" w p1 c p2] p1 skip_ws_length [of p2] by fastforce
  qed
next
  case (4 strtod p0)
  then show ?case
    using skip_ws_length [of p0] by (cases "skip_ws p0") (fastforce simp: parse_object.psimps Let_def split: if_splits)+
next
  case (5 strtod ms p)
  show ?case
  proof (intro allI impI)
    fix v q assume eq: "members_loop strtod ms p = Some (v, q)"
    then obtain key p0 w p1 c p2 where p1: "member_key (skip_ws p) = Some (key, p0)" "parse_value strtod p0 = Some (w, p1)"
      "skip_ws p1 = c # p2"
      "c = CHR ''}'' \<and> q = p2 \<or> c \<noteq> CHR ''}'' \<and> c = CHR '','' \<and> members_loop strtod (ms @ [(key, Some w)]) p2 = Some (v, q)"
      by (auto simp: members_loop.psimps [OF 5(1)] split: list.splits if_splits option.splits)
    have "length p1 < length p0" using 5(2) [OF p1(1) refl] p1(2) by blast
    then have small: "length p2 < length p"
      using skip_ws_Cons [OF p1(3)] member_key_shrinks [OF p1(1)] skip_ws_length [of p] by simp
    from p1(4) show "length q < length p"
      using small 5(3) [OF p1(1) refl p1(2) refl p1(3)] p1 by fastforce
  qed
qed

lemma skip_ws_less: "n < length (skip_ws p) \<Longrightarrow> n < length p"
  using skip_ws_length [of p] by simp

lemma parse_value_less:
  "parse_value strtod p = Some (v, q) \<Longrightarrow> parse_dom (Inl (Inl (strtod, p))) \<Longrightarrow> length q < length p"
  using parse_progress_dom(1) by blast

lemma parse_total: "All parse_dom"
apply (relation "measures
    [\<lambda>x. (case x of Inl (Inl (s, p)) \<Rightarrow> length p | Inl (Inr (s, p)) \<Rightarrow> length p
      | Inr (Inl (s, i, p)) \<Rightarrow> length p | Inr (Inr (Inl (s, p))) \<Rightarrow> length p
      | Inr (Inr (Inr (s, m, p))) \<Rightarrow> length p),
     \<lambda>x. (case x of Inl (Inl _) \<Rightarrow> 0 | Inl (Inr _) \<Rightarrow> 2 | Inr (Inl _) \<Rightarrow> 1
      | Inr (Inr (Inl _)) \<Rightarrow> 2 | Inr (Inr (Inr _)) \<Rightarrow> (1 :: nat))]")
  using skip_ws_length
  by (auto dest!: skip_ws_Cons member_key_shrinks skip_ws_less parse_value_less simp: le_neq_implies_less)
    (meson le_less_trans less_trans)+

termination parse_value
  by (rule parse_total)

declare parse_value.simps [simp del] parse_array.simps [simp del] items_loop.simps [simp del]
  parse_object.simps [simp del] members_loop.simps [simp del]

definition json_parse :: "(string \<Rightarrow> 'd) \<Rightarrow> string \<Rightarrow> 'd json option" where
  "json_parse strtod t = map_option fst (parse_value strtod t)"

subsection \<open>The serializer\<close>

text \<open>\<open>"\\u%04x"\<close> of a byte.\<close>

definition emit_char :: "char \<Rightarrow> string" where
  "emit_char c =
     (if c = dquote then [backslash, dquote]
      else if c = backslash then [backslash, backslash]
      else if c = CHR 0x08 then [backslash, CHR ''b'']
      else if c = CHR 0x0C then [backslash, CHR ''f'']
      else if c = CHR 0x0A then [backslash, CHR ''n'']
      else if c = CHR 0x0D then [backslash, CHR ''r'']
      else if c = CHR 0x09 then [backslash, CHR ''t'']
      else if byte c < 0x20 then
        [backslash, CHR ''u'', CHR ''0'', CHR ''0'', hex_char (byte c div 16), hex_char (byte c mod 16)]
      else [c])"

definition emit_string :: "string \<Rightarrow> string" where
  "emit_string s = dquote # concat (map emit_char s) @ [dquote]"

text \<open>A number: \<open>%lld\<close> of an integral double in range, \<open>%.17g\<close> of any other.\<close>

definition number_text :: "('d \<Rightarrow> int option) \<Rightarrow> ('d \<Rightarrow> string) \<Rightarrow> 'd \<Rightarrow> string" where
  "number_text as_long fmt d = (case as_long d of Some i \<Rightarrow> dec_int i | None \<Rightarrow> fmt d)"

fun comma_sep :: "string list \<Rightarrow> string" where
  "comma_sep [] = []"
| "comma_sep [s] = s"
| "comma_sep (s # ss) = s @ CHR '','' # comma_sep ss"

fun json_serialize :: "('d \<Rightarrow> string) \<Rightarrow> 'd json option \<Rightarrow> string" where
  "json_serialize num None = ''null''"
| "json_serialize num (Some JSON_NULL) = ''null''"
| "json_serialize num (Some (JSON_BOOL b)) = (if b then ''true'' else ''false'')"
| "json_serialize num (Some (JSON_NUMBER d)) = num d"
| "json_serialize num (Some (JSON_STRING s)) = emit_string s"
| "json_serialize num (Some (JSON_ARRAY items)) =
     CHR ''['' # comma_sep (map (json_serialize num) items) @ [CHR '']'']"
| "json_serialize num (Some (JSON_OBJECT ms)) =
     CHR ''{'' # comma_sep (map (\<lambda>m. emit_string (c_prefix (fst m)) @ CHR '':'' # json_serialize num (snd m)) ms) @ [CHR ''}'']"

subsection \<open>Reading back what was written\<close>

lemma push_or: "b < 2 ^ k \<Longrightarrow> push_bit k a OR b = a * 2 ^ k + b" for a b :: nat
proof -
  assume "b < 2 ^ k"
  then have "take_bit k b = b" by (simp add: take_bit_eq_mod)
  then have "\<not> (bit (push_bit k a) n \<and> bit b n)" for n
    by (metis bit_push_bit_iff bit_take_bit_iff not_less)
  then have "push_bit k a AND b = 0" by (simp add: bit_eq_iff bit_and_iff)
  then show ?thesis by (metis disjunctive_add_eq_or push_bit_eq_mult)
qed

lemma small_hex4:
  assumes "n < 256"
  shows "hex4 (CHR ''0'' # CHR ''0'' # hex_char (n div 16) # hex_char (n mod 16) # p) = Some (n, p)"
proof -
  have zero: "hex_digit_val CHR ''0'' = 0" "isxdigit CHR ''0''" by (simp_all add: hex_digit_val_def char_class_defs)
  have "push_bit 4 (n div 16) OR n mod 16 = n" using push_or [of "n mod 16" 4 "n div 16"] by simp
  then show ?thesis
    using assms isxdigit_hex_char [of "n div 16"] isxdigit_hex_char [of "n mod 16"]
      hex_digit_val_hex_char [of "n div 16"] hex_digit_val_hex_char [of "n mod 16"]
    by (simp add: hex4_def zero)
qed

lemma string_body_emit: "string_body (emit_char c @ p) buf = string_body p (buf @ [c])"
proof (cases "c \<in> {dquote, backslash, CHR 0x08, CHR 0x0C, CHR 0x0A, CHR 0x0D, CHR 0x09} \<or> 0x20 \<le> byte c")
  case True
  then show ?thesis by (auto simp: emit_char_def string_escape_def)
next
  case False
  then have "hex4 (CHR ''0'' # CHR ''0'' # hex_char (byte c div 16) # hex_char (byte c mod 16) # p) = Some (byte c, p)"
    by (intro small_hex4) simp
  with False show ?thesis
    by (simp add: emit_char_def string_escape_def unicode_escape_def utf8_encode_def)
qed

lemma string_body_emits: "string_body (concat (map emit_char s) @ dquote # p) buf = Some (buf @ s, p)"
  by (induction s arbitrary: buf) (simp_all add: string_body_emit)

lemma parse_string_emit: "parse_string (concat (map emit_char s) @ dquote # p) = Some (s, p)"
  by (simp add: parse_string_def string_body_emits)

text \<open>The text of a number is read back, whatever follows it.\<close>

definition reads_number :: "(string \<Rightarrow> 'd) \<Rightarrow> ('d \<Rightarrow> string) \<Rightarrow> 'd \<Rightarrow> bool" where
  "reads_number strtod num d \<longleftrightarrow>
     num d \<noteq> [] \<and> length (num d) < 64 \<and> list_all is_num_char (num d) \<and>
     (hd (num d) = CHR ''-'' \<or> isdigit (hd (num d))) \<and> strtod (num d) = d"

text \<open>
  What the round trip gives: a \<open>NULL\<close> item is written as \<open>null\<close>, and a key up to its
  terminator.
\<close>

fun written :: "'d json option \<Rightarrow> 'd json" where
  "written None = JSON_NULL"
| "written (Some (JSON_ARRAY items)) = JSON_ARRAY (map (\<lambda>x. Some (written x)) items)"
| "written (Some (JSON_OBJECT ms)) = JSON_OBJECT (map (\<lambda>m. (c_prefix (fst m), Some (written (snd m)))) ms)"
| "written (Some v) = v"

definition after_value :: "string \<Rightarrow> bool" where
  "after_value p \<longleftrightarrow> p = [] \<or> \<not> is_num_char (hd p)"

text \<open>A text that starts a value: no blank, no bracket that closes.\<close>

definition starts_value :: "string \<Rightarrow> bool" where
  "starts_value p \<longleftrightarrow> p \<noteq> [] \<and> \<not> is_ws (hd p) \<and> hd p \<noteq> CHR '']'' \<and> hd p \<noteq> CHR ''}''"

definition numbers_read :: "(string \<Rightarrow> 'd) \<Rightarrow> ('d \<Rightarrow> string) \<Rightarrow> 'd json option \<Rightarrow> bool" where
  "numbers_read strtod num v \<longleftrightarrow> (\<forall>w \<in> set_option v. \<forall>d \<in> set_json w. reads_number strtod num d)"

lemma serialize_starts: "numbers_read strtod num v \<Longrightarrow> starts_value (json_serialize num v)"
  by (cases "(num, v)" rule: json_serialize.cases)
    (auto simp: starts_value_def numbers_read_def reads_number_def emit_string_def is_ws_def isdigit_def byte_def)

lemma skip_ws_starts: "starts_value p \<Longrightarrow> skip_ws (p @ q) = p @ q"
  by (cases p) (auto simp: starts_value_def skip_ws_def)

lemma skip_ws_nonblank: "\<not> is_ws c \<Longrightarrow> skip_ws (c # p) = c # p"
  by (simp add: skip_ws_def)

lemma parse_value_number:
  assumes "reads_number strtod num d" and "after_value p"
  shows "parse_value strtod (num d @ p) = Some (JSON_NUMBER d, p)"
proof -
  obtain c q where c: "num d = c # q" using assms(1) by (cases "num d") (auto simp: reads_number_def)
  have first: "c = CHR ''-'' \<or> isdigit c" using assms(1) by (simp add: reads_number_def c)
  then have kinds: "\<not> is_ws c" "c \<noteq> CHR ''{''" "c \<noteq> CHR ''[''" "c \<noteq> dquote" "c \<noteq> CHR ''t''" "c \<noteq> CHR ''f''" "c \<noteq> CHR ''n''"
    by (auto simp: is_ws_def isdigit_def byte_def)
  have "takeWhile is_num_char (num d @ p) = num d"
    using assms by (cases p) (auto simp: reads_number_def after_value_def list_all_iff)
  then have "parse_number strtod (num d @ p) = Some (JSON_NUMBER d, p)"
    using assms(1) by (simp add: parse_number_def Let_def reads_number_def)
  moreover have "parse_value strtod (num d @ p) = parse_number strtod (num d @ p)"
    using first kinds by (auto simp: c parse_value.simps [of strtod "c # q @ p"] skip_ws_nonblank)
  ultimately show ?thesis by simp
qed

lemma parse_value_array:
  assumes "items \<noteq> []"
    and "\<And>x p. x \<in> set items \<Longrightarrow> after_value p \<Longrightarrow> parse_value strtod (ser x @ p) = Some (clean x, p)"
    and "\<And>x. x \<in> set items \<Longrightarrow> starts_value (ser x)"
  shows "items_loop strtod acc (comma_sep (map ser items) @ CHR '']'' # p) =
    Some (JSON_ARRAY (acc @ map (\<lambda>x. Some (clean x)) items), p)"
  using assms
proof (induction items arbitrary: acc)
  case (Cons x xs)
  show ?case
  proof (cases xs)
    case Nil
    have "parse_value strtod (ser x @ CHR '']'' # p) = Some (clean x, CHR '']'' # p)"
      by (rule Cons.prems(2)) (simp_all add: after_value_def is_num_char_def isdigit_def byte_def)
    then show ?thesis by (simp add: Nil items_loop.simps skip_ws_nonblank is_ws_def)
  next
    case (Cons y ys)
    let ?rest = "comma_sep (map ser xs) @ CHR '']'' # p"
    have "parse_value strtod (ser x @ CHR '','' # ?rest) = Some (clean x, CHR '','' # ?rest)"
      by (rule Cons.prems(2)) (simp_all add: after_value_def is_num_char_def isdigit_def byte_def)
    moreover have "starts_value (comma_sep (map ser xs))"
      using Cons.prems(3) Cons by (cases ys) (auto simp: starts_value_def)
    ultimately show ?thesis
      using Cons.IH [of "acc @ [Some (clean x)]"] Cons.prems(2,3) Cons
      by (simp add: items_loop.simps [of strtod acc] skip_ws_nonblank is_ws_def)
        (simp add: skip_ws_starts)
  qed
qed simp

lemma parse_value_object:
  assumes "ms \<noteq> []"
    and "\<And>k x p. (k, x) \<in> set ms \<Longrightarrow> after_value p \<Longrightarrow> parse_value strtod (ser x @ p) = Some (clean x, p)"
  shows "members_loop strtod acc (comma_sep (map (\<lambda>m. emit_string (c_prefix (fst m)) @ CHR '':'' # ser (snd m)) ms) @ CHR ''}'' # p) =
    Some (JSON_OBJECT (acc @ map (\<lambda>m. (c_prefix (fst m), Some (clean (snd m)))) ms), p)"
  using assms
proof (induction ms arbitrary: acc)
  case (Cons m ms)
  obtain k x where m: "m = (k, x)" by (cases m)
  have key: "member_key (skip_ws (emit_string (c_prefix k) @ CHR '':'' # q)) = Some (c_prefix k, q)" for q
    by (simp add: emit_string_def skip_ws_nonblank is_ws_def member_key_def parse_string_emit)
  show ?case
  proof (cases ms)
    case Nil
    have "parse_value strtod (ser x @ CHR ''}'' # p) = Some (clean x, CHR ''}'' # p)"
      by (rule Cons.prems(2) [of k]) (simp_all add: m after_value_def is_num_char_def isdigit_def byte_def)
    then show ?thesis by (simp add: Nil m members_loop.simps key skip_ws_nonblank is_ws_def)
  next
    case (Cons n ns)
    let ?rest = "comma_sep (map (\<lambda>m. emit_string (c_prefix (fst m)) @ CHR '':'' # ser (snd m)) ms) @ CHR ''}'' # p"
    have "parse_value strtod (ser x @ CHR '','' # ?rest) = Some (clean x, CHR '','' # ?rest)"
      by (rule Cons.prems(2) [of k]) (simp_all add: m after_value_def is_num_char_def isdigit_def byte_def)
    moreover have "members_loop strtod (acc @ [(c_prefix k, Some (clean x))]) ?rest =
        Some (JSON_OBJECT ((acc @ [(c_prefix k, Some (clean x))]) @ map (\<lambda>m. (c_prefix (fst m), Some (clean (snd m)))) ms), p)"
      by (rule Cons.IH) (use Cons Cons.prems(2) in auto)
    ultimately show ?thesis
      using Cons by (simp add: m members_loop.simps [of strtod acc] key skip_ws_nonblank is_ws_def)
  qed
qed simp

lemma parse_serialized:
  "numbers_read strtod num v \<Longrightarrow> after_value p \<Longrightarrow>
   parse_value strtod (json_serialize num v @ p) = Some (written v, p)"
proof (induction num v arbitrary: p rule: json_serialize.induct)
  case (6 num items)
  show ?case
  proof (cases "items = []")
    case True
    then show ?thesis
      by (simp add: parse_value.simps parse_array.simps Let_def skip_ws_nonblank is_ws_def)
  next
    case False
    have each: "numbers_read strtod num x" if "x \<in> set items" for x
      using 6(2) that by (auto simp: numbers_read_def)
    have start: "starts_value (comma_sep (map (json_serialize num) items))"
    proof -
      obtain y ys where "items = y # ys" using False by (metis neq_Nil_conv)
      then show ?thesis
        using serialize_starts [OF each, of y] by (cases ys) (auto simp: starts_value_def)
    qed
    have "items_loop strtod [] (comma_sep (map (json_serialize num) items) @ CHR '']'' # p) =
        Some (JSON_ARRAY ([] @ map (\<lambda>x. Some (written x)) items), p)"
      by (rule parse_value_array [OF False]) (use 6(1) each serialize_starts in blast)+
    then show ?thesis
      using start skip_ws_starts [OF start]
      by (simp add: parse_value.simps parse_array.simps [of strtod] Let_def skip_ws_nonblank is_ws_def starts_value_def)
  qed
next
  case (7 num ms)
  show ?case
  proof (cases "ms = []")
    case True
    then show ?thesis
      by (simp add: parse_value.simps parse_object.simps Let_def skip_ws_nonblank is_ws_def)
  next
    case False
    let ?body = "comma_sep (map (\<lambda>m. emit_string (c_prefix (fst m)) @ CHR '':'' # json_serialize num (snd m)) ms)"
    have each: "numbers_read strtod num x" if "(k, x) \<in> set ms" for k x
      using 7(2) that by (fastforce simp: numbers_read_def)
    have start: "starts_value ?body"
    proof -
      obtain y ys where "ms = y # ys" using False by (metis neq_Nil_conv)
      then show ?thesis by (cases ys) (auto simp: starts_value_def emit_string_def is_ws_def)
    qed
    have "members_loop strtod [] (?body @ CHR ''}'' # p) =
        Some (JSON_OBJECT ([] @ map (\<lambda>m. (c_prefix (fst m), Some (written (snd m)))) ms), p)"
      by (rule parse_value_object [OF False]) (use 7(1) each in fastforce)
    then show ?thesis
      using start skip_ws_starts [OF start]
      by (simp add: parse_value.simps parse_object.simps [of strtod] Let_def skip_ws_nonblank is_ws_def starts_value_def)
  qed
next
  case (4 num d)
  then show ?case using parse_value_number [of strtod num d p] by (simp add: numbers_read_def)
qed (auto simp: parse_value.simps skip_ws_nonblank is_ws_def lit_def emit_string_def parse_string_emit)

subsection \<open>Code points and their bytes\<close>

text \<open>The code point that the bytes at the start of a text encode, by the definition of UTF-8.\<close>

definition continuation :: "char \<Rightarrow> bool" where "continuation c \<longleftrightarrow> 0x80 \<le> byte c \<and> byte c < 0xC0"

definition utf8_value :: "string \<Rightarrow> (nat \<times> string) option" where
  "utf8_value s =
     (case s of
        [] \<Rightarrow> None
      | b # r \<Rightarrow>
          if byte b < 0x80 then Some (byte b, r)
          else
            let n = (if byte b < 0xC0 then 0 else if byte b < 0xE0 then 1 else if byte b < 0xF0 then 2
                     else if byte b < 0xF8 then 3 else 0);
                lead = byte b mod 2 ^ (6 - n)
            in if n = 0 \<or> length r < n \<or> \<not> list_all continuation (take n r) then None
               else Some (foldl (\<lambda>v c. v * 64 + (byte c - 0x80)) lead (take n r), drop n r))"

lemma continuation_byte: "n < 64 \<Longrightarrow> byte (char_of (0x80 OR n)) = 0x80 + n"
  using push_or [of n 6 2] by (simp add: push_bit_eq_mult byte_char_of)

lemma lead_bytes:
  "n < 32 \<Longrightarrow> byte (char_of (0xC0 OR n)) = 0xC0 + n"
  "n < 16 \<Longrightarrow> byte (char_of (0xE0 OR n)) = 0xE0 + n"
  "n < 8 \<Longrightarrow> byte (char_of (0xF0 OR n)) = 0xF0 + n"
  using push_or [of n 5 6] push_or [of n 4 14] push_or [of n 3 30] by (simp_all add: push_bit_eq_mult byte_char_of)

lemma low_six: "n AND 0x3F = n mod 64" for n :: nat
  using take_bit_eq_mask [of 6 n] by (simp add: take_bit_eq_mod mask_eq_exp_minus_1)

lemma shifted: "drop_bit 6 n = n div 64" "drop_bit 12 n = n div 64 div 64" "drop_bit 18 n = n div 64 div 64 div 64" for n :: nat
  by (simp_all add: drop_bit_eq_div div_mult2_eq [symmetric])

lemma lead_values:
  "n < 32 \<Longrightarrow> (0xC0 + n) mod 32 = n" "n < 16 \<Longrightarrow> (0xE0 + n) mod 16 = n" "n < 8 \<Longrightarrow> (0xF0 + n) mod 8 = n" for n :: nat
  by (subst mod_add_eq [symmetric], simp)+

lemmas utf8_simps = utf8_encode_def utf8_value_def low_six shifted lead_bytes lead_values continuation_byte continuation_def

lemma utf8_value_encode:
  assumes "cp < 0x200000"
  shows "utf8_value (utf8_encode cp @ r) = Some (cp, r)"
proof -
  define a b c d where "a = cp mod 64" "b = cp div 64 mod 64" "c = cp div 64 div 64 mod 64" "d = cp div 64 div 64 div 64"
  note digits = a_b_c_d_def [symmetric]
  have small: "a < 64" "b < 64" "c < 64" "d < 8" using assms by (auto simp: a_b_c_d_def)
  have whole: "((d * 64 + c) * 64 + b) * 64 + a = cp" by (simp add: a_b_c_d_def)
  consider "cp < 0x80" | "0x80 \<le> cp" "cp < 0x800" | "0x800 \<le> cp" "cp < 0x10000" | "0x10000 \<le> cp" by linarith
  then show ?thesis
  proof cases
    case 1
    then show ?thesis by (simp add: utf8_encode_def utf8_value_def byte_char_of)
  next
    case 2
    then have top: "cp div 64 = b" "b < 32" by (auto simp: a_b_c_d_def)
    have "b * 64 + a = cp" using whole 2 by (simp add: a_b_c_d_def)
    with 2 small top digits show ?thesis by (simp add: utf8_simps)
  next
    case 3
    then have top: "cp div 64 div 64 = c" "c < 16" by (auto simp: a_b_c_d_def)
    have "(c * 64 + b) * 64 + a = cp" using whole 3 by (simp add: a_b_c_d_def)
    with 3 small top digits show ?thesis by (simp add: utf8_simps)
  next
    case 4
    with small whole digits show ?thesis by (simp add: utf8_simps)
  qed
qed

subsection \<open>Members\<close>

lemma member_value_append:
  "member_value (ms @ [(k, v)]) key =
     (if c_prefix key \<in> (\<lambda>m. c_prefix (fst m)) ` set ms then member_value ms key
      else if c_prefix k = c_prefix key then v else None)"
  by (induction ms key rule: member_value.induct) auto

lemma c_prefix_idem: "c_prefix (c_prefix s) = c_prefix s"
  by (simp add: c_prefix_def takeWhile_idem)

lemma json_get_set:
  "json_get (Some (json_object_set (JSON_OBJECT ms) k v)) key =
     (if c_prefix key \<in> (\<lambda>m. c_prefix (fst m)) ` set ms then json_get (Some (JSON_OBJECT ms)) key
      else if c_prefix k = c_prefix key then v else None)"
  by (simp add: json_get_def json_object_set_def member_value_append c_prefix_idem)

text \<open>
  A high surrogate followed by an escape that is no low surrogate: the second escape is read
  and its character lost.
\<close>

lemma high_surrogate_drops_escape:
  "parse_string ([backslash] @ ''ud800'' @ [backslash] @ ''u0041'' @ [dquote]) = Some (utf8_encode 0xD800, [])"
  by (simp add: parse_string_def string_escape_def unicode_escape_def hex4_def hex_digit_val_def char_class_defs
      push_bit_eq_mult)

subsection \<open>Properties\<close>

text \<open>
  C30: What the serializer writes the parser reads back: every value whose numbers survive
  printing comes back equal, with a \<open>NULL\<close> item as \<open>null\<close> and a key cut at an embedded
  terminator; strings may hold any bytes.
\<close>

theorem json_round_trip:
  assumes "numbers_read strtod (number_text as_long fmt) (Some v)"
  shows "json_parse strtod (json_serialize (number_text as_long fmt) (Some v)) = Some (written (Some v))"
  using parse_serialized [OF assms, of "[]"] by (simp add: json_parse_def after_value_def)

lemma json_round_trip_witness:
  "json_parse (\<lambda>s. if hd s = CHR ''-'' then - int (dec_value 0 (tl s)) else int (dec_value 0 s))
     (json_serialize (number_text Some dec_int)
        (Some (JSON_OBJECT [(''a'', Some (JSON_ARRAY [Some (JSON_NUMBER (-7)), None, Some (JSON_STRING [newline])]))]))) =
   Some (JSON_OBJECT [(''a'', Some (JSON_ARRAY [Some (JSON_NUMBER (-7)), Some JSON_NULL, Some (JSON_STRING [newline])]))])"
proof -
  have "numbers_read (\<lambda>s. if hd s = CHR ''-'' then - int (dec_value 0 (tl s)) else int (dec_value 0 s))
     (number_text Some dec_int)
     (Some (JSON_OBJECT [(''a'', Some (JSON_ARRAY [Some (JSON_NUMBER (-7)), None, Some (JSON_STRING [newline])]))]))"
    by (simp add: numbers_read_def reads_number_def number_text_def dec_int_def dec_nat.simps is_num_char_def
        char_class_defs)
  from json_round_trip [OF this] show ?thesis by (simp add: c_prefix_def)
qed

text \<open>
  \<open>parse_string\<close> stays inside its buffer of one byte more than the rest of the text: an
  escape decodes to no more bytes than it is long, the loop never holds more bytes than it has
  read, and the terminator fits too.
\<close>

theorem json_strings_fit:
  "(string_escape p = Some (b, p') \<longrightarrow> length b + length p' \<le> length p) \<and>
   (string_body p buf = Some (s, rest) \<longrightarrow> length s + 1 + length rest \<le> length buf + length p)"
  using string_escape_shrinks [of p b p'] string_body_shrinks [of p buf s rest] by auto

lemma json_strings_fit_witness:
  "length (fst (the (string_body ([backslash] @ ''u00e9'' @ [dquote]) []))) + 1 \<le> 7"
proof -
  have "string_body ([backslash] @ ''u00e9'' @ [dquote]) [] = Some (utf8_encode 0xE9, [])"
    by (simp add: string_escape_def unicode_escape_def hex4_def hex_digit_val_def char_class_defs push_bit_eq_mult)
  with json_strings_fit [of "[backslash] @ ''u00e9'' @ [dquote]" "[]" "[]" "[]" "utf8_encode 0xE9" "[]"] show ?thesis
    by simp
qed

text \<open>
  A code point is encoded as UTF-8: decoding by the definition of the encoding gives it
  back, whatever follows, in the fewest bytes for its range.
\<close>

theorem utf8_encode_decodes:
  assumes "cp \<le> 0x10FFFF"
  shows "utf8_value (utf8_encode cp @ r) = Some (cp, r) \<and>
    length (utf8_encode cp) = (if cp < 2 ^ 7 then 1 else if cp < 2 ^ 11 then 2 else if cp < 2 ^ 16 then 3 else 4)"
  using assms utf8_value_encode [of cp r] by (simp add: length_utf8_encode)

lemma utf8_encode_decodes_witness: "utf8_value (utf8_encode 0x1F600 @ ''x'') = Some (0x1F600, ''x'')"
  using utf8_encode_decodes [of "0x1F600" "''x''"] by simp

end
