(* ===== verification/FC_Args.thy ===== *)
theory FC_Args
  imports FC_Cond FC_Text
begin

section \<open>The command line (\<open>src/args.c\<close>, \<open>src/platform.c\<close>)\<close>

text \<open>
  Response files are expanded into a flat list of tokens, each with the directory of the file
  it stands in (none when typed), and the list is interpreted. The file system and \<open>glob\<close>
  are parameters: \<open>fs_realpath\<close> and \<open>fs_read\<close> give the canonical path and the contents of a
  file up to a NUL, \<open>glob\<close> the paths a pattern matches, \<open>None\<close> where the call fails. The host
  is POSIX, where a path is absolute when it starts with a slash.
\<close>

record file_system =
  fs_realpath :: "string \<Rightarrow> string option"
  fs_read :: "string \<Rightarrow> string option"

definition path_is_abs :: "string \<Rightarrow> bool" where "path_is_abs p \<longleftrightarrow> at_c p 0 = CHR ''/''"

text \<open>What stands before the last slash.\<close>

definition path_dir :: "string \<Rightarrow> string" where
  "path_dir path =
     (if CHR ''/'' \<notin> set path then ''.''
      else let d = rev (tl (dropWhile (\<lambda>c. c \<noteq> CHR ''/'') (rev path)))
           in if d = [] then ''/'' else d)"

definition path_join :: "string \<Rightarrow> string \<Rightarrow> string" where "path_join dir rel = dir @ CHR ''/'' # rel"

subsection \<open>Expansion\<close>

type_synonym arg = "string \<times> string option"

definition ARGS_MAX_DEPTH :: nat where "ARGS_MAX_DEPTH = 32"

definition is_blank :: "char \<Rightarrow> bool" where "is_blank c \<longleftrightarrow> c \<in> {CHR '' '', CHR 0x09, CHR 0x0A, CHR 0x0D}"

definition quote_name :: "string \<Rightarrow> string \<Rightarrow> string" where
  "quote_name msg path = msg @ [CHR '' '', squote] @ path @ [squote]"

text \<open>The next token of a file: the end, a missing quote, or the token and what follows it.\<close>

datatype rsp_token = End | Unterminated | Tok string string

function next_token :: "string \<Rightarrow> rsp_token" where
  "next_token p0 =
     (case dropWhile is_blank p0 of
        [] \<Rightarrow> End
      | c # q \<Rightarrow>
          if c = CHR ''#'' \<or> c = CHR ''/'' \<and> at_c q 0 = CHR ''/'' then next_token (dropWhile (\<lambda>c. c \<noteq> newline) (c # q))
          else if c = dquote then
            (let s = takeWhile (\<lambda>c. c \<noteq> dquote \<and> c \<noteq> newline) q; r = drop (length s) q
             in if at_c r 0 \<noteq> dquote then Unterminated else Tok s (tl r))
          else let s = takeWhile (\<lambda>c. \<not> is_blank c) (c # q) in Tok s (drop (length s) (c # q)))"
  by pat_completeness auto
termination
proof (relation "measure length", goal_cases)
  case (2 p0 c q)
  then have "c \<noteq> newline" by auto
  with 2 length_dropWhile_le [of is_blank p0] length_dropWhile_le [of "\<lambda>c. c \<noteq> newline" q] show ?case by simp
qed simp

declare next_token.simps [simp del]

lemma next_token_shrinks: "next_token p = Tok s r \<Longrightarrow> length r < length p"
proof (induction p rule: next_token.induct)
  case (1 p0)
  then obtain c q where p: "dropWhile is_blank p0 = c # q"
    by (cases "dropWhile is_blank p0") (auto simp: next_token.simps [of p0])
  have le: "length (c # q) \<le> length p0" using length_dropWhile_le [of is_blank p0] by (simp add: p)
  have solid: "\<not> is_blank c" using hd_dropWhile [of is_blank p0] p by (metis list.distinct(1) list.sel(1))
  show ?case
  proof (cases "c = CHR ''#'' \<or> c = CHR ''/'' \<and> at_c q 0 = CHR ''/''")
    case True
    then have "length r < length (dropWhile (\<lambda>c. c \<noteq> newline) (c # q))"
      using "1.IH" [OF p True] "1.prems" by (simp add: next_token.simps [of p0] p)
    then show ?thesis using le length_dropWhile_le [of "\<lambda>c. c \<noteq> newline" "c # q"] by linarith
  next
    case False
    then have "length r \<le> length q"
      using "1.prems" solid by (auto simp: next_token.simps [of p0] p Let_def split: if_splits)
    then show ?thesis using le by simp
  qed
qed

text \<open>
  \<open>expand_file\<close> and its loop over the tokens of the file. \<open>stack\<close> holds the canonical paths
  of the files being expanded.
\<close>

function expand_file :: "file_system \<Rightarrow> string \<Rightarrow> string list \<Rightarrow> nat \<Rightarrow> string + arg list"
  and expand_tokens :: "file_system \<Rightarrow> string \<Rightarrow> string list \<Rightarrow> nat \<Rightarrow> string \<Rightarrow> string + arg list"
where
  "expand_file fs path stack depth =
     (if ARGS_MAX_DEPTH < depth then Inl (quote_name ''response files nested too deeply at'' path)
      else case fs_realpath fs path of
             None \<Rightarrow> Inl (quote_name ''cannot open response file'' path)
           | Some canon \<Rightarrow>
               if canon \<in> set stack then Inl (quote_name ''recursive response file'' path)
               else (case fs_read fs path of
                       None \<Rightarrow> Inl (quote_name ''cannot open response file'' path)
                     | Some buf \<Rightarrow> expand_tokens fs path (stack @ [canon]) depth buf))"
| "expand_tokens fs path stack depth p =
     (case next_token p of
        End \<Rightarrow> Inr []
      | Unterminated \<Rightarrow> Inl (quote_name ''unterminated quote in response file'' path)
      | Tok s r \<Rightarrow>
          bindE (if at_c s 0 = CHR ''@'' \<and> 1 < length s
                 then let child = tl s
                      in expand_file fs (if path_is_abs child then child else path_join (path_dir path) child)
                           stack (depth + 1)
                 else Inr [(s, Some (path_dir path))])
            (\<lambda>out. bindE (expand_tokens fs path stack depth r) (\<lambda>rest. Inr (out @ rest))))"
  by pat_completeness auto
termination
  by (relation "measures
      [\<lambda>x. (case x of Inl (fs, path, stack, d) \<Rightarrow> if 32 < d then 0 else 34 - d
                | Inr (fs, path, stack, d, p) \<Rightarrow> if 32 < d then 1 else 34 - d),
       \<lambda>x. (case x of Inl _ \<Rightarrow> 1 | Inr (fs, path, stack, d, p) \<Rightarrow> 0),
       \<lambda>x. (case x of Inl _ \<Rightarrow> 0 | Inr (fs, path, stack, d, p) \<Rightarrow> length p)]")
    (auto simp: ARGS_MAX_DEPTH_def dest: next_token_shrinks)

declare expand_file.simps [simp del] expand_tokens.simps [simp del]

text \<open>The whole command line: a typed token is itself, \<open>@file\<close> the tokens of the file.\<close>

fun args_expand :: "file_system \<Rightarrow> string list \<Rightarrow> string + arg list" where
  "args_expand fs [] = Inr []"
| "args_expand fs (t # ts) =
     bindE (if at_c t 0 = CHR ''@'' \<and> at_c t 1 \<noteq> nul then expand_file fs (tl t) [] 0 else Inr [(t, None)])
       (\<lambda>out. bindE (args_expand fs ts) (\<lambda>rest. Inr (out @ rest)))"

subsection \<open>The flags of the host\<close>

definition has_axis :: "cflag list \<Rightarrow> string \<Rightarrow> bool" where
  "has_axis flags axis = list_ex (\<lambda>f. fl_name f = axis) flags"

definition add_static :: "string \<Rightarrow> string \<Rightarrow> cflag list \<Rightarrow> cflag list" where
  "add_static axis v flags = (if has_axis flags axis then flags else flags @ [\<lparr>fl_name = axis, fl_value = Some v\<rparr>])"

text \<open>What the preprocessor of the build answers: system, architecture and environment.\<close>

record host =
  platform_os :: "string option"
  platform_arch :: "string option"
  platform_env :: "string option"

definition platform_detect_flags :: "host \<Rightarrow> cflag list \<Rightarrow> cflag list" where
  "platform_detect_flags h flags =
     fold (\<lambda>(axis, v) fs. case v of None \<Rightarrow> fs | Some v \<Rightarrow> add_static axis v fs)
       [(''os'', platform_os h), (''arch'', platform_arch h), (''env'', platform_env h)] flags"

subsection \<open>Interpretation\<close>

record compile_args =
  ca_inputs :: "string list"
  ca_output :: "string option"
  ca_flags :: "cflag list"
  ca_backtraces :: bool
  ca_len_repr :: nat

definition add_inputs :: "(string \<Rightarrow> string list option) \<Rightarrow> arg \<Rightarrow> compile_args \<Rightarrow> string + compile_args" where
  "add_inputs glob a out =
     (case a of
        (tok, None) \<Rightarrow> Inr (out\<lparr>ca_inputs := ca_inputs out @ [tok]\<rparr>)
      | (tok, Some dir) \<Rightarrow>
          let pat = (if path_is_abs tok then tok else path_join dir tok)
          in case glob pat of
               None \<Rightarrow> Inl (quote_name ''cannot expand input pattern'' pat)
             | Some ms \<Rightarrow> Inr (out\<lparr>ca_inputs := ca_inputs out @ ms\<rparr>))"

text \<open>The argument of \<open>--flag\<close>: a name, or a name and a value around the first \<open>=\<close>.\<close>

definition parse_flag :: "string \<Rightarrow> string + cflag" where
  "parse_flag arg =
     (let name = takeWhile (\<lambda>c. c \<noteq> CHR ''='') arg
      in if CHR ''='' \<in> set arg then
           (if name = [] then Inl (''--flag requires a name before '' @ [squote] @ ''='' @ [squote])
            else if length arg = length name + 1 then
              Inl (''--flag '' @ [squote] @ arg @ [squote] @ '' has empty value after '' @ [squote] @ ''='' @ [squote])
            else Inr \<lparr>fl_name = name, fl_value = Some (drop (length name + 1) arg)\<rparr>)
         else if arg = [] then Inl ''--flag requires a name''
         else Inr \<lparr>fl_name = arg, fl_value = None\<rparr>)"

text \<open>A flag replaces the first of its name, or is added.\<close>

fun set_flag :: "cflag \<Rightarrow> cflag list \<Rightarrow> cflag list" where
  "set_flag f [] = [f]"
| "set_flag f (g # fs) = (if fl_name g = fl_name f then f # fs else g # set_flag f fs)"

definition parse_len_repr :: "string \<Rightarrow> string + nat" where
  "parse_len_repr v =
     (if v = ''16'' then Inr 16 else if v = ''32'' then Inr 32 else if v = ''64'' then Inr 64
      else Inl (''invalid --len-repr '' @ [squote] @ v @ [squote] @ '' (expected 16, 32, or 64)''))"

text \<open>One token and the values it takes, and the loop over the tokens.\<close>

fun parse_arg :: "(string \<Rightarrow> string list option) \<Rightarrow> arg \<Rightarrow> arg list \<Rightarrow> compile_args \<Rightarrow> string + arg list \<times> compile_args" where
  "parse_arg glob (a, dir) rest out =
     (if a = ''-o'' then
        (case rest of
           [] \<Rightarrow> Inl ''-o requires an output file name''
         | (v, vdir) # rest \<Rightarrow>
             Inr (rest, out\<lparr>ca_output := Some (case vdir of
                               Some d \<Rightarrow> if path_is_abs v then v else path_join d v | None \<Rightarrow> v)\<rparr>))
      else if a = ''--no-auto-detect'' then Inr (rest, out)
      else if a = ''--len-repr'' then
        (case rest of
           [] \<Rightarrow> Inl ''--len-repr requires a value (16, 32, or 64)''
         | (v, _) # rest \<Rightarrow> bindE (parse_len_repr v) (\<lambda>n. Inr (rest, out\<lparr>ca_len_repr := n\<rparr>)))
      else if a = ''--backtraces'' then Inr (rest, out\<lparr>ca_backtraces := True\<rparr>)
      else if a = ''--flag'' then
        (case rest of
           [] \<Rightarrow> Inl ''--flag requires a name''
         | (v, _) # rest \<Rightarrow> bindE (parse_flag v) (\<lambda>f. Inr (rest, out\<lparr>ca_flags := set_flag f (ca_flags out)\<rparr>)))
      else if at_c a 0 \<noteq> CHR ''-'' then bindE (add_inputs glob (a, dir) out) (\<lambda>out. Inr (rest, out))
      else Inl (''unknown option '' @ [squote] @ a @ [squote]))"

lemma parse_arg_rest: "parse_arg glob a rest out = Inr (r, out') \<Longrightarrow> length r \<le> length rest"
  by (cases a) (auto simp: parse_arg.simps bindE_Inr_iff split: if_splits list.splits)

declare parse_arg.simps [simp del]

function parse_args :: "(string \<Rightarrow> string list option) \<Rightarrow> arg list \<Rightarrow> compile_args \<Rightarrow> string + compile_args" where
  "parse_args glob [] out = Inr out"
| "parse_args glob (a # as) out =
     bindE (parse_arg glob a as out) (\<lambda>r. parse_args glob (fst r) (snd r))"
  by pat_completeness auto
termination
  by (relation "measure (\<lambda>(glob, as, out). length as)") (auto dest!: parse_arg_rest)

definition args_parse :: "(string \<Rightarrow> string list option) \<Rightarrow> host \<Rightarrow> arg list \<Rightarrow> string + compile_args" where
  "args_parse glob h e =
     (let auto_detect = list_all (\<lambda>a. fst a \<noteq> ''--no-auto-detect'') (tl e);
          init = \<lparr>ca_inputs = [], ca_output = None,
                  ca_flags = (if auto_detect then platform_detect_flags h [] else []),
                  ca_backtraces = False, ca_len_repr = FC_LEN_REPR_DEFAULT\<rparr>
      in bindE (parse_args glob (tl e) init) (\<lambda>out.
           if ca_inputs out = [] then Inl ''no input file'' else Inr out))"

subsection \<open>A response file written with quotes\<close>

definition quote_line :: "string \<Rightarrow> string" where "quote_line t = dquote # t @ [dquote, newline]"

text \<open>What a quoted token can hold, and does not name a nested file.\<close>

definition plain_arg :: "string \<Rightarrow> bool" where
  "plain_arg t \<longleftrightarrow> dquote \<notin> set t \<and> newline \<notin> set t \<and> \<not> (at_c t 0 = CHR ''@'' \<and> 1 < length t)"

lemma next_token_quoted:
  assumes "plain_arg t" and "list_all is_blank ws"
  shows "next_token (ws @ quote_line t @ p) = Tok t (newline # p)"
proof -
  have "dropWhile is_blank (ws @ quote_line t @ p) = dquote # t @ dquote # newline # p"
    using assms(2) by (induction ws) (simp_all add: quote_line_def is_blank_def)
  moreover have "takeWhile (\<lambda>c. c \<noteq> dquote \<and> c \<noteq> newline) (t @ dquote # newline # p) = t"
    using assms(1) by (subst takeWhile_append2) (auto simp: plain_arg_def)
  ultimately show ?thesis by (simp add: next_token.simps [of "ws @ quote_line t @ p"] at_c_def)
qed

lemma expand_quoted:
  assumes "list_all plain_arg ts" and "list_all is_blank ws"
  shows "expand_tokens fs path stack d (ws @ concat (map quote_line ts)) = Inr (map (\<lambda>t. (t, Some (path_dir path))) ts)"
  using assms
proof (induction ts arbitrary: ws)
  case Nil
  then have "dropWhile is_blank ws = []" by (simp add: list_all_iff)
  then have "next_token ws = End" by (subst next_token.simps) (simp del: dropWhile_eq_Nil_conv)
  then show ?case by (simp add: expand_tokens.simps)
next
  case (Cons t ts)
  have "expand_tokens fs path stack d ([newline] @ concat (map quote_line ts)) = Inr (map (\<lambda>t. (t, Some (path_dir path))) ts)"
    by (rule Cons.IH) (use Cons.prems(1) in \<open>simp_all add: is_blank_def\<close>)
  moreover have "\<not> (at_c t 0 = CHR ''@'' \<and> 1 < length t)"
    using Cons.prems(1) by (simp add: plain_arg_def)
  ultimately show ?case
    using Cons.prems next_token_quoted [of t ws "concat (map quote_line ts)"]
    by (auto simp: expand_tokens.simps [of fs path stack d "ws @ _"])
qed

subsection \<open>Flags by name\<close>

lemma flag_lookup_set: "flag_lookup (set_flag f fs) n = (if n = fl_name f then Some f else flag_lookup fs n)"
  by (induction f fs rule: set_flag.induct) auto

lemma set_flag_names: "set (map fl_name (set_flag f fs)) = insert (fl_name f) (set (map fl_name fs))"
  by (induction f fs rule: set_flag.induct) auto

lemma set_flag_distinct: "distinct (map fl_name fs) \<Longrightarrow> distinct (map fl_name (set_flag f fs))"
  by (induction f fs rule: set_flag.induct) (auto simp: set_flag_names simp flip: set_map)

lemma add_static_distinct: "distinct (map fl_name fs) \<Longrightarrow> distinct (map fl_name (add_static axis v fs))"
  by (auto simp: add_static_def has_axis_def list_ex_iff)

lemma detect_distinct: "distinct (map fl_name (platform_detect_flags h []))"
  by (simp add: platform_detect_flags_def add_static_distinct split: option.split)

definition args_ok :: "compile_args \<Rightarrow> bool" where
  "args_ok c \<longleftrightarrow> distinct (map fl_name (ca_flags c)) \<and> ca_len_repr c \<in> {16, 32, 64}"

lemma parse_arg_ok: "parse_arg glob a as out = Inr (r, out') \<Longrightarrow> args_ok out \<Longrightarrow> args_ok out'"
  by (cases a)
    (auto simp: parse_arg.simps args_ok_def bindE_Inr_iff set_flag_distinct add_inputs_def parse_len_repr_def Let_def
      split: if_splits list.splits option.splits)

lemma parse_args_ok: "parse_args glob as out = Inr c \<Longrightarrow> args_ok out \<Longrightarrow> args_ok c"
proof (induction glob as out rule: parse_args.induct)
  case (2 glob a as out)
  then obtain r where r: "parse_arg glob a as out = Inr r" "parse_args glob (fst r) (snd r) = Inr c"
    by (auto simp: bindE_Inr_iff)
  then have "args_ok (snd r)" using parse_arg_ok [of glob a as out "fst r" "snd r"] "2.prems"(2) by simp
  with "2.IH" r show ?case by blast
qed simp

subsection \<open>A rendered invocation\<close>

definition flag_text :: "cflag \<Rightarrow> string" where
  "flag_text f = (case fl_value f of None \<Rightarrow> fl_name f | Some v \<Rightarrow> fl_name f @ CHR ''='' # v)"

definition render_args :: "compile_args \<Rightarrow> string list" where
  "render_args c =
     ''--no-auto-detect'' # concat (map (\<lambda>f. [''--flag'', flag_text f]) (ca_flags c)) @
     [''--len-repr'', dec_nat (ca_len_repr c)] @ (if ca_backtraces c then [''--backtraces''] else []) @
     (case ca_output c of None \<Rightarrow> [] | Some p \<Rightarrow> [''-o'', p]) @ ca_inputs c"

definition flag_ok :: "cflag \<Rightarrow> bool" where
  "flag_ok f \<longleftrightarrow> fl_name f \<noteq> [] \<and> CHR ''='' \<notin> set (fl_name f) \<and> fl_value f \<noteq> Some []"

definition writable_args :: "compile_args \<Rightarrow> bool" where
  "writable_args c \<longleftrightarrow> args_ok c \<and> list_all flag_ok (ca_flags c) \<and> ca_inputs c \<noteq> [] \<and>
     list_all (\<lambda>p. at_c p 0 \<noteq> CHR ''-'') (ca_inputs c)"

lemma parse_flag_text: "flag_ok f \<Longrightarrow> parse_flag (flag_text f) = Inr f"
proof (cases f)
  fix n v
  assume ok: "flag_ok f" and f: "f = \<lparr>fl_name = n, fl_value = v\<rparr>"
  have "takeWhile (\<lambda>c. c \<noteq> CHR ''='') (n @ CHR ''='' # w) = n" for w
    using ok f by (subst takeWhile_append2) (auto simp: flag_ok_def)
  then show ?thesis
    using ok f by (cases v) (auto simp: flag_ok_def parse_flag_def flag_text_def Let_def)
qed

lemma set_flag_new: "fl_name f \<notin> set (map fl_name fs) \<Longrightarrow> set_flag f fs = fs @ [f]"
  by (induction fs) auto

abbreviation "typed ts \<equiv> map (\<lambda>t. (t, None)) ts"

lemma parse_option_steps:
  "parse_arg glob (''--no-auto-detect'', d) rest out = Inr (rest, out)"
  "parse_arg glob (''--len-repr'', d) ((v, d') # rest) out = bindE (parse_len_repr v) (\<lambda>n. Inr (rest, out\<lparr>ca_len_repr := n\<rparr>))"
  "parse_arg glob (''--backtraces'', d) rest out = Inr (rest, out\<lparr>ca_backtraces := True\<rparr>)"
  "parse_arg glob (''--flag'', d) ((v, d') # rest) out =
     bindE (parse_flag v) (\<lambda>f. Inr (rest, out\<lparr>ca_flags := set_flag f (ca_flags out)\<rparr>))"
  "parse_arg glob (''-o'', d) ((v, None) # rest) out = Inr (rest, out\<lparr>ca_output := Some v\<rparr>)"
  by (simp_all add: parse_arg.simps)

lemma parse_input_step:
  "at_c p 0 \<noteq> CHR ''-'' \<Longrightarrow> parse_arg glob (p, None) rest out = Inr (rest, out\<lparr>ca_inputs := ca_inputs out @ [p]\<rparr>)"
proof -
  assume start: "at_c p 0 \<noteq> CHR ''-''"
  then have "p \<noteq> ''-o'' \<and> p \<noteq> ''--no-auto-detect'' \<and> p \<noteq> ''--len-repr'' \<and> p \<noteq> ''--backtraces'' \<and> p \<noteq> ''--flag''"
    by (auto simp: at_c_def)
  with start show ?thesis by (simp add: parse_arg.simps add_inputs_def)
qed

lemma parse_flags:
  assumes "list_all flag_ok fs" and "distinct (map fl_name (ca_flags out @ fs))"
  shows "parse_args glob (typed (concat (map (\<lambda>f. [''--flag'', flag_text f]) fs)) @ rest) out =
    parse_args glob rest (out\<lparr>ca_flags := ca_flags out @ fs\<rparr>)"
  using assms
proof (induction fs arbitrary: out)
  case (Cons f fs)
  then have "set_flag f (ca_flags out) = ca_flags out @ [f]"
    by (intro set_flag_new) auto
  with Cons show ?case by (simp add: parse_flag_text parse_option_steps)
qed simp

lemma parse_inputs:
  "list_all (\<lambda>p. at_c p 0 \<noteq> CHR ''-'') ps \<Longrightarrow>
   parse_args glob (typed ps) out = Inr (out\<lparr>ca_inputs := ca_inputs out @ ps\<rparr>)"
  by (induction ps arbitrary: out) (simp_all add: parse_input_step)

lemma parse_rendered:
  assumes "writable_args c"
  shows "args_parse glob h (typed (prog # render_args c)) = Inr c"
proof -
  have lens: "parse_len_repr (dec_nat (ca_len_repr c)) = Inr (ca_len_repr c)"
  proof -
    have "ca_len_repr c = 16 \<or> ca_len_repr c = 32 \<or> ca_len_repr c = 64"
      using assms by (auto simp: writable_args_def args_ok_def)
    moreover have "dec_nat 16 = ''16''" "dec_nat 32 = ''32''" "dec_nat 64 = ''64''" by code_simp+
    ultimately show ?thesis by (elim disjE) (simp_all add: parse_len_repr_def)
  qed
  define init where "init = \<lparr>ca_inputs = [], ca_output = None, ca_flags = [], ca_backtraces = False, ca_len_repr = FC_LEN_REPR_DEFAULT\<rparr>"
  let ?tail = "typed ([''--len-repr'', dec_nat (ca_len_repr c)] @ (if ca_backtraces c then [''--backtraces''] else []) @
     (case ca_output c of None \<Rightarrow> [] | Some p \<Rightarrow> [''-o'', p]) @ ca_inputs c)"
  have "parse_args glob (typed (render_args c)) init = parse_args glob ?tail (init\<lparr>ca_flags := ca_flags c\<rparr>)"
    using assms parse_flags [of "ca_flags c" init glob ?tail]
    by (simp add: render_args_def parse_option_steps writable_args_def args_ok_def init_def)
  also have "\<dots> = Inr c"
    using assms lens by (cases c) (auto simp: parse_option_steps parse_inputs writable_args_def init_def split: option.split)
  finally show ?thesis
    using assms by (simp add: args_parse_def init_def [symmetric] Let_def writable_args_def render_args_def)
qed

subsection \<open>Properties\<close>

text \<open>
  Reading a response file gives the tokens written to it. A file that holds one quoted
  token per line expands, wherever \<open>@file\<close> stands on the command line, to exactly these
  tokens, spaces and all, each with the directory of the file.
\<close>

theorem response_file_reads:
  assumes "list_all plain_arg ts" and "path \<noteq> []" and "hd path \<noteq> nul"
    and "fs_realpath fs path = Some canon" and "fs_read fs path = Some (concat (map quote_line ts))"
    and "args_expand fs before = Inr out1" and "args_expand fs after = Inr out2"
  shows "args_expand fs (before @ (CHR ''@'' # path) # after) =
    Inr (out1 @ map (\<lambda>t. (t, Some (path_dir path))) ts @ out2)"
  using assms(6)
proof (induction before arbitrary: out1)
  case Nil
  have "expand_file fs path [] 0 = Inr (map (\<lambda>t. (t, Some (path_dir path))) ts)"
    using assms(4,5) expand_quoted [OF assms(1), of "[]" fs path "[canon]" 0]
    by (simp add: expand_file.simps ARGS_MAX_DEPTH_def)
  moreover have "at_c (CHR ''@'' # path) 0 = CHR ''@''" "at_c (CHR ''@'' # path) 1 \<noteq> nul"
    using assms(2,3) by (cases path; simp add: at_c_def)+
  ultimately show ?case using Nil assms(7) by simp
next
  case (Cons a before)
  then show ?case by (auto simp: bindE_Inr_iff)
qed

lemma response_file_reads_witness:
  "args_expand \<lparr>fs_realpath = Some, fs_read = (\<lambda>_. Some (concat (map quote_line [''a b'', ''-o''])))\<rparr>
     [''fcc'', ''@p/x.rsp'', ''c''] =
   Inr [(''fcc'', None), (''a b'', Some ''p''), (''-o'', Some ''p''), (''c'', None)]"
proof -
  have "path_dir ''p/x.rsp'' = ''p''" by code_simp
  then show ?thesis
    using response_file_reads [of "[''a b'', ''-o'']" "''p/x.rsp''"
        "\<lparr>fs_realpath = Some, fs_read = (\<lambda>_. Some (concat (map quote_line [''a b'', ''-o''])))\<rparr>" "''p/x.rsp''"
        "[''fcc'']" "[(''fcc'', None)]" "[''c'']" "[(''c'', None)]"]
    by (simp add: plain_arg_def at_c_def)
qed

text \<open>
  C31: Interpreting a command line inverts writing it. The typed tokens that spell an invocation
  (its flags in order, the width of lengths, the switch for backtraces, the output, then the
  inputs) are parsed back to it, on every host.
\<close>

theorem args_parse_render:
  assumes "writable_args c"
  shows "args_parse glob h (typed (prog # render_args c)) = Inr c"
  using assms by (rule parse_rendered)

lemma args_parse_render_witness:
  "args_parse (\<lambda>p. Some [p]) \<lparr>platform_os = Some ''linux'', platform_arch = None, platform_env = None\<rparr>
     (typed (''fcc'' # render_args
       \<lparr>ca_inputs = [''a.fc''], ca_output = Some ''a.c'', ca_flags = [\<lparr>fl_name = ''os'', fl_value = Some ''x''\<rparr>],
        ca_backtraces = True, ca_len_repr = 32\<rparr>)) =
   Inr \<lparr>ca_inputs = [''a.fc''], ca_output = Some ''a.c'', ca_flags = [\<lparr>fl_name = ''os'', fl_value = Some ''x''\<rparr>],
        ca_backtraces = True, ca_len_repr = 32\<rparr>"
  by (rule args_parse_render) (simp add: writable_args_def args_ok_def flag_ok_def at_c_def)

text \<open>
  However the command line is composed, an accepted one names at least one input, has one
  entry per flag name (so a later \<open>--flag\<close> replaces an earlier or detected one, and lookup
  finds it) and a length width of 16, 32 or 64.
\<close>

theorem args_parse_consistent:
  assumes "args_parse glob h e = Inr c"
  shows "args_ok c \<and> (ca_inputs c \<noteq> []) \<and>
    flag_lookup (set_flag f (ca_flags c)) = (flag_lookup (ca_flags c))(fl_name f \<mapsto> f)"
proof -
  obtain out where out: "parse_args glob (tl e)
      \<lparr>ca_inputs = [], ca_output = None,
       ca_flags = (if list_all (\<lambda>a. fst a \<noteq> ''--no-auto-detect'') (tl e) then platform_detect_flags h [] else []),
       ca_backtraces = False, ca_len_repr = FC_LEN_REPR_DEFAULT\<rparr> = Inr out" "ca_inputs out \<noteq> []" "c = out"
    using assms by (auto simp: args_parse_def Let_def bindE_Inr_iff split: if_splits)
  have "args_ok c"
    using parse_args_ok [OF out(1)] out(3) detect_distinct by (simp add: args_ok_def FC_LEN_REPR_DEFAULT_def)
  then show ?thesis using out by (auto simp: flag_lookup_set)
qed

lemma args_parse_consistent_witness:
  "args_ok \<lparr>ca_inputs = [''a''], ca_output = None, ca_flags = [], ca_backtraces = False, ca_len_repr = 64\<rparr>"
proof -
  have "args_parse (\<lambda>p. Some [p]) \<lparr>platform_os = None, platform_arch = None, platform_env = None\<rparr> [(''fcc'', None), (''a'', None)] =
    Inr \<lparr>ca_inputs = [''a''], ca_output = None, ca_flags = [], ca_backtraces = False, ca_len_repr = 64\<rparr>"
    by code_simp
  from args_parse_consistent [OF this] show ?thesis by blast
qed

end
