(* ===== verification/FC_Pattern.thy ===== *)
theory FC_Pattern
  imports FC_Mangle FC_Widen
begin

section \<open>Patterns and their check (\<open>src/ast.h\<close>, \<open>src/pass2.c\<close>)\<close>

text \<open>
  A pattern has the constructor of its \<open>PatternKind\<close>; \<open>NULL\<close> subpatterns are \<open>None\<close>. The value
  of a string pattern is the source from the opening quote on, of which \<open>length\<close> bytes are the
  literal. \<open>check_match_pattern\<close> rewrites a pattern in place and reports and binds as it goes: the
  model returns the pattern and the events in order. The C names of bindings and the resolved
  types it notes for the code generator are left out. The symbol tables are not modelled:
  \<open>resolve_type\<close> and the lookup of an error constant (\<open>resolve_pattern_const_path\<close>) are
  parameters, in the record \<open>pat_ctx\<close> beside \<open>--len-repr\<close>.
\<close>

datatype pattern =
    PAT_WILDCARD src_loc
  | PAT_BINDING src_loc string
  | PAT_INT_LIT src_loc u64 bool bool
  | PAT_CHAR_LIT src_loc u8
  | PAT_BOOL_LIT src_loc bool
  | PAT_STRING_LIT src_loc string nat
  | PAT_NONE src_loc
  | PAT_SOME src_loc "pattern option"
  | PAT_OK src_loc "pattern option"
  | PAT_ERR src_loc "pattern option"
  | PAT_CONST_PATH src_loc "string list"
  | PAT_VARIANT src_loc string "pattern option"
  | PAT_STRUCT src_loc "(string \<times> pattern) list"
  | PAT_TUPLE src_loc "pattern list"
  | PAT_OR src_loc "pattern list"
  | PAT_ERROR src_loc

datatype pat_event =
    Diag src_loc string
  | Bind src_loc string ctype
  | Bind_poison src_loc string

record pat_ctx =
  resolve_type :: "ctype \<Rightarrow> ctype"
  const_path :: "src_loc \<Rightarrow> string list \<Rightarrow> pat_event list \<times> u64 option"
  len_repr :: nat

definition tick :: "string \<Rightarrow> string" where "tick s = squote # s @ [squote]"

subsection \<open>Literals in range\<close>

text \<open>The verdict, or the message reported.\<close>

definition dec_word :: "u64 \<Rightarrow> string" where "dec_word v = dec_nat (unat v)"

definition unsigned_range :: "ctype \<Rightarrow> string" where
  "unsigned_range t =
     (if kind t = Prim TYPE_UINT8 then '' (0..255)''
      else if kind t = Prim TYPE_UINT16 then '' (0..65535)''
      else if kind t = Prim TYPE_UINT32 then '' (0..4294967295)''
      else if kind t = Prim TYPE_UINT64 then '' (0..18446744073709551615)''
      else [])"

definition check_int_literal_range :: "u64 \<Rightarrow> ctype \<Rightarrow> bool \<Rightarrow> bool \<Rightarrow> string option" where
  "check_int_literal_range v t out_of_range negative =
     (if out_of_range then Some ''integer literal exceeds 64-bit unsigned range (max 18446744073709551615)''
      else if negative \<and> type_is_unsigned t then
        Some (''integer literal -'' @ dec_word (0 - v) @ '' out of range for '' @ type_name t @ unsigned_range t)
      else
        let w = type_fixed_int_bits t
        in if w = 0 then None
           else
             let umax = (if w = 64 then - 1 else push_bit w 1 - 1) :: u64
             in if \<not> type_is_signed t then
                  (if umax < v then
                     Some (''integer literal '' @ dec_word v @ '' out of range for '' @ type_name t @ '' (0..'' @ dec_word umax @ '')'')
                   else None)
                else
                  let max = drop_bit 1 umax; min = - max - 1;
                      fits = (if negative then sint v \<le> 0 \<and> sint min \<le> sint v else v \<le> max);
                      range = '' out of range for '' @ type_name t @ '' ('' @ dec_int (sint min) @ ''..'' @ dec_int (sint max) @ '')''
                  in if fits then None
                     else if negative then Some (''integer literal -'' @ dec_word (0 - v) @ range)
                     else Some (''integer literal '' @ dec_word v @ range))"

definition static_length_error :: "nat \<Rightarrow> string \<Rightarrow> int \<Rightarrow> bool \<Rightarrow> string option" where
  "static_length_error repr what n must_be_positive =
     (if must_be_positive \<and> n \<le> 0 then Some (what @ '' must be positive, got '' @ dec_int n)
      else if n < 0 then Some (what @ '' cannot be negative, got '' @ dec_int n)
      else if fc_len_max repr < n then
        Some (what @ '' '' @ dec_int n @ '' exceeds --len-repr '' @ dec_nat repr @ '' length capacity '' @
              dec_int (fc_len_max repr))
      else None)"

definition check_string_lit_length :: "nat \<Rightarrow> string \<Rightarrow> nat \<Rightarrow> src_loc \<Rightarrow> pat_event list" where
  "check_string_lit_length repr v len loc =
     (if int len \<le> fc_len_max repr then []
      else (case static_length_error repr ''string literal length'' (int (decoded_length (take len v))) False of
              None \<Rightarrow> [] | Some msg \<Rightarrow> [Diag loc msg]))"

subsection \<open>The check\<close>

text \<open>
  Every name a pattern on an already reported type binds gets the error type (the scope keeps
  the first of a repeated name).
\<close>

primrec bind_pattern_poison :: "pattern \<Rightarrow> pat_event list" where
  "bind_pattern_poison (PAT_WILDCARD loc) = []"
| "bind_pattern_poison (PAT_BINDING loc n) = [Bind_poison loc n]"
| "bind_pattern_poison (PAT_INT_LIT loc v oor neg) = []"
| "bind_pattern_poison (PAT_CHAR_LIT loc c) = []"
| "bind_pattern_poison (PAT_BOOL_LIT loc b) = []"
| "bind_pattern_poison (PAT_STRING_LIT loc v len) = []"
| "bind_pattern_poison (PAT_NONE loc) = []"
| "bind_pattern_poison (PAT_SOME loc q) = (case map_option bind_pattern_poison q of None \<Rightarrow> [] | Some es \<Rightarrow> es)"
| "bind_pattern_poison (PAT_OK loc q) = (case map_option bind_pattern_poison q of None \<Rightarrow> [] | Some es \<Rightarrow> es)"
| "bind_pattern_poison (PAT_ERR loc q) = (case map_option bind_pattern_poison q of None \<Rightarrow> [] | Some es \<Rightarrow> es)"
| "bind_pattern_poison (PAT_CONST_PATH loc parts) = []"
| "bind_pattern_poison (PAT_VARIANT loc n q) = (case map_option bind_pattern_poison q of None \<Rightarrow> [] | Some es \<Rightarrow> es)"
| "bind_pattern_poison (PAT_STRUCT loc fs) = concat (map snd (map (map_prod id bind_pattern_poison) fs))"
| "bind_pattern_poison (PAT_TUPLE loc ps) = concat (map bind_pattern_poison ps)"
| "bind_pattern_poison (PAT_OR loc ps) = concat (map bind_pattern_poison ps)"
| "bind_pattern_poison (PAT_ERROR loc) = []"

definition find_variant :: "ctype union_variant list \<Rightarrow> string \<Rightarrow> ctype union_variant option" where
  "find_variant vs n = find (\<lambda>v. v_name v = n) vs"

definition find_field :: "ctype struct_field list \<Rightarrow> string \<Rightarrow> ctype struct_field option" where
  "find_field fs n = find (\<lambda>f. f_name f = n) fs"

text \<open>A bare name: a variant of the union or enum it is matched against, else a binding.\<close>

definition check_binding :: "bool \<Rightarrow> src_loc \<Rightarrow> string \<Rightarrow> ctype \<Rightarrow> pattern \<times> pat_event list" where
  "check_binding reject loc n t =
     (let plain_binding =
        (PAT_BINDING loc n,
         if reject then [Diag loc (''or-pattern alternatives cannot bind variables: '' @ tick n)] else [Bind loc n t])
      in case t of
           TUnion _ _ vs _ \<Rightarrow>
             (case find_variant vs n of
                None \<Rightarrow> plain_binding
              | Some v \<Rightarrow>
                  if v_payload v = None then (PAT_VARIANT loc n None, [])
                  else (PAT_VARIANT loc n (Some (PAT_WILDCARD loc)),
                        [Diag loc (''variant '' @ tick n @ '' carries a payload; match it as `'' @ n @ ''(x)`, or `'' @ n @
                                   ''(_)` to ignore the payload'')]))
         | TEnum _ e _ \<Rightarrow>
             (if list_ex (\<lambda>v. ev_name v = n) (en_variants e) then (PAT_VARIANT loc n None, []) else plain_binding)
         | _ \<Rightarrow> plain_binding)"

definition check_int_pattern :: "src_loc \<Rightarrow> u64 \<Rightarrow> bool \<Rightarrow> bool \<Rightarrow> ctype \<Rightarrow> pat_event list" where
  "check_int_pattern loc v out_of_range negative t =
     (if \<not> type_is_integer t then [Diag loc (''integer pattern on non-integer type '' @ type_name t)]
      else (case check_int_literal_range v t out_of_range negative of None \<Rightarrow> [] | Some msg \<Rightarrow> [Diag loc msg]))"

definition is_tuple_type :: "ctype \<Rightarrow> bool" where
  "is_tuple_type t = (case t of TStruct _ s _ _ \<Rightarrow> sc_is_tuple s | _ \<Rightarrow> False)"

definition is_c_union_type :: "ctype \<Rightarrow> bool" where
  "is_c_union_type t = (case t of TStruct _ s _ _ \<Rightarrow> sc_is_c_union s | _ \<Rightarrow> False)"

definition struct_fields :: "ctype \<Rightarrow> ctype struct_field list" where
  "struct_fields t = (case t of TStruct _ _ fs _ \<Rightarrow> fs | _ \<Rightarrow> [])"

definition option_inner :: "ctype \<Rightarrow> ctype option" where
  "option_inner t = (case t of TOption _ u \<Rightarrow> Some u | _ \<Rightarrow> None)"

definition result_inner :: "ctype \<Rightarrow> ctype option" where
  "result_inner t = (case t of TResult _ u \<Rightarrow> Some u | _ \<Rightarrow> None)"

text \<open>The arms of \<open>check_match_pattern\<close> with no subpattern, on a resolved type.\<close>

fun check_leaf :: "pat_ctx \<Rightarrow> bool \<Rightarrow> pattern \<Rightarrow> ctype \<Rightarrow> pattern \<times> pat_event list" where
  "check_leaf ctx reject (PAT_BINDING loc n) t = check_binding reject loc n t"
| "check_leaf ctx reject (PAT_INT_LIT loc v oor neg) t =
     (PAT_INT_LIT loc v oor neg,
      if kind t = TYPE_ENUM then
        [Diag loc (''integer pattern on enum type '' @ type_name t @ ''; match its variants by name'')]
      else check_int_pattern loc v oor neg t)"
| "check_leaf ctx reject (PAT_CONST_PATH loc parts) t =
     (case const_path ctx loc parts of
        (evs, None) \<Rightarrow> (PAT_CONST_PATH loc parts, evs)
      | (evs, Some v) \<Rightarrow> (PAT_INT_LIT loc v False False, evs @ check_int_pattern loc v False False t))"
| "check_leaf ctx reject (PAT_BOOL_LIT loc b) t =
     (PAT_BOOL_LIT loc b,
      if \<not> type_eq t type_bool then [Diag loc (''bool pattern on non-bool type '' @ type_name t)] else [])"
| "check_leaf ctx reject (PAT_CHAR_LIT loc c) t =
     (PAT_CHAR_LIT loc c,
      if \<not> type_eq t type_char then [Diag loc (''char pattern on non-char type '' @ type_name t)] else [])"
| "check_leaf ctx reject (PAT_STRING_LIT loc v len) t =
     (PAT_STRING_LIT loc v len,
      if \<not> is_str_type t then [Diag loc (''string pattern on non-str type '' @ type_name t)]
      else check_string_lit_length (len_repr ctx) v len loc)"
| "check_leaf ctx reject (PAT_NONE loc) t =
     (PAT_NONE loc, if kind t \<noteq> TYPE_OPTION then [Diag loc (''none pattern on non-option type '' @ type_name t)] else [])"
| "check_leaf ctx reject p t = (p, [])"

text \<open>A variant pattern: what it reports, or the type of the payload to check.\<close>

definition check_variant :: "src_loc \<Rightarrow> string \<Rightarrow> bool \<Rightarrow> ctype \<Rightarrow> pat_event list + ctype option" where
  "check_variant loc n has_payload t =
     (case t of
        TEnum _ e _ \<Rightarrow>
          Inl (if has_payload then [Diag loc (''enum variant '' @ tick n @ '' carries no payload'')]
               else if list_ex (\<lambda>v. ev_name v = n) (en_variants e) then []
               else [Diag loc (''enum '' @ tick (type_name t) @ '' has no variant '' @ tick n)])
      | TUnion _ _ vs _ \<Rightarrow>
          (case find_variant vs n of
             None \<Rightarrow> Inl [Diag loc (''union '' @ tick (type_name t) @ '' has no variant '' @ tick n)]
           | Some v \<Rightarrow>
               if has_payload \<and> v_payload v = None then
                 Inl [Diag loc (''variant '' @ tick n @ '' carries no payload; write bare `'' @ n @ ''`'')]
               else Inr (v_payload v))
      | _ \<Rightarrow> Inl [Diag loc (''variant pattern on non-union type '' @ type_name t)])"

text \<open>What stands against an \<open>ok\<close> pattern.\<close>

definition check_ok :: "src_loc \<Rightarrow> bool \<Rightarrow> ctype \<Rightarrow> pat_event list + ctype" where
  "check_ok loc has_payload t =
     (case result_inner t of
        None \<Rightarrow> Inl [Diag loc (''ok pattern on non-result type '' @ type_name t)]
      | Some inner \<Rightarrow>
          if has_payload \<and> kind inner = Prim TYPE_VOID then
            Inl [Diag loc (''ok of '' @ type_name t @ '' carries no payload; write bare `ok`'')]
          else if \<not> has_payload \<and> kind inner \<noteq> Prim TYPE_VOID then
            Inl [Diag loc (''ok pattern on '' @ type_name t @ '' needs a payload pattern; write ok(<pattern>)'')]
          else Inr inner)"

text \<open>What stands against a tuple or struct pattern.\<close>

definition check_tuple_shape :: "src_loc \<Rightarrow> nat \<Rightarrow> ctype \<Rightarrow> pat_event list" where
  "check_tuple_shape loc n t =
     (if \<not> is_tuple_type t then [Diag loc (''tuple pattern on non-tuple type '' @ type_name t)]
      else if n \<noteq> length (struct_fields t) then
        [Diag loc (''tuple '' @ type_name t @ '' has '' @ dec_nat (length (struct_fields t)) @
                   '' elements but the pattern matches '' @ dec_nat n)]
      else [])"

definition check_struct_shape :: "src_loc \<Rightarrow> ctype \<Rightarrow> pat_event list" where
  "check_struct_shape loc t =
     (if kind t \<noteq> TYPE_STRUCT then [Diag loc (''struct pattern on non-struct type '' @ type_name t)]
      else if is_tuple_type t then
        [Diag loc (''use a positional pattern '' @ tick ''{ a, b }'' @ '' to match tuple type '' @ type_name t)]
      else if is_c_union_type t then
        [Diag loc (''cannot pattern match on extern union type '' @ tick (type_name t))]
      else [])"

definition no_field :: "src_loc \<Rightarrow> string \<Rightarrow> ctype \<Rightarrow> pat_event" where
  "no_field loc n t = Diag loc (''struct '' @ tick (type_name t) @ '' has no field '' @ tick n)"

text \<open>
  The loops over subpatterns: each subpattern comes as its check, a function of the type and of
  whether bindings are rejected. A payload pattern that is absent where the variant has a
  payload, which the parser never builds, is left alone.
\<close>

type_synonym checker = "bool \<Rightarrow> ctype \<Rightarrow> pattern \<times> pat_event list"

definition check_sub :: "bool \<Rightarrow> ctype \<Rightarrow> checker option \<Rightarrow> pattern option \<times> pat_event list" where
  "check_sub reject t q = (case q of None \<Rightarrow> (None, []) | Some c \<Rightarrow> map_prod Some id (c reject t))"

fun check_elems :: "bool \<Rightarrow> checker list \<Rightarrow> ctype list \<Rightarrow> pattern list \<times> pat_event list" where
  "check_elems reject (c # cs) (t # ts) =
     (let (p, e) = c reject t; (ps, es) = check_elems reject cs ts in (p # ps, e @ es))"
| "check_elems reject _ _ = ([], [])"

fun check_fields :: "pat_ctx \<Rightarrow> bool \<Rightarrow> src_loc \<Rightarrow> ctype \<Rightarrow> (string \<times> pattern \<times> checker) list \<Rightarrow>
    (string \<times> pattern) list \<times> pat_event list" where
  "check_fields ctx reject loc t [] = ([], [])"
| "check_fields ctx reject loc t ((n, p, c) # fs) =
     (let (p', e) =
            (case find_field (struct_fields t) n of
               None \<Rightarrow> (p, [no_field loc n t])
             | Some f \<Rightarrow> c reject (resolve_type ctx (f_type f)));
          (ps, es) = check_fields ctx reject loc t fs
      in ((n, p') # ps, e @ es))"

fun check_alts :: "checker list \<Rightarrow> ctype \<Rightarrow> pattern list \<times> pat_event list" where
  "check_alts [] t = ([], [])"
| "check_alts (c # cs) t = (let (p, e) = c True t; (ps, es) = check_alts cs t in (p # ps, e @ es))"

text \<open>On a type already reported, only bind; else check against the resolved type.\<close>

definition unless_error :: "pat_ctx \<Rightarrow> pattern \<Rightarrow> (ctype \<Rightarrow> pattern \<times> pat_event list) \<Rightarrow> ctype \<Rightarrow> pattern \<times> pat_event list" where
  "unless_error ctx p k t = (if kind t = TYPE_ERROR then (p, bind_pattern_poison p) else k (resolve_type ctx t))"

primrec check_match_pattern :: "pattern \<Rightarrow> pat_ctx \<Rightarrow> checker" where
  "check_match_pattern (PAT_WILDCARD loc) ctx reject t0 =
     unless_error ctx (PAT_WILDCARD loc) (check_leaf ctx reject (PAT_WILDCARD loc)) t0"
| "check_match_pattern (PAT_BINDING loc n) ctx reject t0 =
     unless_error ctx (PAT_BINDING loc n) (check_leaf ctx reject (PAT_BINDING loc n)) t0"
| "check_match_pattern (PAT_INT_LIT loc v oor neg) ctx reject t0 =
     unless_error ctx (PAT_INT_LIT loc v oor neg) (check_leaf ctx reject (PAT_INT_LIT loc v oor neg)) t0"
| "check_match_pattern (PAT_CHAR_LIT loc c) ctx reject t0 =
     unless_error ctx (PAT_CHAR_LIT loc c) (check_leaf ctx reject (PAT_CHAR_LIT loc c)) t0"
| "check_match_pattern (PAT_BOOL_LIT loc b) ctx reject t0 =
     unless_error ctx (PAT_BOOL_LIT loc b) (check_leaf ctx reject (PAT_BOOL_LIT loc b)) t0"
| "check_match_pattern (PAT_STRING_LIT loc v len) ctx reject t0 =
     unless_error ctx (PAT_STRING_LIT loc v len) (check_leaf ctx reject (PAT_STRING_LIT loc v len)) t0"
| "check_match_pattern (PAT_NONE loc) ctx reject t0 =
     unless_error ctx (PAT_NONE loc) (check_leaf ctx reject (PAT_NONE loc)) t0"
| "check_match_pattern (PAT_CONST_PATH loc parts) ctx reject t0 =
     unless_error ctx (PAT_CONST_PATH loc parts) (check_leaf ctx reject (PAT_CONST_PATH loc parts)) t0"
| "check_match_pattern (PAT_ERROR loc) ctx reject t0 =
     unless_error ctx (PAT_ERROR loc) (check_leaf ctx reject (PAT_ERROR loc)) t0"
| "check_match_pattern (PAT_SOME loc q) ctx reject t0 =
     unless_error ctx (PAT_SOME loc q) (\<lambda>t.
       case option_inner t of
         None \<Rightarrow> (PAT_SOME loc q, [Diag loc (''some pattern on non-option type '' @ type_name t)])
       | Some inner \<Rightarrow>
           map_prod (PAT_SOME loc) id (check_sub reject inner (map_option (\<lambda>c. c ctx) (map_option check_match_pattern q)))) t0"
| "check_match_pattern (PAT_OK loc q) ctx reject t0 =
     unless_error ctx (PAT_OK loc q) (\<lambda>t.
       case check_ok loc (q \<noteq> None) t of
         Inl evs \<Rightarrow> (PAT_OK loc q, evs)
       | Inr inner \<Rightarrow>
           map_prod (PAT_OK loc) id (check_sub reject inner (map_option (\<lambda>c. c ctx) (map_option check_match_pattern q)))) t0"
| "check_match_pattern (PAT_ERR loc q) ctx reject t0 =
     unless_error ctx (PAT_ERR loc q) (\<lambda>t.
       if kind t \<noteq> TYPE_RESULT then (PAT_ERR loc q, [Diag loc (''err pattern on non-result type '' @ type_name t)])
       else map_prod (PAT_ERR loc) id
              (check_sub reject type_error_code (map_option (\<lambda>c. c ctx) (map_option check_match_pattern q)))) t0"
| "check_match_pattern (PAT_VARIANT loc n q) ctx reject t0 =
     unless_error ctx (PAT_VARIANT loc n q) (\<lambda>t.
       case check_variant loc n (q \<noteq> None) t of
         Inl evs \<Rightarrow> (PAT_VARIANT loc n q, evs)
       | Inr None \<Rightarrow> (PAT_VARIANT loc n q, [])
       | Inr (Some pay) \<Rightarrow>
           map_prod (PAT_VARIANT loc n) id
             (check_sub reject (resolve_type ctx pay) (map_option (\<lambda>c. c ctx) (map_option check_match_pattern q)))) t0"
| "check_match_pattern (PAT_TUPLE loc ps) ctx reject t0 =
     unless_error ctx (PAT_TUPLE loc ps) (\<lambda>t.
       let evs = check_tuple_shape loc (length ps) t
       in if evs \<noteq> [] then (PAT_TUPLE loc ps, evs)
          else map_prod (PAT_TUPLE loc) id
                 (check_elems reject (map (\<lambda>c. c ctx) (map check_match_pattern ps))
                    (map (\<lambda>f. resolve_type ctx (f_type f)) (struct_fields t)))) t0"
| "check_match_pattern (PAT_STRUCT loc fs) ctx reject t0 =
     unless_error ctx (PAT_STRUCT loc fs) (\<lambda>t.
       let evs = check_struct_shape loc t
       in if evs \<noteq> [] then (PAT_STRUCT loc fs, evs)
          else map_prod (PAT_STRUCT loc) id
                 (check_fields ctx reject loc t
                    (map (\<lambda>(f, (n, c)). (n, snd f, c ctx)) (zip fs (map (map_prod id check_match_pattern) fs))))) t0"
| "check_match_pattern (PAT_OR loc ps) ctx reject t0 =
     unless_error ctx (PAT_OR loc ps) (\<lambda>t.
       map_prod (PAT_OR loc) id (check_alts (map (\<lambda>c. c ctx) (map check_match_pattern ps)) t)) t0"

end
