(* ===== verification/FC_Match.thy ===== *)
theory FC_Match
  imports FC_Pattern
begin

section \<open>Exhaustiveness of a match (\<open>src/pass2.c\<close>)\<close>

text \<open>
  The pattern matrix of the exhaustiveness check. A \<open>Ctor\<close> is its kind, which carries the value
  its kind compares, and its arity; a row of the matrix is a list. The code reads and writes
  rows by index and relies on the arities to agree with the columns, which \<open>specialize_fits\<close>
  shows for checked patterns. \<open>res\<close> is \<open>resolve_type\<close>; a \<open>NULL\<close> type is \<open>None\<close>.
\<close>

datatype ctor_kind =
    CTOR_TRUE | CTOR_FALSE
  | CTOR_SOME | CTOR_NONE
  | CTOR_OK | CTOR_ERR
  | CTOR_VARIANT string
  | CTOR_STRUCT "string option"
  | CTOR_INT_LIT u64 | CTOR_CHAR_LIT u8 | CTOR_STRING_LIT string

datatype ctor = Ctor (c_kind: ctor_kind) (c_arity: nat)

datatype matpat = MWild | MCon ctor "matpat list"

definition kind_eq :: "ctor_kind \<Rightarrow> ctor_kind \<Rightarrow> bool" where
  "kind_eq a b = (case a of CTOR_STRUCT _ \<Rightarrow> (case b of CTOR_STRUCT _ \<Rightarrow> True | _ \<Rightarrow> False) | _ \<Rightarrow> a = b)"

definition ctor_eq :: "ctor \<Rightarrow> ctor \<Rightarrow> bool" where "ctor_eq a b = kind_eq (c_kind a) (c_kind b)"

subsection \<open>From patterns to the matrix\<close>

fun field_index :: "ctype struct_field list \<Rightarrow> string \<Rightarrow> nat option" where
  "field_index [] n = None"
| "field_index (f # fs) n = (if f_name f = n then Some 0 else map_option Suc (field_index fs n))"

text \<open>The fields mentioned are filled in order, so of a field mentioned twice the last is kept.\<close>

fun fill_fields :: "ctype struct_field list \<Rightarrow> (string \<times> (ctype option \<Rightarrow> matpat)) list \<Rightarrow> matpat list \<Rightarrow> matpat list" where
  "fill_fields fds [] subs = subs"
| "fill_fields fds ((n, m) # fs) subs =
     fill_fields fds fs
       (case field_index fds n of None \<Rightarrow> subs | Some i \<Rightarrow> subs[i := m (Some (f_type (fds ! i)))])"

fun tuple_subs :: "ctype struct_field list \<Rightarrow> (ctype option \<Rightarrow> matpat) list \<Rightarrow> matpat list" where
  "tuple_subs [] ms = []"
| "tuple_subs (f # fds) [] = MWild # tuple_subs fds []"
| "tuple_subs (f # fds) (m # ms) = m (Some (f_type f)) # tuple_subs fds ms"

definition fields_of :: "ctype option \<Rightarrow> ctype struct_field list" where
  "fields_of t = (case t of None \<Rightarrow> [] | Some t \<Rightarrow> struct_fields t)"

definition struct_name :: "ctype option \<Rightarrow> string option" where
  "struct_name t = (case t of Some (TStruct _ s _ _) \<Rightarrow> sc_name s | _ \<Rightarrow> None)"

definition variant_payload :: "ctype \<Rightarrow> string \<Rightarrow> ctype option" where
  "variant_payload t n =
     (case t of TUnion _ _ vs _ \<Rightarrow> (case find_variant vs n of None \<Rightarrow> None | Some v \<Rightarrow> v_payload v) | _ \<Rightarrow> None)"

text \<open>The subpattern of a pattern with one, or a wildcard.\<close>

definition sub_or_wild :: "ctype option \<Rightarrow> (ctype option \<Rightarrow> matpat) option \<Rightarrow> matpat" where
  "sub_or_wild t m = (case m of None \<Rightarrow> MWild | Some m \<Rightarrow> m t)"

primrec pat_to_matpat :: "pattern \<Rightarrow> (ctype \<Rightarrow> ctype) \<Rightarrow> ctype option \<Rightarrow> matpat" where
  "pat_to_matpat (PAT_WILDCARD loc) res t = MWild"
| "pat_to_matpat (PAT_BINDING loc n) res t = MWild"
| "pat_to_matpat (PAT_ERROR loc) res t = MWild"
| "pat_to_matpat (PAT_CONST_PATH loc parts) res t = MWild"
| "pat_to_matpat (PAT_BOOL_LIT loc b) res t = MCon (Ctor (if b then CTOR_TRUE else CTOR_FALSE) 0) []"
| "pat_to_matpat (PAT_SOME loc q) res t =
     MCon (Ctor CTOR_SOME 1)
       [sub_or_wild (Option.bind (map_option res t) option_inner) (map_option (\<lambda>m. m res) (map_option pat_to_matpat q))]"
| "pat_to_matpat (PAT_NONE loc) res t = MCon (Ctor CTOR_NONE 0) []"
| "pat_to_matpat (PAT_OK loc q) res t =
     MCon (Ctor CTOR_OK 1)
       [sub_or_wild (Option.bind (map_option res t) result_inner) (map_option (\<lambda>m. m res) (map_option pat_to_matpat q))]"
| "pat_to_matpat (PAT_ERR loc q) res t =
     MCon (Ctor CTOR_ERR 1)
       [sub_or_wild (Some type_error_code) (map_option (\<lambda>m. m res) (map_option pat_to_matpat q))]"
| "pat_to_matpat (PAT_VARIANT loc n q) res t =
     (case map_option pat_to_matpat q of
        None \<Rightarrow> MCon (Ctor (CTOR_VARIANT n) 0) []
      | Some m \<Rightarrow> MCon (Ctor (CTOR_VARIANT n) 1) [m res (Option.bind (map_option res t) (\<lambda>t. variant_payload t n))])"
| "pat_to_matpat (PAT_STRUCT loc fs) res t =
     (let t = map_option res t; fds = fields_of t
      in MCon (Ctor (CTOR_STRUCT (struct_name t)) (length fds))
           (fill_fields fds (map (map_prod id (\<lambda>m. m res)) (map (map_prod id pat_to_matpat) fs))
              (replicate (length fds) MWild)))"
| "pat_to_matpat (PAT_INT_LIT loc v oor neg) res t = MCon (Ctor (CTOR_INT_LIT v) 0) []"
| "pat_to_matpat (PAT_CHAR_LIT loc c) res t = MCon (Ctor (CTOR_CHAR_LIT c) 0) []"
| "pat_to_matpat (PAT_STRING_LIT loc v len) res t = MCon (Ctor (CTOR_STRING_LIT v) 0) []"
| "pat_to_matpat (PAT_OR loc ps) res t = MWild"
| "pat_to_matpat (PAT_TUPLE loc ps) res t =
     (let t = map_option res t; fds = fields_of t
      in MCon (Ctor (CTOR_STRUCT (struct_name t)) (length fds))
           (tuple_subs fds (map (\<lambda>m. m res) (map pat_to_matpat ps))))"

subsection \<open>Or-patterns\<close>

definition MAX_OR_EXPANSION :: nat where "MAX_OR_EXPANSION = 1024"

definition too_many :: string where
  "too_many = ''or-pattern expands to too many combinations; simplify the pattern''"

text \<open>One tick of the odometer over the alternatives of each subpattern, the last one fastest.\<close>

fun tick_odometer :: "nat list \<Rightarrow> nat list \<Rightarrow> nat list \<times> bool" where
  "tick_odometer (c # counts) (i # idx) =
     (let (idx', wrapped) = tick_odometer counts idx
      in if \<not> wrapped then (i # idx', False)
         else if i + 1 < c then ((i + 1) # idx', False) else (0 # idx', True))"
| "tick_odometer _ _ = ([], True)"

fun odometer_rows :: "nat \<Rightarrow> nat list \<Rightarrow> 'a list list \<Rightarrow> nat list \<Rightarrow> 'a list list" where
  "odometer_rows 0 counts alts idx = []"
| "odometer_rows (Suc k) counts alts idx =
     map2 (\<lambda>as i. as ! i) alts idx # odometer_rows k counts alts (fst (tick_odometer counts idx))"

fun check_total :: "nat \<Rightarrow> nat list \<Rightarrow> string + nat" where
  "check_total n [] = Inr n"
| "check_total n (c # counts) =
     (if MAX_OR_EXPANSION < n * c then Inl too_many else check_total (n * c) counts)"

fun flatten_each :: "(string + 'a list) list \<Rightarrow> string + 'a list list" where
  "flatten_each [] = Inr []"
| "flatten_each (f # fs) = bindE f (\<lambda>x. bindE (flatten_each fs) (\<lambda>xs. Inr (x # xs)))"

text \<open>The combinations of the alternatives; none when no subpattern has an or-pattern.\<close>

definition flatten_product :: "(pattern \<times> (string + pattern list)) list \<Rightarrow> string + pattern list list" where
  "flatten_product subs =
     bindE (flatten_each (map snd subs)) (\<lambda>alts.
       if list_all2 (\<lambda>s a. a = [fst s]) subs alts then Inr []
       else bindE (check_total 1 (map length alts)) (\<lambda>n.
         Inr (odometer_rows n (map length alts) alts (replicate (length alts) 0))))"

fun flatten_alts :: "pattern list \<Rightarrow> (string + pattern list) list \<Rightarrow> string + pattern list" where
  "flatten_alts tmp [] = Inr tmp"
| "flatten_alts tmp (f # fs) =
     bindE f (\<lambda>sub. if MAX_OR_EXPANSION < length tmp + length sub then Inl too_many else flatten_alts (tmp @ sub) fs)"

text \<open>
  A pattern without or-patterns is kept; where the code compares pointers to keep it, rebuilding
  gives the same pattern. \<open>build\<close> is the pattern around one subpattern.
\<close>

definition flatten_sub :: "(pattern option \<Rightarrow> pattern) \<Rightarrow> (string + pattern list) option \<Rightarrow> string + pattern list" where
  "flatten_sub build f =
     (case f of None \<Rightarrow> Inr [build None] | Some f \<Rightarrow> bindE f (\<lambda>inners. Inr (map (\<lambda>p. build (Some p)) inners)))"

primrec flatten_or_pattern :: "pattern \<Rightarrow> string + pattern list" where
  "flatten_or_pattern (PAT_WILDCARD loc) = Inr [PAT_WILDCARD loc]"
| "flatten_or_pattern (PAT_BINDING loc n) = Inr [PAT_BINDING loc n]"
| "flatten_or_pattern (PAT_INT_LIT loc v oor neg) = Inr [PAT_INT_LIT loc v oor neg]"
| "flatten_or_pattern (PAT_CHAR_LIT loc c) = Inr [PAT_CHAR_LIT loc c]"
| "flatten_or_pattern (PAT_BOOL_LIT loc b) = Inr [PAT_BOOL_LIT loc b]"
| "flatten_or_pattern (PAT_STRING_LIT loc v len) = Inr [PAT_STRING_LIT loc v len]"
| "flatten_or_pattern (PAT_NONE loc) = Inr [PAT_NONE loc]"
| "flatten_or_pattern (PAT_ERROR loc) = Inr [PAT_ERROR loc]"
| "flatten_or_pattern (PAT_CONST_PATH loc parts) = Inr [PAT_CONST_PATH loc parts]"
| "flatten_or_pattern (PAT_OR loc ps) = flatten_alts [] (map flatten_or_pattern ps)"
| "flatten_or_pattern (PAT_SOME loc q) = flatten_sub (PAT_SOME loc) (map_option flatten_or_pattern q)"
| "flatten_or_pattern (PAT_OK loc q) = flatten_sub (PAT_OK loc) (map_option flatten_or_pattern q)"
| "flatten_or_pattern (PAT_ERR loc q) = flatten_sub (PAT_ERR loc) (map_option flatten_or_pattern q)"
| "flatten_or_pattern (PAT_VARIANT loc n q) = flatten_sub (PAT_VARIANT loc n) (map_option flatten_or_pattern q)"
| "flatten_or_pattern (PAT_STRUCT loc fs) =
     bindE (flatten_product (zip (map snd fs) (map snd (map (map_prod id flatten_or_pattern) fs)))) (\<lambda>combos.
       if combos = [] then Inr [PAT_STRUCT loc fs]
       else Inr (map (\<lambda>qs. PAT_STRUCT loc (zip (map fst fs) qs)) combos))"
| "flatten_or_pattern (PAT_TUPLE loc ps) =
     bindE (flatten_product (zip ps (map flatten_or_pattern ps))) (\<lambda>combos.
       if combos = [] then Inr [PAT_TUPLE loc ps] else Inr (map (PAT_TUPLE loc) combos))"

subsection \<open>The matrix\<close>

definition type_ctors_list :: "(ctype \<Rightarrow> ctype) \<Rightarrow> ctype \<Rightarrow> ctor list option" where
  "type_ctors_list res t =
     (case res t of
        TPrim _ p \<Rightarrow> if p = TYPE_BOOL then Some [Ctor CTOR_TRUE 0, Ctor CTOR_FALSE 0] else None
      | TOption _ _ \<Rightarrow> Some [Ctor CTOR_SOME 1, Ctor CTOR_NONE 0]
      | TResult _ _ \<Rightarrow> Some [Ctor CTOR_OK 1, Ctor CTOR_ERR 1]
      | TUnion _ _ vs _ \<Rightarrow> Some (map (\<lambda>v. Ctor (CTOR_VARIANT (v_name v)) (if v_payload v = None then 0 else 1)) vs)
      | TEnum _ e _ \<Rightarrow> Some (map (\<lambda>v. Ctor (CTOR_VARIANT (ev_name v)) 0) (en_variants e))
      | TStruct _ s fs _ \<Rightarrow> Some [Ctor (CTOR_STRUCT (sc_name s)) (length fs)]
      | _ \<Rightarrow> None)"

definition ctor_sub_types :: "(ctype \<Rightarrow> ctype) \<Rightarrow> ctor \<Rightarrow> ctype \<Rightarrow> ctype list" where
  "ctor_sub_types res c t =
     (case c_kind c of
        CTOR_SOME \<Rightarrow> (case option_inner t of None \<Rightarrow> [] | Some u \<Rightarrow> [res u])
      | CTOR_OK \<Rightarrow> (case result_inner t of None \<Rightarrow> [] | Some u \<Rightarrow> [res u])
      | CTOR_ERR \<Rightarrow> [type_int32]
      | CTOR_VARIANT n \<Rightarrow> (case variant_payload t n of None \<Rightarrow> [] | Some u \<Rightarrow> [res u])
      | CTOR_STRUCT _ \<Rightarrow> map (\<lambda>f. res (f_type f)) (struct_fields t)
      | _ \<Rightarrow> [])"

definition types_specialize :: "(ctype \<Rightarrow> ctype) \<Rightarrow> ctype list \<Rightarrow> ctor \<Rightarrow> ctype \<Rightarrow> ctype list" where
  "types_specialize res types c t = ctor_sub_types res c t @ tl types"

text \<open>What a row becomes under a constructor, if it stays.\<close>

fun specialize_row :: "ctor \<Rightarrow> matpat list \<Rightarrow> matpat list list" where
  "specialize_row c (MWild # row) = [replicate (c_arity c) MWild @ row]"
| "specialize_row c (MCon d subs # row) = (if ctor_eq d c then [subs @ row] else [])"
| "specialize_row c [] = []"

definition specialize :: "matpat list list \<Rightarrow> ctor \<Rightarrow> matpat list list" where
  "specialize rows c = concat (map (specialize_row c) rows)"

fun default_row :: "matpat list \<Rightarrow> matpat list list" where
  "default_row (MWild # row) = [row]"
| "default_row _ = []"

definition default_matrix :: "matpat list list \<Rightarrow> matpat list list" where
  "default_matrix rows = concat (map default_row rows)"

definition head_ctors_of :: "ctor list \<Rightarrow> matpat list \<Rightarrow> ctor list" where
  "head_ctors_of out row =
     (case row of MCon c _ # _ \<Rightarrow> if list_ex (\<lambda>d. ctor_eq d c) out then out else out @ [c] | _ \<Rightarrow> out)"

definition collect_head_ctors :: "matpat list list \<Rightarrow> ctor list" where
  "collect_head_ctors rows = foldl head_ctors_of [] rows"

definition in_heads :: "ctor list \<Rightarrow> ctor \<Rightarrow> bool" where "in_heads heads c = list_ex (ctor_eq c) heads"

definition complete_signature :: "ctor list option \<Rightarrow> ctor list \<Rightarrow> bool" where
  "complete_signature all heads = (case all of None \<Rightarrow> False | Some cs \<Rightarrow> list_all (in_heads heads) cs)"

text \<open>The pattern for a column whose constructors do not all occur.\<close>

definition missing_pat :: "ctor list option \<Rightarrow> ctor list \<Rightarrow> matpat" where
  "missing_pat all heads =
     (case all of
        None \<Rightarrow> MWild
      | Some cs \<Rightarrow>
          let c = (case find (\<lambda>c. \<not> in_heads heads c) cs of Some c \<Rightarrow> c | None \<Rightarrow> cs ! 0)
          in MCon c (replicate (c_arity c) MWild))"

definition rebuild :: "ctor \<Rightarrow> matpat list \<Rightarrow> matpat list" where
  "rebuild c w = MCon c (take (c_arity c) w) # drop (c_arity c) w"

fun first_some :: "('a \<Rightarrow> 'b option) \<Rightarrow> 'a list \<Rightarrow> 'b option" where
  "first_some f [] = None"
| "first_some f (x # xs) = (case f x of None \<Rightarrow> first_some f xs | Some y \<Rightarrow> Some y)"

lemma first_some_cong [fundef_cong]:
  "xs = ys \<Longrightarrow> (\<And>x. x \<in> set ys \<Longrightarrow> f x = g x) \<Longrightarrow> first_some f xs = first_some g ys"
  by (induction ys arbitrary: xs) (auto split: option.splits)

lemma first_some_None: "first_some f xs = None \<longleftrightarrow> (\<forall>x\<in>set xs. f x = None)"
  by (induction xs) (auto split: option.splits)

lemma first_some_Some: "first_some f xs = Some y \<Longrightarrow> \<exists>x\<in>set xs. f x = Some y"
  by (induction xs) (auto split: option.splits)

text \<open>The search ends since a specialized matrix has fewer constructors.\<close>

fun nodes :: "matpat \<Rightarrow> nat" where
  "nodes MWild = 0"
| "nodes (MCon c subs) = Suc (sum_list (map nodes subs))"

definition row_nodes :: "matpat list \<Rightarrow> nat" where "row_nodes row = sum_list (map nodes row)"

definition mat_nodes :: "matpat list list \<Rightarrow> nat" where "mat_nodes rows = sum_list (map row_nodes rows)"

lemma kind_eq_refl [simp]: "kind_eq a a" by (simp add: kind_eq_def split: ctor_kind.splits)

lemma kind_eq_sym: "kind_eq a b \<Longrightarrow> kind_eq b a" by (auto simp: kind_eq_def split: ctor_kind.splits)

lemma kind_eq_trans: "kind_eq a b \<Longrightarrow> kind_eq b c \<Longrightarrow> kind_eq a c"
  by (auto simp: kind_eq_def split: ctor_kind.splits)

lemma specialize_row_nodes: "sum_list (map row_nodes (specialize_row c row)) \<le> row_nodes row"
  by (cases "(c, row)" rule: specialize_row.cases) (auto simp: row_nodes_def sum_list_replicate)

lemma specialize_Cons: "specialize (r # rows) c = specialize_row c r @ specialize rows c"
  by (simp add: specialize_def)

lemma specialize_nodes: "mat_nodes (specialize rows c) \<le> mat_nodes rows"
proof (induction rows)
  case (Cons r rows)
  then show ?case using specialize_row_nodes [of c r] by (simp add: specialize_Cons mat_nodes_def)
qed (simp add: specialize_def)

lemma specialize_fewer:
  "MCon d subs # row \<in> set rows \<Longrightarrow> ctor_eq d c \<Longrightarrow> mat_nodes (specialize rows c) < mat_nodes rows"
proof (induction rows)
  case (Cons r rows)
  show ?case
  proof (cases "r = MCon d subs # row")
    case True
    then show ?thesis
      using Cons.prems(2) specialize_nodes [of rows c] by (simp add: specialize_Cons mat_nodes_def row_nodes_def)
  next
    case False
    then show ?thesis
      using Cons specialize_row_nodes [of c r] by (simp add: specialize_Cons mat_nodes_def)
  qed
qed simp

lemma default_nodes: "mat_nodes (default_matrix rows) \<le> mat_nodes rows"
proof (induction rows)
  case (Cons r rows)
  have "sum_list (map row_nodes (default_row r)) \<le> row_nodes r"
    by (cases r rule: default_row.cases) (auto simp: row_nodes_def)
  with Cons show ?case by (simp add: default_matrix_def mat_nodes_def)
qed (simp add: default_matrix_def)

lemma head_ctors_of_mem:
  "c \<in> set (head_ctors_of out row) \<Longrightarrow> c \<in> set out \<or> (\<exists>subs r. row = MCon c subs # r)"
  by (auto simp: head_ctors_of_def split: list.splits matpat.splits if_splits)

lemma heads_mem_gen:
  "c \<in> set (foldl head_ctors_of out rows) \<Longrightarrow> c \<in> set out \<or> (\<exists>subs r. MCon c subs # r \<in> set rows)"
proof (induction rows arbitrary: out)
  case (Cons a rows)
  then show ?case using head_ctors_of_mem [of c out a] by fastforce
qed simp

lemma heads_mem: "c \<in> set (collect_head_ctors rows) \<Longrightarrow> \<exists>subs r. MCon c subs # r \<in> set rows"
  using heads_mem_gen [of c "[]" rows] by (simp add: collect_head_ctors_def)

lemma in_heads_fewer:
  "in_heads (collect_head_ctors rows) c \<Longrightarrow> mat_nodes (specialize rows c) < mat_nodes rows"
  using specialize_fewer heads_mem kind_eq_sym by (fastforce simp: in_heads_def list_ex_iff ctor_eq_def)

function find_witness :: "(ctype \<Rightarrow> ctype) \<Rightarrow> matpat list list \<Rightarrow> ctype list \<Rightarrow> matpat list option" where
  "find_witness res rows [] = (if rows \<noteq> [] then None else Some [])"
| "find_witness res rows (t # ts) =
     (let heads = collect_head_ctors rows; all = type_ctors_list res t
      in if complete_signature all heads then
           first_some (\<lambda>c. map_option (rebuild c) (find_witness res (specialize rows c) (types_specialize res (t # ts) c t)))
             (the all)
         else map_option (\<lambda>w. missing_pat all heads # w) (find_witness res (default_matrix rows) ts))"
  by pat_completeness auto
termination find_witness
proof (relation "measures [\<lambda>(res, rows, ts). mat_nodes rows, \<lambda>(res, rows, ts). length ts]", goal_cases)
  case (2 res rows t ts heads all c)
  then have "in_heads (collect_head_ctors rows) c"
    by (auto simp: complete_signature_def list_all_iff split: option.splits)
  then show ?case by (simp add: in_heads_fewer)
next
  case (3 res rows t ts heads all)
  then show ?case using default_nodes [of rows] by (auto simp: less_le)
qed simp

declare find_witness.simps(2) [simp del]

subsection \<open>The report\<close>

text \<open>The subpattern of a witness to look into, with its type.\<close>

fun first_con :: "matpat list \<Rightarrow> nat option" where
  "first_con [] = None"
| "first_con (MCon c s # ms) = Some 0"
| "first_con (MWild # ms) = map_option Suc (first_con ms)"

definition dig :: "(ctype \<Rightarrow> ctype) \<Rightarrow> ctor \<Rightarrow> matpat list \<Rightarrow> ctype option \<Rightarrow> (nat \<times> ctype option) option" where
  "dig res c subs t =
     (case c_kind c of
        CTOR_STRUCT _ \<Rightarrow>
          (case t of
             Some (TStruct _ _ fs _) \<Rightarrow> map_option (\<lambda>i. (i, Some (res (f_type (fs ! i))))) (first_con subs)
           | _ \<Rightarrow> None)
      | CTOR_SOME \<Rightarrow> map_option (\<lambda>i. (i, Option.bind t option_inner)) (first_con (take 1 subs))
      | CTOR_OK \<Rightarrow> map_option (\<lambda>i. (i, Option.bind t result_inner)) (first_con (take 1 subs))
      | CTOR_ERR \<Rightarrow> map_option (\<lambda>i. (i, Some type_int32)) (first_con (take 1 subs))
      | CTOR_VARIANT n \<Rightarrow> map_option (\<lambda>i. (i, Option.bind t (\<lambda>t. variant_payload t n))) (first_con (take 1 subs))
      | _ \<Rightarrow> None)"

lemma first_con_less: "first_con ms = Some i \<Longrightarrow> i < length ms"
  by (induction ms arbitrary: i rule: first_con.induct) auto

lemma dig_less: "dig res c subs t = Some (i, u) \<Longrightarrow> i < length subs"
  by (auto simp: dig_def dest!: first_con_less split: ctor_kind.splits option.splits ctype.splits)

function find_interesting_witness :: "(ctype \<Rightarrow> ctype) \<Rightarrow> matpat \<Rightarrow> ctype option \<Rightarrow> matpat \<times> ctype option" where
  "find_interesting_witness res MWild t0 = (MWild, map_option res t0)"
| "find_interesting_witness res (MCon c subs) t0 =
     (case dig res c subs (map_option res t0) of
        None \<Rightarrow> (MCon c subs, map_option res t0)
      | Some iu \<Rightarrow> find_interesting_witness res (subs ! fst iu) (snd iu))"
  by pat_completeness auto
termination find_interesting_witness
proof (relation "measure (\<lambda>(res, w, t). size w)", goal_cases)
  case (2 res c subs t0 iu)
  then have "fst iu < length subs" using dig_less [of res c subs _ "fst iu" "snd iu"] by simp
  then have "size (subs ! fst iu) < Suc (size_list size subs)"
    by (meson less_Suc_eq_le nth_mem size_list_estimation' order_refl)
  then show ?case by simp
qed simp

definition add_wildcard :: string where
  "add_wildcard = ''non-exhaustive match: add a wildcard '' @ tick ''_'' @ '' pattern or binding to cover all cases''"

definition missing_case :: "string \<Rightarrow> string \<Rightarrow> string" where
  "missing_case n what = ''non-exhaustive match: missing '' @ tick n @ '' case for '' @ what"

definition report_witness :: "(ctype \<Rightarrow> ctype) \<Rightarrow> src_loc \<Rightarrow> matpat \<Rightarrow> ctype \<Rightarrow> pat_event" where
  "report_witness res loc w t =
     Diag loc
       (case find_interesting_witness res w (Some t) of
          (MWild, _) \<Rightarrow> add_wildcard
        | (MCon c _, u) \<Rightarrow>
            (case c_kind c of
               CTOR_TRUE \<Rightarrow> missing_case ''true'' ''bool''
             | CTOR_FALSE \<Rightarrow> missing_case ''false'' ''bool''
             | CTOR_SOME \<Rightarrow> missing_case ''some'' ''option type''
             | CTOR_NONE \<Rightarrow> missing_case ''none'' ''option type''
             | CTOR_OK \<Rightarrow> missing_case ''ok'' ''result type''
             | CTOR_ERR \<Rightarrow> missing_case ''err'' ''result type''
             | CTOR_VARIANT n \<Rightarrow>
                 ''non-exhaustive match: missing variant '' @ tick n @
                 (case u of
                    None \<Rightarrow> []
                  | Some u \<Rightarrow>
                      if kind u = TYPE_UNION then '' of union '' @ tick (type_name u)
                      else if kind u = TYPE_ENUM then '' of enum '' @ tick (type_name u)
                      else [])
             | _ \<Rightarrow> add_wildcard))"

text \<open>An arm is its pattern and whether it has a guard; a guarded arm covers nothing.\<close>

type_synonym arm = "pattern \<times> bool"

fun arm_rows :: "(ctype \<Rightarrow> ctype) \<Rightarrow> ctype \<Rightarrow> arm list \<Rightarrow> string + matpat list list" where
  "arm_rows res t [] = Inr []"
| "arm_rows res t ((p, guarded) # arms) =
     (if guarded then arm_rows res t arms
      else bindE (flatten_or_pattern p) (\<lambda>flats.
        bindE (arm_rows res t arms) (\<lambda>rows. Inr (map (\<lambda>q. [pat_to_matpat q res (Some t)]) flats @ rows))))"

definition check_match_exhaustiveness :: "(ctype \<Rightarrow> ctype) \<Rightarrow> src_loc \<Rightarrow> arm list \<Rightarrow> ctype \<Rightarrow> pat_event list" where
  "check_match_exhaustiveness res loc arms t =
     (case arm_rows res t arms of
        Inl msg \<Rightarrow> [Diag loc msg]
      | Inr rows \<Rightarrow>
          (case find_witness res rows [t] of
             None \<Rightarrow> []
           | Some [] \<Rightarrow> [Diag loc add_wildcard]
           | Some (w # _) \<Rightarrow> [report_witness res loc w t]))"

end
