(* ===== verification/FC_OrPattern.thy ===== *)
theory FC_OrPattern
  imports FC_Match
begin

subsection \<open>The odometer enumerates the product\<close>

text \<open>The digits of a number in the mixed radix of the counts.\<close>

fun digits :: "nat list \<Rightarrow> nat \<Rightarrow> nat list" where
  "digits [] k = []"
| "digits (c # cs) k = (k div prod_list cs mod c) # digits cs k"

lemma div_Suc_no_wrap: "Suc k mod p \<noteq> 0 \<Longrightarrow> Suc k div p = k div p"
  by (simp add: div_Suc)

lemma div_Suc_wrap: "Suc k mod p = 0 \<Longrightarrow> 0 < p \<Longrightarrow> Suc k div p = Suc (k div p)"
  by (simp add: div_Suc)

lemma prod_list_pos: "\<forall>c\<in>set cs. 0 < c \<Longrightarrow> 0 < prod_list (cs :: nat list)"
  by (induction cs) auto

lemma tick_digits:
  assumes "\<forall>c\<in>set cs. 0 < c"
  shows "tick_odometer cs (digits cs k) = (digits cs (Suc k), Suc k mod prod_list cs = 0)"
  using assms
proof (induction cs)
  case (Cons c cs)
  let ?p = "prod_list cs" and ?i = "k div prod_list cs mod c"
  have pos: "0 < c" "0 < ?p" using Cons.prems prod_list_pos [of cs] by auto
  have ih: "tick_odometer cs (digits cs k) = (digits cs (Suc k), Suc k mod ?p = 0)" using Cons by simp
  show ?case
  proof (cases "Suc k mod ?p = 0")
    case False
    then have "Suc k mod (c * ?p) \<noteq> 0" by (metis dvd_eq_mod_eq_0 dvd_mult_right mult.commute dvd_mult_left)
    with False ih show ?thesis by (simp add: div_Suc_no_wrap)
  next
    case True
    then have d: "Suc k div ?p = Suc (k div ?p)" using pos by (simp add: div_Suc_wrap)
    have m: "Suc k mod (c * ?p) = 0 \<longleftrightarrow> Suc (k div ?p) mod c = 0"
      using True d pos by (metis dvd_div_iff_mult dvd_eq_mod_eq_0 mult.commute neq0_conv)
    have "Suc (k div ?p) mod c = (if ?i + 1 < c then ?i + 1 else 0)"
      using mod_less_divisor [OF pos(1), of "k div ?p"] by (auto simp: mod_Suc)
    then show ?thesis using True ih d m by simp
  qed
qed simp

lemma digits_zero: "digits cs 0 = replicate (length cs) 0" by (induction cs) simp_all

lemma odometer_digits:
  assumes "\<forall>c\<in>set cs. 0 < c"
  shows "odometer_rows n cs alts (digits cs k) = map (\<lambda>j. map2 (\<lambda>as i. as ! i) alts (digits cs (k + j))) [0..<n]"
proof (induction n arbitrary: k)
  case (Suc n)
  have "map (\<lambda>j. map2 (\<lambda>as i. as ! i) alts (digits cs (k + j))) [0..<Suc n] =
    map2 (\<lambda>as i. as ! i) alts (digits cs k) # map (\<lambda>j. map2 (\<lambda>as i. as ! i) alts (digits cs (Suc k + j))) [0..<n]"
    by (simp add: upt_conv_Cons map_Suc_upt [symmetric] del: upt_Suc)
  then show ?case using Suc [of "Suc k"] tick_digits [OF assms, of k] by simp
qed simp

lemma digits_block: "r < prod_list cs \<Longrightarrow> digits cs (i * prod_list cs + r) = digits cs r"
proof (induction cs arbitrary: i r)
  case (Cons c cs)
  let ?p = "prod_list cs"
  have p: "0 < ?p" using Cons.prems by (cases "?p = 0") auto
  have "i * (c * ?p) + r = (i * c) * ?p + r" by simp
  moreover have "digits cs ((i * c) * ?p + r) = digits cs r" for i
  proof -
    have "digits cs ((i * c + r div ?p) * ?p + r mod ?p) = digits cs (r mod ?p)" using Cons.IH p by simp
    moreover have "digits cs (r div ?p * ?p + r mod ?p) = digits cs (r mod ?p)"
      using Cons.IH [of "r mod ?p" "r div ?p"] p by simp
    ultimately show ?thesis by (simp add: add_mult_distrib add.commute)
  qed
  moreover have "(i * c * ?p + r) div ?p mod c = r div ?p mod c" using p by simp
  ultimately show ?case by (simp only: digits.simps prod_list.Cons mult.assoc)
qed simp

lemma upt_blocks: "map f [0..<c * p] = concat (map (\<lambda>i. map (\<lambda>r. f (i * p + r)) [0..<p]) [0..<c])"
proof (induction c)
  case (Suc c)
  have "[0..<Suc c * p] = [0..<c * p] @ map (\<lambda>r. c * p + r) [0..<p]"
    using upt_add_eq_append [of 0 "c * p" p] map_add_upt [of "c * p" p] by (simp add: add.commute)
  then show ?case using Suc by (simp add: comp_def)
qed simp

lemma product_digits:
  "product_lists xss = map (\<lambda>j. map2 (\<lambda>as i. as ! i) xss (digits (map length xss) j)) [0..<prod_list (map length xss)]"
proof (induction xss)
  case (Cons xs xss)
  let ?p = "prod_list (map length xss)"
  let ?d = "\<lambda>j. map2 (\<lambda>as i. as ! i) xss (digits (map length xss) j)"
  have "map (\<lambda>j. map2 (\<lambda>as i. as ! i) (xs # xss) (digits (map length (xs # xss)) j)) [0..<prod_list (map length (xs # xss))] =
    concat (map (\<lambda>i. map (\<lambda>r. xs ! i # ?d r) [0..<?p]) [0..<length xs])"
    unfolding list.map prod_list.Cons upt_blocks
    by (rule arg_cong [of _ _ concat]) (auto simp: digits_block intro!: map_cong)
  also have "\<dots> = concat (map (\<lambda>x. map (\<lambda>r. x # ?d r) [0..<?p]) xs)"
    by (subst (3) map_nth [symmetric, of xs]) (simp add: comp_def)
  also have "\<dots> = product_lists (xs # xss)" using Cons by (simp add: comp_def)
  finally show ?case by simp
qed simp

lemma odometer_product:
  assumes "\<forall>a\<in>set alts. a \<noteq> []"
  shows "odometer_rows (prod_list (map length alts)) (map length alts) alts (replicate (length alts) 0) = product_lists alts"
  using assms odometer_digits [of "map length alts" "prod_list (map length alts)" alts 0]
  by (simp add: product_digits digits_zero)

lemma check_total_Inr: "check_total n counts = Inr m \<Longrightarrow> m = n * prod_list counts"
  by (induction n counts rule: check_total.induct) (auto split: if_splits)

lemma flatten_each_Inr: "flatten_each fs = Inr xs \<longleftrightarrow> fs = map Inr xs"
  by (induction fs arbitrary: xs) (auto simp: bindE_Inr_iff Cons_eq_map_conv)

text \<open>
  What \<open>flatten_product\<close> returns for the alternatives of each subpattern: nothing when every
  subpattern stands for itself, else all the combinations.
\<close>

lemma flatten_product_Inr:
  assumes "flatten_product (zip ps fs) = Inr combos" "length fs = length ps"
    and "\<And>f a. f \<in> set fs \<Longrightarrow> f = Inr a \<Longrightarrow> a \<noteq> []"
  shows "\<exists>alts. fs = map Inr alts \<and> (if alts = map (\<lambda>p. [p]) ps then combos = [] else combos = product_lists alts \<and> combos \<noteq> [])"
proof -
  obtain alts where a: "fs = map Inr alts" and c: "if list_all2 (\<lambda>s a. a = [fst s]) (zip ps fs) alts then combos = []
      else \<exists>n. check_total 1 (map length alts) = Inr n \<and>
        combos = odometer_rows n (map length alts) alts (replicate (length alts) 0)"
    using assms(1,2) by (auto simp: flatten_product_def bindE_Inr_iff flatten_each_Inr split: if_splits)
  have ne: "\<forall>x\<in>set alts. x \<noteq> []" using assms(3) a by auto
  have "list_all2 (\<lambda>s a. a = [fst s]) (zip ps fs) alts \<longleftrightarrow> alts = map (\<lambda>p. [p]) ps"
    using assms(2) a by (auto simp: list_all2_conv_all_nth list_eq_iff_nth_eq)
  moreover have "product_lists alts \<noteq> []" using ne by (induction alts) auto
  ultimately show ?thesis using a c odometer_product [OF ne] check_total_Inr [of 1 "map length alts"] by auto
qed

lemma product_lists_iff: "qs \<in> set (product_lists alts) \<longleftrightarrow> list_all2 (\<lambda>q a. q \<in> set a) qs alts"
  by (simp add: product_lists_set)

end
