(* ===== verification/FC_Exhaust.thy ===== *)
theory FC_Exhaust
  imports FC_OrPattern
begin

section \<open>What the exhaustiveness check guarantees\<close>

text \<open>
  Values of a type, what a pattern matches, and the two sides of the check: a match it accepts
  has an unguarded arm for every value, and what it reports is a case no unguarded arm has.
\<close>

subsection \<open>Values\<close>

text \<open>A value of a type that is not taken apart is a scalar; the one value of \<open>void\<close> is one too.\<close>

datatype 'a fcval =
    V_scalar 'a
  | V_bool bool
  | V_none
  | V_some "'a fcval"
  | V_ok "'a fcval"
  | V_err "'a fcval"
  | V_variant string "'a fcval option"
  | V_struct "'a fcval list"

definition taken_apart :: "ctype \<Rightarrow> bool" where
  "taken_apart t \<longleftrightarrow>
     kind t \<in> {Prim TYPE_BOOL, TYPE_OPTION, TYPE_RESULT, TYPE_UNION, TYPE_ENUM, TYPE_STRUCT}"

primrec value_of :: "'a fcval \<Rightarrow> (ctype \<Rightarrow> ctype) \<Rightarrow> ctype \<Rightarrow> bool" where
  "value_of (V_scalar a) res t \<longleftrightarrow> \<not> taken_apart (res t)"
| "value_of (V_bool b) res t \<longleftrightarrow> kind (res t) = Prim TYPE_BOOL"
| "value_of V_none res t \<longleftrightarrow> kind (res t) = TYPE_OPTION"
| "value_of (V_some v) res t \<longleftrightarrow> (case option_inner (res t) of None \<Rightarrow> False | Some u \<Rightarrow> value_of v res u)"
| "value_of (V_ok v) res t \<longleftrightarrow> (case result_inner (res t) of None \<Rightarrow> False | Some u \<Rightarrow> value_of v res u)"
| "value_of (V_err v) res t \<longleftrightarrow> kind (res t) = TYPE_RESULT \<and> value_of v res type_int32"
| "value_of (V_variant n w) res t \<longleftrightarrow>
     (case res t of
        TEnum _ e _ \<Rightarrow> w = None \<and> (\<exists>v\<in>set (en_variants e). ev_name v = n)
      | TUnion _ _ vs _ \<Rightarrow>
          (\<exists>v\<in>set vs. v_name v = n \<and> rel_option (\<lambda>f u. f res u) (map_option value_of w) (v_payload v))
      | _ \<Rightarrow> False)"
| "value_of (V_struct ws) res t \<longleftrightarrow>
     (case res t of
        TStruct _ _ fs _ \<Rightarrow> list_all2 (\<lambda>f u. f res u) (map value_of ws) (map f_type fs)
      | _ \<Rightarrow> False)"

text \<open>The constructor at the head of a value and its parts.\<close>

primrec view :: "'a fcval \<Rightarrow> (ctor_kind \<times> 'a fcval list) option" where
  "view (V_scalar a) = None"
| "view (V_bool b) = Some (if b then CTOR_TRUE else CTOR_FALSE, [])"
| "view V_none = Some (CTOR_NONE, [])"
| "view (V_some v) = Some (CTOR_SOME, [v])"
| "view (V_ok v) = Some (CTOR_OK, [v])"
| "view (V_err v) = Some (CTOR_ERR, [v])"
| "view (V_variant n w) = Some (CTOR_VARIANT n, case w of None \<Rightarrow> [] | Some v \<Rightarrow> [v])"
| "view (V_struct ws) = Some (CTOR_STRUCT None, ws)"

text \<open>A matrix pattern covers a value whatever its scalars: a literal covers nothing.\<close>

primrec covers :: "matpat \<Rightarrow> 'a fcval \<Rightarrow> bool" where
  "covers MWild v \<longleftrightarrow> True"
| "covers (MCon c subs) v \<longleftrightarrow>
     (case view v of
        None \<Rightarrow> False
      | Some (k, ws) \<Rightarrow> kind_eq (c_kind c) k \<and> list_all2 (\<lambda>f w. f w) (map covers subs) ws)"

abbreviation "covers_row \<equiv> list_all2 covers"

lemma covers_map [simp]: "list_all2 (\<lambda>f w. f w) (map covers subs) ws = covers_row subs ws"
  by (simp add: list_all2_map1)

lemma value_map [simp]: "list_all2 (\<lambda>f u. f res u) (map value_of ws) us = list_all2 (\<lambda>w u. value_of w res u) ws us"
  by (simp add: list_all2_map1)

lemma covers_wilds [simp]: "covers_row (replicate n MWild) ws \<longleftrightarrow> length ws = n"
  by (induction n arbitrary: ws) (auto simp: list_all2_Cons1 length_Suc_conv)

text \<open>
  What the check relies on of \<open>resolve_type\<close>: a resolved type is left as it is, errors and
  primitives resolve to themselves, and a union declares a variant once.
\<close>

definition resolver_ok :: "(ctype \<Rightarrow> ctype) \<Rightarrow> bool" where
  "resolver_ok res \<longleftrightarrow>
     (\<forall>t. res (res t) = res t) \<and> (\<forall>i. res (TError i) = TError i) \<and> (\<forall>i p. res (TPrim i p) = TPrim i p) \<and>
     (\<forall>t i u vs as. res t = TUnion i u vs as \<longrightarrow> distinct (map v_name vs))"

lemma res_idem: "resolver_ok res \<Longrightarrow> res (res t) = res t" by (simp add: resolver_ok_def)

lemma res_int32: "resolver_ok res \<Longrightarrow> res type_int32 = type_int32" by (simp add: resolver_ok_def type_int32_def)

lemma res_error_code: "resolver_ok res \<Longrightarrow> res type_error_code = type_error_code"
  by (simp add: resolver_ok_def type_error_code_def)

lemma res_error: "resolver_ok res \<Longrightarrow> kind t = TYPE_ERROR \<Longrightarrow> res t = t"
  by (cases t) (auto simp: resolver_ok_def)

lemma res_union: "resolver_ok res \<Longrightarrow> res t = TUnion i u vs as \<Longrightarrow> distinct (map v_name vs)"
  unfolding resolver_ok_def by blast

lemma value_of_resolved: "resolver_ok res \<Longrightarrow> value_of v res (res t) = value_of v res t"
  by (cases v) (simp_all add: res_idem)

lemma find_variant_mem:
  "distinct (map v_name vs) \<Longrightarrow> v \<in> set vs \<Longrightarrow> find_variant vs (v_name v) = Some v"
  by (induction vs) (auto simp: find_variant_def)

lemma find_variant_Some: "find_variant vs n = Some v \<Longrightarrow> v \<in> set vs \<and> v_name v = n"
  by (auto simp: find_variant_def find_Some_iff)

subsection \<open>Constructors of a type\<close>

lemma type_ctors_None: "type_ctors_list res t = None \<longleftrightarrow> \<not> taken_apart (res t)"
  by (cases "res t") (auto simp: type_ctors_list_def taken_apart_def)

lemma value_view_None: "value_of v res t \<Longrightarrow> type_ctors_list res t = None \<Longrightarrow> view v = None"
  by (cases v) (auto simp: type_ctors_None taken_apart_def option_inner_def result_inner_def
    split: ctype.splits option.splits)

lemma kind_cases [simp]:
  "kind t = Prim p \<longleftrightarrow> (\<exists>i. t = TPrim i p)"
  "kind t = TYPE_OPTION \<longleftrightarrow> (\<exists>i u. t = TOption i u)"
  "kind t = TYPE_RESULT \<longleftrightarrow> (\<exists>i u. t = TResult i u)"
  by (cases t; simp)+

lemma ctors_determined:
  assumes "resolver_ok res" "type_ctors_list res t = Some cs" "c \<in> set cs" "d \<in> set cs" "ctor_eq c d"
  shows "c = d"
proof (cases "res t")
  case (TUnion i u vs as)
  then have "distinct (map v_name vs)" using assms(1) by (rule res_union [rotated])
  then have "v = w" if "v \<in> set vs" "w \<in> set vs" "v_name v = v_name w" for v w
    using that by (auto simp: distinct_map dest: inj_onD)
  moreover obtain v w where "v \<in> set vs" "c = Ctor (CTOR_VARIANT (v_name v)) (if v_payload v = None then 0 else 1)"
    "w \<in> set vs" "d = Ctor (CTOR_VARIANT (v_name w)) (if v_payload w = None then 0 else 1)"
    using assms(2-4) TUnion by (auto simp: type_ctors_list_def)
  ultimately show ?thesis using assms(5) by (auto simp: ctor_eq_def kind_eq_def)
next
  case (TPrim i p)
  then show ?thesis using assms(2-5) by (auto simp: type_ctors_list_def ctor_eq_def kind_eq_def split: if_splits)
qed (use assms(2-5) in \<open>auto simp: type_ctors_list_def ctor_eq_def kind_eq_def\<close>)

lemma sub_types_length:
  assumes "resolver_ok res" "type_ctors_list res t = Some cs" "c \<in> set cs" "res t = t"
  shows "length (ctor_sub_types res c t) = c_arity c"
proof (cases "t")
  case (TUnion i u vs as)
  then have d: "distinct (map v_name vs)" using assms(1,4) res_union by metis
  obtain v where "v \<in> set vs" "c = Ctor (CTOR_VARIANT (v_name v)) (if v_payload v = None then 0 else 1)"
    using assms(2-4) TUnion by (auto simp: type_ctors_list_def)
  with d TUnion show ?thesis
    by (auto simp: ctor_sub_types_def variant_payload_def find_variant_mem split: option.splits)
next
  case (TPrim i p)
  then show ?thesis using assms(2-4) by (auto simp: type_ctors_list_def ctor_sub_types_def split: if_splits)
qed (use assms(2-4) in \<open>auto simp: type_ctors_list_def ctor_sub_types_def option_inner_def result_inner_def
  variant_payload_def struct_fields_def\<close>)

text \<open>A value of such a type is one of its constructors applied to values of the subtypes.\<close>

lemma value_view:
  assumes ok: "resolver_ok res" and cs: "type_ctors_list res t = Some cs" and t: "res t = t" and v: "value_of v res t"
  shows "\<exists>c\<in>set cs. \<exists>k ws. view v = Some (k, ws) \<and> kind_eq (c_kind c) k \<and>
    list_all2 (\<lambda>w u. value_of w res u) ws (ctor_sub_types res c t)"
proof (cases v)
  case (V_scalar a)
  then show ?thesis using v cs type_ctors_None [of res t] by simp
next
  case (V_bool b)
  then show ?thesis
    using v cs t by (auto simp: type_ctors_list_def ctor_sub_types_def kind_eq_def)
next
  case V_none
  then show ?thesis using v cs t by (auto simp: type_ctors_list_def ctor_sub_types_def)
next
  case (V_some w)
  then show ?thesis
    using v cs t by (auto simp: type_ctors_list_def ctor_sub_types_def option_inner_def value_of_resolved [OF ok]
      split: ctype.splits option.splits)
next
  case (V_ok w)
  then show ?thesis
    using v cs t by (auto simp: type_ctors_list_def ctor_sub_types_def result_inner_def value_of_resolved [OF ok]
      split: ctype.splits option.splits)
next
  case (V_err w)
  then show ?thesis using v cs t by (auto simp: type_ctors_list_def ctor_sub_types_def)
next
  case (V_struct ws)
  then obtain i s fs as where "t = TStruct i s fs as" using v t by (auto split: ctype.splits)
  then show ?thesis
    using v cs t V_struct
    by (auto simp: type_ctors_list_def ctor_sub_types_def struct_fields_def kind_eq_def list_all2_conv_all_nth
      value_of_resolved [OF ok])
next
  case (V_variant n w)
  then consider i e r where "t = TEnum i e r" | i u vs as where "t = TUnion i u vs as"
    using v t by (auto split: ctype.splits)
  then show ?thesis
  proof cases
    case 1
    then show ?thesis
      using v cs t V_variant
      by (auto simp: type_ctors_list_def ctor_sub_types_def variant_payload_def intro!: bexI kind_eq_refl)
  next
    case 2
    then have d: "distinct (map v_name vs)" using ok t res_union by metis
    obtain x where "x \<in> set vs" "v_name x = n" "rel_option (\<lambda>f u. f res u) (map_option value_of w) (v_payload x)"
      using v t V_variant 2 by auto
    then show ?thesis
      using cs t V_variant 2 find_variant_mem [OF d]
      by (cases w) (force simp: type_ctors_list_def ctor_sub_types_def variant_payload_def value_of_resolved [OF ok]
        option_rel_Some1)+
  qed
qed

subsection \<open>The matrix search\<close>

text \<open>A matrix pattern fits a type: its arities are those of the constructors of the type.\<close>

primrec fits :: "matpat \<Rightarrow> (ctype \<Rightarrow> ctype) \<Rightarrow> ctype \<Rightarrow> bool" where
  "fits MWild res t \<longleftrightarrow> True"
| "fits (MCon c subs) res t \<longleftrightarrow>
     (case type_ctors_list res t of
        None \<Rightarrow> True
      | Some cs \<Rightarrow> \<exists>d\<in>set cs. ctor_eq c d \<and>
          list_all2 (\<lambda>f u. f res u) (map fits subs) (ctor_sub_types res d t))"

abbreviation "fits_row res \<equiv> list_all2 (\<lambda>m u. fits m res u)"

lemma fits_map [simp]: "list_all2 (\<lambda>f u. f res u) (map fits ms) us = fits_row res ms us"
  by (simp add: list_all2_map1)

abbreviation "resolved res types \<equiv> \<forall>t\<in>set types. res t = t"

lemma sub_types_resolved: "resolver_ok res \<Longrightarrow> resolved res (ctor_sub_types res c t)"
  by (auto simp: ctor_sub_types_def res_idem res_int32 split: ctor_kind.splits option.splits)

lemma fits_wilds [simp]: "fits_row res (replicate n MWild) us \<longleftrightarrow> length us = n"
  by (induction n arbitrary: us) (auto simp: list_all2_Cons1 length_Suc_conv)

lemma specialize_row_fits:
  assumes "resolver_ok res" "type_ctors_list res t = Some cs" "c \<in> set cs" "res t = t"
    and "fits_row res row (t # ts)" "row' \<in> set (specialize_row c row)"
  shows "fits_row res row' (ctor_sub_types res c t @ ts)"
  using assms(5,6)
proof (cases "(c, row)" rule: specialize_row.cases)
  case (1 c' row2)
  then show ?thesis
    using assms(5,6) sub_types_length [OF assms(1-4)] by (auto intro!: list_all2_appendI)
next
  case (2 c' d subs row2)
  then have "\<exists>d'\<in>set cs. ctor_eq d d' \<and> fits_row res subs (ctor_sub_types res d' t)" and e: "ctor_eq d c"
    and r: "row' = subs @ row2" "fits_row res row2 ts"
    using assms(2,5,6) by (auto split: if_splits)
  then obtain d' where d: "d' \<in> set cs" "ctor_eq d d'" "fits_row res subs (ctor_sub_types res d' t)" by blast
  then have "d' = c"
    using ctors_determined [OF assms(1,2) d(1) assms(3)] e kind_eq_sym kind_eq_trans unfolding ctor_eq_def by blast
  with d r show ?thesis by (auto intro: list_all2_appendI)
qed simp

text \<open>Rows of a specialized matrix have its width, so the code never writes outside a row.\<close>

lemma specialize_fits:
  assumes "resolver_ok res" "type_ctors_list res t = Some cs" "c \<in> set cs" "res t = t"
    and "\<forall>row\<in>set rows. fits_row res row (t # ts)" "row \<in> set (specialize rows c)"
  shows "fits_row res row (ctor_sub_types res c t @ ts)"
  using assms specialize_row_fits [OF assms(1-4)] by (auto simp: specialize_def)

lemma default_fits:
  assumes "\<forall>row\<in>set rows. fits_row res row (t # ts)" "row \<in> set (default_matrix rows)"
  shows "fits_row res row ts \<and> MWild # row \<in> set rows"
proof -
  obtain r where "r \<in> set rows" "row \<in> set (default_row r)" using assms(2) by (auto simp: default_matrix_def)
  then show ?thesis using assms(1) by (cases r rule: default_row.cases) (auto simp: list_all2_Cons1)
qed

lemma fits_row_ConsD: "fits_row res (MCon d subs # row) (t # ts) \<Longrightarrow> type_ctors_list res t = Some cs \<Longrightarrow>
    \<exists>d'\<in>set cs. ctor_eq d d' \<and> fits_row res subs (ctor_sub_types res d' t)"
  by simp

text \<open>A row covers a value exactly when what becomes of it under its constructor covers the parts.\<close>

lemma specialize_row_covers:
  assumes "view v = Some (k, ws)" "kind_eq (c_kind c) k" "length ws = c_arity c"
    and "\<And>d subs r. row = MCon d subs # r \<Longrightarrow> ctor_eq d c \<Longrightarrow> length subs = c_arity c"
  shows "covers_row row (v # vs) \<longleftrightarrow> (\<exists>row'\<in>set (specialize_row c row). covers_row row' (ws @ vs))"
proof (cases "(c, row)" rule: specialize_row.cases)
  case (1 c' row2)
  then show ?thesis using assms(1,3) by (simp add: list_all2_append)
next
  case (2 c' d subs row2)
  have "kind_eq (c_kind d) k \<longleftrightarrow> ctor_eq d c"
    using assms(2) kind_eq_sym kind_eq_trans unfolding ctor_eq_def by blast
  then show ?thesis
    using 2 assms by (auto simp: list_all2_append dest: list_all2_lengthD)
qed simp

lemma specialize_covers:
  assumes "resolver_ok res" "type_ctors_list res t = Some cs" "c \<in> set cs" "res t = t"
    and rows: "\<forall>row\<in>set rows. fits_row res row (t # ts)"
    and v: "view v = Some (k, ws)" "kind_eq (c_kind c) k" "length ws = c_arity c"
  shows "(\<exists>row\<in>set rows. covers_row row (v # vs)) \<longleftrightarrow> (\<exists>row\<in>set (specialize rows c). covers_row row (ws @ vs))"
proof -
  have len: "length subs = c_arity c" if row: "row \<in> set rows" "row = MCon d subs # r" "ctor_eq d c" for row d subs r
  proof -
    obtain d' where d: "d' \<in> set cs" "ctor_eq d d'" "fits_row res subs (ctor_sub_types res d' t)"
      using rows row(1,2) fits_row_ConsD assms(2) by metis
    then have "d' = c"
      using ctors_determined [OF assms(1,2) d(1) assms(3)] row(3) kind_eq_sym kind_eq_trans
      unfolding ctor_eq_def by blast
    with d(3) sub_types_length [OF assms(1-4)] show ?thesis by (simp add: list_all2_lengthD)
  qed
  have "covers_row row (v # vs) \<longleftrightarrow> (\<exists>row'\<in>set (specialize_row c row). covers_row row' (ws @ vs))"
    if "row \<in> set rows" for row
    using specialize_row_covers [OF v] len [OF that] by blast
  then show ?thesis by (auto simp: specialize_def)
qed

lemma witness_none_covers:
  assumes "find_witness res rows types = None" "resolver_ok res" "resolved res types"
    and "\<forall>row\<in>set rows. fits_row res row types" "list_all2 (\<lambda>v t. value_of v res t) vs types"
  shows "\<exists>row\<in>set rows. covers_row row vs"
  using assms
proof (induction res rows types arbitrary: vs rule: find_witness.induct)
  case (1 res rows)
  then obtain row where "row \<in> set rows" by (cases rows) (auto split: if_splits)
  with 1 show ?case by auto
next
  case (2 res rows t ts)
  obtain v vs' where vs: "vs = v # vs'" "value_of v res t" "list_all2 (\<lambda>v t. value_of v res t) vs' ts"
    using "2.prems"(5) by (auto simp: list_all2_Cons2)
  have t: "res t = t" "resolved res ts" using "2.prems"(3) by auto
  note ok = "2.prems"(2)
  show ?case
  proof (cases "complete_signature (type_ctors_list res t) (collect_head_ctors rows)")
    case True
    then obtain cs where cs: "type_ctors_list res t = Some cs" by (auto simp: complete_signature_def split: option.splits)
    obtain c k ws where c: "c \<in> set cs" "view v = Some (k, ws)" "kind_eq (c_kind c) k"
      "list_all2 (\<lambda>w u. value_of w res u) ws (ctor_sub_types res c t)"
      using value_view [OF ok cs t(1) vs(2)] by blast
    have none: "find_witness res (specialize rows c) (types_specialize res (t # ts) c t) = None"
      using "2.prems"(1) True cs c(1) by (auto simp: find_witness.simps(2) first_some_None)
    have "\<exists>row\<in>set (specialize rows c). covers_row row (ws @ vs')"
    proof (rule "2.IH"(1) [OF refl refl True _ none ok])
      show "c \<in> set (the (type_ctors_list res t))" using cs c(1) by simp
      show "resolved res (types_specialize res (t # ts) c t)"
        using t(2) sub_types_resolved [OF ok] by (auto simp: types_specialize_def)
      show "\<forall>row\<in>set (specialize rows c). fits_row res row (types_specialize res (t # ts) c t)"
        using specialize_fits [OF ok cs c(1) t(1) "2.prems"(4)] by (simp add: types_specialize_def)
      show "list_all2 (\<lambda>v. value_of v res) (ws @ vs') (types_specialize res (t # ts) c t)"
        using c(4) vs(3) by (simp add: types_specialize_def list_all2_appendI)
    qed
    then show ?thesis
      using specialize_covers [OF ok cs c(1) t(1) "2.prems"(4) c(2,3)] vs(1) c(4)
        sub_types_length [OF ok cs c(1) t(1)] by (simp add: list_all2_lengthD)
  next
    case False
    then have none: "find_witness res (default_matrix rows) ts = None"
      using "2.prems"(1) by (simp add: find_witness.simps(2))
    have "\<exists>row\<in>set (default_matrix rows). covers_row row vs'"
      by (rule "2.IH"(2) [OF refl refl False none ok t(2) _ vs(3)]) (use default_fits "2.prems"(4) in blast)
    then obtain row where "row \<in> set (default_matrix rows)" "covers_row row vs'" by blast
    then show ?thesis using default_fits [OF "2.prems"(4)] vs(1) by (intro bexI [of _ "MWild # row"]) auto
  qed
qed

text \<open>The constructor reported for an incomplete signature is none of the heads.\<close>

lemma heads_complete_gen:
  "(\<exists>d\<in>set out. ctor_eq d c) \<or> (\<exists>subs r. MCon c subs # r \<in> set rows) \<Longrightarrow>
    \<exists>d\<in>set (foldl head_ctors_of out rows). ctor_eq d c"
proof (induction rows arbitrary: out)
  case (Cons a rows)
  have "(\<exists>d\<in>set (head_ctors_of out a). ctor_eq d c) \<or> (\<exists>subs r. MCon c subs # r \<in> set rows)"
    using Cons.prems by (auto simp: head_ctors_of_def list_ex_iff ctor_eq_def split: list.splits matpat.splits)
  then show ?case using Cons.IH by simp
qed simp

lemma heads_complete:
  "MCon c subs # r \<in> set rows \<Longrightarrow> \<exists>d\<in>set (collect_head_ctors rows). ctor_eq d c"
  using heads_complete_gen [of "[]" c rows] by (auto simp: collect_head_ctors_def)

lemma missing_not_head:
  assumes "\<not> complete_signature (Some cs) (collect_head_ctors rows)"
    and "covers (missing_pat (Some cs) (collect_head_ctors rows)) v" "view v = Some (k, ws)"
    and "MCon c subs # r \<in> set rows"
  shows "\<not> kind_eq (c_kind c) k"
proof
  assume e: "kind_eq (c_kind c) k"
  let ?h = "collect_head_ctors rows"
  obtain m where m: "find (\<lambda>c. \<not> in_heads ?h c) cs = Some m"
    using assms(1) by (cases "find (\<lambda>c. \<not> in_heads ?h c) cs")
      (auto simp: complete_signature_def list_all_iff find_None_iff)
  then have "\<not> in_heads ?h m" by (auto simp: find_Some_iff)
  moreover have "kind_eq (c_kind m) k" using assms(2,3) m by (simp add: missing_pat_def)
  moreover obtain d where "d \<in> set ?h" "ctor_eq d c" using heads_complete [OF assms(4)] by blast
  ultimately show False
    using e kind_eq_sym kind_eq_trans unfolding in_heads_def list_ex_iff ctor_eq_def by blast
qed

lemma rebuild_covers:
  assumes "covers_row (rebuild c w) (v # vs)"
  shows "\<exists>k ws. view v = Some (k, ws) \<and> kind_eq (c_kind c) k \<and> covers_row w (ws @ vs)"
proof -
  obtain k ws where "view v = Some (k, ws)" "kind_eq (c_kind c) k" "covers_row (take (c_arity c) w) ws"
    "covers_row (drop (c_arity c) w) vs"
    using assms by (auto simp: rebuild_def split: option.splits)
  moreover from this have "covers_row (take (c_arity c) w @ drop (c_arity c) w) (ws @ vs)"
    by (intro list_all2_appendI)
  ultimately show ?thesis by simp
qed

lemma witness_not_covered:
  assumes "find_witness res rows types = Some w" "resolver_ok res" "resolved res types"
    and "\<forall>row\<in>set rows. fits_row res row types" "list_all2 (\<lambda>v t. value_of v res t) vs types" "covers_row w vs"
  shows "\<not> (\<exists>row\<in>set rows. covers_row row vs)"
  using assms
proof (induction res rows types arbitrary: vs w rule: find_witness.induct)
  case (1 res rows)
  then show ?case by (simp split: if_splits)
next
  case (2 res rows t ts)
  obtain v vs' where vs: "vs = v # vs'" "value_of v res t" "list_all2 (\<lambda>v t. value_of v res t) vs' ts"
    using "2.prems"(5) by (auto simp: list_all2_Cons2)
  have t: "res t = t" "resolved res ts" using "2.prems"(3) by auto
  note ok = "2.prems"(2)
  show ?case
  proof (cases "complete_signature (type_ctors_list res t) (collect_head_ctors rows)")
    case True
    then obtain cs where cs: "type_ctors_list res t = Some cs" by (auto simp: complete_signature_def split: option.splits)
    obtain c w' where c: "c \<in> set cs" "w = rebuild c w'"
      and some: "find_witness res (specialize rows c) (types_specialize res (t # ts) c t) = Some w'"
      using "2.prems"(1) True cs by (auto simp: find_witness.simps(2) dest!: first_some_Some)
    obtain k ws where k: "view v = Some (k, ws)" "kind_eq (c_kind c) k" "covers_row w' (ws @ vs')"
      using rebuild_covers "2.prems"(6) c(2) vs(1) by blast
    obtain d where "d \<in> set cs" "kind_eq (c_kind d) k" "list_all2 (\<lambda>w u. value_of w res u) ws (ctor_sub_types res d t)"
      using value_view [OF ok cs t(1) vs(2)] k(1) by auto
    then have typed: "list_all2 (\<lambda>w u. value_of w res u) ws (ctor_sub_types res c t)"
      using ctors_determined [OF ok cs _ c(1)] k(2) kind_eq_sym kind_eq_trans unfolding ctor_eq_def by blast
    have "\<not> (\<exists>row\<in>set (specialize rows c). covers_row row (ws @ vs'))"
    proof (rule "2.IH"(1) [OF refl refl True _ some ok _ _ _ k(3)])
      show "c \<in> set (the (type_ctors_list res t))" using cs c(1) by simp
      show "resolved res (types_specialize res (t # ts) c t)"
        using t(2) sub_types_resolved [OF ok] by (auto simp: types_specialize_def)
      show "\<forall>row\<in>set (specialize rows c). fits_row res row (types_specialize res (t # ts) c t)"
        using specialize_fits [OF ok cs c(1) t(1) "2.prems"(4)] by (simp add: types_specialize_def)
      show "list_all2 (\<lambda>v. value_of v res) (ws @ vs') (types_specialize res (t # ts) c t)"
        using typed vs(3) by (simp add: types_specialize_def list_all2_appendI)
    qed
    then show ?thesis
      using specialize_covers [OF ok cs c(1) t(1) "2.prems"(4) k(1,2)] vs(1) typed
        sub_types_length [OF ok cs c(1) t(1)] by (simp add: list_all2_lengthD)
  next
    case False
    then obtain w' where w: "w = missing_pat (type_ctors_list res t) (collect_head_ctors rows) # w'"
      "find_witness res (default_matrix rows) ts = Some w'"
      using "2.prems"(1) by (auto simp: find_witness.simps(2))
    have rest: "\<not> (\<exists>row\<in>set (default_matrix rows). covers_row row vs')"
      by (rule "2.IH"(2) [OF refl refl False w(2) ok t(2) _ vs(3)])
        (use default_fits "2.prems"(4,6) w(1) vs(1) in auto)
    show ?thesis
    proof
      assume "\<exists>row\<in>set rows. covers_row row vs"
      then obtain m r where r: "m # r \<in> set rows" "covers m v" "covers_row r vs'"
        using vs(1) by (auto simp: list_all2_Cons2)
      show False
      proof (cases m)
        case MWild
        then have "r \<in> set (default_matrix rows)" using r(1) by (force simp: default_matrix_def)
        then show False using rest r(3) by blast
      next
        case (MCon c subs)
        then obtain k ws where k: "view v = Some (k, ws)" "kind_eq (c_kind c) k"
          using r(2) by (auto split: option.splits)
        then obtain cs where cs: "type_ctors_list res t = Some cs"
          using value_view_None [OF vs(2)] by (cases "type_ctors_list res t") auto
        then show False
          using missing_not_head [of cs rows v k ws c subs r] False "2.prems"(6) w(1) vs(1) k r(1) MCon by simp
      qed
    qed
  qed
qed

end
