(* ===== verification/FC_Coverage.thy ===== *)
theory FC_Coverage
  imports FC_Exhaust
begin

subsection \<open>What a pattern matches\<close>

text \<open>
  The reading of a checked pattern: \<open>lit\<close> says which scalars a literal matches. A malformed
  pattern and a path that did not resolve, both reported, match anything.
\<close>

type_synonym 'a literal = "pattern \<Rightarrow> 'a \<Rightarrow> bool"

type_synonym 'a matcher = "'a literal \<Rightarrow> (ctype \<Rightarrow> ctype) \<Rightarrow> ctype \<Rightarrow> 'a fcval \<Rightarrow> bool"

definition is_lit :: "'a literal \<Rightarrow> pattern \<Rightarrow> 'a fcval \<Rightarrow> bool" where
  "is_lit lit p v = (case v of V_scalar a \<Rightarrow> lit p a | _ \<Rightarrow> False)"

definition sub_matches :: "'a matcher option \<Rightarrow> 'a literal \<Rightarrow> (ctype \<Rightarrow> ctype) \<Rightarrow> ctype option \<Rightarrow> 'a fcval \<Rightarrow> bool" where
  "sub_matches f lit res t v =
     (case t of None \<Rightarrow> False | Some t \<Rightarrow> (case f of None \<Rightarrow> True | Some f \<Rightarrow> f lit res t v))"

definition field_matches :: "'a matcher \<Rightarrow> 'a literal \<Rightarrow> (ctype \<Rightarrow> ctype) \<Rightarrow> ctype struct_field list \<Rightarrow> string \<Rightarrow> 'a fcval list \<Rightarrow> bool" where
  "field_matches f lit res fds n ws =
     (case field_index fds n of None \<Rightarrow> False | Some i \<Rightarrow> i < length ws \<and> f lit res (f_type (fds ! i)) (ws ! i))"

primrec pmatch :: "pattern \<Rightarrow> 'a matcher" where
  "pmatch (PAT_WILDCARD loc) lit res t v = True"
| "pmatch (PAT_BINDING loc n) lit res t v = True"
| "pmatch (PAT_ERROR loc) lit res t v = True"
| "pmatch (PAT_CONST_PATH loc parts) lit res t v = True"
| "pmatch (PAT_INT_LIT loc x oor neg) lit res t v = is_lit lit (PAT_INT_LIT loc x oor neg) v"
| "pmatch (PAT_CHAR_LIT loc c) lit res t v = is_lit lit (PAT_CHAR_LIT loc c) v"
| "pmatch (PAT_STRING_LIT loc s len) lit res t v = is_lit lit (PAT_STRING_LIT loc s len) v"
| "pmatch (PAT_BOOL_LIT loc b) lit res t v = (case v of V_bool c \<Rightarrow> b = c | _ \<Rightarrow> False)"
| "pmatch (PAT_NONE loc) lit res t v = (case v of V_none \<Rightarrow> True | _ \<Rightarrow> False)"
| "pmatch (PAT_SOME loc q) lit res t v =
     (case v of V_some w \<Rightarrow> sub_matches (map_option pmatch q) lit res (option_inner (res t)) w | _ \<Rightarrow> False)"
| "pmatch (PAT_OK loc q) lit res t v =
     (case v of V_ok w \<Rightarrow> sub_matches (map_option pmatch q) lit res (result_inner (res t)) w | _ \<Rightarrow> False)"
| "pmatch (PAT_ERR loc q) lit res t v =
     (case v of V_err w \<Rightarrow> sub_matches (map_option pmatch q) lit res (Some type_error_code) w | _ \<Rightarrow> False)"
| "pmatch (PAT_VARIANT loc n q) lit res t v =
     (case v of
        V_variant m w \<Rightarrow> n = m \<and>
          (case w of None \<Rightarrow> q = None | Some w \<Rightarrow> sub_matches (map_option pmatch q) lit res (variant_payload (res t) n) w)
      | _ \<Rightarrow> False)"
| "pmatch (PAT_STRUCT loc fs) lit res t v =
     (case v of
        V_struct ws \<Rightarrow> list_all (\<lambda>nf. field_matches (snd nf) lit res (struct_fields (res t)) (fst nf) ws) (map (map_prod id pmatch) fs)
      | _ \<Rightarrow> False)"
| "pmatch (PAT_TUPLE loc ps) lit res t v =
     (case v of
        V_struct ws \<Rightarrow> length ps = length ws \<and> length ws = length (struct_fields (res t)) \<and>
          list_all2 (\<lambda>f uw. f lit res (f_type (fst uw)) (snd uw)) (map pmatch ps) (zip (struct_fields (res t)) ws)
      | _ \<Rightarrow> False)"
| "pmatch (PAT_OR loc ps) lit res t v = list_ex (\<lambda>f. f lit res t v) (map pmatch ps)"

text \<open>A pattern of the shape of its type, as the check leaves it. Nothing is known on an error type.\<close>

definition is_err :: "ctype \<Rightarrow> bool" where "is_err t \<longleftrightarrow> kind t = TYPE_ERROR"

type_synonym shape = "(ctype \<Rightarrow> ctype) \<Rightarrow> ctype \<Rightarrow> bool"

definition sub_ok :: "shape option \<Rightarrow> shape" where
  "sub_ok f res t = (case f of None \<Rightarrow> True | Some f \<Rightarrow> f res t)"

primrec pat_ok :: "pattern \<Rightarrow> shape" where
  "pat_ok (PAT_WILDCARD loc) res t = True"
| "pat_ok (PAT_BINDING loc n) res t = True"
| "pat_ok (PAT_ERROR loc) res t = True"
| "pat_ok (PAT_CONST_PATH loc parts) res t = True"
| "pat_ok (PAT_INT_LIT loc x oor neg) res t = (\<not> taken_apart (res t))"
| "pat_ok (PAT_CHAR_LIT loc c) res t = (\<not> taken_apart (res t))"
| "pat_ok (PAT_STRING_LIT loc s len) res t = (\<not> taken_apart (res t))"
| "pat_ok (PAT_BOOL_LIT loc b) res t = (is_err (res t) \<or> kind (res t) = Prim TYPE_BOOL)"
| "pat_ok (PAT_NONE loc) res t = (is_err (res t) \<or> kind (res t) = TYPE_OPTION)"
| "pat_ok (PAT_SOME loc q) res t =
     (is_err (res t) \<or> (\<exists>u. option_inner (res t) = Some u \<and> sub_ok (map_option pat_ok q) res u))"
| "pat_ok (PAT_OK loc q) res t =
     (is_err (res t) \<or> (\<exists>u. result_inner (res t) = Some u \<and> sub_ok (map_option pat_ok q) res u))"
| "pat_ok (PAT_ERR loc q) res t =
     (is_err (res t) \<or> kind (res t) = TYPE_RESULT \<and> sub_ok (map_option pat_ok q) res type_error_code)"
| "pat_ok (PAT_VARIANT loc n q) res t =
     (is_err (res t) \<or>
      (\<exists>i e r. res t = TEnum i e r \<and> q = None \<and> (\<exists>v\<in>set (en_variants e). ev_name v = n)) \<or>
      (\<exists>i u vs as v. res t = TUnion i u vs as \<and> find_variant vs n = Some v \<and>
         rel_option (\<lambda>f u. f res u) (map_option pat_ok q) (v_payload v)))"
| "pat_ok (PAT_STRUCT loc fs) res t =
     (is_err (res t) \<or>
      kind (res t) = TYPE_STRUCT \<and> distinct (map fst fs) \<and>
      list_all (\<lambda>nf. \<exists>i. field_index (struct_fields (res t)) (fst nf) = Some i \<and>
                       snd nf res (f_type (struct_fields (res t) ! i))) (map (map_prod id pat_ok) fs))"
| "pat_ok (PAT_TUPLE loc ps) res t =
     (is_err (res t) \<or>
      kind (res t) = TYPE_STRUCT \<and> list_all2 (\<lambda>f u. f res u) (map pat_ok ps) (map f_type (struct_fields (res t))))"
| "pat_ok (PAT_OR loc ps) res t = (is_err (res t) \<or> list_all (\<lambda>f. f res t) (map pat_ok ps))"

text \<open>A condition on every subpattern.\<close>

primrec pattern_all :: "(pattern \<Rightarrow> bool) \<Rightarrow> pattern \<Rightarrow> bool" where
  "pattern_all P (PAT_WILDCARD loc) = P (PAT_WILDCARD loc)"
| "pattern_all P (PAT_BINDING loc n) = P (PAT_BINDING loc n)"
| "pattern_all P (PAT_ERROR loc) = P (PAT_ERROR loc)"
| "pattern_all P (PAT_CONST_PATH loc parts) = P (PAT_CONST_PATH loc parts)"
| "pattern_all P (PAT_INT_LIT loc x oor neg) = P (PAT_INT_LIT loc x oor neg)"
| "pattern_all P (PAT_CHAR_LIT loc c) = P (PAT_CHAR_LIT loc c)"
| "pattern_all P (PAT_STRING_LIT loc s len) = P (PAT_STRING_LIT loc s len)"
| "pattern_all P (PAT_BOOL_LIT loc b) = P (PAT_BOOL_LIT loc b)"
| "pattern_all P (PAT_NONE loc) = P (PAT_NONE loc)"
| "pattern_all P (PAT_SOME loc q) = (P (PAT_SOME loc q) \<and> pred_option id (map_option (pattern_all P) q))"
| "pattern_all P (PAT_OK loc q) = (P (PAT_OK loc q) \<and> pred_option id (map_option (pattern_all P) q))"
| "pattern_all P (PAT_ERR loc q) = (P (PAT_ERR loc q) \<and> pred_option id (map_option (pattern_all P) q))"
| "pattern_all P (PAT_VARIANT loc n q) = (P (PAT_VARIANT loc n q) \<and> pred_option id (map_option (pattern_all P) q))"
| "pattern_all P (PAT_STRUCT loc fs) =
     (P (PAT_STRUCT loc fs) \<and> list_all snd (map (map_prod id (pattern_all P)) fs))"
| "pattern_all P (PAT_TUPLE loc ps) = (P (PAT_TUPLE loc ps) \<and> list_all id (map (pattern_all P) ps))"
| "pattern_all P (PAT_OR loc ps) = (P (PAT_OR loc ps) \<and> list_all id (map (pattern_all P) ps))"

definition or_free :: "pattern \<Rightarrow> bool" where
  "or_free = pattern_all (\<lambda>p. case p of PAT_OR _ _ \<Rightarrow> False | _ \<Rightarrow> True)"

text \<open>What the parser gives: an or-pattern has alternatives, a variant pattern its payload.\<close>

definition alts_ok :: "pattern \<Rightarrow> bool" where
  "alts_ok = pattern_all (\<lambda>p. case p of PAT_OR _ ps \<Rightarrow> ps \<noteq> [] | _ \<Rightarrow> True)"

definition parsed :: "pattern \<Rightarrow> bool" where
  "parsed = pattern_all (\<lambda>p. case p of PAT_OR _ ps \<Rightarrow> ps \<noteq> [] | PAT_VARIANT _ _ q \<Rightarrow> q \<noteq> None | _ \<Rightarrow> True)"

definition fields_once :: "pattern \<Rightarrow> bool" where
  "fields_once = pattern_all (\<lambda>p. case p of PAT_STRUCT _ fs \<Rightarrow> distinct (map fst fs) | _ \<Rightarrow> True)"

lemmas pred_defs = pred_option_def list_all_iff

subsection \<open>The matrix pattern of a pattern\<close>

abbreviation "no_lit \<equiv> \<lambda>_ _. False"

lemma covers_scalar: "view v = None \<Longrightarrow> covers m v \<longleftrightarrow> m = MWild"
  by (cases m) simp_all

lemma pmatch_scalar:
  "view v = None \<Longrightarrow> or_free p \<Longrightarrow> pmatch p no_lit res t v \<longleftrightarrow> pat_to_matpat p res t' = MWild"
  by (cases v; cases p) (simp_all add: or_free_def is_lit_def Let_def split: option.splits)

lemma field_index_nth: "field_index fds n = Some i \<Longrightarrow> i < length fds \<and> f_name (fds ! i) = n"
  by (induction fds arbitrary: i) (auto split: if_splits)

text \<open>Any relation that holds of wildcards holds of filled fields when it holds of each one filled.\<close>

lemma fill_all2:
  assumes "distinct (map fst fs)" "\<And>x. R MWild x" "length xs = length fds" "length subs = length fds"
    and "\<And>n m i. (n, m) \<in> set fs \<Longrightarrow> field_index fds n = Some i \<Longrightarrow> subs ! i = MWild"
  shows "list_all2 R (fill_fields fds fs subs) xs \<longleftrightarrow>
    list_all2 R subs xs \<and> (\<forall>(n, m)\<in>set fs. \<forall>i. field_index fds n = Some i \<longrightarrow> R (m (Some (f_type (fds ! i)))) (xs ! i))"
  using assms(1,4,5)
proof (induction fs arbitrary: subs)
  case (Cons a fs)
  obtain n m where a: "a = (n, m)" by force
  show ?case
  proof (cases "field_index fds n")
    case None
    have "list_all2 R (fill_fields fds fs subs) xs \<longleftrightarrow>
      list_all2 R subs xs \<and> (\<forall>(n, m)\<in>set fs. \<forall>i. field_index fds n = Some i \<longrightarrow> R (m (Some (f_type (fds ! i)))) (xs ! i))"
    proof (rule Cons.IH)
      show "subs ! i = MWild" if "(n, m) \<in> set fs" "field_index fds n = Some i" for n m i
        using Cons.prems(3) [of n m i] that by simp
    qed (use Cons.prems in auto)
    then show ?thesis using None a by simp
  next
    case (Some i)
    let ?subs = "subs[i := m (Some (f_type (fds ! i)))]"
    have i: "i < length fds" "f_name (fds ! i) = n" using field_index_nth [OF Some] by auto
    have other: "j \<noteq> i" if "(k, m') \<in> set fs" "field_index fds k = Some j" for k m' j
      using that Cons.prems(1) field_index_nth [OF that(2)] i(2) a by force
    have "list_all2 R ?subs xs \<longleftrightarrow> list_all2 R subs xs \<and> R (m (Some (f_type (fds ! i)))) (xs ! i)"
      using i(1) assms(2,3) Cons.prems(2) Cons.prems(3) [of n m i] a Some
      by (auto simp: list_all2_conv_all_nth nth_list_update)
    moreover have "list_all2 R (fill_fields fds fs ?subs) xs \<longleftrightarrow>
      list_all2 R ?subs xs \<and> (\<forall>(n, m)\<in>set fs. \<forall>i. field_index fds n = Some i \<longrightarrow> R (m (Some (f_type (fds ! i)))) (xs ! i))"
    proof (rule Cons.IH)
      show "?subs ! j = MWild" if "(k, m') \<in> set fs" "field_index fds k = Some j" for k m' j
        using other [OF that] Cons.prems(3) [of k m' j] that by simp
    qed (use Cons.prems in auto)
    ultimately show ?thesis using a Some by auto
  qed
qed simp

lemma fill_length [simp]: "length (fill_fields fds fs subs) = length subs"
  by (induction fds fs subs rule: fill_fields.induct) (simp_all split: option.splits)

lemma tuple_subs_all: "length ms = length fds \<Longrightarrow> tuple_subs fds ms = map2 (\<lambda>f m. m (Some (f_type f))) fds ms"
  by (induction fds ms rule: tuple_subs.induct) auto

lemma type_ctors_err: "is_err (res t) \<Longrightarrow> type_ctors_list res t = None"
  by (cases "res t") (simp_all add: type_ctors_list_def is_err_def)

lemma or_free_simps [simp]:
  "or_free (PAT_SOME loc q) \<longleftrightarrow> (\<forall>p\<in>set_option q. or_free p)"
  "or_free (PAT_OK loc q) \<longleftrightarrow> (\<forall>p\<in>set_option q. or_free p)"
  "or_free (PAT_ERR loc q) \<longleftrightarrow> (\<forall>p\<in>set_option q. or_free p)"
  "or_free (PAT_VARIANT loc n q) \<longleftrightarrow> (\<forall>p\<in>set_option q. or_free p)"
  "or_free (PAT_STRUCT loc fs) \<longleftrightarrow> (\<forall>(n, p)\<in>set fs. or_free p)"
  "or_free (PAT_TUPLE loc ps) \<longleftrightarrow> (\<forall>p\<in>set ps. or_free p)"
  "\<not> or_free (PAT_OR loc ps)"
  by (auto simp: or_free_def pred_option_def list_all_iff)

lemma type_ctors_simps:
  "res t = TOption i u \<Longrightarrow> type_ctors_list res t = Some [Ctor CTOR_SOME 1, Ctor CTOR_NONE 0]"
  "res t = TResult i u \<Longrightarrow> type_ctors_list res t = Some [Ctor CTOR_OK 1, Ctor CTOR_ERR 1]"
  "res t = TPrim i TYPE_BOOL \<Longrightarrow> type_ctors_list res t = Some [Ctor CTOR_TRUE 0, Ctor CTOR_FALSE 0]"
  "res t = TStruct i s fs as \<Longrightarrow> type_ctors_list res t = Some [Ctor (CTOR_STRUCT (sc_name s)) (length fs)]"
  "res t = TEnum i e r \<Longrightarrow> type_ctors_list res t = Some (map (\<lambda>v. Ctor (CTOR_VARIANT (ev_name v)) 0) (en_variants e))"
  "res t = TUnion i w vs as \<Longrightarrow> type_ctors_list res t =
     Some (map (\<lambda>v. Ctor (CTOR_VARIANT (v_name v)) (if v_payload v = None then 0 else 1)) vs)"
  "res t = TError i \<Longrightarrow> type_ctors_list res t = None"
  by (simp_all add: type_ctors_list_def)

lemmas type_sels = option_inner_def result_inner_def struct_fields_def variant_payload_def is_err_def

lemma is_err_iff: "is_err t \<longleftrightarrow> (\<exists>i. t = TError i)"
  by (cases t) (simp_all add: is_err_def)

lemma kind_struct: "kind t = TYPE_STRUCT \<longleftrightarrow> (\<exists>i s fs as. t = TStruct i s fs as)"
  by (cases t) simp_all

lemma option_inner_Some: "option_inner t = Some u \<longleftrightarrow> (\<exists>i. t = TOption i u)"
  by (cases t) (simp_all add: option_inner_def)

lemma result_inner_Some: "result_inner t = Some u \<longleftrightarrow> (\<exists>i. t = TResult i u)"
  by (cases t) (simp_all add: result_inner_def)

text \<open>The matrix pattern fits the type, and covers what the pattern matches when no literal does.\<close>

lemma ctor_eq_refl [simp]: "ctor_eq c c" by (simp add: ctor_eq_def)

lemma fits_atom: "type_ctors_list res t = None \<Longrightarrow> fits m res t" by (cases m) simp_all

lemma fits_con:
  assumes "type_ctors_list res t = Some cs" "d \<in> set cs" "ctor_eq c d" "fits_row res subs (ctor_sub_types res d t)"
  shows "fits (MCon c subs) res t"
  using assms by auto

lemma sub_fits:
  assumes "\<And>p. p \<in> set_option q \<Longrightarrow> fits (pat_to_matpat p res (Some u)) res (res u)"
  shows "fits (sub_or_wild (Some u) (map_option (\<lambda>m. m res) (map_option pat_to_matpat q))) res (res u)"
  using assms by (cases q) (simp_all add: sub_or_wild_def)

lemma sub_ok_iff: "sub_ok (map_option pat_ok q) res u \<longleftrightarrow> (\<forall>p\<in>set_option q. pat_ok p res u)"
  by (cases q) (simp_all add: sub_ok_def)

text \<open>The subpatterns of a struct pattern, prepared for \<open>fill_fields\<close>.\<close>

abbreviation "prepared res fs \<equiv> map (map_prod id (\<lambda>m. m res)) (map (map_prod id pat_to_matpat) fs)"

lemma prepared_mem: "(n, m) \<in> set (prepared res fs) \<longleftrightarrow> (\<exists>p. (n, p) \<in> set fs \<and> m = pat_to_matpat p res)"
  by force

lemma prepared_names: "map fst (prepared res fs) = map fst fs" by (simp add: comp_def)

lemma fill_prepared:
  assumes "distinct (map fst fs)" "\<And>x. R MWild x" "length xs = length fds"
  shows "list_all2 R (fill_fields fds (prepared res fs) (replicate (length fds) MWild)) xs \<longleftrightarrow>
    (\<forall>(n, p)\<in>set fs. \<forall>i. field_index fds n = Some i \<longrightarrow> R (pat_to_matpat p res (Some (f_type (fds ! i)))) (xs ! i))"
proof -
  have "subs ! i = MWild" if "field_index fds n = Some i" "subs = replicate (length fds) MWild" for n i subs
    using field_index_nth that by simp
  then have "list_all2 R (fill_fields fds (prepared res fs) (replicate (length fds) MWild)) xs \<longleftrightarrow>
    list_all2 R (replicate (length fds) MWild) xs \<and>
    (\<forall>(n, m)\<in>set (prepared res fs). \<forall>i. field_index fds n = Some i \<longrightarrow> R (m (Some (f_type (fds ! i)))) (xs ! i))"
    using assms by (intro fill_all2) (auto simp only: prepared_names length_replicate)
  moreover have "list_all2 R (replicate (length fds) MWild) xs" using assms(2,3) by (simp add: list_all2_conv_all_nth)
  ultimately show ?thesis by (simp add: prepared_mem) (auto simp: split_paired_Ball_Sigma)
qed

lemma struct_pat_ok:
  "pat_ok (PAT_STRUCT loc fs) res t \<longleftrightarrow> is_err (res t) \<or> kind (res t) = TYPE_STRUCT \<and> distinct (map fst fs) \<and>
     (\<forall>(n, p)\<in>set fs. \<exists>i. field_index (struct_fields (res t)) n = Some i \<and> pat_ok p res (f_type (struct_fields (res t) ! i)))"
  by (auto simp: list_all_iff)

lemma to_matpat_fits:
  assumes ok: "resolver_ok res" and "or_free p" "pat_ok p res t"
  shows "fits (pat_to_matpat p res (Some t)) res (res t)"
  using assms(2-)
proof (induction p arbitrary: t)
  case (PAT_SOME loc q)
  show ?case
  proof (cases "is_err (res t)")
    case False
    then obtain i u where t: "res t = TOption i u" and q: "\<forall>p\<in>set_option q. pat_ok p res u"
      using PAT_SOME.prems by (auto simp: option_inner_Some sub_ok_iff)
    have "fits (sub_or_wild (Some u) (map_option (\<lambda>m. m res) (map_option pat_to_matpat q))) res (res u)"
      using PAT_SOME q by (intro sub_fits) auto
    then show ?thesis
      using t res_idem [OF ok, of t]
      by (auto intro!: fits_con simp: type_ctors_simps ctor_sub_types_def option_inner_def)
  qed (use res_idem [OF ok, of t] in \<open>auto simp: is_err_iff type_ctors_simps\<close>)
next
  case (PAT_OK loc q)
  show ?case
  proof (cases "is_err (res t)")
    case False
    then obtain i u where t: "res t = TResult i u" and q: "\<forall>p\<in>set_option q. pat_ok p res u"
      using PAT_OK.prems by (auto simp: result_inner_Some sub_ok_iff)
    have "fits (sub_or_wild (Some u) (map_option (\<lambda>m. m res) (map_option pat_to_matpat q))) res (res u)"
      using PAT_OK q by (intro sub_fits) auto
    then show ?thesis
      using t res_idem [OF ok, of t]
      by (auto intro!: fits_con simp: type_ctors_simps ctor_sub_types_def result_inner_def)
  qed (use res_idem [OF ok, of t] in \<open>auto simp: is_err_iff type_ctors_simps\<close>)
next
  case (PAT_ERR loc q)
  have "fits m res type_int32" for m
    using res_int32 [OF ok] by (intro fits_atom) (simp add: type_ctors_None taken_apart_def type_int32_def)
  then show ?case
    using PAT_ERR.prems res_idem [OF ok, of t]
    by (auto simp: is_err_iff type_ctors_simps ctor_sub_types_def)
next
  case (PAT_VARIANT loc n q)
  have T: "res (res t) = res t" using ok by (rule res_idem)
  consider i where "res t = TError i" | i e r where "res t = TEnum i e r" "q = None" "\<exists>v\<in>set (en_variants e). ev_name v = n"
    | i u vs as v where "res t = TUnion i u vs as" "find_variant vs n = Some v"
        "rel_option (\<lambda>f u. f res u) (map_option pat_ok q) (v_payload v)"
    using PAT_VARIANT.prems(2) unfolding pat_ok.simps is_err_iff by blast
  then show ?case
  proof cases
    case 3
    note v = find_variant_Some [OF 3(2)]
    show ?thesis
    proof (cases q)
      case None
      then have "v_payload v = None" using 3(3) by simp
      then show ?thesis
        using 3 v T None by (auto simp: type_ctors_simps ctor_sub_types_def variant_payload_def intro!: bexI [of _ v])
    next
      case (Some p)
      then obtain u where u: "v_payload v = Some u" "pat_ok p res u" using 3(3) by (auto simp: option_rel_Some1)
      then have "fits (pat_to_matpat p res (Some u)) res (res u)" using PAT_VARIANT Some by auto
      then show ?thesis
        using 3 v T Some u by (auto simp: type_ctors_simps ctor_sub_types_def variant_payload_def intro!: bexI [of _ v])
    qed
  next
    case 1
    then show ?thesis using T by (intro fits_atom) (simp add: type_ctors_simps)
  next
    case 2
    then obtain x where "x \<in> set (en_variants e)" "ev_name x = n" by blast
    then show ?thesis
      using 2 T by (auto simp: type_ctors_simps ctor_sub_types_def variant_payload_def intro!: bexI [of _ x])
  qed
next
  case (PAT_STRUCT loc fs)
  show ?case
  proof (cases "is_err (res t)")
    case False
    then obtain i s fds as where t: "res t = TStruct i s fds as" and d: "distinct (map fst fs)"
      and f: "\<forall>(n, p)\<in>set fs. \<exists>i. field_index fds n = Some i \<and> pat_ok p res (f_type (fds ! i))"
      using PAT_STRUCT.prems(2) unfolding struct_pat_ok by (auto simp: kind_struct struct_fields_def)
    have "fits_row res (fill_fields fds (prepared res fs) (replicate (length fds) MWild)) (map (\<lambda>f. res (f_type f)) fds)"
      using f PAT_STRUCT.IH PAT_STRUCT.prems(1) field_index_nth by (subst fill_prepared [OF d]) fastforce+
    then show ?thesis
      using t res_idem [OF ok, of t]
      by (auto simp: type_ctors_simps ctor_sub_types_def struct_fields_def fields_of_def Let_def ctor_eq_def kind_eq_def)
  qed (use res_idem [OF ok, of t] in \<open>auto simp: is_err_iff type_ctors_simps Let_def\<close>)
next
  case (PAT_TUPLE loc ps)
  show ?case
  proof (cases "is_err (res t)")
    case False
    then obtain i s fds as where t: "res t = TStruct i s fds as" and f: "list_all2 (\<lambda>p fd. pat_ok p res (f_type fd)) ps fds"
      using PAT_TUPLE.prems(2) by (auto simp: kind_struct struct_fields_def list_all2_map1 list_all2_map2)
    have "fits_row res (map2 (\<lambda>f m. m (Some (f_type f))) fds (map (\<lambda>m. m res) (map pat_to_matpat ps))) (map (\<lambda>f. res (f_type f)) fds)"
      using f PAT_TUPLE.IH PAT_TUPLE.prems(1) by (auto simp: list_all2_conv_all_nth)
    then show ?thesis
      using t res_idem [OF ok, of t] list_all2_lengthD [OF f]
      by (auto intro!: fits_con simp del: fits.simps
          simp: type_ctors_simps ctor_sub_types_def struct_fields_def fields_of_def Let_def ctor_eq_def kind_eq_def tuple_subs_all)
  qed (use res_idem [OF ok, of t] in \<open>auto simp: is_err_iff type_ctors_simps Let_def\<close>)
next
  case (PAT_BOOL_LIT loc b)
  then show ?case using res_idem [OF ok, of t] by (auto simp: is_err_iff type_ctors_simps ctor_sub_types_def)
next
  case (PAT_NONE loc)
  then show ?case using res_idem [OF ok, of t] by (auto simp: is_err_iff type_ctors_simps ctor_sub_types_def)
qed (auto simp: type_ctors_None [THEN iffD2] res_idem [OF ok])

text \<open>The values of each type.\<close>

lemma value_option:
  "res t = TOption i u \<Longrightarrow> value_of v res t \<longleftrightarrow> v = V_none \<or> (\<exists>w. v = V_some w \<and> value_of w res u)"
  by (cases v) (simp_all add: taken_apart_def option_inner_def result_inner_def)

lemma value_result:
  "res t = TResult i u \<Longrightarrow> value_of v res t \<longleftrightarrow>
     (\<exists>w. v = V_ok w \<and> value_of w res u) \<or> (\<exists>w. v = V_err w \<and> value_of w res type_int32)"
  by (cases v) (simp_all add: taken_apart_def option_inner_def result_inner_def)

lemma value_bool: "res t = TPrim i TYPE_BOOL \<Longrightarrow> value_of v res t \<longleftrightarrow> (\<exists>b. v = V_bool b)"
  by (cases v) (simp_all add: taken_apart_def option_inner_def result_inner_def)

lemma value_enum:
  "res t = TEnum i e r \<Longrightarrow> value_of v res t \<longleftrightarrow> (\<exists>x\<in>set (en_variants e). v = V_variant (ev_name x) None)"
  by (cases v) (auto simp: taken_apart_def option_inner_def result_inner_def)

lemma value_union:
  "res t = TUnion i u vs as \<Longrightarrow> value_of v res t \<longleftrightarrow>
     (\<exists>x w. x \<in> set vs \<and> v = V_variant (v_name x) w \<and> rel_option (\<lambda>f u. f res u) (map_option value_of w) (v_payload x))"
  by (cases v) (auto simp: taken_apart_def option_inner_def result_inner_def)

lemma value_struct:
  "res t = TStruct i s fds as \<Longrightarrow> value_of v res t \<longleftrightarrow>
     (\<exists>ws. v = V_struct ws \<and> list_all2 (\<lambda>w f. value_of w res (f_type f)) ws fds)"
  by (cases v) (auto simp: taken_apart_def option_inner_def result_inner_def list_all2_map1 list_all2_map2)

lemma value_atom: "\<not> taken_apart (res t) \<Longrightarrow> value_of v res t \<longleftrightarrow> view v = None"
  using value_view_None [of v res t] by (cases v) (auto simp: type_ctors_None)

lemma sub_covers:
  assumes "\<And>p. p \<in> set_option q \<Longrightarrow> pmatch p no_lit res u w \<longleftrightarrow> covers (pat_to_matpat p res (Some u)) w"
  shows "sub_matches (map_option pmatch q) no_lit res (Some u) w \<longleftrightarrow>
    covers (sub_or_wild (Some u) (map_option (\<lambda>m. m res) (map_option pat_to_matpat q))) w"
  using assms by (cases q) (simp_all add: sub_or_wild_def sub_matches_def)

lemma struct_pmatch:
  "pmatch (PAT_STRUCT loc fs) lit res t (V_struct ws) \<longleftrightarrow>
     (\<forall>(n, p)\<in>set fs. \<exists>i. field_index (struct_fields (res t)) n = Some i \<and> i < length ws \<and>
        pmatch p lit res (f_type (struct_fields (res t) ! i)) (ws ! i))"
  by (auto simp: list_all_iff field_matches_def split: option.splits)

lemma tuple_pmatch:
  "pmatch (PAT_TUPLE loc ps) lit res t (V_struct ws) \<longleftrightarrow>
     length ps = length ws \<and> length ws = length (struct_fields (res t)) \<and>
     (\<forall>i<length ps. pmatch (ps ! i) lit res (f_type (struct_fields (res t) ! i)) (ws ! i))"
  by (auto simp: list_all2_conv_all_nth)

declare pmatch.simps(14,15) [simp del]

lemma to_matpat_covers:
  fixes v :: "'a fcval"
  assumes ok: "resolver_ok res" and "or_free p" "pat_ok p res t" "value_of v res t"
  shows "pmatch p no_lit res t v \<longleftrightarrow> covers (pat_to_matpat p res (Some t)) v"
  using assms(2-)
proof (induction p arbitrary: t v)
  case (PAT_SOME loc q)
  show ?case
  proof (cases "is_err (res t)")
    case True
    then have "view v = None" using PAT_SOME.prems(3) by (auto simp: value_atom is_err_iff taken_apart_def)
    then show ?thesis using PAT_SOME.prems(1) covers_scalar pmatch_scalar by blast
  next
    case False
    then obtain i u where t: "res t = TOption i u" and q: "\<forall>p\<in>set_option q. pat_ok p res u"
      using PAT_SOME.prems by (auto simp: option_inner_Some sub_ok_iff)
    have "sub_matches (map_option pmatch q) no_lit res (Some u) w \<longleftrightarrow>
      covers (sub_or_wild (Some u) (map_option (\<lambda>m. m res) (map_option pat_to_matpat q))) w" if "value_of w res u" for w :: "'a fcval"
      by (intro sub_covers PAT_SOME.IH) (use PAT_SOME.prems(1) q that in auto)
    then show ?thesis
      using PAT_SOME.prems(3) unfolding value_option [of res t, OF t] by (auto simp: t option_inner_def kind_eq_def)
  qed
next
  case (PAT_OK loc q)
  show ?case
  proof (cases "is_err (res t)")
    case True
    then have "view v = None" using PAT_OK.prems(3) by (auto simp: value_atom is_err_iff taken_apart_def)
    then show ?thesis using PAT_OK.prems(1) covers_scalar pmatch_scalar by blast
  next
    case False
    then obtain i u where t: "res t = TResult i u" and q: "\<forall>p\<in>set_option q. pat_ok p res u"
      using PAT_OK.prems by (auto simp: result_inner_Some sub_ok_iff)
    have "sub_matches (map_option pmatch q) no_lit res (Some u) w \<longleftrightarrow>
      covers (sub_or_wild (Some u) (map_option (\<lambda>m. m res) (map_option pat_to_matpat q))) w" if "value_of w res u" for w :: "'a fcval"
      by (intro sub_covers PAT_OK.IH) (use PAT_OK.prems(1) q that in auto)
    then show ?thesis
      using PAT_OK.prems(3) unfolding value_result [of res t, OF t] by (auto simp: t result_inner_def kind_eq_def)
  qed
next
  case (PAT_ERR loc q)
  show ?case
  proof (cases "is_err (res t)")
    case True
    then have "view v = None" using PAT_ERR.prems(3) by (auto simp: value_atom is_err_iff taken_apart_def)
    then show ?thesis using PAT_ERR.prems(1) covers_scalar pmatch_scalar by blast
  next
    case False
    then obtain i u where t: "res t = TResult i u" and q: "\<forall>p\<in>set_option q. pat_ok p res type_error_code"
      using PAT_ERR.prems by (auto simp: sub_ok_iff)
    have same: "value_of w res type_error_code" if "value_of w res type_int32" for w :: "'a fcval"
      using that res_int32 [OF ok] res_error_code [OF ok]
      by (simp add: value_atom taken_apart_def type_int32_def type_error_code_def)
    have "sub_matches (map_option pmatch q) no_lit res (Some type_error_code) w \<longleftrightarrow>
      covers (sub_or_wild (Some type_error_code) (map_option (\<lambda>m. m res) (map_option pat_to_matpat q))) w"
      if "value_of w res type_int32" for w :: "'a fcval"
      by (intro sub_covers PAT_ERR.IH) (use PAT_ERR.prems(1) q same [OF that] in auto)
    then show ?thesis
      using PAT_ERR.prems(3) unfolding value_result [of res t, OF t] by (auto simp: t kind_eq_def)
  qed
next
  case (PAT_VARIANT loc n q)
  consider i where "res t = TError i" | i e r where "res t = TEnum i e r" "q = None"
    | i u vs as x where "res t = TUnion i u vs as" "find_variant vs n = Some x"
        "rel_option (\<lambda>f u. f res u) (map_option pat_ok q) (v_payload x)"
    using PAT_VARIANT.prems(2) unfolding pat_ok.simps is_err_iff by blast
  then show ?case
  proof cases
    case 1
    then have "view v = None" using PAT_VARIANT.prems(3) by (auto simp: value_atom taken_apart_def)
    then show ?thesis using PAT_VARIANT.prems(1) covers_scalar pmatch_scalar by blast
  next
    case 2
    then show ?thesis using PAT_VARIANT.prems(3) unfolding value_enum [of res t, OF 2(1)] by (auto simp: kind_eq_def)
  next
    case 3
    then obtain y w where y: "y \<in> set vs" "v = V_variant (v_name y) w"
      "rel_option (\<lambda>f u. f res u) (map_option value_of w) (v_payload y)"
      using PAT_VARIANT.prems(3) unfolding value_union [of res t, OF 3(1)] by auto
    have d: "distinct (map v_name vs)" using 3(1) ok res_union by metis
    show ?thesis
    proof (cases "v_name y = n")
      case False
      then show ?thesis using y(2) by (cases q) (auto simp: kind_eq_def)
    next
      case True
      then have x: "y = x" using find_variant_mem [OF d y(1)] 3(2) by simp
      show ?thesis
      proof (cases q)
        case None
        then show ?thesis using 3(3) y(3) x True y(2) by (cases w) (auto simp: kind_eq_def)
      next
        case (Some p)
        then obtain u where u: "v_payload x = Some u" "pat_ok p res u" using 3(3) by (auto simp: option_rel_Some1)
        then obtain w' where w: "w = Some w'" "value_of w' res u" using y(3) x by (auto simp: option_rel_Some2)
        have "pmatch p no_lit res u w' \<longleftrightarrow> covers (pat_to_matpat p res (Some u)) w'"
          using PAT_VARIANT Some u(2) w(2) by auto
        then show ?thesis
          using y(2) True w(1) 3(1,2) u(1) Some x
          by (auto simp: kind_eq_def sub_matches_def variant_payload_def)
      qed
    qed
  qed
next
  case (PAT_STRUCT loc fs)
  show ?case
  proof (cases "is_err (res t)")
    case True
    then have "view v = None" using PAT_STRUCT.prems(3) by (auto simp: value_atom is_err_iff taken_apart_def)
    then show ?thesis using PAT_STRUCT.prems(1) covers_scalar pmatch_scalar by blast
  next
    case False
    then obtain i s fds as where t: "res t = TStruct i s fds as" and d: "distinct (map fst fs)"
      and f: "\<forall>(n, p)\<in>set fs. \<exists>i. field_index fds n = Some i \<and> pat_ok p res (f_type (fds ! i))"
      using PAT_STRUCT.prems(2) unfolding struct_pat_ok by (auto simp: kind_struct struct_fields_def)
    obtain ws where ws: "v = V_struct ws" "list_all2 (\<lambda>w f. value_of w res (f_type f)) ws fds"
      using PAT_STRUCT.prems(3) unfolding value_struct [of res t, OF t] by blast
    have len: "length ws = length fds" using ws(2) by (rule list_all2_lengthD)
    have one: "pmatch p no_lit res (f_type (fds ! i)) (ws ! i) \<longleftrightarrow> covers (pat_to_matpat p res (Some (f_type (fds ! i)))) (ws ! i)"
      if "(n, p) \<in> set fs" "field_index fds n = Some i" for n p i
    proof (rule PAT_STRUCT.IH [OF that(1)])
      show "p \<in> Basic_BNFs.snds (n, p)" by simp
      show "or_free p" using PAT_STRUCT.prems(1) that(1) by auto
      show "pat_ok p res (f_type (fds ! i))" using f that by fastforce
      show "value_of (ws ! i) res (f_type (fds ! i))"
        using ws(2) field_index_nth [OF that(2)] by (simp add: list_all2_conv_all_nth)
    qed
    have "covers_row (fill_fields fds (prepared res fs) (replicate (length fds) MWild)) ws \<longleftrightarrow>
      (\<forall>(n, p)\<in>set fs. \<forall>i. field_index fds n = Some i \<longrightarrow> covers (pat_to_matpat p res (Some (f_type (fds ! i)))) (ws ! i))"
      using len by (intro fill_prepared [OF d]) auto
    also have "\<dots> \<longleftrightarrow> pmatch (PAT_STRUCT loc fs) no_lit res t (V_struct ws)"
      using f one field_index_nth len unfolding struct_pmatch by (fastforce simp: t struct_fields_def)
    finally show ?thesis
      using ws(1) t by (simp add: fields_of_def struct_fields_def Let_def kind_eq_def)
  qed
next
  case (PAT_TUPLE loc ps)
  show ?case
  proof (cases "is_err (res t)")
    case True
    then have "view v = None" using PAT_TUPLE.prems(3) by (auto simp: value_atom is_err_iff taken_apart_def)
    then show ?thesis using PAT_TUPLE.prems(1) covers_scalar pmatch_scalar by blast
  next
    case False
    then obtain i s fds as where t: "res t = TStruct i s fds as" and f: "list_all2 (\<lambda>p fd. pat_ok p res (f_type fd)) ps fds"
      using PAT_TUPLE.prems(2) by (auto simp: kind_struct struct_fields_def list_all2_map1 list_all2_map2)
    obtain ws where ws: "v = V_struct ws" "list_all2 (\<lambda>w f. value_of w res (f_type f)) ws fds"
      using PAT_TUPLE.prems(3) unfolding value_struct [of res t, OF t] by blast
    have "pmatch (ps ! i) no_lit res (f_type (fds ! i)) (ws ! i) \<longleftrightarrow>
        covers (pat_to_matpat (ps ! i) res (Some (f_type (fds ! i)))) (ws ! i)" if "i < length ps" for i
      using PAT_TUPLE.IH [of "ps ! i"] PAT_TUPLE.prems(1) f ws(2) that by (auto simp: list_all2_conv_all_nth)
    then show ?thesis
      using ws t f unfolding ws(1) tuple_pmatch
      by (auto simp: fields_of_def struct_fields_def Let_def kind_eq_def tuple_subs_all list_all2_conv_all_nth)
  qed
next
  case (PAT_BOOL_LIT loc b)
  then show ?case
    using value_atom [of res t v] by (cases v) (auto simp: is_err_iff value_bool kind_eq_def taken_apart_def)
next
  case (PAT_NONE loc)
  then show ?case
    using value_atom [of res t v] by (cases v) (auto simp: is_err_iff value_option kind_eq_def taken_apart_def)
qed (auto simp: value_atom covers_scalar is_lit_def split: fcval.splits)

end
