(* ===== verification/FC_Flatten.thy ===== *)
theory FC_Flatten
  imports FC_Coverage
begin

subsection \<open>Flattening\<close>

lemma pat_ok_err: "is_err (res t) \<Longrightarrow> pat_ok p res t"
  by (cases p) (auto simp: is_err_iff taken_apart_def)

text \<open>A pattern and its flattened patterns: they match the same values and keep its shape.\<close>

definition flat :: "'a literal \<Rightarrow> pattern \<Rightarrow> pattern list \<Rightarrow> bool" where
  "flat lit p ps \<longleftrightarrow> ps \<noteq> [] \<and> (\<forall>q\<in>set ps. or_free q) \<and>
     (\<forall>res t. pat_ok p res t \<longrightarrow> (\<forall>q\<in>set ps. pat_ok q res t)) \<and>
     (\<forall>res t v. pmatch p lit res t v \<longleftrightarrow> (\<exists>q\<in>set ps. pmatch q lit res t v))"

lemma flatI:
  assumes "ps \<noteq> []" "\<And>q. q \<in> set ps \<Longrightarrow> or_free q"
    "\<And>res t q. pat_ok p res t \<Longrightarrow> q \<in> set ps \<Longrightarrow> pat_ok q res t"
    "\<And>res t v. pmatch p lit res t v \<longleftrightarrow> (\<exists>q\<in>set ps. pmatch q lit res t v)"
  shows "flat lit p ps"
  using assms unfolding flat_def by blast

lemma flatD:
  assumes "flat lit p ps"
  shows "ps \<noteq> []" "q \<in> set ps \<Longrightarrow> or_free q" "pat_ok p res t \<Longrightarrow> q \<in> set ps \<Longrightarrow> pat_ok q res t"
    "pmatch p lit res t v \<longleftrightarrow> (\<exists>q\<in>set ps. pmatch q lit res t v)"
  using assms unfolding flat_def by blast+

lemma flat_leaf: "or_free p \<Longrightarrow> flat lit p [p]" by (simp add: flat_def)

lemma flat_alts:
  assumes "flatten_alts tmp fs = Inr ps" "list_all2 (\<lambda>p f. \<forall>qs. f = Inr qs \<longrightarrow> flat lit p qs) alts fs"
  shows "\<exists>qss. ps = tmp @ concat qss \<and> list_all2 (flat lit) alts qss"
  using assms
proof (induction tmp fs arbitrary: alts rule: flatten_alts.induct)
  case (1 tmp)
  then show ?case by auto
next
  case (2 tmp f fs)
  then obtain p ps' sub where a: "alts = p # ps'" "f = Inr sub" "flat lit p sub" "flatten_alts (tmp @ sub) fs = Inr ps"
    "list_all2 (\<lambda>p f. \<forall>qs. f = Inr qs \<longrightarrow> flat lit p qs) ps' fs"
    by (cases alts) (auto simp: bindE_Inr_iff split: if_splits)
  have "\<not> MAX_OR_EXPANSION < length tmp + length sub" using "2.prems"(1) a(2) by (auto simp: bindE_Inr_iff split: if_splits)
  then obtain qss where "ps = (tmp @ sub) @ concat qss" "list_all2 (flat lit) ps' qss"
    using "2.IH" [OF a(2) _ a(4,5)] by blast
  then show ?case using a by (intro exI [of _ "sub # qss"]) simp
qed

lemma flat_or:
  assumes "list_all2 (flat lit) alts qss" "alts \<noteq> []"
  shows "flat lit (PAT_OR loc alts) (concat qss)"
proof (rule flatI)
  have nth: "flat lit (alts ! i) (qss ! i)" if "i < length alts" for i
    using assms(1) that by (simp add: list_all2_conv_all_nth)
  have len: "length qss = length alts" using assms(1) by (simp add: list_all2_lengthD)
  show "concat qss \<noteq> []" using nth [of 0] len assms(2) flatD(1) by (cases qss) auto
  have mem: "q \<in> set (concat qss) \<longleftrightarrow> (\<exists>i<length alts. q \<in> set (qss ! i))" for q
    unfolding set_concat set_conv_nth [of qss] len [symmetric] by auto
  show "or_free q" if "q \<in> set (concat qss)" for q using that mem nth flatD(2) by blast
  show "pat_ok q res t" if p: "pat_ok (PAT_OR loc alts) res t" "q \<in> set (concat qss)" for res t q
  proof -
    obtain i where i: "i < length alts" "q \<in> set (qss ! i)" using p(2) mem by blast
    show ?thesis
    proof (cases "is_err (res t)")
      case False
      then have "pat_ok (alts ! i) res t" using p(1) i(1) by (simp add: list_all_length)
      then show ?thesis using flatD(3) [OF nth [OF i(1)]] i(2) by blast
    qed (rule pat_ok_err)
  qed
  show "pmatch (PAT_OR loc alts) lit res t v \<longleftrightarrow> (\<exists>q\<in>set (concat qss). pmatch q lit res t v)" for res t v
  proof -
    have "pmatch (PAT_OR loc alts) lit res t v \<longleftrightarrow> (\<exists>i<length alts. pmatch (alts ! i) lit res t v)"
      by (auto simp: list_ex_length)
    then show ?thesis using flatD(4) [OF nth] mem by blast
  qed
qed

lemma choose_nth:
  "(\<forall>i<length alts. \<exists>q\<in>set (alts ! i). P i q) \<longleftrightarrow> (\<exists>qs\<in>set (product_lists alts). \<forall>i<length alts. P i (qs ! i))"
proof
  assume "\<forall>i<length alts. \<exists>q\<in>set (alts ! i). P i q"
  then obtain f where f: "\<And>i. i < length alts \<Longrightarrow> f i \<in> set (alts ! i) \<and> P i (f i)" by metis
  then have "map f [0..<length alts] \<in> set (product_lists alts)"
    by (simp add: product_lists_iff list_all2_conv_all_nth)
  then show "\<exists>qs\<in>set (product_lists alts). \<forall>i<length alts. P i (qs ! i)"
    using f by (intro bexI [of _ "map f [0..<length alts]"]) auto
qed (auto simp: product_lists_iff list_all2_conv_all_nth)

lemma flat_sub:
  assumes "\<And>q. q \<in> set inners \<Longrightarrow> or_free q \<Longrightarrow> or_free (build (Some q))"
    and "\<And>res t q. pat_ok (build (Some p)) res t \<Longrightarrow> q \<in> set inners \<Longrightarrow> pat_ok (build (Some q)) res t"
    and "\<And>res t v. pmatch (build (Some p)) lit res t v \<longleftrightarrow> (\<exists>q\<in>set inners. pmatch (build (Some q)) lit res t v)"
    and "flat lit p inners"
  shows "flat lit (build (Some p)) (map (\<lambda>q. build (Some q)) inners)"
  using assms flatD(1,2) [OF assms(4)] by (intro flatI) auto

lemma flat_some:
  assumes "flat lit p inners" and b: "build \<in> {PAT_SOME loc, PAT_OK loc, PAT_ERR loc, PAT_VARIANT loc n}"
  shows "flat lit (build (Some p)) (map (\<lambda>q. build (Some q)) inners)"
proof (rule flat_sub [OF _ _ _ assms(1)])
  note d = flatD(3,4) [OF assms(1)]
  show "or_free (build (Some q))" if "or_free q" for q using b that by auto
  show "pat_ok (build (Some q)) res t" if "pat_ok (build (Some p)) res t" "q \<in> set inners" for res t q
    using b that d(1) [OF _ that(2)] by (auto simp: sub_ok_def option_rel_Some1)
  show "pmatch (build (Some p)) lit res t v \<longleftrightarrow> (\<exists>q\<in>set inners. pmatch (build (Some q)) lit res t v)" for res t v
    using b flatD(1) [OF assms(1)] by (auto simp: sub_matches_def d(2) split: fcval.splits option.splits)
qed

text \<open>The subpatterns of a tuple or struct, all flat, and what \<open>flatten_product\<close> makes of them.\<close>

lemma flat_product:
  assumes "flatten_product (zip ps (map flatten_or_pattern ps)) = Inr combos"
    and "\<And>p qs. p \<in> set ps \<Longrightarrow> flatten_or_pattern p = Inr qs \<Longrightarrow> flat lit p qs"
  obtains alts where "list_all2 (flat lit) ps alts"
    "if alts = map (\<lambda>p. [p]) ps then combos = [] else combos = product_lists alts \<and> combos \<noteq> []"
proof -
  obtain alts where a: "map flatten_or_pattern ps = map Inr alts"
    and c: "if alts = map (\<lambda>p. [p]) ps then combos = [] else combos = product_lists alts \<and> combos \<noteq> []"
  proof -
    have "a \<noteq> []" if f: "f \<in> set (map flatten_or_pattern ps)" "f = Inr a" for f a
    proof -
      obtain p where "p \<in> set ps" "flatten_or_pattern p = Inr a" using f by auto
      from flatD(1) [OF assms(2) [OF this]] show ?thesis .
    qed
    then show ?thesis using flatten_product_Inr [OF assms(1)] that by auto
  qed
  have len: "length alts = length ps" using a by (metis length_map)
  have "flat lit (ps ! i) (alts ! i)" if "i < length ps" for i
    using a that len assms(2) [of "ps ! i" "alts ! i"] by (metis nth_map nth_mem)
  then have "list_all2 (flat lit) ps alts" using len by (simp add: list_all2_conv_all_nth)
  with c show ?thesis using that by blast
qed

lemma flat_tuple:
  assumes flatten: "flatten_or_pattern (PAT_TUPLE loc ps) = Inr rs"
    and sub: "\<And>p qs. p \<in> set ps \<Longrightarrow> flatten_or_pattern p = Inr qs \<Longrightarrow> flat lit p qs"
  shows "flat lit (PAT_TUPLE loc ps) rs"
proof -
  obtain combos where f: "flatten_product (zip ps (map flatten_or_pattern ps)) = Inr combos"
    and rs: "rs = (if combos = [] then [PAT_TUPLE loc ps] else map (PAT_TUPLE loc) combos)"
    using flatten by (auto simp: bindE_Inr_iff split: if_splits)
  obtain alts where a: "list_all2 (flat lit) ps alts"
    and c: "if alts = map (\<lambda>p. [p]) ps then combos = [] else combos = product_lists alts \<and> combos \<noteq> []"
    using flat_product [OF f sub] by blast
  have len: "length alts = length ps" using a by (simp add: list_all2_lengthD)
  have nth: "flat lit (ps ! i) (alts ! i)" if "i < length ps" for i using a that by (simp add: list_all2_conv_all_nth)
  show ?thesis
  proof (cases "alts = map (\<lambda>p. [p]) ps")
    case True
    then have "or_free p" if "p \<in> set ps" for p
      using nth that flatD(2) by (fastforce simp: in_set_conv_nth)
    then show ?thesis using True c rs by (simp add: flat_leaf)
  next
    case False
    then have rs: "rs = map (PAT_TUPLE loc) (product_lists alts)" "product_lists alts \<noteq> []" using c rs by auto
    show ?thesis unfolding rs
    proof (rule flatI)
      fix q assume "q \<in> set (map (PAT_TUPLE loc) (product_lists alts))"
      then obtain qs where q: "q = PAT_TUPLE loc qs" "list_all2 (\<lambda>q a. q \<in> set a) qs alts"
        by (auto simp: product_lists_iff)
      have l: "length qs = length ps" using q(2) len by (simp add: list_all2_lengthD)
      have mem: "qs ! i \<in> set (alts ! i)" if "i < length ps" for i
        using q(2) that l by (simp add: list_all2_conv_all_nth)
      show "or_free q" using q(1) l mem nth flatD(2) by (fastforce simp: in_set_conv_nth)
      show "pat_ok q res t" if "pat_ok (PAT_TUPLE loc ps) res t" for res t
        using that q(1) l mem nth flatD(3) by (fastforce simp: list_all2_conv_all_nth)
    next
      show "pmatch (PAT_TUPLE loc ps) lit res t v \<longleftrightarrow>
        (\<exists>q\<in>set (map (PAT_TUPLE loc) (product_lists alts)). pmatch q lit res t v)" for res t v
      proof (cases v)
        case (V_struct ws)
        let ?P = "\<lambda>i q. pmatch q lit res (f_type (struct_fields (res t) ! i)) (ws ! i)"
        let ?same = "length ps = length ws \<and> length ws = length (struct_fields (res t))"
        have mk: "pmatch (PAT_TUPLE loc qs) lit res t v \<longleftrightarrow> ?same \<and> (\<forall>i<length alts. ?P i (qs ! i))"
          if "qs \<in> set (product_lists alts)" for qs
        proof -
          have "length qs = length ps" using that len by (auto simp: product_lists_iff dest: list_all2_lengthD)
          then show ?thesis using len unfolding V_struct tuple_pmatch by auto
        qed
        have "(\<forall>i<length ps. ?P i (ps ! i)) \<longleftrightarrow> (\<forall>i<length alts. \<exists>q\<in>set (alts ! i). ?P i q)"
          using flatD(4) [OF nth] len by simp
        also have "\<dots> \<longleftrightarrow> (\<exists>qs\<in>set (product_lists alts). \<forall>i<length alts. ?P i (qs ! i))" by (rule choose_nth)
        finally have "pmatch (PAT_TUPLE loc ps) lit res t v \<longleftrightarrow>
            ?same \<and> (\<exists>qs\<in>set (product_lists alts). \<forall>i<length alts. ?P i (qs ! i))"
          unfolding V_struct tuple_pmatch by auto
        then show ?thesis using mk by auto
      qed (use rs(2) in \<open>auto simp: pmatch.simps\<close>)
    qed (use rs(2) in auto)
  qed
qed

lemma zip_names_mem: "length qs = length fs \<Longrightarrow> (n, q) \<in> set (zip (map fst fs) qs) \<longleftrightarrow>
    (\<exists>i<length fs. n = fst (fs ! i) \<and> q = qs ! i)"
  by (auto simp: set_zip) (metis nth_map)+

lemma zip_names_ball: "length qs = length fs \<Longrightarrow> (\<forall>(n, q)\<in>set (zip (map fst fs) qs). Q n q) \<longleftrightarrow>
    (\<forall>i<length fs. Q (fst (fs ! i)) (qs ! i))"
  unfolding Ball_def split_paired_All prod.case zip_names_mem by blast

lemma flat_struct:
  assumes flatten: "flatten_or_pattern (PAT_STRUCT loc fs) = Inr rs"
    and sub: "\<And>p qs. p \<in> snd ` set fs \<Longrightarrow> flatten_or_pattern p = Inr qs \<Longrightarrow> flat lit p qs"
  shows "flat lit (PAT_STRUCT loc fs) rs"
proof -
  obtain combos where "flatten_product (zip (map snd fs) (map flatten_or_pattern (map snd fs))) = Inr combos"
    and rs: "rs = (if combos = [] then [PAT_STRUCT loc fs] else map (\<lambda>qs. PAT_STRUCT loc (zip (map fst fs) qs)) combos)"
    using flatten by (auto simp: bindE_Inr_iff comp_def split: if_splits)
  then obtain alts where a: "list_all2 (flat lit) (map snd fs) alts"
    and c: "if alts = map (\<lambda>p. [p]) (map snd fs) then combos = [] else combos = product_lists alts \<and> combos \<noteq> []"
    using flat_product [of "map snd fs" combos lit] sub by auto
  have len: "length alts = length fs" using list_all2_lengthD [OF a] by simp
  have nth: "flat lit (snd (fs ! i)) (alts ! i)" if "i < length fs" for i
    using a that by (simp add: list_all2_conv_all_nth)
  show ?thesis
  proof (cases "alts = map (\<lambda>p. [p]) (map snd fs)")
    case True
    then have "or_free (snd f)" if "f \<in> set fs" for f
      using nth that flatD(2) by (fastforce simp: in_set_conv_nth)
    then have "or_free (PAT_STRUCT loc fs)" by auto
    then show ?thesis using True c rs by (simp add: flat_leaf)
  next
    case False
    let ?mk = "\<lambda>qs. PAT_STRUCT loc (zip (map fst fs) qs)"
    have rs: "rs = map ?mk (product_lists alts)" "product_lists alts \<noteq> []" using c rs False by auto
    show ?thesis unfolding rs
    proof (rule flatI)
      fix q assume "q \<in> set (map ?mk (product_lists alts))"
      then obtain qs where q: "q = ?mk qs" "list_all2 (\<lambda>q a. q \<in> set a) qs alts" by (auto simp: product_lists_iff)
      have l: "length qs = length fs" using q(2) len by (simp add: list_all2_lengthD)
      have mem: "qs ! i \<in> set (alts ! i)" if "i < length fs" for i
        using q(2) that l by (simp add: list_all2_conv_all_nth)
      show "or_free q" using q(1) l mem nth flatD(2) by (fastforce simp: zip_names_mem)
      show "pat_ok q res t" if p: "pat_ok (PAT_STRUCT loc fs) res t" for res t
      proof (cases "is_err (res t)")
        case False
        have "\<exists>j. field_index (struct_fields (res t)) (fst (fs ! i)) = Some j \<and>
            pat_ok (qs ! i) res (f_type (struct_fields (res t) ! j))" if "i < length fs" for i
          using p False that flatD(3) [OF nth [OF that] _ mem [OF that]] nth_mem [OF that]
          unfolding struct_pat_ok by fastforce
        then show ?thesis using p False l unfolding q(1) struct_pat_ok by (simp add: zip_names_ball)
      qed (rule pat_ok_err)
    next
      show "pmatch (PAT_STRUCT loc fs) lit res t v \<longleftrightarrow> (\<exists>q\<in>set (map ?mk (product_lists alts)). pmatch q lit res t v)"
        for res t v
      proof (cases v)
        case (V_struct ws)
        let ?P = "\<lambda>i q. \<exists>j. field_index (struct_fields (res t)) (fst (fs ! i)) = Some j \<and> j < length ws \<and>
            pmatch q lit res (f_type (struct_fields (res t) ! j)) (ws ! j)"
        have mk: "pmatch (?mk qs) lit res t v \<longleftrightarrow> (\<forall>i<length alts. ?P i (qs ! i))" if "qs \<in> set (product_lists alts)" for qs
        proof -
          have "length qs = length fs" using that len by (auto simp: product_lists_iff dest: list_all2_lengthD)
          then show ?thesis using len unfolding V_struct struct_pmatch by (simp add: zip_names_ball)
        qed
        have "pmatch (PAT_STRUCT loc fs) lit res t v \<longleftrightarrow> (\<forall>i<length fs. ?P i (snd (fs ! i)))"
          unfolding V_struct struct_pmatch by (fastforce simp: in_set_conv_nth)
        also have "\<dots> \<longleftrightarrow> (\<forall>i<length alts. \<exists>q\<in>set (alts ! i). ?P i q)"
          using flatD(4) [OF nth] len by fastforce
        also have "\<dots> \<longleftrightarrow> (\<exists>qs\<in>set (product_lists alts). \<forall>i<length alts. ?P i (qs ! i))" by (rule choose_nth)
        finally show ?thesis using mk by auto
      qed (use rs(2) in \<open>auto simp: pmatch.simps\<close>)
    qed (use rs(2) in auto)
  qed
qed

lemma flatten_flat: "flatten_or_pattern p = Inr ps \<Longrightarrow> alts_ok p \<Longrightarrow> flat lit p ps"
proof (induction p arbitrary: ps)
  case (PAT_OR loc alts)
  have "list_all2 (\<lambda>p f. \<forall>qs. f = Inr qs \<longrightarrow> flat lit p qs) alts (map flatten_or_pattern alts)"
    using PAT_OR by (auto simp: list_all2_map2 list_all2_same alts_ok_def list_all_iff)
  then show ?case
    using flat_alts [of "[]" _ ps lit alts] PAT_OR.prems flat_or by (fastforce simp: alts_ok_def)
next
  case (PAT_SOME loc q)
  then show ?case
    by (cases q) (auto simp: flatten_sub_def bindE_Inr_iff flat_leaf alts_ok_def intro!: flat_some [of _ _ _ "PAT_SOME loc"])
next
  case (PAT_OK loc q)
  then show ?case
    by (cases q) (auto simp: flatten_sub_def bindE_Inr_iff flat_leaf alts_ok_def intro!: flat_some [of _ _ _ "PAT_OK loc"])
next
  case (PAT_ERR loc q)
  then show ?case
    by (cases q) (auto simp: flatten_sub_def bindE_Inr_iff flat_leaf alts_ok_def intro!: flat_some [of _ _ _ "PAT_ERR loc"])
next
  case (PAT_VARIANT loc n q)
  then show ?case
    by (cases q) (auto simp: flatten_sub_def bindE_Inr_iff flat_leaf alts_ok_def intro!: flat_some [of _ _ _ "PAT_VARIANT loc n"])
next
  case (PAT_STRUCT loc fs)
  show ?case
    by (rule flat_struct [OF PAT_STRUCT.prems(1)])
      (use PAT_STRUCT in \<open>force simp: alts_ok_def list_all_iff\<close>)
next
  case (PAT_TUPLE loc ps')
  show ?case
    by (rule flat_tuple [OF PAT_TUPLE.prems(1)]) (use PAT_TUPLE in \<open>auto simp: alts_ok_def list_all_iff\<close>)
qed (auto intro: flat_leaf simp: or_free_def)

end
