(* ===== verification/FC_Accept.thy ===== *)
theory FC_Accept
  imports FC_Flatten
begin

subsection \<open>What the check establishes\<close>

definition quiet :: "pat_event list \<Rightarrow> bool" where
  "quiet es \<longleftrightarrow> (\<forall>e\<in>set es. case e of Diag _ _ \<Rightarrow> False | _ \<Rightarrow> True)"

lemma quiet_simps [simp]:
  "quiet []" "\<not> quiet (Diag loc m # es)" "quiet (Bind loc n t # es) = quiet es"
  "quiet (es @ fs) \<longleftrightarrow> quiet es \<and> quiet fs"
  by (auto simp: quiet_def)

lemma pat_ok_resolved: "resolver_ok res \<Longrightarrow> pat_ok p res (res t) = pat_ok p res t"
  by (induction p) (auto simp: res_idem list_all_iff)

lemma find_field_index:
  "find_field fds n = map_option (\<lambda>i. fds ! i) (field_index fds n)"
  by (induction fds) (auto simp: find_field_def option.map_comp comp_def)

lemma equal_prim_kind: "type_eq t (TPrim i p) \<Longrightarrow> kind t = Prim p \<or> is_err t"
  by (cases t) (auto simp: type_eq_def kinds_differ_def type_udt_name_def is_err_def split: option.splits)

text \<open>The loops over subpatterns, when nothing is reported.\<close>

lemma loop_steps:
  "check_elems reject (c # cs) (t # ts) =
     (fst (c reject t) # fst (check_elems reject cs ts), snd (c reject t) @ snd (check_elems reject cs ts))"
  "check_alts (c # cs) t = (fst (c True t) # fst (check_alts cs t), snd (c True t) @ snd (check_alts cs t))"
  by (simp_all add: split_beta Let_def)

lemma field_step_found:
  "field_index (struct_fields t) (fst x) = Some i \<Longrightarrow> check_fields ctx reject loc t (x # cs) =
     (let r = snd (snd x) reject (resolve_type ctx (f_type (struct_fields t ! i)))
      in ((fst x, fst r) # fst (check_fields ctx reject loc t cs), snd r @ snd (check_fields ctx reject loc t cs)))"
  by (cases x) (simp add: find_field_index split_beta Let_def)

lemma field_step_none:
  "field_index (struct_fields t) (fst x) = None \<Longrightarrow> \<not> quiet (snd (check_fields ctx reject loc t (x # cs)))"
  by (cases x) (simp add: find_field_index no_field_def split_beta Let_def)

definition field_done :: "pat_ctx \<Rightarrow> bool \<Rightarrow> ctype \<Rightarrow> string \<times> pattern \<times> checker \<Rightarrow> string \<times> pattern \<Rightarrow> bool" where
  "field_done ctx reject t x y \<longleftrightarrow> fst y = fst x \<and>
     (\<exists>i. field_index (struct_fields t) (fst x) = Some i \<and>
        (let r = snd (snd x) reject (resolve_type ctx (f_type (struct_fields t ! i))) in quiet (snd r) \<and> snd y = fst r))"

lemma check_fields_quiet:
  "quiet (snd (check_fields ctx reject loc t cs)) \<Longrightarrow>
     list_all2 (field_done ctx reject t) cs (fst (check_fields ctx reject loc t cs))"
proof (induction cs)
  case (Cons x cs)
  then obtain i where i: "field_index (struct_fields t) (fst x) = Some i"
    using field_step_none [of t x ctx reject loc cs] by (cases "field_index (struct_fields t) (fst x)") simp_all
  note eq = field_step_found [OF i, of ctx reject loc cs, unfolded Let_def]
  have q: "quiet (snd (snd (snd x) reject (resolve_type ctx (f_type (struct_fields t ! i)))))"
    "quiet (snd (check_fields ctx reject loc t cs))"
    using Cons.prems unfolding eq snd_conv quiet_simps by auto
  then have "field_done ctx reject t x (fst x, fst (snd (snd x) reject (resolve_type ctx (f_type (struct_fields t ! i)))))"
    using i unfolding field_done_def Let_def by auto
  then show ?case using Cons.IH [OF q(2)] unfolding eq fst_conv list_all2_Cons by blast
qed simp

lemma check_elems_quiet:
  "quiet (snd (check_elems reject cs ts)) \<Longrightarrow> length cs = length ts \<Longrightarrow>
     list_all2 (\<lambda>(c, t) p. quiet (snd (c reject t)) \<and> p = fst (c reject t)) (zip cs ts) (fst (check_elems reject cs ts))"
proof (induction cs arbitrary: ts)
  case (Cons c cs)
  then show ?case by (cases ts) (simp_all add: loop_steps del: check_elems.simps(1))
qed simp

lemma check_alts_quiet:
  "quiet (snd (check_alts cs t)) \<Longrightarrow>
     list_all2 (\<lambda>c p. quiet (snd (c True t)) \<and> p = fst (c True t)) cs (fst (check_alts cs t))"
  by (induction cs) (simp_all add: loop_steps del: check_alts.simps(2))

lemma parsed_simps [simp]:
  "parsed (PAT_SOME loc q) \<longleftrightarrow> (\<forall>p\<in>set_option q. parsed p)"
  "parsed (PAT_OK loc q) \<longleftrightarrow> (\<forall>p\<in>set_option q. parsed p)"
  "parsed (PAT_ERR loc q) \<longleftrightarrow> (\<forall>p\<in>set_option q. parsed p)"
  "parsed (PAT_VARIANT loc n q) \<longleftrightarrow> q \<noteq> None \<and> (\<forall>p\<in>set_option q. parsed p)"
  "parsed (PAT_STRUCT loc fs) \<longleftrightarrow> (\<forall>(n, p)\<in>set fs. parsed p)"
  "parsed (PAT_TUPLE loc ps) \<longleftrightarrow> (\<forall>p\<in>set ps. parsed p)"
  "parsed (PAT_OR loc ps) \<longleftrightarrow> ps \<noteq> [] \<and> (\<forall>p\<in>set ps. parsed p)"
  unfolding parsed_def by (simp_all add: pred_option_def list_all_iff split_beta option.set_map)

lemma alts_ok_simps [simp]:
  "alts_ok (PAT_WILDCARD loc)" "alts_ok (PAT_BINDING loc n)" "alts_ok (PAT_INT_LIT loc x oor neg)"
  "alts_ok (PAT_BOOL_LIT loc b)" "alts_ok (PAT_CHAR_LIT loc c)" "alts_ok (PAT_STRING_LIT loc s len)" "alts_ok (PAT_NONE loc)"
  "alts_ok (PAT_VARIANT loc n None)" "alts_ok (PAT_VARIANT loc n (Some p)) \<longleftrightarrow> alts_ok p"
  "alts_ok (PAT_SOME loc q) \<longleftrightarrow> (\<forall>p\<in>set_option q. alts_ok p)"
  "alts_ok (PAT_OK loc q) \<longleftrightarrow> (\<forall>p\<in>set_option q. alts_ok p)"
  "alts_ok (PAT_ERR loc q) \<longleftrightarrow> (\<forall>p\<in>set_option q. alts_ok p)"
  "alts_ok (PAT_VARIANT loc n q) \<longleftrightarrow> (\<forall>p\<in>set_option q. alts_ok p)"
  "alts_ok (PAT_STRUCT loc fs) \<longleftrightarrow> (\<forall>(n, p)\<in>set fs. alts_ok p)"
  "alts_ok (PAT_TUPLE loc ps) \<longleftrightarrow> (\<forall>p\<in>set ps. alts_ok p)"
  "alts_ok (PAT_OR loc ps) \<longleftrightarrow> ps \<noteq> [] \<and> (\<forall>p\<in>set ps. alts_ok p)"
  by (auto simp: alts_ok_def pred_option_def list_all_iff)

lemma fields_once_simps [simp]:
  "fields_once (PAT_SOME loc q) \<longleftrightarrow> (\<forall>p\<in>set_option q. fields_once p)"
  "fields_once (PAT_OK loc q) \<longleftrightarrow> (\<forall>p\<in>set_option q. fields_once p)"
  "fields_once (PAT_ERR loc q) \<longleftrightarrow> (\<forall>p\<in>set_option q. fields_once p)"
  "fields_once (PAT_VARIANT loc n q) \<longleftrightarrow> (\<forall>p\<in>set_option q. fields_once p)"
  "fields_once (PAT_STRUCT loc fs) \<longleftrightarrow> distinct (map fst fs) \<and> (\<forall>(n, p)\<in>set fs. fields_once p)"
  "fields_once (PAT_TUPLE loc ps) \<longleftrightarrow> (\<forall>p\<in>set ps. fields_once p)"
  "fields_once (PAT_OR loc ps) \<longleftrightarrow> (\<forall>p\<in>set ps. fields_once p)"
  by (auto simp: fields_once_def pred_option_def list_all_iff)

lemma parsed_alts_ok: "parsed p \<Longrightarrow> alts_ok p"
  by (induction p) (force simp: alts_ok_def parsed_def pred_option_def list_all_iff)+

text \<open>A pattern the check accepts has the shape of its type.\<close>

definition accepted :: "pat_ctx \<Rightarrow> ctype \<Rightarrow> pattern \<times> pat_event list \<Rightarrow> bool" where
  "accepted ctx t r \<longleftrightarrow> (quiet (snd r) \<longrightarrow> pat_ok (fst r) (resolve_type ctx) t \<and> alts_ok (fst r))"

lemma accepted_resolved:
  "resolver_ok (resolve_type ctx) \<Longrightarrow> accepted ctx (resolve_type ctx t) r \<longleftrightarrow> accepted ctx t r"
  by (simp add: accepted_def pat_ok_resolved)

lemma unless_error_accepted:
  assumes "resolver_ok (resolve_type ctx)" "parsed p"
    and "\<And>t'. t' = resolve_type ctx t \<Longrightarrow> resolve_type ctx t' = t' \<Longrightarrow> accepted ctx t' (k t')"
  shows "accepted ctx t (unless_error ctx p k t)"
proof (cases "kind t = TYPE_ERROR")
  case True
  then have "is_err (resolve_type ctx t)" using res_error [OF assms(1)] by (simp add: is_err_def)
  then show ?thesis using True assms(2) by (simp add: accepted_def unless_error_def pat_ok_err parsed_alts_ok)
next
  case False
  then show ?thesis
    using assms(3) [OF refl res_idem [OF assms(1)]] pat_ok_resolved [OF assms(1)]
    by (simp add: accepted_def unless_error_def)
qed

lemma leaf_accepted:
  assumes "resolve_type ctx t = t"
    and "case p of PAT_SOME _ _ \<Rightarrow> False | PAT_OK _ _ \<Rightarrow> False | PAT_ERR _ _ \<Rightarrow> False | PAT_VARIANT _ _ _ \<Rightarrow> False
      | PAT_STRUCT _ _ \<Rightarrow> False | PAT_TUPLE _ _ \<Rightarrow> False | PAT_OR _ _ \<Rightarrow> False | _ \<Rightarrow> True"
  shows "accepted ctx t (check_leaf ctx reject p t)"
proof (cases p)
  case (PAT_BINDING loc n)
  show ?thesis
  proof (cases t)
    case (TUnion i u vs as)
    then show ?thesis
      using assms(1) PAT_BINDING
      by (auto simp: accepted_def check_binding_def split: option.splits)
  next
    case (TEnum i e r)
    then show ?thesis
      using assms(1) PAT_BINDING
      by (auto simp: accepted_def check_binding_def list_ex_iff)
  qed (use PAT_BINDING in \<open>auto simp: accepted_def check_binding_def\<close>)
next
  case (PAT_INT_LIT loc x oor neg)
  then show ?thesis
    using assms(1) by (auto simp: accepted_def check_int_pattern_def type_is_integer_def taken_apart_def split: if_splits)
next
  case (PAT_CONST_PATH loc parts)
  then show ?thesis
    using assms(1) by (auto simp: accepted_def check_int_pattern_def type_is_integer_def taken_apart_def alts_ok_def
        split: if_splits prod.splits option.splits)
next
  case (PAT_BOOL_LIT loc b)
  then show ?thesis
    using assms(1) equal_prim_kind [of t plain TYPE_BOOL] by (auto simp: accepted_def type_bool_def alts_ok_def)
next
  case (PAT_CHAR_LIT loc c)
  then show ?thesis
    using assms(1) equal_prim_kind [of t plain TYPE_UINT8]
    by (auto simp: accepted_def type_char_def type_uint8_def alts_ok_def is_err_iff taken_apart_def)
next
  case (PAT_STRING_LIT loc s len)
  then show ?thesis
    using assms(1) by (auto simp: accepted_def is_str_type_def taken_apart_def alts_ok_def split: ctype.splits)
qed (use assms in \<open>auto simp: accepted_def alts_ok_def\<close>)

abbreviation "sub_check ctx reject u q \<equiv> check_sub reject u (map_option (\<lambda>c. c ctx) (map_option check_match_pattern q))"

lemma check_sub_accepted:
  assumes "\<And>p. p \<in> set_option q \<Longrightarrow> accepted ctx u (check_match_pattern p ctx reject u)"
    and "quiet (snd (sub_check ctx reject u q))"
  shows "(\<forall>p\<in>set_option (fst (sub_check ctx reject u q)). pat_ok p (resolve_type ctx) u \<and> alts_ok p) \<and>
    (fst (sub_check ctx reject u q) = None \<longleftrightarrow> q = None)"
  using assms by (cases q) (auto simp: check_sub_def accepted_def)

lemma check_accepted:
  assumes ok: "resolver_ok (resolve_type ctx)" and "parsed p" "fields_once p"
  shows "accepted ctx t (check_match_pattern p ctx reject t)"
  using assms(2,3)
proof (induction p arbitrary: t reject)
  case (PAT_SOME loc q)
  have sub: "accepted ctx u (check_match_pattern p ctx reject u)" if "p \<in> set_option q" for p u
    using PAT_SOME that by auto
  show ?case unfolding check_match_pattern.simps
  proof (rule unless_error_accepted [OF ok PAT_SOME.prems(1)])
    fix t' assume t: "resolve_type ctx t' = t'"
    show "accepted ctx t' (case option_inner t' of
         None \<Rightarrow> (PAT_SOME loc q, [Diag loc (''some pattern on non-option type '' @ type_name t')])
       | Some inner \<Rightarrow> map_prod (PAT_SOME loc) id (sub_check ctx reject inner q))"
    proof (cases "option_inner t'")
      case (Some u)
      then show ?thesis using check_sub_accepted [of q ctx u reject, OF sub] by (simp add: accepted_def t sub_ok_iff)
    qed (simp add: accepted_def)
  qed
next
  case (PAT_OK loc q)
  have sub: "accepted ctx u (check_match_pattern p ctx reject u)" if "p \<in> set_option q" for p u
    using PAT_OK that by auto
  show ?case unfolding check_match_pattern.simps
  proof (rule unless_error_accepted [OF ok PAT_OK.prems(1)])
    fix t' assume t: "resolve_type ctx t' = t'"
    show "accepted ctx t' (case check_ok loc (q \<noteq> None) t' of
         Inl evs \<Rightarrow> (PAT_OK loc q, evs)
       | Inr inner \<Rightarrow> map_prod (PAT_OK loc) id (sub_check ctx reject inner q))"
    proof (cases "check_ok loc (q \<noteq> None) t'")
      case (Inr u)
      then have "result_inner t' = Some u" by (auto simp: check_ok_def split: option.splits if_splits)
      then show ?thesis
        using Inr check_sub_accepted [of q ctx u reject, OF sub] by (simp add: accepted_def t sub_ok_iff)
    next
      case (Inl evs)
      then have "\<not> quiet evs" by (auto simp: check_ok_def split: option.splits if_splits)
      then show ?thesis using Inl by (simp add: accepted_def)
    qed
  qed
next
  case (PAT_ERR loc q)
  have sub: "accepted ctx u (check_match_pattern p ctx reject u)" if "p \<in> set_option q" for p u
    using PAT_ERR that by auto
  show ?case unfolding check_match_pattern.simps
  proof (rule unless_error_accepted [OF ok PAT_ERR.prems(1)])
    fix t' assume t: "resolve_type ctx t' = t'"
    show "accepted ctx t' (if kind t' \<noteq> TYPE_RESULT
        then (PAT_ERR loc q, [Diag loc (''err pattern on non-result type '' @ type_name t')])
        else map_prod (PAT_ERR loc) id (sub_check ctx reject type_error_code q))"
      using check_sub_accepted [of q ctx type_error_code reject, OF sub] by (auto simp: accepted_def t sub_ok_iff)
  qed
next
  case (PAT_VARIANT loc n q)
  have sub: "accepted ctx u (check_match_pattern p ctx reject u)" if "p \<in> set_option q" for p u
    using PAT_VARIANT that by auto
  obtain p where q: "q = Some p" using PAT_VARIANT.prems(1) by auto
  show ?case unfolding check_match_pattern.simps
  proof (rule unless_error_accepted [OF ok PAT_VARIANT.prems(1)])
    fix t' assume t: "resolve_type ctx t' = t'"
    show "accepted ctx t' (case check_variant loc n (q \<noteq> None) t' of
         Inl evs \<Rightarrow> (PAT_VARIANT loc n q, evs)
       | Inr None \<Rightarrow> (PAT_VARIANT loc n q, [])
       | Inr (Some pay) \<Rightarrow> map_prod (PAT_VARIANT loc n) id (sub_check ctx reject (resolve_type ctx pay) q))"
    proof (cases "check_variant loc n (q \<noteq> None) t'")
      case (Inl evs)
      then have "\<not> quiet evs" by (auto simp: check_variant_def q split: ctype.splits option.splits if_splits)
      then show ?thesis using Inl by (simp add: accepted_def)
    next
      case (Inr pay)
      then obtain i u vs as v where v: "t' = TUnion i u vs as" "find_variant vs n = Some v" "v_payload v = pay" "pay \<noteq> None"
        by (auto simp: check_variant_def q split: ctype.splits option.splits if_splits)
      then obtain w where w: "pay = Some w" by blast
      have "quiet (snd (sub_check ctx reject (resolve_type ctx w) q)) \<Longrightarrow>
          \<exists>p. fst (sub_check ctx reject (resolve_type ctx w) q) = Some p \<and> pat_ok p (resolve_type ctx) w \<and> alts_ok p"
        using check_sub_accepted [of q ctx "resolve_type ctx w" reject, OF sub] pat_ok_resolved [OF ok] q by auto
      then show ?thesis using Inr v w t by (auto simp: accepted_def)
    qed
  qed
next
  case (PAT_STRUCT loc fs)
  let ?cs = "map (\<lambda>(f, (n, c)). (n, snd f, c ctx)) (zip fs (map (map_prod id check_match_pattern) fs))"
  have cs: "?cs = map (\<lambda>(n, p). (n, p, check_match_pattern p ctx)) fs" by (induction fs) auto
  have sub: "accepted ctx u (check_match_pattern p ctx reject (resolve_type ctx u))" if "(n, p) \<in> set fs" for n p u
  proof -
    have "accepted ctx (resolve_type ctx u) (check_match_pattern p ctx reject (resolve_type ctx u))"
      by (rule PAT_STRUCT.IH [OF that]) (use PAT_STRUCT.prems that in auto)
    then show ?thesis using accepted_resolved [OF ok] by blast
  qed
  show ?case unfolding check_match_pattern.simps
  proof (rule unless_error_accepted [OF ok PAT_STRUCT.prems(1)])
    fix t' assume t: "resolve_type ctx t' = t'"
    let ?r = "check_fields ctx reject loc t' ?cs"
    have shape: "\<not> quiet (check_struct_shape loc t')" if "check_struct_shape loc t' \<noteq> []"
      using that by (auto simp: check_struct_shape_def split: if_splits)
    have "pat_ok (PAT_STRUCT loc (fst ?r)) (resolve_type ctx) t' \<and> alts_ok (PAT_STRUCT loc (fst ?r))"
      if "check_struct_shape loc t' = []" and quiet: "quiet (snd ?r)"
    proof -
      have k: "kind t' = TYPE_STRUCT" using that by (simp add: check_struct_shape_def split: if_splits)
      note all = check_fields_quiet [OF quiet]
      have len: "length (fst ?r) = length fs" using list_all2_lengthD [OF all] by simp
      have nth: "fst (fst ?r ! j) = fst (fs ! j) \<and> (\<exists>i. field_index (struct_fields t') (fst (fs ! j)) = Some i \<and>
          pat_ok (snd (fst ?r ! j)) (resolve_type ctx) (f_type (struct_fields t' ! i)) \<and> alts_ok (snd (fst ?r ! j)))"
        if "j < length fs" for j
      proof -
        have "field_done ctx reject t' (fst (fs ! j), snd (fs ! j), check_match_pattern (snd (fs ! j)) ctx) (fst ?r ! j)"
          using all that unfolding cs list_all2_conv_all_nth by (simp add: split_beta)
        then show ?thesis
          using sub [of "fst (fs ! j)" "snd (fs ! j)"] that
          by (auto simp: field_done_def Let_def accepted_def)
      qed
      have "map fst (fst ?r) = map fst fs" using nth len by (simp add: list_eq_iff_nth_eq)
      then have "distinct (map fst (fst ?r))" using PAT_STRUCT.prems(2) by simp
      moreover have "\<forall>(n, p)\<in>set (fst ?r). \<exists>i. field_index (struct_fields t') n = Some i \<and>
          pat_ok p (resolve_type ctx) (f_type (struct_fields t' ! i)) \<and> alts_ok p"
        using nth len by (auto simp: in_set_conv_nth split_beta) (metis fst_conv snd_conv)
      ultimately show ?thesis using k unfolding struct_pat_ok t by fastforce
    qed
    then show "accepted ctx t' (let evs = check_struct_shape loc t'
       in if evs \<noteq> [] then (PAT_STRUCT loc fs, evs) else map_prod (PAT_STRUCT loc) id ?r)"
      using shape by (auto simp: accepted_def Let_def)
  qed
next
  case (PAT_TUPLE loc ps)
  have sub: "accepted ctx u (check_match_pattern (ps ! i) ctx reject (resolve_type ctx u))" if "i < length ps" for i u
  proof -
    have "accepted ctx (resolve_type ctx u) (check_match_pattern (ps ! i) ctx reject (resolve_type ctx u))"
      using PAT_TUPLE that by simp
    then show ?thesis using accepted_resolved [OF ok] by blast
  qed
  show ?case unfolding check_match_pattern.simps
  proof (rule unless_error_accepted [OF ok PAT_TUPLE.prems(1)])
    fix t' assume t: "resolve_type ctx t' = t'"
    let ?r = "check_elems reject (map (\<lambda>c. c ctx) (map check_match_pattern ps))
        (map (\<lambda>f. resolve_type ctx (f_type f)) (struct_fields t'))"
    have shape: "\<not> quiet (check_tuple_shape loc (length ps) t')" if "check_tuple_shape loc (length ps) t' \<noteq> []"
      using that by (auto simp: check_tuple_shape_def split: if_splits)
    have "pat_ok (PAT_TUPLE loc (fst ?r)) (resolve_type ctx) t' \<and> alts_ok (PAT_TUPLE loc (fst ?r))"
      if "check_tuple_shape loc (length ps) t' = []" and quiet: "quiet (snd ?r)"
    proof -
      have k: "kind t' = TYPE_STRUCT" "length ps = length (struct_fields t')"
        using that(1) by (auto simp: check_tuple_shape_def is_tuple_type_def kind_struct split: if_splits ctype.splits)
      have all: "length (fst ?r) = length ps \<and> (\<forall>i<length ps.
          quiet (snd (check_match_pattern (ps ! i) ctx reject (resolve_type ctx (f_type (struct_fields t' ! i))))) \<and>
          fst ?r ! i = fst (check_match_pattern (ps ! i) ctx reject (resolve_type ctx (f_type (struct_fields t' ! i)))))"
        using check_elems_quiet [OF quiet] k(2) by (simp add: list_all2_conv_all_nth)
      have "pat_ok (fst ?r ! i) (resolve_type ctx) (f_type (struct_fields t' ! i)) \<and> alts_ok (fst ?r ! i)" if "i < length ps" for i
        using all that sub [OF that] by (simp add: accepted_def)
      then show ?thesis using k all t by (auto simp: list_all2_conv_all_nth in_set_conv_nth)
    qed
    then show "accepted ctx t' (let evs = check_tuple_shape loc (length ps) t'
       in if evs \<noteq> [] then (PAT_TUPLE loc ps, evs) else map_prod (PAT_TUPLE loc) id ?r)"
      using shape by (auto simp: accepted_def Let_def)
  qed
next
  case (PAT_OR loc ps)
  have sub: "accepted ctx u (check_match_pattern (ps ! i) ctx True u)" if "i < length ps" for i u
    using PAT_OR that by simp
  show ?case unfolding check_match_pattern.simps
  proof (rule unless_error_accepted [OF ok PAT_OR.prems(1)])
    fix t' assume t: "resolve_type ctx t' = t'"
    let ?r = "check_alts (map (\<lambda>c. c ctx) (map check_match_pattern ps)) t'"
    have "pat_ok (PAT_OR loc (fst ?r)) (resolve_type ctx) t' \<and> alts_ok (PAT_OR loc (fst ?r))" if quiet: "quiet (snd ?r)"
    proof -
      have all: "length (fst ?r) = length ps \<and> (\<forall>i<length ps. quiet (snd (check_match_pattern (ps ! i) ctx True t')) \<and>
          fst ?r ! i = fst (check_match_pattern (ps ! i) ctx True t'))"
        using check_alts_quiet [OF quiet] by (simp add: list_all2_conv_all_nth)
      have "pat_ok (fst ?r ! i) (resolve_type ctx) t' \<and> alts_ok (fst ?r ! i)" if "i < length ps" for i
        using all that sub [OF that] by (simp add: accepted_def)
      then show ?thesis using all PAT_OR.prems(1) by (auto simp: list_all_iff in_set_conv_nth)
    qed
    then show "accepted ctx t' (map_prod (PAT_OR loc) id ?r)" by (simp add: accepted_def)
  qed
qed (simp only: check_match_pattern.simps, rule unless_error_accepted [OF ok], assumption, rule leaf_accepted, assumption, simp)+

end
