(* ===== verification/FC_Verdict.thy ===== *)
theory FC_Verdict
  imports FC_Accept
begin

section \<open>The verdict on a match (\<open>check_match\<close> of \<open>src/pass2.c\<close>)\<close>

text \<open>
  The arms of a match are checked one by one against the resolved type of the subject, each in a
  scope of its own, and the rewritten arms then go to the exhaustiveness check. The guards and
  the bodies, which are expressions, are left out, and so is the order in which a recursive
  function's arms are visited, which only orders the events.
\<close>

definition add_local :: "(string \<times> src_loc) list \<Rightarrow> pat_event \<Rightarrow> (string \<times> src_loc) list" where
  "add_local ls e =
     (case e of
        Diag _ _ \<Rightarrow> ls
      | Bind loc n _ \<Rightarrow> ls @ [(n, loc)]
      | Bind_poison loc n \<Rightarrow> if n \<in> set (map fst ls) then ls else ls @ [(n, loc)])"

definition check_dup_bindings :: "(string \<times> src_loc) list \<Rightarrow> string \<Rightarrow> pat_event list" where
  "check_dup_bindings ls what =
     concat (map (\<lambda>i. if fst (ls ! i) \<in> set (map fst (take i ls)) then
         [Diag (snd (ls ! i)) (''duplicate binding '' @ tick (fst (ls ! i)) @ '' in this '' @ what @
                               ''; a name may be bound only once'')] else [])
       [0..<length ls])"

definition check_arm :: "pat_ctx \<Rightarrow> ctype \<Rightarrow> arm \<Rightarrow> arm \<times> pat_event list" where
  "check_arm ctx t a =
     (let (p, evs) = check_match_pattern (fst a) ctx False t
      in ((p, snd a), evs @ check_dup_bindings (foldl add_local [] evs) ''pattern''))"

definition check_match_patterns :: "pat_ctx \<Rightarrow> src_loc \<Rightarrow> src_loc \<Rightarrow> arm list \<Rightarrow> ctype \<Rightarrow> arm list \<times> pat_event list" where
  "check_match_patterns ctx loc subj_loc arms t0 =
     (let t = resolve_type ctx t0
      in if kind t = Prim TYPE_VOID then (arms, [Diag subj_loc ''cannot match on a void expression''])
         else if arms = [] then (arms, [Diag loc ''match expression has no arms''])
         else
           let rs = map (check_arm ctx t) arms; arms' = map fst rs
           in (arms', concat (map snd rs) @
                 (if kind t = TYPE_ERROR then []
                  else check_match_exhaustiveness (resolve_type ctx) loc arms' t)))"

subsection \<open>From arms to rows\<close>

text \<open>An arm as the check leaves it.\<close>

definition arm_ok :: "(ctype \<Rightarrow> ctype) \<Rightarrow> ctype \<Rightarrow> arm \<Rightarrow> bool" where
  "arm_ok res t a \<longleftrightarrow> pat_ok (fst a) res t \<and> alts_ok (fst a)"

definition matched :: "'a literal \<Rightarrow> (ctype \<Rightarrow> ctype) \<Rightarrow> ctype \<Rightarrow> arm list \<Rightarrow> 'a fcval \<Rightarrow> bool" where
  "matched lit res t arms v \<longleftrightarrow> (\<exists>a\<in>set arms. \<not> snd a \<and> pmatch (fst a) lit res t v)"

lemma quiet_concat: "quiet (concat ess) \<longleftrightarrow> (\<forall>es\<in>set ess. quiet es)"
  by (auto simp: quiet_def)

lemma check_arm_ok:
  assumes "resolver_ok (resolve_type ctx)" "parsed (fst a)" "fields_once (fst a)" "quiet (snd (check_arm ctx t a))"
  shows "arm_ok (resolve_type ctx) t (fst (check_arm ctx t a))"
  using check_accepted [OF assms(1-3), of t False] assms(4)
  by (simp add: check_arm_def arm_ok_def accepted_def split_beta)

lemma arm_rows_covers:
  fixes v :: "'a fcval"
  assumes "resolver_ok res" "arm_rows res t arms = Inr rows" "\<forall>a\<in>set arms. arm_ok res t a" "value_of v res t"
  shows "matched no_lit res t arms v \<longleftrightarrow> (\<exists>row\<in>set rows. covers_row row [v])"
  using assms(2,3)
proof (induction arms arbitrary: rows)
  case (Cons a arms)
  obtain p g where a: "a = (p, g)" by force
  show ?case
  proof (cases g)
    case True
    then show ?thesis using Cons a by (simp add: matched_def)
  next
    case False
    then obtain flats rest where f: "flatten_or_pattern p = Inr flats" "arm_rows res t arms = Inr rest"
      "rows = map (\<lambda>q. [pat_to_matpat q res (Some t)]) flats @ rest"
      using Cons.prems(1) a by (auto simp: bindE_Inr_iff)
    have "flat no_lit p flats" using flatten_flat [OF f(1)] Cons.prems(2) a by (simp add: arm_ok_def)
    then have "pmatch p no_lit res t v \<longleftrightarrow> (\<exists>q\<in>set flats. covers (pat_to_matpat q res (Some t)) v)"
      using to_matpat_covers [OF assms(1) _ _ assms(4)] Cons.prems(2) a by (simp add: flat_def arm_ok_def) blast
    moreover have "matched no_lit res t arms v \<longleftrightarrow> (\<exists>row\<in>set rest. covers_row row [v])"
      using Cons.IH [OF f(2)] Cons.prems(2) by simp
    ultimately show ?thesis using False f(3) a by (auto simp: matched_def)
  qed
qed (simp add: matched_def)

lemma arm_rows_fit:
  assumes "resolver_ok res" "arm_rows res t arms = Inr rows" "\<forall>a\<in>set arms. arm_ok res t a" "res t = t"
  shows "\<forall>row\<in>set rows. fits_row res row [t]"
  using assms(2,3)
proof (induction arms arbitrary: rows)
  case (Cons a arms)
  obtain p g where a: "a = (p, g)" by force
  show ?case
  proof (cases g)
    case True
    then show ?thesis using Cons a by simp
  next
    case False
    then obtain flats rest where f: "flatten_or_pattern p = Inr flats" "arm_rows res t arms = Inr rest"
      "rows = map (\<lambda>q. [pat_to_matpat q res (Some t)]) flats @ rest"
      using Cons.prems(1) a by (auto simp: bindE_Inr_iff)
    have "flat no_lit p flats" using flatten_flat [OF f(1)] Cons.prems(2) a by (simp add: arm_ok_def)
    then have "or_free q" "pat_ok q res t" if "q \<in> set flats" for q
      using that Cons.prems(2) a unfolding flat_def arm_ok_def by auto
    then have "fits (pat_to_matpat q res (Some t)) res t" if "q \<in> set flats" for q
      using that to_matpat_fits [OF assms(1), of q t] assms(4) by simp
    moreover have "\<forall>row\<in>set rest. fits_row res row [t]" using Cons.IH [OF f(2)] Cons.prems(2) by simp
    ultimately show ?thesis using f(3) by auto
  qed
qed simp

text \<open>A match without literals is a match whatever the literals.\<close>

lemma sub_matches_mono:
  "(\<And>p t v. p \<in> set_option q \<Longrightarrow> pmatch p no_lit res t v \<Longrightarrow> pmatch p lit res t v) \<Longrightarrow>
   sub_matches (map_option pmatch q) no_lit res u v \<Longrightarrow> sub_matches (map_option pmatch q) lit res u v"
  by (cases q) (auto simp: sub_matches_def split: option.splits)

lemma pmatch_mono: "pmatch p no_lit res t v \<Longrightarrow> pmatch p lit res t v"
proof (induction p arbitrary: t v)
  case (PAT_VARIANT loc n q)
  then show ?case
    by (auto split: fcval.splits option.splits intro: sub_matches_mono [rotated])
next
  case (PAT_STRUCT loc fs)
  then show ?case
    by (fastforce simp: pmatch.simps list_all_iff field_matches_def split: fcval.splits option.splits)
next
  case (PAT_TUPLE loc ps)
  then show ?case
    by (auto simp: pmatch.simps list_all2_conv_all_nth split: fcval.splits)
next
  case (PAT_OR loc ps)
  then show ?case by (auto simp: list_ex_iff)
qed (auto simp: is_lit_def split: fcval.splits intro: sub_matches_mono [rotated])

lemma pmatch_resolved: "resolver_ok res \<Longrightarrow> pmatch p lit res (res t) v = pmatch p lit res t v"
  by (induction p) (simp_all add: res_idem list_ex_iff pmatch.simps split: fcval.splits option.splits)

lemma matched_resolved: "resolver_ok res \<Longrightarrow> matched lit res (res t) arms v = matched lit res t arms v"
  by (simp add: matched_def pmatch_resolved)

lemma matched_mono: "matched no_lit res t arms v \<Longrightarrow> matched lit res t arms v"
  using pmatch_mono by (fastforce simp: matched_def)

lemma silent_covers:
  assumes "resolver_ok res" "check_match_exhaustiveness res loc arms t = []" "\<forall>a\<in>set arms. arm_ok res t a"
    and "res t = t" "value_of v res t"
  shows "matched no_lit res t arms v"
proof -
  obtain rows where rows: "arm_rows res t arms = Inr rows" "find_witness res rows [t] = None"
    using assms(2) by (auto simp: check_match_exhaustiveness_def split: sum.splits option.splits list.splits)
  have "\<exists>row\<in>set rows. covers_row row [v]"
    by (rule witness_none_covers [OF rows(2) assms(1)])
      (use arm_rows_fit [OF assms(1) rows(1) assms(3,4)] assms(4,5) in auto)
  then show ?thesis using arm_rows_covers [OF assms(1) rows(1) assms(3,5)] by simp
qed

text \<open>
  Types whose values are built up from values: every one has a value, and the parts of its
  constructors are among them.
\<close>

definition inhabited :: "'a itself \<Rightarrow> (ctype \<Rightarrow> ctype) \<Rightarrow> ctype set \<Rightarrow> bool" where
  "inhabited _ res S \<longleftrightarrow>
     (\<forall>t\<in>S. res t = t \<and> (\<exists>v :: 'a fcval. value_of v res t) \<and>
        (\<forall>cs. type_ctors_list res t = Some cs \<longrightarrow> (\<forall>c\<in>set cs. set (ctor_sub_types res c t) \<subseteq> S)))"

lemma value_build:
  assumes ok: "resolver_ok res" and "type_ctors_list res t = Some cs" "c \<in> set cs" "res t = t"
    and "list_all2 (\<lambda>w u. value_of w res u) ws (ctor_sub_types res c t)"
  shows "\<exists>v. value_of v res t \<and> (\<exists>k. view v = Some (k, ws) \<and> kind_eq (c_kind c) k)"
proof (cases t)
  case (TUnion i u vs as)
  then have d: "distinct (map v_name vs)" using ok assms(4) res_union by metis
  obtain v where v: "v \<in> set vs" "c = Ctor (CTOR_VARIANT (v_name v)) (if v_payload v = None then 0 else 1)"
    using assms(2-4) TUnion by (auto simp: type_ctors_list_def)
  show ?thesis
  proof (cases "v_payload v")
    case None
    then show ?thesis using v d TUnion assms(4,5)
      by (intro exI [of _ "V_variant (v_name v) None"])
        (auto simp: ctor_sub_types_def variant_payload_def find_variant_mem kind_eq_def intro!: bexI [of _ v])
  next
    case (Some u)
    then obtain w where "ws = [w]" "value_of w res u"
      using v d TUnion assms(5)
      by (auto simp: ctor_sub_types_def variant_payload_def find_variant_mem list_all2_Cons2 value_of_resolved [OF ok])
    then show ?thesis using v Some TUnion assms(4)
      by (intro exI [of _ "V_variant (v_name v) (Some w)"]) (auto simp: kind_eq_def intro!: bexI [of _ v])
  qed
next
  case (TEnum i e r)
  then obtain v where v: "v \<in> set (en_variants e)" "c = Ctor (CTOR_VARIANT (ev_name v)) 0"
    using assms(2-4) by (auto simp: type_ctors_list_def)
  then show ?thesis using TEnum assms(4,5)
    by (intro exI [of _ "V_variant (ev_name v) None"]) (auto simp: ctor_sub_types_def variant_payload_def kind_eq_def)
next
  case (TStruct i s fs as)
  then show ?thesis using assms
    by (intro exI [of _ "V_struct ws"])
      (auto simp: type_ctors_list_def ctor_sub_types_def struct_fields_def kind_eq_def list_all2_conv_all_nth
        value_of_resolved [OF ok])
next
  case (TPrim i p)
  then show ?thesis using assms(2-5)
    by (intro exI [of _ "V_bool (c_kind c = CTOR_TRUE)"])
      (auto simp: type_ctors_list_def ctor_sub_types_def kind_eq_def split: if_splits)
next
  case (TOption i u)
  then consider "c = Ctor CTOR_NONE 0" | "c = Ctor CTOR_SOME 1" using assms(2-4) by (auto simp: type_ctors_list_def)
  then show ?thesis
  proof cases
    case 1
    then show ?thesis using TOption assms(4,5) by (intro exI [of _ V_none]) (auto simp: ctor_sub_types_def)
  next
    case 2
    then obtain w where "ws = [w]" "value_of w res u" using TOption assms(4,5)
      by (auto simp: ctor_sub_types_def option_inner_def list_all2_Cons2 value_of_resolved [OF ok])
    then show ?thesis using 2 TOption assms(4) by (intro exI [of _ "V_some w"]) (auto simp: option_inner_def)
  qed
next
  case (TResult i u)
  then consider "c = Ctor CTOR_OK 1" | "c = Ctor CTOR_ERR 1" using assms(2-4) by (auto simp: type_ctors_list_def)
  then show ?thesis
  proof cases
    case 1
    then obtain w where "ws = [w]" "value_of w res u" using TResult assms(4,5)
      by (auto simp: ctor_sub_types_def result_inner_def list_all2_Cons2 value_of_resolved [OF ok])
    then show ?thesis using 1 TResult assms(4) by (intro exI [of _ "V_ok w"]) (auto simp: result_inner_def)
  next
    case 2
    then obtain w where "ws = [w]" "value_of w res type_int32" using TResult assms(4,5)
      by (auto simp: ctor_sub_types_def list_all2_Cons2)
    then show ?thesis using 2 TResult assms(4) by (intro exI [of _ "V_err w"]) auto
  qed
qed (use assms(2,4) in \<open>auto simp: type_ctors_list_def\<close>)


lemma inhabited_values:
  assumes "inhabited TYPE('a) res S" "set us \<subseteq> S"
  shows "\<exists>ws :: 'a fcval list. list_all2 (\<lambda>w u. value_of w res u) ws us"
  using assms(2)
proof (induction us)
  case (Cons u us)
  then obtain ws :: "'a fcval list" where "list_all2 (\<lambda>w u. value_of w res u) ws us" by auto
  moreover obtain w :: "'a fcval" where "value_of w res u" using assms(1) Cons.prems by (auto simp: inhabited_def)
  ultimately show ?case by (intro exI [of _ "w # ws"]) simp
qed simp

lemma inhabited_sub:
  "inhabited TYPE('a) res S \<Longrightarrow> t \<in> S \<Longrightarrow> type_ctors_list res t = Some cs \<Longrightarrow> c \<in> set cs \<Longrightarrow>
    set (ctor_sub_types res c t) \<subseteq> S"
  by (auto simp: inhabited_def)

lemma missing_pat_value:
  assumes "resolver_ok res" "inhabited TYPE('a) res S" "t \<in> S" "\<not> complete_signature (type_ctors_list res t) heads"
  shows "\<exists>v :: 'a fcval. value_of v res t \<and> covers (missing_pat (type_ctors_list res t) heads) v"
proof (cases "type_ctors_list res t")
  case None
  then show ?thesis using assms(2,3) by (auto simp: missing_pat_def inhabited_def)
next
  case (Some cs)
  obtain c where c: "find (\<lambda>c. \<not> in_heads heads c) cs = Some c"
    using assms(4) Some by (cases "find (\<lambda>c. \<not> in_heads heads c) cs")
      (auto simp: complete_signature_def find_None_iff list_all_iff)
  then have mem: "c \<in> set cs" by (auto simp: find_Some_iff)
  have t: "res t = t" using assms(2,3) by (simp add: inhabited_def)
  obtain ws :: "'a fcval list" where ws: "list_all2 (\<lambda>w u. value_of w res u) ws (ctor_sub_types res c t)"
    using inhabited_values [OF assms(2) inhabited_sub [OF assms(2,3) Some mem]] by blast
  obtain v k where v: "value_of v res t" "view v = Some (k, ws)" "kind_eq (c_kind c) k"
    using value_build [OF assms(1) Some mem t ws] by blast
  have "length ws = c_arity c" using ws sub_types_length [OF assms(1) Some mem t] by (simp add: list_all2_lengthD)
  then show ?thesis using v c Some by (intro exI [of _ v]) (simp add: missing_pat_def del: map_replicate)
qed

lemma rebuild_value:
  fixes vs :: "'a fcval list"
  assumes "resolver_ok res" "type_ctors_list res t = Some cs" "c \<in> set cs" "res t = t"
    and "list_all2 (\<lambda>v u. value_of v res u) vs (types_specialize res (t # ts) c t)" "covers_row w vs"
  shows "\<exists>(v :: 'a fcval) vs'. value_of v res t \<and> list_all2 (\<lambda>v u. value_of v res u) vs' ts \<and> covers_row (rebuild c w) (v # vs')"
proof -
  let ?n = "c_arity c"
  have n: "length (ctor_sub_types res c t) = ?n" by (rule sub_types_length [OF assms(1-4)])
  have typed: "list_all2 (\<lambda>v u. value_of v res u) (take ?n vs) (ctor_sub_types res c t)"
    "list_all2 (\<lambda>v u. value_of v res u) (drop ?n vs) ts"
    using assms(5) n list_all2_takeI [OF assms(5), of ?n] list_all2_dropI [OF assms(5), of ?n]
    by (simp_all add: types_specialize_def)
  obtain v k where v: "value_of v res t" "view v = Some (k, take ?n vs)" "kind_eq (c_kind c) k"
    using value_build [OF assms(1-4) typed(1)] by blast
  have "covers_row (take ?n w) (take ?n vs)" "covers_row (drop ?n w) (drop ?n vs)"
    using assms(6) by (simp_all add: list_all2_takeI list_all2_dropI)
  then show ?thesis using v typed(2) by (intro exI [of _ v] exI [of _ "drop ?n vs"]) (simp add: rebuild_def)
qed

text \<open>A reported case occurs.\<close>

lemma witness_occurs:
  assumes "find_witness res rows types = Some w" "resolver_ok res" "inhabited TYPE('a) res S" "set types \<subseteq> S"
  shows "\<exists>vs :: 'a fcval list. list_all2 (\<lambda>v t. value_of v res t) vs types \<and> covers_row w vs"
  using assms
proof (induction res rows types arbitrary: w rule: find_witness.induct)
  case (1 res rows)
  then show ?case by (simp split: if_splits)
next
  case (2 res rows t ts)
  note ok = "2.prems"(2) and inh = "2.prems"(3)
  have t: "t \<in> S" "res t = t" "set ts \<subseteq> S" using "2.prems"(3,4) by (auto simp: inhabited_def)
  show ?case
  proof (cases "complete_signature (type_ctors_list res t) (collect_head_ctors rows)")
    case True
    then obtain cs where cs: "type_ctors_list res t = Some cs" by (auto simp: complete_signature_def split: option.splits)
    obtain c w' where c: "c \<in> set cs" "w = rebuild c w'"
      and some: "find_witness res (specialize rows c) (types_specialize res (t # ts) c t) = Some w'"
      using "2.prems"(1) True cs by (auto simp: find_witness.simps(2) dest!: first_some_Some)
    have "set (types_specialize res (t # ts) c t) \<subseteq> S"
      using inhabited_sub [OF inh t(1) cs c(1)] t(3) by (simp add: types_specialize_def)
    then obtain vs :: "'a fcval list" where
      "list_all2 (\<lambda>v t. value_of v res t) vs (types_specialize res (t # ts) c t)" "covers_row w' vs"
      using "2.IH"(1) [OF refl refl True _ some ok inh] cs c(1) by auto
    then show ?thesis
      using rebuild_value [OF ok cs c(1) t(2)] c(2) by (metis list.rel_intros(2))
  next
    case False
    then obtain w' where w: "w = missing_pat (type_ctors_list res t) (collect_head_ctors rows) # w'"
      "find_witness res (default_matrix rows) ts = Some w'"
      using "2.prems"(1) by (auto simp: find_witness.simps(2))
    obtain vs :: "'a fcval list" where vs: "list_all2 (\<lambda>v t. value_of v res t) vs ts" "covers_row w' vs"
      using "2.IH"(2) [OF refl refl False w(2) ok inh t(3)] by blast
    obtain v :: "'a fcval" where "value_of v res t" "covers (missing_pat (type_ctors_list res t) (collect_head_ctors rows)) v"
      using missing_pat_value [OF ok inh t(1) False] by blast
    then show ?thesis using vs w(1) by (intro exI [of _ "v # vs"]) simp
  qed
qed

text \<open>The answer of the search, for the one column of the subject.\<close>

lemma search_exact:
  assumes "resolver_ok res" "inhabited TYPE('a) res S" "t \<in> S" "arm_rows res t arms = Inr rows"
    and "\<forall>a\<in>set arms. arm_ok res t a"
  shows "find_witness res rows [t] = None \<longleftrightarrow> (\<forall>v :: 'a fcval. value_of v res t \<longrightarrow> matched no_lit res t arms v)"
proof -
  have t: "res t = t" using assms(2,3) by (simp add: inhabited_def)
  note fit = arm_rows_fit [OF assms(1,4,5) t]
  have cov: "matched no_lit res t arms v \<longleftrightarrow> (\<exists>row\<in>set rows. covers_row row [v])" if "value_of v res t" for v :: "'a fcval"
    by (rule arm_rows_covers [OF assms(1,4,5) that])
  show ?thesis
  proof (cases "find_witness res rows [t]")
    case None
    then have "\<exists>row\<in>set rows. covers_row row [v]" if "value_of v res t" for v :: "'a fcval"
      by (rule witness_none_covers) (use assms(1) t fit that in auto)
    then show ?thesis using None cov by simp
  next
    case (Some w)
    obtain vs :: "'a fcval list" where vs: "list_all2 (\<lambda>v t. value_of v res t) vs [t]" "covers_row w vs"
      using witness_occurs [OF Some assms(1,2)] assms(3) by auto
    then obtain v where v: "vs = [v]" "value_of v res t" by (auto simp: list_all2_Cons2)
    have "\<not> (\<exists>row\<in>set rows. covers_row row vs)"
      by (rule witness_not_covered [OF Some assms(1) _ fit vs]) (use t in simp)
    then show ?thesis using v cov [OF v(2)] Some by auto
  qed
qed

subsection \<open>Literals\<close>

text \<open>The number a literal stands for: with a minus its bits are the two's complement.\<close>

definition literal_value :: "u64 \<Rightarrow> bool \<Rightarrow> int" where
  "literal_value v negative = (if negative then - uint (- v) else uint v)"

lemma uint_minus_sint: "uint (- v :: u64) = (if sint v \<le> 0 then - sint v else 18446744073709551616 - sint v)"
proof -
  have u: "uint (- v) = (- sint v) mod 18446744073709551616"
    using uint_word_of_int [where 'a = 64, of "- sint v"] by simp
  have b: "- 9223372036854775808 \<le> sint v" "sint v < 9223372036854775808"
    using sint_ge [of v] sint_lt [of v] by simp_all
  show ?thesis
  proof (cases "sint v \<le> 0")
    case False
    then have "(18446744073709551616 - sint v) mod 18446744073709551616 = 18446744073709551616 - sint v"
      using b by (intro mod_pos_pos_trivial) auto
    then show ?thesis using False u by (simp add: mod_simps)
  qed (use u b in simp)
qed

lemma word_bounds:
  "uint (- 1 :: u64) = 18446744073709551615" "uint (mask 63 :: u64) = 9223372036854775807"
  "sint (- mask 63 - 1 :: u64) = - 9223372036854775808"
  by (simp_all add: mask_eq_exp_minus_1 unsigned_minus_1_eq_mask)

lemma neg_le_uint [simp]: "- numeral k \<le> uint (v :: u64)"
  by (rule order_trans [OF _ uint_ge_0]) simp

lemma check_unsigned:
  assumes "type_fixed_int_bits t = w" "w \<noteq> 0" "\<not> type_is_signed t"
  shows "check_int_literal_range v t False False = None \<longleftrightarrow> uint v < 2 ^ w"
proof -
  have "w \<in> {8, 16, 32, 64}" using assms(1,2) by (auto simp: type_fixed_int_bits_def split: if_splits)
  then show ?thesis
    using assms uint_bounded [of v] by (auto simp: check_int_literal_range_def Let_def word_less_def word_bounds)
qed

lemma check_signed:
  assumes "type_fixed_int_bits t = w" "w \<noteq> 0" "type_is_signed t"
  shows "check_int_literal_range v t False negative = None \<longleftrightarrow>
    - (2 ^ (w - 1)) \<le> literal_value v negative \<and> literal_value v negative < 2 ^ (w - 1)"
proof -
  have "w \<in> {8, 16, 32, 64}" using assms(1,2) by (auto simp: type_fixed_int_bits_def split: if_splits)
  moreover have "\<not> type_is_unsigned t" using assms(3) by (auto simp: type_is_signed_def type_is_unsigned_def)
  moreover have "sint v < 9223372036854775808" using sint_lt [of v] by simp
  moreover have "0 \<le> uint v" by simp
  ultimately show ?thesis
    using assms by (auto simp: check_int_literal_range_def Let_def word_le_def literal_value_def uint_minus_sint word_bounds)
qed

text \<open>Patterns with no or-pattern flatten to themselves; the expansion is bounded.\<close>

lemma check_total_bound: "check_total n counts = Inr m \<Longrightarrow> n \<le> MAX_OR_EXPANSION \<Longrightarrow> m \<le> MAX_OR_EXPANSION"
  by (induction n counts rule: check_total.induct) (auto split: if_splits)

lemma odometer_length: "length (odometer_rows n counts alts idx) = n"
  by (induction n counts alts idx rule: odometer_rows.induct) auto

lemma product_bound: "flatten_product subs = Inr combos \<Longrightarrow> length combos \<le> MAX_OR_EXPANSION"
  by (auto simp: flatten_product_def bindE_Inr_iff odometer_length check_total_bound MAX_OR_EXPANSION_def
      dest: check_total_bound split: if_splits)

lemma alts_bound: "flatten_alts tmp fs = Inr ps \<Longrightarrow> length tmp \<le> MAX_OR_EXPANSION \<Longrightarrow> length ps \<le> MAX_OR_EXPANSION"
  by (induction tmp fs rule: flatten_alts.induct) (auto simp: bindE_Inr_iff split: if_splits)

lemma sub_bound:
  "flatten_sub build (map_option flatten_or_pattern q) = Inr ps \<Longrightarrow>
    (\<And>p qs. p \<in> set_option q \<Longrightarrow> flatten_or_pattern p = Inr qs \<Longrightarrow> length qs \<le> MAX_OR_EXPANSION) \<Longrightarrow>
    length ps \<le> MAX_OR_EXPANSION"
  by (cases q) (auto simp: flatten_sub_def bindE_Inr_iff MAX_OR_EXPANSION_def)

lemma flatten_bound: "flatten_or_pattern p = Inr ps \<Longrightarrow> length ps \<le> MAX_OR_EXPANSION"
proof (induction p arbitrary: ps)
  case (PAT_OR loc alts)
  then show ?case using alts_bound [of "[]"] by simp
next
  case (PAT_STRUCT loc fs)
  then show ?case by (auto simp: bindE_Inr_iff MAX_OR_EXPANSION_def dest!: product_bound split: if_splits)
next
  case (PAT_TUPLE loc qs)
  then show ?case by (auto simp: bindE_Inr_iff MAX_OR_EXPANSION_def dest!: product_bound split: if_splits)
next
  case (PAT_SOME loc q)
  then show ?case using sub_bound [of "PAT_SOME loc"] by simp
next
  case (PAT_OK loc q)
  then show ?case using sub_bound [of "PAT_OK loc"] by simp
next
  case (PAT_ERR loc q)
  then show ?case using sub_bound [of "PAT_ERR loc"] by simp
next
  case (PAT_VARIANT loc n q)
  then show ?case using sub_bound [of "PAT_VARIANT loc n"] by simp
qed (auto simp: MAX_OR_EXPANSION_def)

subsection \<open>Properties\<close>

text \<open>A resolver that leaves every type as it is, but for a union that repeats a variant.\<close>

definition shallow_resolver :: "ctype \<Rightarrow> ctype" where
  "shallow_resolver t = (case t of TUnion _ _ vs _ \<Rightarrow> if distinct (map v_name vs) then t else type_error | _ \<Rightarrow> t)"

lemma shallow_resolver_ok: "resolver_ok shallow_resolver"
  unfolding resolver_ok_def
proof (intro conjI allI impI)
  show "shallow_resolver (shallow_resolver t) = shallow_resolver t" for t
    by (cases t) (simp_all add: shallow_resolver_def type_error_def)
  show "distinct (map v_name vs)" if "shallow_resolver t = TUnion i u vs as" for t i u vs as
    using that by (cases t) (auto simp: shallow_resolver_def type_error_def split: if_splits)
qed (simp_all add: shallow_resolver_def)

definition sample_ctx :: pat_ctx where
  "sample_ctx = \<lparr>resolve_type = shallow_resolver, const_path = (\<lambda>_ _. ([], None)), len_repr = 32\<rparr>"

definition sample_loc :: src_loc where "sample_loc = mk_loc 1 1"

definition sample_union :: ctype where
  "sample_union =
     TUnion plain \<lparr>un_name = ''color'', un_qualified_name = None, un_resolved = None\<rparr>
       [Variant ''red'' None sample_loc, Variant ''green'' (Some type_bool) sample_loc] []"

definition sample_type :: ctype where "sample_type = TOption plain sample_union"

definition sample_green :: "bool \<Rightarrow> pattern" where
  "sample_green b = PAT_VARIANT sample_loc ''green'' (Some (PAT_BOOL_LIT sample_loc b))"

text \<open>The arms \<open>some(red)\<close>, \<open>some(green(true) | green(false))\<close> and, with a guard or without, \<open>none\<close>.\<close>

definition sample_arms :: "bool \<Rightarrow> arm list" where
  "sample_arms guarded =
     [(PAT_SOME sample_loc (Some (PAT_BINDING sample_loc ''red'')), False),
      (PAT_SOME sample_loc (Some (PAT_OR sample_loc [sample_green True, sample_green False])), False),
      (PAT_NONE sample_loc, guarded)]"

lemmas sample_defs = sample_ctx_def sample_loc_def sample_union_def sample_type_def sample_green_def sample_arms_def

text \<open>
  C3: a match the compiler accepts always takes an arm. If \<open>check_match_patterns\<close> reports nothing then every
  value of the type of the subject is matched by an unguarded arm, whatever scalars the literals
  match. The patterns are as the parser builds them and no struct pattern names a field twice.
\<close>

theorem exhaustive_match_covers:
  assumes "resolver_ok (resolve_type ctx)" "\<forall>a\<in>set arms. parsed (fst a) \<and> fields_once (fst a)"
    and "quiet (snd (check_match_patterns ctx loc subj_loc arms t))"
    and "kind (resolve_type ctx t) \<noteq> TYPE_ERROR" "value_of v (resolve_type ctx) t"
  shows "\<exists>a\<in>set (fst (check_match_patterns ctx loc subj_loc arms t)).
    \<not> snd a \<and> pmatch (fst a) lit (resolve_type ctx) t v"
proof -
  let ?res = "resolve_type ctx" and ?t = "resolve_type ctx t"
  let ?arms = "map fst (map (check_arm ctx ?t) arms)"
  note ok = assms(1)
  have arms: "fst (check_match_patterns ctx loc subj_loc arms t) = ?arms" "check_match_exhaustiveness ?res loc ?arms ?t = []"
    and "\<forall>a\<in>set arms. quiet (snd (check_arm ctx ?t a))"
    using assms(3,4) by (auto simp: check_match_patterns_def Let_def quiet_concat check_match_exhaustiveness_def report_witness_def
      split: if_splits sum.splits option.splits list.splits)
  then have "\<forall>a\<in>set ?arms. arm_ok ?res ?t a" using check_arm_ok [OF ok] assms(2) by auto
  then have "matched no_lit ?res ?t ?arms v"
    using silent_covers [OF ok arms(2)] assms(5) by (simp add: res_idem [OF ok] value_of_resolved [OF ok])
  then have "matched lit ?res t ?arms v" using matched_mono by (simp add: matched_resolved [OF ok])
  then show ?thesis by (simp only: arms(1) matched_def)
qed


theorem exhaustive_match_covers_witness:
  "quiet (snd (check_match_patterns sample_ctx sample_loc sample_loc (sample_arms False) sample_type)) \<and>
   (\<exists>a\<in>set (fst (check_match_patterns sample_ctx sample_loc sample_loc (sample_arms False) sample_type)).
      \<not> snd a \<and> pmatch (fst a) (\<lambda>_ (_ :: u64). False) shallow_resolver sample_type
        (V_some (V_variant ''green'' (Some (V_bool True)))))"
proof -
  have quiet: "quiet (snd (check_match_patterns sample_ctx sample_loc sample_loc (sample_arms False) sample_type))" by code_simp
  have res: "resolve_type sample_ctx = shallow_resolver" by (simp add: sample_ctx_def)
  have arms: "\<forall>a\<in>set (sample_arms False). parsed (fst a) \<and> fields_once (fst a)"
    by (simp add: sample_defs) (simp add: parsed_def fields_once_def)
  have val: "value_of (V_some (V_variant ''green'' (Some (V_bool True))) :: u64 fcval) shallow_resolver sample_type"
    by (simp add: sample_defs shallow_resolver_def option_inner_def type_bool_def)
  have "kind (resolve_type sample_ctx sample_type) \<noteq> TYPE_ERROR" by code_simp
  from exhaustive_match_covers [OF _ arms quiet this, unfolded res, OF shallow_resolver_ok val] quiet
  show ?thesis by blast
qed

text \<open>
  C6: the exhaustiveness check is exact. When no or-pattern expands too far, it is silent if and
  only if every value of the subject's type is matched by an unguarded arm with the literals of
  integers, characters and strings matching nothing: a reported match really misses a value, down
  to the parts of nested patterns, and one that is not reported misses none. The types the patterns
  reach are resolved and have values.
\<close>

theorem exhaustiveness_exact:
  assumes "resolver_ok res" "inhabited TYPE('a) res S" "t \<in> S" "arm_rows res t arms = Inr rows"
    and "\<forall>a\<in>set arms. pat_ok (fst a) res t \<and> alts_ok (fst a)"
  shows "check_match_exhaustiveness res loc arms t = [] \<longleftrightarrow>
    (\<forall>v :: 'a fcval. value_of v res t \<longrightarrow> (\<exists>a\<in>set arms. \<not> snd a \<and> pmatch (fst a) no_lit res t v))"
proof -
  have "check_match_exhaustiveness res loc arms t = [] \<longleftrightarrow> find_witness res rows [t] = None"
    using assms(4) by (auto simp: check_match_exhaustiveness_def split: option.splits list.splits)
  also have "\<dots> \<longleftrightarrow> (\<forall>v :: 'a fcval. value_of v res t \<longrightarrow> matched no_lit res t arms v)"
    by (rule search_exact [OF assms(1-4)]) (use assms(5) in \<open>simp add: arm_ok_def\<close>)
  finally show ?thesis by (simp only: matched_def)
qed

definition checked_sample :: "arm list" where
  "checked_sample = fst (check_match_patterns sample_ctx sample_loc sample_loc (sample_arms True) sample_type)"

lemma sample_parts:
  "type_ctors_list shallow_resolver type_bool = Some [Ctor CTOR_TRUE 0, Ctor CTOR_FALSE 0]"
  "type_ctors_list shallow_resolver sample_union = Some [Ctor (CTOR_VARIANT ''red'') 0, Ctor (CTOR_VARIANT ''green'') 1]"
  "type_ctors_list shallow_resolver sample_type = Some [Ctor CTOR_SOME 1, Ctor CTOR_NONE 0]"
  "ctor_sub_types shallow_resolver (Ctor CTOR_TRUE 0) type_bool = []"
  "ctor_sub_types shallow_resolver (Ctor CTOR_FALSE 0) type_bool = []"
  "ctor_sub_types shallow_resolver (Ctor (CTOR_VARIANT ''red'') 0) sample_union = []"
  "ctor_sub_types shallow_resolver (Ctor (CTOR_VARIANT ''green'') 1) sample_union = [type_bool]"
  "ctor_sub_types shallow_resolver (Ctor CTOR_SOME 1) sample_type = [sample_union]"
  "ctor_sub_types shallow_resolver (Ctor CTOR_NONE 0) sample_type = []"
  "shallow_resolver type_bool = type_bool" "shallow_resolver sample_union = sample_union"
  "shallow_resolver sample_type = sample_type"
  by code_simp+

lemma sample_inhabited: "inhabited TYPE(u64) shallow_resolver {sample_type, sample_union, type_bool}"
proof -
  have "\<exists>v :: u64 fcval. value_of v shallow_resolver type_bool"
    by (rule exI [of _ "V_bool True"]) (simp add: sample_parts, simp add: type_bool_def)
  moreover have "\<exists>v :: u64 fcval. value_of v shallow_resolver sample_union"
    by (rule exI [of _ "V_variant ''red'' None"]) (simp add: sample_parts, simp add: sample_union_def)
  moreover have "\<exists>v :: u64 fcval. value_of v shallow_resolver sample_type"
    by (rule exI [of _ V_none]) (simp add: sample_parts, simp add: sample_type_def)
  ultimately show ?thesis by (simp add: inhabited_def sample_parts del: One_nat_def)
qed

theorem exhaustiveness_exact_witness:
  "check_match_exhaustiveness shallow_resolver sample_loc checked_sample sample_type \<noteq> [] \<and>
   (\<exists>v :: u64 fcval. value_of v shallow_resolver sample_type \<and>
      \<not> (\<exists>a\<in>set checked_sample. \<not> snd a \<and> pmatch (fst a) no_lit shallow_resolver sample_type v))"
proof -
  let ?some = "\<lambda>p. PAT_SOME sample_loc (Some p)" and ?res = shallow_resolver
  let ?some_t = "Ctor CTOR_SOME 1" and ?green = "\<lambda>b. MCon (Ctor (CTOR_VARIANT ''green'') 1) [MCon (Ctor b 0) []]"
  have arms: "checked_sample = [(?some (PAT_VARIANT sample_loc ''red'' None), False),
      (?some (PAT_OR sample_loc [sample_green True, sample_green False]), False), (PAT_NONE sample_loc, True)]"
    by code_simp
  have rows: "arm_rows ?res sample_type checked_sample = Inr [[MCon ?some_t [MCon (Ctor (CTOR_VARIANT ''red'') 0) []]],
      [MCon ?some_t [?green CTOR_TRUE]], [MCon ?some_t [?green CTOR_FALSE]]]"
    by code_simp
  have "\<forall>a\<in>set checked_sample. pat_ok (fst a) ?res sample_type \<and> alts_ok (fst a)"
    unfolding arms by (simp add: sample_defs shallow_resolver_def option_inner_def find_variant_def type_bool_def sub_ok_def)
  moreover have "check_match_exhaustiveness ?res sample_loc checked_sample sample_type \<noteq> []" by code_simp
  ultimately show ?thesis
    using exhaustiveness_exact [OF shallow_resolver_ok sample_inhabited _ rows, of sample_loc] by auto
qed

text \<open>
  C28: a pattern the check passes over without a report has the shape of the type it is matched
  against, all the way down: a variant pattern names a variant and has a payload pattern exactly
  when it has a payload, a tuple pattern has an element for each of the tuple, a literal stands
  at a scalar.
\<close>

theorem checked_pattern_typed:
  assumes "resolver_ok (resolve_type ctx)" "parsed p" "fields_once p"
    and "quiet (snd (check_match_pattern p ctx reject t))"
  shows "pat_ok (fst (check_match_pattern p ctx reject t)) (resolve_type ctx) t"
  using check_accepted [OF assms(1-3), of t reject] assms(4) by (simp add: accepted_def)

theorem checked_pattern_typed_witness:
  "quiet (snd (check_match_pattern (sample_green True) sample_ctx True sample_union)) \<and>
   pat_ok (fst (check_match_pattern (sample_green True) sample_ctx True sample_union)) shallow_resolver sample_union"
proof -
  have quiet: "quiet (snd (check_match_pattern (sample_green True) sample_ctx True sample_union))" by code_simp
  have res: "resolve_type sample_ctx = shallow_resolver" by (simp add: sample_ctx_def)
  have "parsed (sample_green True)" "fields_once (sample_green True)"
    by (simp_all add: sample_defs) (simp_all add: parsed_def fields_once_def)
  from checked_pattern_typed [OF _ this quiet, unfolded res, OF shallow_resolver_ok] quiet
  show ?thesis by blast
qed

text \<open>
  C29: flattening an or-pattern gives between 1 and \<open>MAX_OR_EXPANSION\<close> patterns without
  or-patterns, which together match what the pattern matches.
\<close>

theorem flatten_alternatives:
  assumes "flatten_or_pattern p = Inr ps" "alts_ok p"
  shows "0 < length ps \<and> length ps \<le> MAX_OR_EXPANSION \<and> list_all or_free ps \<and>
    (pmatch p lit res t v \<longleftrightarrow> list_ex (\<lambda>q. pmatch q lit res t v) ps)"
  using flatten_flat [OF assms, of lit] flatten_bound [OF assms(1)]
  by (simp add: flat_def list_all_iff list_ex_iff)

theorem flatten_alternatives_witness:
  "(case flatten_or_pattern (PAT_TUPLE sample_loc [PAT_OR sample_loc [sample_green True, sample_green False], PAT_NONE sample_loc]) of
      Inl _ \<Rightarrow> False | Inr ps \<Rightarrow> length ps = 2 \<and> list_all or_free ps)"
proof -
  let ?p = "PAT_TUPLE sample_loc [PAT_OR sample_loc [sample_green True, sample_green False], PAT_NONE sample_loc]"
  let ?ps = "[PAT_TUPLE sample_loc [sample_green True, PAT_NONE sample_loc],
              PAT_TUPLE sample_loc [sample_green False, PAT_NONE sample_loc]]"
  have flat: "flatten_or_pattern ?p = Inr ?ps" by code_simp
  have "alts_ok ?p" by (simp add: sample_green_def)
  from flatten_alternatives [OF flat this, of no_lit shallow_resolver sample_type "V_none :: u64 fcval"]
  have "list_all or_free ?ps" by blast
  moreover have "length ?ps = 2" by simp
  ultimately show ?thesis unfolding flat sum.case by blast
qed

text \<open>
  \<open>check_int_literal_range\<close> accepts a literal of a type of fixed width exactly when the number
  it stands for is in the range of the type; one written with a minus needs a signed type.
\<close>

theorem literal_range:
  assumes "type_fixed_int_bits t = w" "w \<noteq> 0"
  shows "check_int_literal_range v t False negative = None \<longleftrightarrow>
    (if type_is_signed t then - (2 ^ (w - 1)) \<le> literal_value v negative \<and> literal_value v negative < 2 ^ (w - 1)
     else \<not> negative \<and> literal_value v negative < 2 ^ w)"
proof (cases "type_is_signed t")
  case True
  then show ?thesis using check_signed [OF assms] by simp
next
  case False
  then have "type_is_unsigned t"
    using assms by (auto simp: type_fixed_int_bits_def type_is_signed_def type_is_unsigned_def split: if_splits)
  then have "check_int_literal_range v t False True \<noteq> None" by (simp add: check_int_literal_range_def)
  then show ?thesis using False check_unsigned [OF assms] by (cases negative) (simp_all add: literal_value_def)
qed

theorem literal_range_witness:
  "check_int_literal_range (- 128) (TPrim plain TYPE_INT8) False True = None \<and>
   check_int_literal_range 128 (TPrim plain TYPE_INT8) False False \<noteq> None"
  using literal_range [of "TPrim plain TYPE_INT8" 8 "- 128" True] literal_range [of "TPrim plain TYPE_INT8" 8 128 False]
  by (simp add: literal_value_def type_fixed_int_bits_def type_is_signed_def)

text \<open>
  C39: a struct pattern that names a field twice defeats the check. \<open>fill_fields\<close> keeps the last
  mention, so \<open>match\<close> of a struct with one \<open>bool\<close> field \<open>a\<close> over the arm \<open>{ a = true, a = _ }\<close> is
  accepted, and the value whose field is \<open>false\<close> takes no arm.
\<close>

definition sample_struct :: ctype where
  "sample_struct =
     TStruct plain \<lparr>sc_name = Some ''s'', sc_qualified_name = None, sc_c_name = None, sc_is_c_union = False,
       sc_is_tuple = False, sc_resolved = None\<rparr> [Field ''a'' type_bool sample_loc] []"

definition twice_arm :: arm where
  "twice_arm = (PAT_STRUCT sample_loc [(''a'', PAT_BOOL_LIT sample_loc True), (''a'', PAT_WILDCARD sample_loc)], False)"


end
