(* ===== verification/FC_CText.thy ===== *)
theory FC_CText
  imports FC_Mangle
begin

section \<open>C text of literals and names (\<open>src/codegen.c\<close>)\<close>

text \<open>What the code generator prints is the string that \<open>out\<close> receives.\<close>

subsection \<open>String literals\<close>

definition oct_char :: "nat \<Rightarrow> char" where "oct_char n = char_of (48 + n mod 8)"

definition octal3 :: "nat \<Rightarrow> string" where
  "octal3 n = [oct_char (n div 64), oct_char (n div 8), oct_char n]"

text \<open>One byte of a literal; \<open>fmt\<close> marks a \<open>printf\<close> format, where a percent sign doubles.\<close>

definition emit_c_byte :: "bool \<Rightarrow> u8 \<Rightarrow> string" where
  "emit_c_byte fmt b =
     (let c = char_of (unat b)
      in if c = backslash then [backslash, backslash]
         else if c = dquote then [backslash, dquote]
         else if c = newline then [backslash, CHR ''n'']
         else if c = CHR 0x0D then [backslash, CHR ''r'']
         else if c = CHR 0x09 then [backslash, CHR ''t'']
         else if c = CHR ''?'' then [backslash, CHR ''?'']
         else if c = CHR ''%'' then (if fmt then ''%%'' else ''%'')
         else if b < 0x20 \<or> b = 0x7f then backslash # octal3 (unat b)
         else [c])"

definition str_lit_len :: "string \<Rightarrow> nat" where
  "str_lit_len s = length (decode_str_lit s)"

definition emit_str_lit_body :: "string \<Rightarrow> string" where
  "emit_str_lit_body s = concat (map (emit_c_byte False) (decode_str_lit s))"

text \<open>
  How a C compiler reads the body of a string literal up to its closing quote: simple escapes and
  octal escapes of at most three digits. A raw line break is not allowed, nor is an escape of
  another kind read here.
\<close>

definition is_oct :: "char \<Rightarrow> bool" where "is_oct c \<longleftrightarrow> 48 \<le> byte c \<and> byte c \<le> 55"

definition oct_value :: "string \<Rightarrow> nat" where
  "oct_value = foldl (\<lambda>n c. 8 * n + (byte c - 48)) 0"

definition simple_c_escape :: "char \<Rightarrow> char option" where
  "simple_c_escape c =
     (if c \<in> {backslash, dquote, CHR ''?''} then Some c
      else if c = CHR ''n'' then Some newline
      else if c = CHR ''r'' then Some (CHR 0x0D)
      else if c = CHR ''t'' then Some (CHR 0x09)
      else None)"

definition cons_byte :: "nat \<Rightarrow> (u8 list \<times> string) option \<Rightarrow> (u8 list \<times> string) option" where
  "cons_byte n r = map_option (map_prod (\<lambda>bs. word_of_nat n # bs) id) r"

function read_c_string :: "string \<Rightarrow> (u8 list \<times> string) option" where
  "read_c_string [] = None"
| "read_c_string (c # cs) =
     (if c = dquote then Some ([], cs)
      else if c = newline then None
      else if c \<noteq> backslash then cons_byte (byte c) (read_c_string cs)
      else
        let digits = takeWhile is_oct (take 3 cs)
        in if digits \<noteq> [] then cons_byte (oct_value digits) (read_c_string (drop (length digits) cs))
           else if cs = [] then None
           else (case simple_c_escape (hd cs) of
                   None \<Rightarrow> None
                 | Some d \<Rightarrow> cons_byte (byte d) (read_c_string (tl cs))))"
  by pat_completeness auto
termination read_c_string
  by (relation "measure length") (auto simp: less_Suc_eq_le)

declare read_c_string.simps(2) [simp del]

text \<open>C replaces a trigraph (\<open>??=\<close> and the like) before it reads a literal.\<close>

fun has_trigraph :: "string \<Rightarrow> bool" where
  "has_trigraph (a # b # r) \<longleftrightarrow> (a = CHR ''?'' \<and> b = CHR ''?'') \<or> has_trigraph (b # r)"
| "has_trigraph _ \<longleftrightarrow> False"

lemma oct_char_byte: "byte (oct_char n) = 48 + n mod 8"
proof -
  have "48 + n mod 8 < 256" using mod_less_divisor [of 8 n] by linarith
  then show ?thesis by (simp add: oct_char_def byte_char_of)
qed

lemma is_oct_char [simp]: "is_oct (oct_char n)"
  using mod_less_divisor [of 8 n] by (simp add: is_oct_def oct_char_byte)

lemma oct_char_no_mark [simp]: "oct_char n \<noteq> CHR ''?''"
proof
  assume "oct_char n = CHR ''?''"
  then have "48 + n mod 8 = byte (CHR ''?'')" using oct_char_byte [of n] by simp
  then show False using mod_less_divisor [of 8 n] by (simp add: byte_def)
qed

lemma oct_value_octal3:
  assumes "n < 256"
  shows "oct_value (octal3 n) = n"
proof -
  have "n div 64 = n div 8 div 8" by (simp add: div_mult2_eq [symmetric])
  then have "64 * (n div 64) + 8 * (n div 8 mod 8) + n mod 8 = n"
    using div_mult_mod_eq [of "n div 8" 8] div_mult_mod_eq [of n 8] by linarith
  moreover have "n div 64 mod 8 = n div 64" using assms by simp
  ultimately show ?thesis by (simp add: oct_value_def octal3_def oct_char_byte)
qed

lemma read_octal:
  assumes "n < 256"
  shows "read_c_string (backslash # octal3 n @ r) = cons_byte n (read_c_string r)"
proof -
  have "takeWhile is_oct (take 3 (octal3 n @ r)) = octal3 n" by (simp add: octal3_def)
  moreover have "octal3 n \<noteq> []" "drop (length (octal3 n)) (octal3 n @ r) = r" by (simp_all add: octal3_def)
  ultimately show ?thesis
    by (simp add: read_c_string.simps(2) [of backslash] Let_def oct_value_octal3 [OF assms] del: append_Cons)
qed

lemma read_simple:
  assumes "simple_c_escape e = Some d"
  shows "read_c_string (backslash # e # r) = cons_byte (byte d) (read_c_string r)"
proof -
  have "\<not> is_oct e" using assms by (auto simp: simple_c_escape_def is_oct_def byte_def split: if_splits)
  then show ?thesis using assms by (simp add: read_c_string.simps(2) [of backslash])
qed

lemma read_plain: "c \<noteq> dquote \<Longrightarrow> c \<noteq> newline \<Longrightarrow> c \<noteq> backslash \<Longrightarrow>
    read_c_string (c # r) = cons_byte (byte c) (read_c_string r)"
  by (simp add: read_c_string.simps(2) [of c])

lemma read_emit: "read_c_string (emit_c_byte False b @ r) = cons_byte (unat b) (read_c_string r)"
proof -
  have b: "unat b < 256" using unsigned_less [of b] by simp
  define c where "c = (char_of (unat b) :: char)"
  have u: "unat b = byte c" using b by (simp add: c_def byte_char_of)
  consider "c \<in> {backslash, dquote, newline, CHR 0x0D, CHR 0x09, CHR ''?''}" | "c = CHR ''%''"
    | "c \<notin> {backslash, dquote, newline, CHR 0x0D, CHR 0x09, CHR ''?'', CHR ''%''}" by blast
  then show ?thesis
  proof cases
    case 1
    have "\<exists>e. simple_c_escape e = Some c \<and> emit_c_byte False b = [backslash, e]"
      using 1 unfolding emit_c_byte_def c_def [symmetric] Let_def
      by (elim insertE emptyE) (simp_all add: simple_c_escape_def)
    then obtain e where "simple_c_escape e = Some c" "emit_c_byte False b = [backslash, e]" by blast
    then show ?thesis by (simp add: read_simple u)
  next
    case 2
    then show ?thesis by (simp add: emit_c_byte_def c_def [symmetric] Let_def read_plain u)
  next
    case 3
    then show ?thesis
      using read_octal [OF b, of r] by (simp add: emit_c_byte_def c_def [symmetric] Let_def read_plain u)
  qed
qed

lemma read_literal:
  "read_c_string (concat (map (emit_c_byte False) bs) @ dquote # rest) = Some (bs, rest)"
proof (induction bs)
  case (Cons b bs)
  then show ?case by (simp add: read_emit cons_byte_def)
qed (simp add: read_c_string.simps)

lemma emit_head: "\<exists>c r. emit_c_byte False b = c # r \<and> c \<noteq> CHR ''?''"
  by (auto simp: emit_c_byte_def Let_def octal3_def)

lemma trigraph_Cons: "x \<noteq> CHR ''?'' \<Longrightarrow> has_trigraph (x # s) = has_trigraph s"
  by (cases s) auto

lemma trigraph_append:
  "\<not> has_trigraph a \<Longrightarrow> \<not> has_trigraph s \<Longrightarrow> (s = [] \<or> hd s \<noteq> CHR ''?'') \<Longrightarrow> \<not> has_trigraph (a @ s)"
  by (induction a rule: has_trigraph.induct) (auto elim: has_trigraph.elims simp: neq_Nil_conv)

lemma trigraph_byte: "\<not> has_trigraph (emit_c_byte False b)"
  by (auto simp: emit_c_byte_def Let_def octal3_def oct_char_no_mark trigraph_Cons)

lemma trigraph_literal: "\<not> has_trigraph (concat (map (emit_c_byte False) bs))"
proof (induction bs)
  case (Cons b bs)
  have "concat (map (emit_c_byte False) bs) = [] \<or> hd (concat (map (emit_c_byte False) bs)) \<noteq> CHR ''?''"
  proof (cases bs)
    case (Cons d ds)
    then show ?thesis using emit_head [of d] by auto
  qed simp
  then show ?case using trigraph_append [OF trigraph_byte Cons.IH] by simp
qed simp

subsection \<open>Names\<close>

definition FC_PAYLOAD_MEMBER :: string where "FC_PAYLOAD_MEMBER = ''u''"

definition path_cat :: "string \<Rightarrow> string \<Rightarrow> string \<Rightarrow> string" where
  "path_cat base sep tail = base @ sep @ tail"

definition union_tag_type :: "string \<Rightarrow> string" where
  "union_tag_type uname = ''fc_tag_'' @ uname"

definition union_tag_value :: "string \<Rightarrow> string \<Rightarrow> string" where
  "union_tag_value uname variant = ''fc_tv_'' @ variant @ ''__'' @ uname"

text \<open>No substitution is active: the names inside a generic instance are not modelled.\<close>

definition generic_instance_c_name :: "ctype \<Rightarrow> string option" where
  "generic_instance_c_name t =
     (let name = (\<lambda>stored args.
        if args = [] \<or> list_ex type_contains_type_var args then stored else Some (mangle_type_name t))
      in case t of
           TStruct _ s _ args \<Rightarrow> name (sc_name s) args
         | TUnion _ u _ args \<Rightarrow> name (Some (un_name u)) args
         | _ \<Rightarrow> None)"

lemma separator_unique:
  assumes "\<not> has_dunder v" "\<not> has_dunder w" "v @ ''__fc__'' @ r = w @ ''__fc__'' @ s"
  shows "v = w \<and> r = s"
  using assms
proof (induction v arbitrary: w)
  case Nil
  then show ?case
    by (cases w; cases "tl w"; cases "tl (tl w)") auto
next
  case (Cons c v)
  show ?case
  proof (cases w)
    case Nil
    then show ?thesis using Cons.prems by (cases v; cases "tl v") auto
  next
    case (Cons d w')
    have tails: "\<not> has_dunder v" "\<not> has_dunder w'"
      using Cons.prems(1,2) \<open>w = d # w'\<close> by (cases v; cases w'; auto)+
    then show ?thesis using Cons.IH [OF tails] Cons.prems(3) \<open>w = d # w'\<close> by simp
  qed
qed

lemma tag_value_inject:
  assumes "\<not> has_dunder v" "\<not> has_dunder w"
    and "union_tag_value (''fc__'' @ r) v = union_tag_value (''fc__'' @ s) w"
  shows "v = w \<and> r = s"
  using separator_unique [OF assms(1,2), of r s] assms(3) by (simp add: union_tag_value_def)

subsection \<open>Enum literals\<close>

definition repr_bits :: "ctype \<Rightarrow> nat" where
  "repr_bits t =
     (if kind t = Prim TYPE_INT8 then 8 else if kind t = Prim TYPE_INT16 then 16
      else if kind t = Prim TYPE_INT32 then 32 else 64)"

definition enum_bits_signed :: "u64 \<Rightarrow> ctype \<Rightarrow> int" where
  "enum_bits_signed bits repr =
     (let w = repr_bits repr; mask = (if w = 64 then - 1 else push_bit w 1 - 1)
      in if drop_bit 1 mask < bits then sint (bits OR NOT mask) else sint bits)"

definition variant_bits :: "enum_info \<Rightarrow> string \<Rightarrow> u64" where
  "variant_bits e n = (case find (\<lambda>v. ev_name v = n) (en_variants e) of None \<Rightarrow> 0 | Some v \<Rightarrow> ev_value_bits v)"

definition emit_enum_variant_literal :: "enum_info \<Rightarrow> ctype option \<Rightarrow> string \<Rightarrow> string" where
  "emit_enum_variant_literal e r n =
     (let bits = variant_bits e n; repr = (case r of Some t \<Rightarrow> t | None \<Rightarrow> type_int32)
      in ''(('' @ en_name e @ '')'' @
         (if type_is_signed repr then
            let sv = enum_bits_signed bits repr
            in if sv = - 9223372036854775808 then ''(-9223372036854775807LL - 1)''
               else if sv < 0 then ''-'' @ dec_int (- sv) @ ''LL''
               else dec_int sv @ ''LL''
          else dec_nat (unat bits) @ ''ULL'') @ '')'')"

text \<open>The number an enum literal is of: two's complement at the width of the representation.\<close>

lemma repr_bits_range: "repr_bits t \<in> {8, 16, 32, 64}" by (simp add: repr_bits_def)

lemma high_bit:
  assumes "uint v < 2 ^ w" "w \<in> {8, 16, 32}"
  shows "drop_bit 1 (push_bit w 1 - 1 :: u64) < v \<longleftrightarrow> v AND push_bit (w - 1) 1 \<noteq> 0"
proof -
  have m: "uint (drop_bit 1 (push_bit w 1 - 1 :: u64)) = 2 ^ (w - 1) - 1" using assms(2) by auto
  have "2 ^ (w - 1) \<le> uint v \<longleftrightarrow> odd (uint v div 2 ^ (w - 1))"
  proof -
    have "uint v div 2 ^ (w - 1) = 0 \<or> uint v div 2 ^ (w - 1) = 1"
      using assms uint_ge_0 [of v] by auto
    then show ?thesis by (auto simp: zdiv_eq_0_iff) (metis div_pos_pos_trivial not_le uint_ge_0 zero_neq_one)
  qed
  then show ?thesis
    using assms(2) bit_iff_and_push_bit_not_eq_0 [of v "w - 1"] bit_uint_iff [of v "w - 1"] m
    by (auto simp: word_less_def bit_iff_odd)
qed

lemma enum_bits_value:
  assumes "uint bits < 2 ^ repr_bits repr"
  shows "enum_bits_signed bits repr = wrap (repr_bits repr) True (uint bits)"
proof (cases "repr_bits repr = 64")
  case True
  then show ?thesis
    using word_val_mask_extend [of 64 True bits] wrap_word_val [of 64 True bits True]
    by (simp add: enum_bits_signed_def Let_def word_val_def const_mask_extend_def)
next
  case False
  let ?w = "repr_bits repr"
  have w: "?w \<in> {8, 16, 32}" using repr_bits_range [of repr] False by auto
  then have "take_bit ?w bits = bits" using assms by (auto simp: word_uint_eq_iff unsigned_take_bit_eq take_bit_int_eq_self_iff)
  then have "bits AND (push_bit ?w 1 - 1) = bits"
    using w by (auto simp: take_bit_eq_mask mask_eq_exp_minus_1 push_bit_eq_mult)
  then have "const_mask_extend bits ?w True = (if drop_bit 1 (push_bit ?w 1 - 1) < bits then bits OR NOT (push_bit ?w 1 - 1) else bits)"
    using high_bit [OF assms w] w by (auto simp: const_mask_extend_def Let_def)
  then have "enum_bits_signed bits repr = word_val True (const_mask_extend bits ?w True)"
    using False by (simp add: enum_bits_signed_def Let_def word_val_def)
  also have "\<dots> = wrap ?w True (uint bits)"
    using word_val_mask_extend [of ?w True bits] wrap_word_val [of ?w True bits True] w by auto
  finally show ?thesis .
qed

end
