(* ===== verification/FC_PatCode.thy ===== *)
theory FC_PatCode
  imports FC_Verdict FC_CText
begin

section \<open>The C condition of a pattern (\<open>src/codegen.c\<close>)\<close>

text \<open>
  \<open>emit_pat_predicate\<close> prints the condition of a pattern on the C expression of the value: its
  text and whether the next conjunct is the first are returned. The record holds what it reads
  besides: \<open>resolve_struct_stub\<close>, the concrete union a generic instance was given by name
  (\<open>mono_find\<close>) and the type the parser gave the integer literal at a location. No substitution
  is active. The types a checked pattern notes for fields and elements are read off the type.
\<close>

record cg_ctx =
  cg_stub :: "ctype \<Rightarrow> ctype"
  cg_instance :: "string \<Rightarrow> ctype option"
  cg_lit_type :: "src_loc \<Rightarrow> ctype"

definition is_null_sentinel :: "ctype \<Rightarrow> bool" where
  "is_null_sentinel t = (case option_inner t of None \<Rightarrow> False | Some u \<Rightarrow> option_inner_is_null_sentinel u)"

definition union_variant_payload :: "cg_ctx \<Rightarrow> ctype \<Rightarrow> string \<Rightarrow> ctype option" where
  "union_variant_payload cg u variant =
     (case cg_stub cg u of
        TUnion _ un vs _ \<Rightarrow>
          Option.bind
            (find_variant (case cg_instance cg (un_name un) of Some (TUnion _ _ vs' _) \<Rightarrow> vs' | _ \<Rightarrow> vs) variant)
            v_payload
      | _ \<Rightarrow> None)"

definition aggregate_c_name :: "ctype \<Rightarrow> string" where
  "aggregate_c_name t = (case generic_instance_c_name t of None \<Rightarrow> [] | Some n \<Rightarrow> n)"

primrec pattern_has_predicate :: "pattern \<Rightarrow> bool" where
  "pattern_has_predicate (PAT_WILDCARD loc) = False"
| "pattern_has_predicate (PAT_BINDING loc n) = False"
| "pattern_has_predicate (PAT_STRUCT loc fs) = list_ex snd (map (map_prod id pattern_has_predicate) fs)"
| "pattern_has_predicate (PAT_TUPLE loc ps) = list_ex id (map pattern_has_predicate ps)"
| "pattern_has_predicate (PAT_OR loc ps) = list_ex id (map pattern_has_predicate ps)"
| "pattern_has_predicate (PAT_INT_LIT loc x oor neg) = True"
| "pattern_has_predicate (PAT_CHAR_LIT loc c) = True"
| "pattern_has_predicate (PAT_BOOL_LIT loc b) = True"
| "pattern_has_predicate (PAT_STRING_LIT loc s len) = True"
| "pattern_has_predicate (PAT_NONE loc) = True"
| "pattern_has_predicate (PAT_SOME loc q) = True"
| "pattern_has_predicate (PAT_OK loc q) = True"
| "pattern_has_predicate (PAT_ERR loc q) = True"
| "pattern_has_predicate (PAT_CONST_PATH loc parts) = True"
| "pattern_has_predicate (PAT_VARIANT loc n q) = True"
| "pattern_has_predicate (PAT_ERROR loc) = True"

subsection \<open>Conjuncts\<close>

text \<open>
  What is emitted is a list of conjuncts on members of the subject. \<open>place\<close> is the path to a
  member: the expression of the subject and the accesses, outermost last.
\<close>

datatype access =
    Acc_value | Acc_same | Acc_ok | Acc_err
  | Acc_payload string
  | Acc_field string nat
  | Acc_elem nat

fun access_text :: "string \<Rightarrow> access \<Rightarrow> string" where
  "access_text e Acc_value = path_cat e ''.value'' []"
| "access_text e Acc_same = e"
| "access_text e Acc_ok = path_cat e ''.value'' []"
| "access_text e Acc_err = path_cat e ''.err'' []"
| "access_text e (Acc_payload n) = path_cat e (''.'' @ FC_PAYLOAD_MEMBER @ ''.'') (c_safe_ident n)"
| "access_text e (Acc_field n i) = path_cat e ''.'' (c_safe_ident n)"
| "access_text e (Acc_elem i) = path_cat e ''.'' (''e'' @ dec_nat i)"

definition hex2 :: "u8 \<Rightarrow> string" where
  "hex2 c = [hex_char (unat c div 16), hex_char (unat c mod 16)]"

definition char_lit_text :: "u8 \<Rightarrow> string" where
  "char_lit_text c = [squote, backslash] @ ''x'' @ hex2 c @ [squote]"

definition int_lit_text :: "ctype \<Rightarrow> u64 \<Rightarrow> string" where
  "int_lit_text lt v =
     (if kind lt \<in> Prim ` {TYPE_UINT64, TYPE_UINT32, TYPE_UINT16, TYPE_UINT8, TYPE_USIZE}
      then dec_nat (unat v) else dec_int (sint v))"

text \<open>The emitter of one conjunct, and emitters in sequence.\<close>

type_synonym emitter = "bool \<Rightarrow> string \<times> bool"

definition conjunct :: "string \<Rightarrow> emitter" where
  "conjunct s first = ((if first then [] else '' && '') @ s, False)"

definition emit_then :: "emitter \<Rightarrow> emitter \<Rightarrow> emitter" where
  "emit_then f g first = (let (s, first') = f first; (s', first'') = g first' in (s @ s', first''))"

definition emit_none :: emitter where "emit_none first = ([], first)"

definition emit_all :: "emitter list \<Rightarrow> emitter" where
  "emit_all fs = foldr emit_then fs emit_none"

text \<open>The subpattern of a wrapper, if it has one.\<close>

type_synonym pat_emitter = "cg_ctx \<Rightarrow> string \<Rightarrow> ctype \<Rightarrow> emitter"

definition emit_inner :: "pat_emitter option \<Rightarrow> cg_ctx \<Rightarrow> string \<Rightarrow> ctype \<Rightarrow> emitter" where
  "emit_inner q cg e t = (case q of None \<Rightarrow> emit_none | Some f \<Rightarrow> f cg e t)"

definition some_emitter :: "cg_ctx \<Rightarrow> string \<Rightarrow> ctype \<Rightarrow> pat_emitter option \<Rightarrow> emitter" where
  "some_emitter cg e t q =
     (let is_ptr = is_null_sentinel t
      in emit_then (conjunct (if is_ptr then e @ '' != NULL'' else e @ ''.has_value''))
           (case option_inner t of
              None \<Rightarrow> emit_none
            | Some u \<Rightarrow> emit_inner q cg (access_text e (if is_ptr then Acc_same else Acc_value)) u))"

definition ok_emitter :: "cg_ctx \<Rightarrow> string \<Rightarrow> ctype \<Rightarrow> pat_emitter option \<Rightarrow> emitter" where
  "ok_emitter cg e t q =
     emit_then (conjunct (e @ ''.err == 0''))
       (case result_inner t of None \<Rightarrow> emit_none | Some u \<Rightarrow> emit_inner q cg (access_text e Acc_ok) u)"

definition variant_emitter :: "cg_ctx \<Rightarrow> string \<Rightarrow> ctype \<Rightarrow> string \<Rightarrow> pat_emitter option \<Rightarrow> emitter" where
  "variant_emitter cg e t n q =
     (case t of
        TEnum _ en r \<Rightarrow> conjunct (e @ '' == '' @ emit_enum_variant_literal en r n)
      | _ \<Rightarrow>
          emit_then (conjunct (e @ ''.tag == '' @ union_tag_value (aggregate_c_name t) n))
            (case union_variant_payload cg t n of
               None \<Rightarrow> emit_none
             | Some u \<Rightarrow> emit_inner q cg (access_text e (Acc_payload n)) u))"

text \<open>The alternatives of an or-pattern, with whether each has a predicate.\<close>

definition or_emitter :: "(bool \<times> emitter) list \<Rightarrow> emitter" where
  "or_emitter alts =
     (if \<not> list_ex fst alts then emit_none
      else conjunct (''('' @
        concat (map (\<lambda>i. (if 0 < i then '' || '' else []) @ ''('' @
                         (if fst (alts ! i) then fst (snd (alts ! i) True) else ''1'') @ '')'')
          [0..<length alts]) @ '')''))"

definition field_emitter :: "cg_ctx \<Rightarrow> string \<Rightarrow> ctype \<Rightarrow> string \<times> pat_emitter \<Rightarrow> emitter" where
  "field_emitter cg e t nf =
     (case field_index (struct_fields t) (fst nf) of
        None \<Rightarrow> emit_none
      | Some i \<Rightarrow> snd nf cg (access_text e (Acc_field (fst nf) i)) (cg_stub cg (f_type (struct_fields t ! i))))"

primrec emit_pat_predicate :: "pattern \<Rightarrow> pat_emitter" where
  "emit_pat_predicate (PAT_BINDING loc n) cg e t0 = emit_none"
| "emit_pat_predicate (PAT_WILDCARD loc) cg e t0 = emit_none"
| "emit_pat_predicate (PAT_ERROR loc) cg e t0 = emit_none"
| "emit_pat_predicate (PAT_CONST_PATH loc parts) cg e t0 = emit_none"
| "emit_pat_predicate (PAT_INT_LIT loc x oor neg) cg e t0 =
     conjunct (e @ '' == '' @ int_lit_text (cg_lit_type cg loc) x)"
| "emit_pat_predicate (PAT_BOOL_LIT loc b) cg e t0 = conjunct (e @ '' == '' @ (if b then ''true'' else ''false''))"
| "emit_pat_predicate (PAT_CHAR_LIT loc c) cg e t0 =
     conjunct (e @ '' == '' @ char_lit_text c)"
| "emit_pat_predicate (PAT_SOME loc q) cg e t0 =
     some_emitter cg e (cg_stub cg t0) (map_option emit_pat_predicate q)"
| "emit_pat_predicate (PAT_NONE loc) cg e t0 =
     conjunct (if is_null_sentinel (cg_stub cg t0) then e @ '' == NULL'' else ''!'' @ e @ ''.has_value'')"
| "emit_pat_predicate (PAT_OK loc q) cg e t0 = ok_emitter cg e (cg_stub cg t0) (map_option emit_pat_predicate q)"
| "emit_pat_predicate (PAT_ERR loc q) cg e t0 =
     emit_then (conjunct (e @ ''.err != 0'')) (emit_inner (map_option emit_pat_predicate q) cg (access_text e Acc_err) type_int32)"
| "emit_pat_predicate (PAT_VARIANT loc n q) cg e t0 =
     variant_emitter cg e (cg_stub cg t0) n (map_option emit_pat_predicate q)"
| "emit_pat_predicate (PAT_STRUCT loc fs) cg e t0 =
     emit_all (map (field_emitter cg e (cg_stub cg t0)) (map (map_prod id emit_pat_predicate) fs))"
| "emit_pat_predicate (PAT_STRING_LIT loc s len) cg e t0 =
     conjunct (''fc_eq_fc_str('' @ e @ '', (fc_str){(uint8_t*)'' @ [dquote] @ emit_str_lit_body (take len s) @ [dquote] @
               '', '' @ dec_nat (str_lit_len (take len s)) @ ''})'')"
| "emit_pat_predicate (PAT_OR loc ps) cg e t0 =
     or_emitter (zip (map pattern_has_predicate ps) (map (\<lambda>f. f cg e (cg_stub cg t0)) (map emit_pat_predicate ps)))"
| "emit_pat_predicate (PAT_TUPLE loc ps) cg e t0 =
     emit_all (map (\<lambda>(i, f). f cg (access_text e (Acc_elem i)) (cg_stub cg (f_type (struct_fields (cg_stub cg t0) ! i))))
                 (enumerate 0 (map emit_pat_predicate ps)))"

definition emit_pat_conditions :: "pattern \<Rightarrow> cg_ctx \<Rightarrow> string \<Rightarrow> ctype \<Rightarrow> bool \<Rightarrow> string \<times> bool" where
  "emit_pat_conditions p cg e t has_cond =
     (if \<not> pattern_has_predicate p then ([], has_cond)
      else ((if has_cond then '' && '' else ''if ('') @ fst (emit_pat_predicate p cg e t True), True))"

subsection \<open>Conditions as trees\<close>

text \<open>
  The conditions of C that are printed, over accesses to the subject: a comparison with a literal,
  a truth value, the presence tests of options and results (\<open>True\<close> for an option that is a bare
  pointer), an enum value, a union tag, a disjunction of conjunctions.
\<close>

datatype ccond =
    Is_lit "access list" pattern
  | Is_bool "access list" bool
  | Is_some "access list" bool
  | Is_none "access list" bool
  | Is_ok "access list"
  | Is_err "access list"
  | Is_enum "access list" enum_info "ctype option" string
  | Has_tag "access list" string string
  | Any_of "ccond list list"

fun lit_cond :: "cg_ctx \<Rightarrow> string \<Rightarrow> pattern \<Rightarrow> string" where
  "lit_cond cg e (PAT_INT_LIT loc x oor neg) = e @ '' == '' @ int_lit_text (cg_lit_type cg loc) x"
| "lit_cond cg e (PAT_CHAR_LIT loc c) = e @ '' == '' @ char_lit_text c"
| "lit_cond cg e (PAT_STRING_LIT loc s len) =
     ''fc_eq_fc_str('' @ e @ '', (fc_str){(uint8_t*)'' @ [dquote] @ emit_str_lit_body (take len s) @ [dquote] @
     '', '' @ dec_nat (str_lit_len (take len s)) @ ''})''"
| "lit_cond cg e p = []"

definition place_text :: "string \<Rightarrow> access list \<Rightarrow> string" where "place_text e as = foldl access_text e as"

fun join_conds :: "string \<Rightarrow> string list \<Rightarrow> string" where
  "join_conds sep [] = []"
| "join_conds sep (c # cs) = c @ concat (map (\<lambda>d. sep @ d) cs)"

primrec cond_text :: "cg_ctx \<Rightarrow> string \<Rightarrow> ccond \<Rightarrow> string" where
  "cond_text cg e (Is_lit as p) = lit_cond cg (place_text e as) p"
| "cond_text cg e (Is_bool as b) = place_text e as @ '' == '' @ (if b then ''true'' else ''false'')"
| "cond_text cg e (Is_some as ptr) = place_text e as @ (if ptr then '' != NULL'' else ''.has_value'')"
| "cond_text cg e (Is_none as ptr) =
     (if ptr then place_text e as @ '' == NULL'' else ''!'' @ place_text e as @ ''.has_value'')"
| "cond_text cg e (Is_ok as) = place_text e as @ ''.err == 0''"
| "cond_text cg e (Is_err as) = place_text e as @ ''.err != 0''"
| "cond_text cg e (Is_enum as en r n) = place_text e as @ '' == '' @ emit_enum_variant_literal en r n"
| "cond_text cg e (Has_tag as u n) = place_text e as @ ''.tag == '' @ union_tag_value u n"
| "cond_text cg e (Any_of alts) =
     ''('' @ join_conds '' || '' (map (\<lambda>cs. ''('' @ (if cs = [] then ''1'' else join_conds '' && '' cs) @ '')'')
                                  (map (map (cond_text cg e)) alts)) @ '')''"

text \<open>
  Their value on a subject. An option is present, a result is an error, a union has a tag as its
  value says; the error code of an \<open>err\<close> is not zero. Reading the payload of another variant, or
  the value of an absent option, has no value. \<open>&&\<close> and \<open>||\<close> stop at the first operand that decides.
\<close>

fun read_access :: "'a fcval \<Rightarrow> access \<Rightarrow> 'a fcval option" where
  "read_access (V_some w) Acc_value = Some w"
| "read_access (V_some w) Acc_same = Some w"
| "read_access (V_ok w) Acc_ok = Some w"
| "read_access (V_err w) Acc_err = Some w"
| "read_access (V_variant m (Some w)) (Acc_payload n) = (if m = n then Some w else None)"
| "read_access (V_struct ws) (Acc_field n i) = (if i < length ws then Some (ws ! i) else None)"
| "read_access (V_struct ws) (Acc_elem i) = (if i < length ws then Some (ws ! i) else None)"
| "read_access _ _ = None"

definition read_place :: "'a fcval \<Rightarrow> access list \<Rightarrow> 'a fcval option" where
  "read_place v as = foldl (\<lambda>v a. Option.bind v (\<lambda>v. read_access v a)) (Some v) as"

fun eval_all :: "bool option list \<Rightarrow> bool option" where
  "eval_all [] = Some True"
| "eval_all (c # cs) = (if c = Some True then eval_all cs else c)"

fun eval_any :: "bool option list \<Rightarrow> bool option" where
  "eval_any [] = Some False"
| "eval_any (c # cs) = (if c = Some False then eval_any cs else c)"

primrec eval_cond :: "'a literal \<Rightarrow> 'a fcval \<Rightarrow> ccond \<Rightarrow> bool option" where
  "eval_cond lit v (Is_lit as p) = (case read_place v as of Some (V_scalar a) \<Rightarrow> Some (lit p a) | _ \<Rightarrow> None)"
| "eval_cond lit v (Is_bool as b) = (case read_place v as of Some (V_bool c) \<Rightarrow> Some (b = c) | _ \<Rightarrow> None)"
| "eval_cond lit v (Is_some as ptr) =
     (case read_place v as of Some (V_some w) \<Rightarrow> Some True | Some V_none \<Rightarrow> Some False | _ \<Rightarrow> None)"
| "eval_cond lit v (Is_none as ptr) =
     (case read_place v as of Some (V_some w) \<Rightarrow> Some False | Some V_none \<Rightarrow> Some True | _ \<Rightarrow> None)"
| "eval_cond lit v (Is_ok as) =
     (case read_place v as of Some (V_ok w) \<Rightarrow> Some True | Some (V_err w) \<Rightarrow> Some False | _ \<Rightarrow> None)"
| "eval_cond lit v (Is_err as) =
     (case read_place v as of Some (V_ok w) \<Rightarrow> Some False | Some (V_err w) \<Rightarrow> Some True | _ \<Rightarrow> None)"
| "eval_cond lit v (Is_enum as en r n) = (case read_place v as of Some (V_variant m w) \<Rightarrow> Some (n = m) | _ \<Rightarrow> None)"
| "eval_cond lit v (Has_tag as u n) = (case read_place v as of Some (V_variant m w) \<Rightarrow> Some (n = m) | _ \<Rightarrow> None)"
| "eval_cond lit v (Any_of alts) = eval_any (map eval_all (map (map (eval_cond lit v)) alts))"

text \<open>The conditions of a pattern.\<close>

type_synonym compiler = "cg_ctx \<Rightarrow> access list \<Rightarrow> ctype \<Rightarrow> ccond list"

definition inner_conds :: "compiler option \<Rightarrow> cg_ctx \<Rightarrow> access list \<Rightarrow> ctype option \<Rightarrow> ccond list" where
  "inner_conds q cg as t = (case t of None \<Rightarrow> [] | Some t \<Rightarrow> (case q of None \<Rightarrow> [] | Some f \<Rightarrow> f cg as t))"

definition field_conds :: "cg_ctx \<Rightarrow> access list \<Rightarrow> ctype \<Rightarrow> string \<times> compiler \<Rightarrow> ccond list" where
  "field_conds cg as t nf =
     (case field_index (struct_fields t) (fst nf) of
        None \<Rightarrow> []
      | Some i \<Rightarrow> snd nf cg (as @ [Acc_field (fst nf) i]) (cg_stub cg (f_type (struct_fields t ! i))))"

primrec pat_conds :: "pattern \<Rightarrow> compiler" where
  "pat_conds (PAT_BINDING loc n) cg as t0 = []"
| "pat_conds (PAT_WILDCARD loc) cg as t0 = []"
| "pat_conds (PAT_ERROR loc) cg as t0 = []"
| "pat_conds (PAT_CONST_PATH loc parts) cg as t0 = []"
| "pat_conds (PAT_INT_LIT loc x oor neg) cg as t0 = [Is_lit as (PAT_INT_LIT loc x oor neg)]"
| "pat_conds (PAT_BOOL_LIT loc b) cg as t0 = [Is_bool as b]"
| "pat_conds (PAT_CHAR_LIT loc c) cg as t0 = [Is_lit as (PAT_CHAR_LIT loc c)]"
| "pat_conds (PAT_STRING_LIT loc s len) cg as t0 = [Is_lit as (PAT_STRING_LIT loc s len)]"
| "pat_conds (PAT_SOME loc q) cg as t0 =
     (let t = cg_stub cg t0; ptr = is_null_sentinel t
      in Is_some as ptr #
         inner_conds (map_option pat_conds q) cg (as @ [if ptr then Acc_same else Acc_value]) (option_inner t))"
| "pat_conds (PAT_NONE loc) cg as t0 = [Is_none as (is_null_sentinel (cg_stub cg t0))]"
| "pat_conds (PAT_OK loc q) cg as t0 =
     Is_ok as # inner_conds (map_option pat_conds q) cg (as @ [Acc_ok]) (result_inner (cg_stub cg t0))"
| "pat_conds (PAT_ERR loc q) cg as t0 =
     Is_err as # inner_conds (map_option pat_conds q) cg (as @ [Acc_err]) (Some type_int32)"
| "pat_conds (PAT_VARIANT loc n q) cg as t0 =
     (let t = cg_stub cg t0
      in case t of
           TEnum _ en r \<Rightarrow> [Is_enum as en r n]
         | _ \<Rightarrow> Has_tag as (aggregate_c_name t) n #
                inner_conds (map_option pat_conds q) cg (as @ [Acc_payload n]) (union_variant_payload cg t n))"
| "pat_conds (PAT_STRUCT loc fs) cg as t0 =
     concat (map (field_conds cg as (cg_stub cg t0)) (map (map_prod id pat_conds) fs))"
| "pat_conds (PAT_TUPLE loc ps) cg as t0 =
     concat (map (\<lambda>(i, f). f cg (as @ [Acc_elem i]) (cg_stub cg (f_type (struct_fields (cg_stub cg t0) ! i))))
               (enumerate 0 (map pat_conds ps)))"
| "pat_conds (PAT_OR loc ps) cg as t0 =
     (if list_ex id (map pattern_has_predicate ps)
      then [Any_of (map (\<lambda>f. f cg as (cg_stub cg t0)) (map pat_conds ps))] else [])"

subsection \<open>The text is that of the tree\<close>

text \<open>What code generation gets: no malformed pattern and no path is left, no type is an error.\<close>

definition emittable :: "pattern \<Rightarrow> bool" where
  "emittable = pattern_all (\<lambda>p. case p of PAT_CONST_PATH _ _ \<Rightarrow> False | PAT_ERROR _ \<Rightarrow> False | _ \<Rightarrow> True)"

definition error_free :: "(ctype \<Rightarrow> ctype) \<Rightarrow> ctype set \<Rightarrow> bool" where
  "error_free res S \<longleftrightarrow>
     (\<forall>t\<in>S. \<not> is_err (res t) \<and> res t \<in> S \<and> (kind (res t) = TYPE_RESULT \<longrightarrow> type_int32 \<in> S) \<and>
        (\<forall>u. option_inner (res t) = Some u \<or> result_inner (res t) = Some u \<longrightarrow> u \<in> S) \<and>
        (\<forall>f\<in>set (struct_fields (res t)). f_type f \<in> S) \<and>
        (\<forall>n u. variant_payload (res t) n = Some u \<longrightarrow> u \<in> S))"

text \<open>A concrete instance of a union has the variants the checker saw.\<close>

definition instances_agree :: "cg_ctx \<Rightarrow> bool" where
  "instances_agree cg \<longleftrightarrow>
     (\<forall>t i u vs as j u' vs' as'. cg_stub cg t = TUnion i u vs as \<longrightarrow> cg_instance cg (un_name u) = Some (TUnion j u' vs' as') \<longrightarrow>
        vs' = vs)"

lemma emittable_simps [simp]:
  "emittable (PAT_WILDCARD loc)" "emittable (PAT_BINDING loc n)" "emittable (PAT_INT_LIT loc x oor neg)"
  "emittable (PAT_CHAR_LIT loc c)" "emittable (PAT_BOOL_LIT loc b)" "emittable (PAT_STRING_LIT loc s len)"
  "emittable (PAT_NONE loc)" "\<not> emittable (PAT_CONST_PATH loc parts)" "\<not> emittable (PAT_ERROR loc)"
  "emittable (PAT_SOME loc q) \<longleftrightarrow> (\<forall>p\<in>set_option q. emittable p)"
  "emittable (PAT_OK loc q) \<longleftrightarrow> (\<forall>p\<in>set_option q. emittable p)"
  "emittable (PAT_ERR loc q) \<longleftrightarrow> (\<forall>p\<in>set_option q. emittable p)"
  "emittable (PAT_VARIANT loc n q) \<longleftrightarrow> (\<forall>p\<in>set_option q. emittable p)"
  "emittable (PAT_STRUCT loc fs) \<longleftrightarrow> (\<forall>(n, p)\<in>set fs. emittable p)"
  "emittable (PAT_TUPLE loc ps) \<longleftrightarrow> (\<forall>p\<in>set ps. emittable p)"
  "emittable (PAT_OR loc ps) \<longleftrightarrow> (\<forall>p\<in>set ps. emittable p)"
  by (auto simp: emittable_def pred_option_def list_all_iff)

definition conj_emitter :: "string list \<Rightarrow> emitter" where
  "conj_emitter cs first =
     (if cs = [] then ([], first) else ((if first then [] else '' && '') @ join_conds '' && '' cs, False))"

lemma conjunct_emitter: "conjunct s = conj_emitter [s]"
  by (simp add: fun_eq_iff conjunct_def conj_emitter_def)

lemma none_emitter: "emit_none = conj_emitter []"
  by (simp add: fun_eq_iff emit_none_def conj_emitter_def)

lemma join_append: "a \<noteq> [] \<Longrightarrow> b \<noteq> [] \<Longrightarrow> join_conds sep (a @ b) = join_conds sep a @ sep @ join_conds sep b"
  by (cases a; cases b) simp_all

lemma then_emitter: "emit_then (conj_emitter a) (conj_emitter b) = conj_emitter (a @ b)"
  by (auto simp: fun_eq_iff emit_then_def conj_emitter_def join_append)

lemma all_emitter: "(\<And>x. x \<in> set xs \<Longrightarrow> f x = conj_emitter (g x)) \<Longrightarrow> emit_all (map f xs) = conj_emitter (concat (map g xs))"
  by (induction xs) (simp_all add: emit_all_def none_emitter then_emitter)

lemma map_nth_upt: "map (\<lambda>i. h (xs ! i)) [0..<length xs] = map h xs"
  using map_map [of h "nth xs" "[0..<length xs]"] by (simp add: map_nth comp_def)

lemma concat_join:
  "concat (map (\<lambda>i. (if 0 < i then sep else []) @ f (xs ! i)) [0..<length xs]) = join_conds sep (map f xs)"
proof (cases xs)
  case (Cons x ys)
  have "map (\<lambda>i. (if 0 < i then sep else []) @ f (xs ! i)) [0..<Suc (length ys)] =
      f x # map (\<lambda>i. sep @ f (ys ! i)) [0..<length ys]"
    unfolding map_upt_Suc by (simp add: Cons)
  then show ?thesis using Cons map_nth_upt [of "\<lambda>y. sep @ f y" ys] by (simp add: comp_def del: upt_Suc)
qed simp

lemma or_text:
  assumes "\<And>x. x \<in> set xs \<Longrightarrow> em x = conj_emitter (cs x)" "\<And>x. x \<in> set xs \<Longrightarrow> b x \<longleftrightarrow> cs x \<noteq> []"
  shows "or_emitter (map (\<lambda>x. (b x, em x)) xs) = conj_emitter
    (if list_ex b xs then [''('' @ join_conds '' || '' (map (\<lambda>x. ''('' @ (if cs x = [] then ''1'' else join_conds '' && '' (cs x)) @ '')'') xs) @ '')''] else [])"
proof -
  let ?f = "\<lambda>y. ''('' @ (if fst y then fst (snd y True) else ''1'') @ '')''" and ?ys = "map (\<lambda>x. (b x, em x)) xs"
  have "map ?f ?ys = map (\<lambda>x. ''('' @ (if cs x = [] then ''1'' else join_conds '' && '' (cs x)) @ '')'') xs"
    unfolding map_map using assms by (intro map_cong refl) (simp add: conj_emitter_def)
  moreover have "list_ex fst ?ys = list_ex b xs" by (simp add: list_ex_iff)
  moreover have "or_emitter ?ys = (if \<not> list_ex fst ?ys then emit_none else conjunct (''('' @ join_conds '' || '' (map ?f ?ys) @ '')''))"
    by (simp only: or_emitter_def concat_join [of "'' || ''" ?f ?ys])
  ultimately show ?thesis by (simp only: conjunct_emitter none_emitter) simp
qed

lemma place_text_snoc: "place_text e (as @ [a]) = access_text (place_text e as) a"
  by (simp add: place_text_def)

end
