(* ===== verification/FC_PatRun.thy ===== *)
theory FC_PatRun
  imports FC_PatCode
begin

section \<open>The condition of a pattern tests the pattern\<close>

lemma error_free_D:
  assumes "error_free res S" "t \<in> S"
  shows "\<not> is_err (res t)" "res t \<in> S" "option_inner (res t) = Some u \<Longrightarrow> u \<in> S" "result_inner (res t) = Some u \<Longrightarrow> u \<in> S"
    "kind (res t) = TYPE_RESULT \<Longrightarrow> type_int32 \<in> S" "f \<in> set (struct_fields (res t)) \<Longrightarrow> f_type f \<in> S"
    "variant_payload (res t) n = Some u \<Longrightarrow> u \<in> S"
  using assms unfolding error_free_def by blast+

lemma error_free_field:
  assumes "error_free res S" "t \<in> S" "field_index (struct_fields (res t)) n = Some i"
  shows "res (f_type (struct_fields (res t) ! i)) \<in> S"
  using error_free_D [OF assms(1,2)] error_free_D(2) [OF assms(1)] field_index_nth [OF assms(3)] nth_mem by blast

lemma error_free_elem:
  assumes "error_free res S" "t \<in> S" "i < length (struct_fields (res t))"
  shows "res (f_type (struct_fields (res t) ! i)) \<in> S"
  using error_free_D [OF assms(1,2)] error_free_D(2) [OF assms(1)] assms(3) nth_mem by blast

lemma enumerate_map: "map (\<lambda>(i, f). h i f) (enumerate 0 (map g xs)) = map (\<lambda>i. h i (g (xs ! i))) [0..<length xs]"
  by (rule nth_equalityI) (simp_all add: nth_enumerate_eq)

lemma tuple_conds:
  "pat_conds (PAT_TUPLE loc ps) cg as t = concat (map (\<lambda>i. pat_conds (ps ! i) cg (as @ [Acc_elem i])
     (cg_stub cg (f_type (struct_fields (cg_stub cg t) ! i)))) [0..<length ps])"
  by (simp add: enumerate_map)

lemma conds_predicate:
  assumes ok: "resolver_ok (cg_stub cg)" and free: "error_free (cg_stub cg) S"
    and "t \<in> S" "pat_ok p (cg_stub cg) t" "emittable p"
  shows "pat_conds p cg as t \<noteq> [] \<longleftrightarrow> pattern_has_predicate p"
  using assms(3-)
proof (induction p arbitrary: as t)
  case (PAT_VARIANT loc n q)
  show ?case by (simp add: Let_def split: ctype.splits)
next
  case (PAT_STRUCT loc fs)
  let ?res = "cg_stub cg" and ?t = "cg_stub cg t"
  have "field_conds cg as ?t (n, pat_conds p) \<noteq> [] \<longleftrightarrow> pattern_has_predicate p" if mem: "(n, p) \<in> set fs" for n p
  proof -
    obtain i where i: "field_index (struct_fields ?t) n = Some i" "pat_ok p ?res (f_type (struct_fields ?t ! i))"
      using PAT_STRUCT.prems(2) mem error_free_D(1) [OF free PAT_STRUCT.prems(1)] unfolding struct_pat_ok by fastforce
    then show ?thesis
      using PAT_STRUCT.IH [OF mem, of p "?res (f_type (struct_fields ?t ! i))"] mem PAT_STRUCT.prems(3)
        error_free_field [OF free PAT_STRUCT.prems(1) i(1)]
      by (auto simp: field_conds_def pat_ok_resolved [OF ok])
  qed
  then show ?case by (force simp: list_ex_iff)
next
  case (PAT_TUPLE loc ps)
  let ?res = "cg_stub cg" and ?t = "cg_stub cg t"
  have len: "length ps = length (struct_fields ?t)" and all: "\<And>i. i < length ps \<Longrightarrow> pat_ok (ps ! i) ?res (f_type (struct_fields ?t ! i))"
    using PAT_TUPLE.prems(2) error_free_D(1) [OF free PAT_TUPLE.prems(1)] by (auto simp: list_all2_conv_all_nth)
  have "pat_conds (ps ! i) cg (as @ [Acc_elem i]) (?res (f_type (struct_fields ?t ! i))) \<noteq> [] \<longleftrightarrow> pattern_has_predicate (ps ! i)"
    if "i < length ps" for i
    using PAT_TUPLE.IH [of "ps ! i" "?res (f_type (struct_fields ?t ! i))"] that all [OF that] PAT_TUPLE.prems(3) len
      error_free_elem [OF free PAT_TUPLE.prems(1), of i]
    by (simp add: pat_ok_resolved [OF ok])
  then have "(\<exists>i<length ps. pattern_has_predicate (ps ! i)) \<longleftrightarrow> pat_conds (PAT_TUPLE loc ps) cg as t \<noteq> []"
    unfolding tuple_conds by (auto simp: concat_eq_Nil_conv)
  then show ?case by (auto simp: list_ex_length simp del: pat_conds.simps)
next
  case (PAT_OR loc ps)
  then show ?case by simp
qed (simp_all add: Let_def)

subsection \<open>Text\<close>

abbreviation "text_of cg e cs \<equiv> conj_emitter (map (cond_text cg e) cs)"

lemma emit_inner_text:
  assumes "\<And>p u. p \<in> set_option q \<Longrightarrow> t = Some u \<Longrightarrow>
      emit_pat_predicate p cg (place_text e (as @ [a])) u = text_of cg e (pat_conds p cg (as @ [a]) u)"
  shows "(case t of None \<Rightarrow> emit_none | Some u \<Rightarrow> emit_inner (map_option emit_pat_predicate q) cg (access_text (place_text e as) a) u) =
    text_of cg e (inner_conds (map_option pat_conds q) cg (as @ [a]) t)"
  using assms
  by (cases t; cases q) (auto simp: emit_inner_def inner_conds_def none_emitter place_text_snoc)

lemma pat_ok_prim:
  "res t = TPrim i k \<Longrightarrow> res u = TPrim j k \<Longrightarrow> pat_ok p res t = pat_ok p res u"
  by (induction p) (simp_all add: taken_apart_def is_err_def option_inner_def result_inner_def list_all_iff)

lemma res_prim: "resolver_ok res \<Longrightarrow> res (TPrim i k) = TPrim i k"
  by (simp add: resolver_ok_def)

lemma pat_ok_code: "resolver_ok res \<Longrightarrow> pat_ok p res type_error_code = pat_ok p res type_int32"
  using pat_ok_prim [of res type_error_code "tinf type_error_code" TYPE_INT32 type_int32 plain p]
  by (simp add: res_prim type_error_code_def type_int32_def)

lemma payload_same:
  assumes "resolver_ok (cg_stub cg)" "instances_agree cg" "cg_stub cg t = TUnion i u vs as"
  shows "union_variant_payload cg (TUnion i u vs as) n = variant_payload (TUnion i u vs as) n"
proof -
  have "cg_stub cg (TUnion i u vs as) = TUnion i u vs as" using res_idem [OF assms(1), of t] assms(3) by simp
  moreover have "(case cg_instance cg (un_name u) of Some (TUnion _ _ vs' _) \<Rightarrow> vs' | _ \<Rightarrow> vs) = vs"
    using assms(2,3) unfolding instances_agree_def by (force split: option.splits ctype.splits)
  ultimately show ?thesis by (simp add: union_variant_payload_def variant_payload_def find_variant_def split: option.splits)
qed

lemma emit_text:
  assumes ok: "resolver_ok (cg_stub cg)" and free: "error_free (cg_stub cg) S" and same: "instances_agree cg"
    and "t \<in> S" "pat_ok p (cg_stub cg) t" "emittable p"
  shows "emit_pat_predicate p cg (place_text e as) t = text_of cg e (pat_conds p cg as t)"
  using assms(4-)
proof (induction p arbitrary: as t)
  case (PAT_SOME loc q)
  let ?t = "cg_stub cg t" and ?ptr = "is_null_sentinel (cg_stub cg t)"
  have sub: "emit_pat_predicate p cg (place_text e as') u = text_of cg e (pat_conds p cg as' u)"
    if "p \<in> set_option q" "option_inner ?t = Some u" for p u as'
    using PAT_SOME that error_free_D [OF free PAT_SOME.prems(1)] by (auto simp: sub_ok_iff)
  show ?case
    using emit_inner_text [of q "option_inner ?t" cg e as "if ?ptr then Acc_same else Acc_value", OF sub]
    by (simp add: some_emitter_def Let_def conjunct_emitter then_emitter)
next
  case (PAT_OK loc q)
  let ?t = "cg_stub cg t"
  have sub: "emit_pat_predicate p cg (place_text e as') u = text_of cg e (pat_conds p cg as' u)"
    if "p \<in> set_option q" "result_inner ?t = Some u" for p u as'
    using PAT_OK that error_free_D [OF free PAT_OK.prems(1)] by (auto simp: sub_ok_iff)
  show ?case
    using emit_inner_text [of q "result_inner ?t" cg e as Acc_ok, OF sub]
    by (simp add: ok_emitter_def Let_def conjunct_emitter then_emitter)
next
  case (PAT_ERR loc q)
  have sub: "emit_pat_predicate p cg (place_text e as') u = text_of cg e (pat_conds p cg as' u)"
    if "p \<in> set_option q" "Some type_int32 = Some u" for p u as'
    using PAT_ERR that error_free_D [OF free PAT_ERR.prems(1)] by (auto simp: sub_ok_iff pat_ok_code [OF ok])
  show ?case
    using emit_inner_text [of q "Some type_int32" cg e as Acc_err, OF sub]
    by (simp add: conjunct_emitter then_emitter)
next
  case (PAT_VARIANT loc n q)
  show ?case
  proof (cases "cg_stub cg t")
    case (TUnion i u vs args)
    let ?u = "union_variant_payload cg (cg_stub cg t) n"
    have pay: "?u = variant_payload (cg_stub cg t) n" using payload_same [OF ok same TUnion] TUnion by simp
    have sub: "emit_pat_predicate p cg (place_text e as') w = text_of cg e (pat_conds p cg as' w)"
      if "p \<in> set_option q" "?u = Some w" for p w as'
    proof -
      have "w \<in> S" using that(2) pay error_free_D(7) [OF free PAT_VARIANT.prems(1)] by simp
      moreover have "pat_ok p (cg_stub cg) w"
        using that PAT_VARIANT.prems(2) TUnion pay
        by (auto simp: variant_payload_def find_variant_def option_rel_Some1 is_err_def split: option.splits)
      ultimately show ?thesis using PAT_VARIANT.IH [of p] PAT_VARIANT.prems(3) that(1) by (cases q) auto
    qed
    show ?thesis
      using emit_inner_text [of q ?u cg e as "Acc_payload n", OF sub] TUnion
      by (simp add: variant_emitter_def Let_def conjunct_emitter then_emitter)
  next
    case (TEnum i en r)
    then show ?thesis by (simp add: variant_emitter_def conjunct_emitter)
  qed (use PAT_VARIANT.prems(2) error_free_D(1) [OF free PAT_VARIANT.prems(1)] in \<open>auto simp: is_err_def\<close>)
next
  case (PAT_STRUCT loc fs)
  let ?res = "cg_stub cg" and ?t = "cg_stub cg t"
  have "field_emitter cg (place_text e as) ?t (n, emit_pat_predicate p) = text_of cg e (field_conds cg as ?t (n, pat_conds p))"
    if mem: "(n, p) \<in> set fs" for n p
  proof -
    obtain i where i: "field_index (struct_fields ?t) n = Some i" "pat_ok p ?res (f_type (struct_fields ?t ! i))"
      using PAT_STRUCT.prems(2) mem error_free_D(1) [OF free PAT_STRUCT.prems(1)] unfolding struct_pat_ok by fastforce
    then show ?thesis
      using PAT_STRUCT.IH [OF mem, of p "?res (f_type (struct_fields ?t ! i))" "as @ [Acc_field n i]"] mem
        PAT_STRUCT.prems(3) error_free_field [OF free PAT_STRUCT.prems(1) i(1)]
      by (auto simp: field_emitter_def field_conds_def pat_ok_resolved [OF ok] place_text_snoc)
  qed
  then have "field_emitter cg (place_text e as) ?t (map_prod id emit_pat_predicate f) =
      text_of cg e (field_conds cg as ?t (map_prod id pat_conds f))" if "f \<in> set fs" for f
    using that by (cases f) auto
  then show ?case
    using all_emitter [of fs "\<lambda>f. field_emitter cg (place_text e as) ?t (map_prod id emit_pat_predicate f)"
        "\<lambda>f. map (cond_text cg e) (field_conds cg as ?t (map_prod id pat_conds f))"]
    by (simp add: comp_def map_concat split_beta)
next
  case (PAT_TUPLE loc ps)
  let ?res = "cg_stub cg" and ?t = "cg_stub cg t"
  have len: "length ps = length (struct_fields ?t)" and all: "\<And>i. i < length ps \<Longrightarrow> pat_ok (ps ! i) ?res (f_type (struct_fields ?t ! i))"
    using PAT_TUPLE.prems(2) error_free_D(1) [OF free PAT_TUPLE.prems(1)] by (auto simp: list_all2_conv_all_nth)
  have "emit_pat_predicate (ps ! i) cg (access_text (place_text e as) (Acc_elem i)) (?res (f_type (struct_fields ?t ! i))) =
      text_of cg e (pat_conds (ps ! i) cg (as @ [Acc_elem i]) (?res (f_type (struct_fields ?t ! i))))"
    if "i < length ps" for i
    using PAT_TUPLE.IH [of "ps ! i" "?res (f_type (struct_fields ?t ! i))" "as @ [Acc_elem i]"] that all [OF that]
      PAT_TUPLE.prems(3) len error_free_elem [OF free PAT_TUPLE.prems(1), of i]
    by (simp add: pat_ok_resolved [OF ok] place_text_snoc)
  then show ?case
    using all_emitter [of "[0..<length ps]"
        "\<lambda>i. emit_pat_predicate (ps ! i) cg (access_text (place_text e as) (Acc_elem i)) (?res (f_type (struct_fields ?t ! i)))"
        "\<lambda>i. map (cond_text cg e) (pat_conds (ps ! i) cg (as @ [Acc_elem i]) (?res (f_type (struct_fields ?t ! i))))"]
    unfolding tuple_conds by (simp add: enumerate_map map_concat comp_def del: access_text.simps)
next
  case (PAT_OR loc ps)
  let ?t = "cg_stub cg t"
  have alt: "emit_pat_predicate p cg (place_text e as) ?t = text_of cg e (pat_conds p cg as ?t)"
    "pattern_has_predicate p \<longleftrightarrow> map (cond_text cg e) (pat_conds p cg as ?t) \<noteq> []"
    if "p \<in> set ps" for p
  proof -
    have p: "pat_ok p (cg_stub cg) ?t" "emittable p" "?t \<in> S"
      using that PAT_OR.prems error_free_D [OF free PAT_OR.prems(1)] by (auto simp: list_all_iff pat_ok_resolved [OF ok])
    show "emit_pat_predicate p cg (place_text e as) ?t = text_of cg e (pat_conds p cg as ?t)"
      by (rule PAT_OR.IH [OF that p(3,1,2)])
    show "pattern_has_predicate p \<longleftrightarrow> map (cond_text cg e) (pat_conds p cg as ?t) \<noteq> []"
      using conds_predicate [OF ok free p(3,1,2)] by simp
  qed
  show ?case
    using or_text [of ps "\<lambda>p. emit_pat_predicate p cg (place_text e as) ?t" "\<lambda>p. map (cond_text cg e) (pat_conds p cg as ?t)"
        pattern_has_predicate, OF alt]
    by (simp add: zip_map_map zip_same_conv_map list_ex_iff comp_def)
qed (simp_all add: conjunct_emitter none_emitter)


subsection \<open>Value\<close>

lemma eval_all_append:
  "eval_all (as @ bs) = (if eval_all as = Some True then eval_all bs else eval_all as)"
  by (induction as) auto

lemma eval_all_concat:
  "(\<And>x. x \<in> set xs \<Longrightarrow> eval_all (f x) = Some (b x)) \<Longrightarrow> eval_all (concat (map f xs)) = Some (\<forall>x\<in>set xs. b x)"
  by (induction xs) (auto simp: eval_all_append)

lemma eval_any_some:
  "(\<And>x. x \<in> set xs \<Longrightarrow> f x = Some (b x)) \<Longrightarrow> eval_any (map f xs) = Some (\<exists>x\<in>set xs. b x)"
  by (induction xs) auto

lemma read_place_snoc: "read_place v (as @ [a]) = Option.bind (read_place v as) (\<lambda>v. read_access v a)"
  by (simp add: read_place_def)

lemma pmatch_prim:
  "res t = TPrim i k \<Longrightarrow> res u = TPrim j k \<Longrightarrow> pmatch p lit res t v = pmatch p lit res u v"
  by (induction p) (simp_all add: option_inner_def result_inner_def variant_payload_def struct_fields_def
      pmatch.simps list_ex_iff split: fcval.splits option.splits)

lemma pmatch_code: "resolver_ok res \<Longrightarrow> pmatch p lit res type_error_code v = pmatch p lit res type_int32 v"
  using pmatch_prim [of res type_error_code "tinf type_error_code" TYPE_INT32 type_int32 plain p]
  by (simp add: res_prim type_error_code_def type_int32_def)

abbreviation "value_conds lit v cs \<equiv> eval_all (map (eval_cond lit v) cs)"

lemma inner_value:
  assumes "\<And>p. p \<in> set_option q \<Longrightarrow> value_conds lit v0 (pat_conds p cg as u) = Some (pmatch p lit res u w)"
  shows "value_conds lit v0 (inner_conds (map_option pat_conds q) cg as (Some u)) =
    Some (sub_matches (map_option pmatch q) lit res (Some u) w)"
  using assms by (cases q) (simp_all add: inner_conds_def sub_matches_def)

lemma conds_value:
  fixes v :: "'a fcval"
  assumes ok: "resolver_ok (cg_stub cg)" and free: "error_free (cg_stub cg) S" and same: "instances_agree cg"
    and "t \<in> S" "pat_ok p (cg_stub cg) t" "emittable p" "value_of v (cg_stub cg) t" "read_place v0 as = Some v"
    and "alts_ok p"
  shows "value_conds lit v0 (pat_conds p cg as t) = Some (pmatch p lit (cg_stub cg) t v)"
  using assms(4-)
proof (induction p arbitrary: as t v)
  case (PAT_SOME loc q)
  let ?t = "cg_stub cg t" and ?a = "if is_null_sentinel (cg_stub cg t) then Acc_same else Acc_value"
  obtain i u where t: "?t = TOption i u" and q: "\<forall>p\<in>set_option q. pat_ok p (cg_stub cg) u"
    using PAT_SOME.prems(2) error_free_D(1) [OF free PAT_SOME.prems(1)] by (auto simp: option_inner_Some sub_ok_iff)
  have u: "u \<in> S" using error_free_D(3) [OF free PAT_SOME.prems(1)] t by (simp add: option_inner_def)
  from value_option [of "cg_stub cg" t, OF t, THEN iffD1, OF PAT_SOME.prems(4)] show ?case
  proof
    assume v: "v = V_none"
    then show ?case using PAT_SOME.prems(5) by (simp add: Let_def pmatch.simps)
  next
    assume "\<exists>w. v = V_some w \<and> value_of w (cg_stub cg) u"
    then obtain w where w: "v = V_some w" "value_of w (cg_stub cg) u" by blast
    have "read_place v0 (as @ [?a]) = Some w" using PAT_SOME.prems(5) w(1) by (simp add: read_place_snoc)
    then have "value_conds lit v0 (pat_conds p cg (as @ [?a]) u) = Some (pmatch p lit (cg_stub cg) u w)"
      if "p \<in> set_option q" for p
      using PAT_SOME.IH [of p] PAT_SOME.prems(6) that u q PAT_SOME.prems(3) w(2) by simp
    from inner_value [of q, OF this] show ?case
      using PAT_SOME.prems(5) w(1) t by (simp add: Let_def pmatch.simps option_inner_def)
  qed
next
  case (PAT_OK loc q)
  let ?t = "cg_stub cg t"
  obtain i u where t: "?t = TResult i u" and q: "\<forall>p\<in>set_option q. pat_ok p (cg_stub cg) u"
    using PAT_OK.prems(2) error_free_D(1) [OF free PAT_OK.prems(1)] by (auto simp: result_inner_Some sub_ok_iff)
  have u: "u \<in> S" using error_free_D(4) [OF free PAT_OK.prems(1)] t by (simp add: result_inner_def)
  from value_result [of "cg_stub cg" t, OF t, THEN iffD1, OF PAT_OK.prems(4)] show ?case
  proof
    assume "\<exists>w. v = V_ok w \<and> value_of w (cg_stub cg) u"
    then obtain w where w: "v = V_ok w" "value_of w (cg_stub cg) u" by blast
    have "read_place v0 (as @ [Acc_ok]) = Some w" using PAT_OK.prems(5) w(1) by (simp add: read_place_snoc)
    then have "value_conds lit v0 (pat_conds p cg (as @ [Acc_ok]) u) = Some (pmatch p lit (cg_stub cg) u w)"
      if "p \<in> set_option q" for p
      using PAT_OK.IH [of p] PAT_OK.prems(6) that u q PAT_OK.prems(3) w(2) by simp
    from inner_value [of q, OF this] show ?case
      using PAT_OK.prems(5) w(1) t by (simp add: pmatch.simps result_inner_def)
  qed (use PAT_OK.prems(5) in \<open>auto simp: pmatch.simps\<close>)
next
  case (PAT_ERR loc q)
  let ?t = "cg_stub cg t"
  obtain i u where t: "?t = TResult i u" and q: "\<forall>p\<in>set_option q. pat_ok p (cg_stub cg) type_int32"
    using PAT_ERR.prems(2) error_free_D(1) [OF free PAT_ERR.prems(1)] by (auto simp: sub_ok_iff pat_ok_code [OF ok])
  have u: "type_int32 \<in> S" using error_free_D(5) [OF free PAT_ERR.prems(1)] t by simp
  from value_result [of "cg_stub cg" t, OF t, THEN iffD1, OF PAT_ERR.prems(4)] show ?case
  proof
    assume "\<exists>w. v = V_err w \<and> value_of w (cg_stub cg) type_int32"
    then obtain w where w: "v = V_err w" "value_of w (cg_stub cg) type_int32" by blast
    have "read_place v0 (as @ [Acc_err]) = Some w" using PAT_ERR.prems(5) w(1) by (simp add: read_place_snoc)
    then have "value_conds lit v0 (pat_conds p cg (as @ [Acc_err]) type_int32) = Some (pmatch p lit (cg_stub cg) type_int32 w)"
      if "p \<in> set_option q" for p
      using PAT_ERR.IH [of p] PAT_ERR.prems(6) that u q PAT_ERR.prems(3) w(2) by simp
    from inner_value [of q, OF this] show ?case
      using PAT_ERR.prems(5) w(1) by (cases q) (simp_all add: pmatch.simps sub_matches_def pmatch_code [OF ok])
  qed (use PAT_ERR.prems(5) in \<open>auto simp: pmatch.simps\<close>)
next
  case (PAT_NONE loc)
  then obtain i u where "cg_stub cg t = TOption i u" using error_free_D(1) [OF free PAT_NONE.prems(1)] by auto
  then have "v = V_none \<or> (\<exists>w. v = V_some w)" using value_option [of "cg_stub cg" t i u v] PAT_NONE.prems(4) by auto
  then show ?case using PAT_NONE.prems(5) by (auto simp: pmatch.simps)
next
  case (PAT_BOOL_LIT loc b)
  then obtain i where "cg_stub cg t = TPrim i TYPE_BOOL" using error_free_D(1) [OF free PAT_BOOL_LIT.prems(1)] by auto
  then have "\<exists>c. v = V_bool c" using value_bool [of "cg_stub cg" t i v] PAT_BOOL_LIT.prems(4) by simp
  then show ?case using PAT_BOOL_LIT.prems(5) by (auto simp: pmatch.simps)
next
  case (PAT_VARIANT loc n q)
  show ?case
  proof (cases "cg_stub cg t")
    case (TEnum i en r)
    then obtain m where "v = V_variant m None" using value_enum [of "cg_stub cg" t i en r v] PAT_VARIANT.prems(4) by blast
    moreover have "q = None" using PAT_VARIANT.prems(2) TEnum by (auto simp: is_err_def)
    ultimately show ?thesis using TEnum PAT_VARIANT.prems(5) by (simp add: pmatch.simps)
  next
    case (TUnion i u vs args)
    have d: "distinct (map v_name vs)" using res_union [of "cg_stub cg" t, OF ok TUnion] .
    have pay: "union_variant_payload cg (TUnion i u vs args) n = variant_payload (TUnion i u vs args) n"
      by (rule payload_same [OF ok same TUnion])
    obtain x w where x: "x \<in> set vs" "v = V_variant (v_name x) w"
      "rel_option (\<lambda>f u. f (cg_stub cg) u) (map_option value_of w) (v_payload x)"
      using value_union [of "cg_stub cg" t, OF TUnion, THEN iffD1, OF PAT_VARIANT.prems(4)] by blast
    obtain y where y: "find_variant vs n = Some y" "rel_option (\<lambda>f u. f (cg_stub cg) u) (map_option pat_ok q) (v_payload y)"
      using PAT_VARIANT.prems(2) TUnion by (auto simp: is_err_def)
    have vp: "variant_payload (TUnion i u vs args) n = v_payload y"
      using y(1) by (simp add: variant_payload_def find_variant_def)
    show ?thesis
    proof (cases "n = v_name x")
      case False
      then show ?thesis using TUnion x(2) PAT_VARIANT.prems(5) by (simp add: pmatch.simps Let_def)
    next
      case True
      then have "y = x" using find_variant_mem [OF d x(1)] y(1) by simp
      show ?thesis
      proof (cases w)
        case None
        then have "v_payload x = None" using x(3) by (cases "v_payload x") auto
        then show ?thesis using None TUnion x(2) y(2) \<open>y = x\<close> PAT_VARIANT.prems(5) pay vp
          by (cases q) (simp_all add: pmatch.simps Let_def inner_conds_def)
      next
        case (Some w')
        then obtain t' where t': "v_payload x = Some t'" "value_of w' (cg_stub cg) t'"
          using x(3) by (cases "v_payload x") auto
        have S: "t' \<in> S" using error_free_D(7) [OF free PAT_VARIANT.prems(1)] TUnion vp t'(1) \<open>y = x\<close> by simp
        have "read_place v0 (as @ [Acc_payload n]) = Some w'"
          using PAT_VARIANT.prems(5) x(2) Some True by (simp add: read_place_snoc)
        then have "value_conds lit v0 (pat_conds p cg (as @ [Acc_payload n]) t') = Some (pmatch p lit (cg_stub cg) t' w')"
          if "p \<in> set_option q" for p
          using PAT_VARIANT.IH [of p] PAT_VARIANT.prems(6) that S y(2) t' \<open>y = x\<close> PAT_VARIANT.prems(3) by simp
        from inner_value [of q, OF this] show ?thesis
          using PAT_VARIANT.prems(5) x(2) Some True TUnion t'(1) pay vp \<open>y = x\<close> by (simp add: pmatch.simps Let_def)
      qed
    qed
  qed (use PAT_VARIANT.prems(2) error_free_D(1) [OF free PAT_VARIANT.prems(1)] in \<open>auto simp: is_err_def\<close>)
next
  case (PAT_OR loc ps)
  let ?t = "cg_stub cg t"
  have alt: "value_conds lit v0 (pat_conds p cg as ?t) = Some (pmatch p lit (cg_stub cg) t v)"
    and none: "pat_conds p cg as ?t \<noteq> [] \<longleftrightarrow> pattern_has_predicate p" if "p \<in> set ps" for p
  proof -
    have p: "pat_ok p (cg_stub cg) ?t" "emittable p" "?t \<in> S" "value_of v (cg_stub cg) ?t" "alts_ok p"
      using that PAT_OR.prems error_free_D [OF free PAT_OR.prems(1)]
      by (auto simp: list_all_iff pat_ok_resolved [OF ok] value_of_resolved [OF ok])
    show "value_conds lit v0 (pat_conds p cg as ?t) = Some (pmatch p lit (cg_stub cg) t v)"
      using PAT_OR.IH [OF that p(3,1,2,4) PAT_OR.prems(5) p(5)] by (simp add: pmatch_resolved [OF ok])
    show "pat_conds p cg as ?t \<noteq> [] \<longleftrightarrow> pattern_has_predicate p" by (rule conds_predicate [OF ok free p(3,1,2)])
  qed
  show ?case
  proof (cases "\<exists>p\<in>set ps. pattern_has_predicate p")
    case True
    have "eval_any (map (\<lambda>p. value_conds lit v0 (pat_conds p cg as ?t)) ps) = Some (\<exists>p\<in>set ps. pmatch p lit (cg_stub cg) t v)"
      by (rule eval_any_some) (rule alt)
    then show ?thesis using True by (simp add: pmatch.simps list_ex_iff comp_def)
  next
    case False
    obtain p where p: "p \<in> set ps" using PAT_OR.prems(6) by (cases ps) auto
    then have "pmatch p lit (cg_stub cg) t v" using False none [OF p] alt [OF p] by auto
    then show ?thesis using False p by (auto simp: pmatch.simps list_ex_iff)
  qed
next
  case (PAT_STRUCT loc fs)
  let ?res = "cg_stub cg" and ?t = "cg_stub cg t"
  obtain i s fds args where t: "?t = TStruct i s fds args"
    using PAT_STRUCT.prems(2) error_free_D(1) [OF free PAT_STRUCT.prems(1)] by (auto simp: kind_struct)
  obtain ws where ws: "v = V_struct ws" "list_all2 (\<lambda>w f. value_of w ?res (f_type f)) ws fds"
    using value_struct [of ?res t, OF t, THEN iffD1, OF PAT_STRUCT.prems(4)] by blast
  have fds: "struct_fields ?t = fds" using t by (simp add: struct_fields_def)
  have sub: "value_conds lit v0 (field_conds cg as ?t (map_prod id pat_conds f)) =
      Some (\<exists>i. field_index fds (fst f) = Some i \<and> i < length ws \<and> pmatch (snd f) lit ?res (f_type (fds ! i)) (ws ! i))"
    if mem: "f \<in> set fs" for f
  proof -
    obtain n p where f: "f = (n, p)" by force
    obtain j where j: "field_index fds n = Some j" "pat_ok p ?res (f_type (fds ! j))"
      using PAT_STRUCT.prems(2) mem f error_free_D(1) [OF free PAT_STRUCT.prems(1)] unfolding struct_pat_ok fds by fastforce
    let ?u = "?res (f_type (fds ! j))"
    have "j < length ws" using field_index_nth [OF j(1)] ws(2) by (simp add: list_all2_lengthD)
    then have "read_place v0 (as @ [Acc_field n j]) = Some (ws ! j)" "value_of (ws ! j) ?res ?u"
      using PAT_STRUCT.prems(5) ws by (simp_all add: read_place_snoc list_all2_conv_all_nth value_of_resolved [OF ok])
    then have "value_conds lit v0 (pat_conds p cg (as @ [Acc_field n j]) ?u) = Some (pmatch p lit ?res ?u (ws ! j))"
      using PAT_STRUCT.IH [of f p ?u "ws ! j" "as @ [Acc_field n j]"] mem f PAT_STRUCT.prems(3,6) j(2)
        error_free_field [OF free PAT_STRUCT.prems(1), unfolded fds, OF j(1)]
      by (auto simp: pat_ok_resolved [OF ok])
    then show ?thesis using f j(1) fds \<open>j < length ws\<close> by (simp add: field_conds_def pmatch_resolved [OF ok])
  qed
  have "value_conds lit v0 (pat_conds (PAT_STRUCT loc fs) cg as t) =
      eval_all (concat (map (\<lambda>f. map (eval_cond lit v0) (field_conds cg as ?t (map_prod id pat_conds f))) fs))"
    by (simp add: map_concat comp_def)
  also have "\<dots> = Some (\<forall>f\<in>set fs. \<exists>i. field_index fds (fst f) = Some i \<and> i < length ws \<and>
      pmatch (snd f) lit ?res (f_type (fds ! i)) (ws ! i))"
    by (rule eval_all_concat) (rule sub)
  finally show ?case unfolding ws(1) struct_pmatch fds by (simp add: split_beta)
next
  case (PAT_TUPLE loc ps)
  let ?res = "cg_stub cg" and ?t = "cg_stub cg t"
  obtain i s fds args where t: "?t = TStruct i s fds args"
    using PAT_TUPLE.prems(2) error_free_D(1) [OF free PAT_TUPLE.prems(1)] by (auto simp: kind_struct)
  obtain ws where ws: "v = V_struct ws" "list_all2 (\<lambda>w f. value_of w ?res (f_type f)) ws fds"
    using value_struct [of ?res t, OF t, THEN iffD1, OF PAT_TUPLE.prems(4)] by blast
  have fds: "struct_fields ?t = fds" using t by (simp add: struct_fields_def)
  have len: "length ps = length fds" "length ws = length fds" and all: "\<And>i. i < length ps \<Longrightarrow> pat_ok (ps ! i) ?res (f_type (fds ! i))"
    using PAT_TUPLE.prems(2) error_free_D(1) [OF free PAT_TUPLE.prems(1)] fds ws(2) by (auto simp: list_all2_conv_all_nth)
  have sub: "value_conds lit v0 (pat_conds (ps ! i) cg (as @ [Acc_elem i]) (?res (f_type (fds ! i)))) =
      Some (pmatch (ps ! i) lit ?res (f_type (fds ! i)) (ws ! i))" if "i \<in> set [0..<length ps]" for i
  proof -
    have i: "i < length ps" using that by simp
    let ?u = "?res (f_type (fds ! i))"
    have "read_place v0 (as @ [Acc_elem i]) = Some (ws ! i)" "value_of (ws ! i) ?res ?u"
      using PAT_TUPLE.prems(5) ws i len by (simp_all add: read_place_snoc list_all2_conv_all_nth value_of_resolved [OF ok])
    then show ?thesis
      using PAT_TUPLE.IH [of "ps ! i" ?u "ws ! i" "as @ [Acc_elem i]"] i PAT_TUPLE.prems(3,6) all [OF i] len
        error_free_elem [OF free PAT_TUPLE.prems(1), of i, unfolded fds]
      by (simp add: pat_ok_resolved [OF ok] pmatch_resolved [OF ok])
  qed
  have "value_conds lit v0 (pat_conds (PAT_TUPLE loc ps) cg as t) =
      eval_all (concat (map (\<lambda>i. map (eval_cond lit v0) (pat_conds (ps ! i) cg (as @ [Acc_elem i]) (?res (f_type (fds ! i))))) [0..<length ps]))"
    unfolding tuple_conds fds by (simp add: map_concat comp_def)
  also have "\<dots> = Some (\<forall>i\<in>set [0..<length ps]. pmatch (ps ! i) lit ?res (f_type (fds ! i)) (ws ! i))"
    by (rule eval_all_concat) (rule sub)
  finally show ?case unfolding ws(1) tuple_pmatch fds using len by auto
next
  case (PAT_INT_LIT loc x oor neg)
  then show ?case using value_atom [of "cg_stub cg" t v] by (cases v) (simp_all add: pmatch.simps is_lit_def)
next
  case (PAT_CHAR_LIT loc c)
  then show ?case using value_atom [of "cg_stub cg" t v] by (cases v) (simp_all add: pmatch.simps is_lit_def)
next
  case (PAT_STRING_LIT loc s len)
  then show ?case using value_atom [of "cg_stub cg" t v] by (cases v) (simp_all add: pmatch.simps is_lit_def)
qed (simp_all add: pmatch.simps)

end
