(* ===== verification/FC_MatchCode.thy ===== *)
theory FC_MatchCode
  imports FC_PatRun
begin

section \<open>The code of a match (\<open>emit_match\<close> of \<open>src/codegen.c\<close>)\<close>

text \<open>
  The text of a match: the subject goes into a temporary, then an \<open>if\<close> chain over the conditions of
  the arms picks one. The texts of expressions, types and blocks are given; \<open>ac_guard\<close> is what
  \<open>emit_if_open\<close> prints, brace included.
\<close>

record arm_code =
  ac_pattern :: pattern
  ac_guard :: "string option"
  ac_bindings :: string
  ac_body :: string

definition emit_indent :: "nat \<Rightarrow> string" where "emit_indent n = replicate (4 * n) (CHR '' '')"

definition line :: "nat \<Rightarrow> string \<Rightarrow> string" where "line n s = emit_indent n @ s @ [newline]"

definition cond_open :: "string \<times> bool \<Rightarrow> string" where
  "cond_open c = fst c @ (if snd c then '') {'' else ''{'') @ [newline]"

definition subj_name :: "nat \<Rightarrow> string" where "subj_name n = ''_subj'' @ dec_nat n"

text \<open>Without guards the last arm has no condition, nor has anything after an arm that tests nothing.\<close>

fun emit_plain_arms :: "cg_ctx \<Rightarrow> string \<Rightarrow> ctype \<Rightarrow> nat \<Rightarrow> bool \<Rightarrow> arm_code list \<Rightarrow> string" where
  "emit_plain_arms cg e t n first [] = []"
| "emit_plain_arms cg e t n first (a # arms) =
     (let c = (if arms = [] then ([], False) else emit_pat_conditions (ac_pattern a) cg e t False)
      in emit_indent n @ (if first then [] else ''else '') @ cond_open c @ ac_bindings a @ ac_body a @ line n ''}'' @
         (if snd c then emit_plain_arms cg e t n False arms else []))"

text \<open>With guards an arm runs under the flag, and sets it when its guard held.\<close>

definition guarded_block :: "nat \<Rightarrow> nat \<Rightarrow> string \<times> bool \<Rightarrow> arm_code \<Rightarrow> string" where
  "guarded_block n done c a =
     line n (''if (!_matchdone'' @ dec_nat done @ '') {'') @
     emit_indent (n + 1) @ cond_open c @ ac_bindings a @
     (case ac_guard a of None \<Rightarrow> [] | Some g \<Rightarrow> emit_indent (n + 2) @ g) @
     ac_body a @
     line (if ac_guard a = None then n + 2 else n + 3) (''_matchdone'' @ dec_nat done @ '' = 1;'') @
     (if ac_guard a = None then [] else line (n + 2) ''}'') @
     line (n + 1) ''}'' @ line n ''}''"

definition emit_guarded_arm :: "cg_ctx \<Rightarrow> string \<Rightarrow> ctype \<Rightarrow> nat \<Rightarrow> nat \<Rightarrow> arm_code \<Rightarrow> string" where
  "emit_guarded_arm cg e t n done a = guarded_block n done (emit_pat_conditions (ac_pattern a) cg e t False) a"

definition emit_match ::
  "cg_ctx \<Rightarrow> nat \<Rightarrow> nat \<Rightarrow> nat \<Rightarrow> nat \<Rightarrow> string \<Rightarrow> string \<Rightarrow> ctype \<Rightarrow> string option \<Rightarrow> arm_code list \<Rightarrow> string" where
  "emit_match cg n subj_id res_id done_id subj_type subj t result_type arms =
     (let e = subj_name subj_id; has_any_guard = list_ex (\<lambda>a. ac_guard a \<noteq> None) arms;
          target = ''_match'' @ dec_nat res_id
      in ''({'' @ [newline] @
         line (n + 1) (subj_type @ '' '' @ e @ '' = '' @ subj @ '';'') @
         line (n + 1) (''(void)'' @ e @ '';'') @
         (case result_type of None \<Rightarrow> [] | Some r \<Rightarrow> line (n + 1) (r @ '' '' @ target @ '';'')) @
         (if has_any_guard then
            line (n + 1) (''int _matchdone'' @ dec_nat done_id @ '' = 0;'') @
            concat (map (emit_guarded_arm cg e t (n + 1) done_id) arms) @
            line (n + 1) (''if (!_matchdone'' @ dec_nat done_id @ '') FC_ABORT();'')
          else emit_plain_arms cg e t (n + 1) True arms) @
         (case result_type of None \<Rightarrow> [] | Some r \<Rightarrow> line (n + 1) (target @ '';'')) @
         emit_indent n @ ''})'')"

subsection \<open>What the chain runs\<close>

text \<open>
  The statements of the chain: an arm under a condition, \<open>None\<close> where there is none. With guards
  every arm is tried in turn until one has run.
\<close>

type_synonym chain = "(ccond list option \<times> arm_code) list"

definition conds_of :: "cg_ctx \<Rightarrow> ctype \<Rightarrow> pattern \<Rightarrow> ccond list option" where
  "conds_of cg t p = (if pattern_has_predicate p then Some (pat_conds p cg [] t) else None)"

fun plain_chain :: "cg_ctx \<Rightarrow> ctype \<Rightarrow> arm_code list \<Rightarrow> chain" where
  "plain_chain cg t [] = []"
| "plain_chain cg t (a # arms) =
     (let c = (if arms = [] then None else conds_of cg t (ac_pattern a))
      in (c, a) # (if c = None then [] else plain_chain cg t arms))"

definition guarded_chain :: "cg_ctx \<Rightarrow> ctype \<Rightarrow> arm_code list \<Rightarrow> chain" where
  "guarded_chain cg t arms = map (\<lambda>a. (conds_of cg t (ac_pattern a), a)) arms"

definition chain_cond :: "cg_ctx \<Rightarrow> string \<Rightarrow> ccond list option \<Rightarrow> string \<times> bool" where
  "chain_cond cg e c =
     (case c of None \<Rightarrow> ([], False) | Some cs \<Rightarrow> (''if ('' @ join_conds '' && '' (map (cond_text cg e) cs), True))"

fun plain_text :: "cg_ctx \<Rightarrow> string \<Rightarrow> nat \<Rightarrow> bool \<Rightarrow> chain \<Rightarrow> string" where
  "plain_text cg e n first [] = []"
| "plain_text cg e n first ((c, a) # r) =
     emit_indent n @ (if first then [] else ''else '') @ cond_open (chain_cond cg e c) @ ac_bindings a @ ac_body a @
     line n ''}'' @ plain_text cg e n False r"

text \<open>
  Running it on a subject: \<open>guards\<close> says which guards hold when they are reached. \<open>None\<close> is a
  condition without a value; \<open>Some None\<close> is no arm at all, where the guarded form aborts.
\<close>

definition run_cond :: "'a literal \<Rightarrow> 'a fcval \<Rightarrow> ccond list option \<Rightarrow> bool option" where
  "run_cond lit v c = (case c of None \<Rightarrow> Some True | Some cs \<Rightarrow> value_conds lit v cs)"

fun run_plain :: "'a literal \<Rightarrow> 'a fcval \<Rightarrow> chain \<Rightarrow> arm_code option option" where
  "run_plain lit v [] = Some None"
| "run_plain lit v ((c, a) # r) =
     Option.bind (run_cond lit v c) (\<lambda>b. if b then Some (Some a) else run_plain lit v r)"

fun run_guarded :: "'a literal \<Rightarrow> (arm_code \<Rightarrow> bool) \<Rightarrow> 'a fcval \<Rightarrow> chain \<Rightarrow> arm_code option option" where
  "run_guarded lit guards v [] = Some None"
| "run_guarded lit guards v ((c, a) # r) =
     Option.bind (run_cond lit v c) (\<lambda>b.
       if b \<and> (ac_guard a = None \<or> guards a) then Some (Some a) else run_guarded lit guards v r)"

definition run_match :: "'a literal \<Rightarrow> (arm_code \<Rightarrow> bool) \<Rightarrow> 'a fcval \<Rightarrow> cg_ctx \<Rightarrow> ctype \<Rightarrow> arm_code list \<Rightarrow> arm_code option option" where
  "run_match lit guards v cg t arms =
     (if list_ex (\<lambda>a. ac_guard a \<noteq> None) arms then run_guarded lit guards v (guarded_chain cg t arms)
      else run_plain lit v (plain_chain cg t arms))"

text \<open>The meaning of a match: the first arm whose pattern matches and whose guard holds.\<close>

definition first_match :: "'a literal \<Rightarrow> (arm_code \<Rightarrow> bool) \<Rightarrow> (ctype \<Rightarrow> ctype) \<Rightarrow> ctype \<Rightarrow> 'a fcval \<Rightarrow> arm_code list \<Rightarrow> arm_code option" where
  "first_match lit guards res t v arms =
     find (\<lambda>a. pmatch (ac_pattern a) lit res t v \<and> (ac_guard a = None \<or> guards a)) arms"

subsection \<open>The chain runs the first matching arm\<close>

text \<open>What a checked match hands over: typed patterns on types without errors.\<close>

definition code_ok :: "cg_ctx \<Rightarrow> ctype set \<Rightarrow> bool" where
  "code_ok cg S \<longleftrightarrow> resolver_ok (cg_stub cg) \<and> error_free (cg_stub cg) S \<and> instances_agree cg"

definition arm_code_ok :: "cg_ctx \<Rightarrow> ctype \<Rightarrow> arm_code \<Rightarrow> bool" where
  "arm_code_ok cg t a \<longleftrightarrow> pat_ok (ac_pattern a) (cg_stub cg) t \<and> emittable (ac_pattern a) \<and> alts_ok (ac_pattern a)"

lemma conditions_text:
  assumes "code_ok cg S" "t \<in> S" "arm_code_ok cg t a"
  shows "emit_pat_conditions (ac_pattern a) cg e t False = chain_cond cg e (conds_of cg t (ac_pattern a))"
proof -
  note ok = assms(1) [unfolded code_ok_def] and p = assms(3) [unfolded arm_code_ok_def]
  have "emit_pat_predicate (ac_pattern a) cg e t = text_of cg e (pat_conds (ac_pattern a) cg [] t)"
    using emit_text [of cg S t "ac_pattern a" e "[]"] ok assms(2) p by (simp add: place_text_def)
  moreover have "pat_conds (ac_pattern a) cg [] t \<noteq> [] \<longleftrightarrow> pattern_has_predicate (ac_pattern a)"
    using conds_predicate [of cg S t "ac_pattern a" "[]"] ok assms(2) p by blast
  ultimately show ?thesis by (auto simp: emit_pat_conditions_def chain_cond_def conds_of_def conj_emitter_def)
qed

lemma plain_arms_text:
  assumes "code_ok cg S" "t \<in> S" "\<forall>a\<in>set arms. arm_code_ok cg t a"
  shows "emit_plain_arms cg e t n first arms = plain_text cg e n first (plain_chain cg t arms)"
  using assms(3)
proof (induction arms arbitrary: first)
  case (Cons a arms)
  then show ?case
    using conditions_text [OF assms(1,2), of a e]
    by (auto simp: Let_def chain_cond_def split: option.splits)
qed simp

lemma run_conds:
  assumes "code_ok cg S" "t \<in> S" "arm_code_ok cg t a" "value_of v (cg_stub cg) t"
  shows "run_cond lit v (conds_of cg t (ac_pattern a)) = Some (pmatch (ac_pattern a) lit (cg_stub cg) t v)"
proof -
  note ok = assms(1) [unfolded code_ok_def] and p = assms(3) [unfolded arm_code_ok_def]
  have "value_conds lit v (pat_conds (ac_pattern a) cg [] t) = Some (pmatch (ac_pattern a) lit (cg_stub cg) t v)"
    by (rule conds_value [of cg S]) (use ok assms(2,4) p in \<open>auto simp: read_place_def\<close>)
  moreover have "pat_conds (ac_pattern a) cg [] t \<noteq> [] \<longleftrightarrow> pattern_has_predicate (ac_pattern a)"
    using conds_predicate [of cg S t "ac_pattern a" "[]"] ok assms(2) p by blast
  ultimately show ?thesis by (auto simp: run_cond_def conds_of_def)
qed

lemma run_plain_first:
  assumes "code_ok cg S" "t \<in> S" "\<forall>a\<in>set arms. arm_code_ok cg t a \<and> ac_guard a = None" "value_of v (cg_stub cg) t"
    and "\<exists>a\<in>set arms. pmatch (ac_pattern a) lit (cg_stub cg) t v"
  shows "run_plain lit v (plain_chain cg t arms) = Some (first_match lit guards (cg_stub cg) t v arms)"
  using assms(3,5)
proof (induction arms)
  case (Cons a arms)
  have run: "run_cond lit v (conds_of cg t (ac_pattern a)) = Some (pmatch (ac_pattern a) lit (cg_stub cg) t v)"
    by (rule run_conds [OF assms(1,2) _ assms(4)]) (use Cons.prems in auto)
  show ?case
  proof (cases "arms = []")
    case True
    then show ?thesis using Cons.prems by (simp add: run_cond_def first_match_def)
  next
    case False
    show ?thesis
    proof (cases "pmatch (ac_pattern a) lit (cg_stub cg) t v")
      case True
      then show ?thesis using run False Cons.prems(1) by (simp add: Let_def first_match_def)
    next
      case no: False
      then have "conds_of cg t (ac_pattern a) \<noteq> None"
        using run by (cases "conds_of cg t (ac_pattern a)") (auto simp: run_cond_def)
      then show ?thesis using run False no Cons by (auto simp: Let_def first_match_def)
    qed
  qed
qed simp

lemma run_guarded_first:
  assumes "code_ok cg S" "t \<in> S" "\<forall>a\<in>set arms. arm_code_ok cg t a" "value_of v (cg_stub cg) t"
  shows "run_guarded lit guards v (guarded_chain cg t arms) = Some (first_match lit guards (cg_stub cg) t v arms)"
  using assms(3)
proof (induction arms)
  case (Cons a arms)
  have "run_cond lit v (conds_of cg t (ac_pattern a)) = Some (pmatch (ac_pattern a) lit (cg_stub cg) t v)"
    by (rule run_conds [OF assms(1,2) _ assms(4)]) (use Cons.prems in auto)
  then show ?case using Cons by (auto simp: guarded_chain_def first_match_def)
qed (simp add: guarded_chain_def first_match_def)

lemma run_match_first:
  assumes "code_ok cg S" "t \<in> S" "\<forall>a\<in>set arms. arm_code_ok cg t a" "value_of v (cg_stub cg) t"
    and "\<exists>a\<in>set arms. ac_guard a = None \<and> pmatch (ac_pattern a) lit (cg_stub cg) t v"
  shows "\<exists>a. run_match lit guards v cg t arms = Some (Some a) \<and> first_match lit guards (cg_stub cg) t v arms = Some a"
proof -
  have "first_match lit guards (cg_stub cg) t v arms \<noteq> None"
    using assms(5) by (auto simp: first_match_def find_None_iff)
  moreover have "run_match lit guards v cg t arms = Some (first_match lit guards (cg_stub cg) t v arms)"
  proof (cases "list_ex (\<lambda>a. ac_guard a \<noteq> None) arms")
    case True
    then show ?thesis using run_guarded_first [OF assms(1-4)] by (simp add: run_match_def)
  next
    case False
    then have "\<forall>a\<in>set arms. arm_code_ok cg t a \<and> ac_guard a = None" using assms(3) by (auto simp: list_ex_iff)
    from run_plain_first [OF assms(1,2) this assms(4)] show ?thesis
      using assms(5) False by (auto simp: run_match_def)
  qed
  ultimately show ?thesis by auto
qed

lemma guarded_arms_text:
  assumes "code_ok cg S" "t \<in> S" "\<forall>a\<in>set arms. arm_code_ok cg t a"
  shows "map (emit_guarded_arm cg e t n done) arms =
    map (\<lambda>(c, a). guarded_block n done (chain_cond cg e c) a) (guarded_chain cg t arms)"
  using conditions_text [OF assms(1,2)] assms(3) by (simp add: guarded_chain_def emit_guarded_arm_def)

lemma plain_chain_total:
  "arms \<noteq> [] \<Longrightarrow> \<exists>cs a. plain_chain cg t arms = cs @ [(None, a)] \<and> (\<forall>c\<in>set cs. fst c \<noteq> None)"
proof (induction arms)
  case (Cons a arms)
  let ?c = "if arms = [] then None else conds_of cg t (ac_pattern a)"
  show ?case
  proof (cases "?c = None")
    case True
    then show ?thesis by (intro exI [of _ "[]"] exI [of _ a]) (simp add: Let_def)
  next
    case False
    then have "arms \<noteq> []" by auto
    then obtain cs b where "plain_chain cg t arms = cs @ [(None, b)]" "\<forall>c\<in>set cs. fst c \<noteq> None"
      using Cons.IH by blast
    then show ?thesis using False \<open>arms \<noteq> []\<close> by (intro exI [of _ "(?c, a) # cs"] exI [of _ b]) (auto simp: Let_def)
  qed
qed simp

lemma accepted_match:
  assumes "resolver_ok (resolve_type ctx)" "\<forall>a\<in>set arms. parsed (fst a) \<and> fields_once (fst a)"
    and "check_match_patterns ctx loc subj_loc arms t = (arms', evs)" "quiet evs"
    and "kind (resolve_type ctx t) \<noteq> TYPE_ERROR" "value_of v (resolve_type ctx) t"
  shows "(\<forall>a\<in>set arms'. arm_ok (resolve_type ctx) t a) \<and> matched no_lit (resolve_type ctx) t arms' v"
proof -
  let ?res = "resolve_type ctx" and ?t = "resolve_type ctx t"
  note ok = assms(1)
  have arms: "arms' = map fst (map (check_arm ctx ?t) arms)" "check_match_exhaustiveness ?res loc arms' ?t = []"
    and "\<forall>a\<in>set arms. quiet (snd (check_arm ctx ?t a))"
    using assms(3-5) by (auto simp: check_match_patterns_def Let_def quiet_concat check_match_exhaustiveness_def report_witness_def
      split: if_splits sum.splits option.splits list.splits)
  then have all: "\<forall>a\<in>set arms'. arm_ok ?res ?t a" using check_arm_ok [OF ok] assms(2) by auto
  then have "matched no_lit ?res ?t arms' v"
    using silent_covers [OF ok arms(2)] assms(6) by (simp add: res_idem [OF ok] value_of_resolved [OF ok])
  then show ?thesis using all by (simp add: arm_ok_def pat_ok_resolved [OF ok] matched_resolved [OF ok])
qed

subsection \<open>Character literals\<close>

text \<open>
  The number of a constant \<open>'\\xHH'\<close> of C: that of a \<open>char\<close>, which is signed on most hosts,
  converted to \<open>int\<close>.
\<close>

definition hex_digit :: "char \<Rightarrow> nat option" where
  "hex_digit c =
     (if 48 \<le> byte c \<and> byte c \<le> 57 then Some (byte c - 48)
      else if 97 \<le> byte c \<and> byte c \<le> 102 then Some (byte c - 87) else None)"

definition c_char_constant :: "bool \<Rightarrow> string \<Rightarrow> int option" where
  "c_char_constant char_signed s =
     (case s of
        [q, b, x, h, l, r] \<Rightarrow>
          if q = squote \<and> b = backslash \<and> x = CHR ''x'' \<and> r = squote then
            Option.bind (hex_digit h) (\<lambda>n. map_option (\<lambda>m.
              let w = word_of_nat (16 * n + m) :: u8 in if char_signed then sint w else uint w) (hex_digit l))
          else None
      | _ \<Rightarrow> None)"

lemma hex_digit_char: "n < 16 \<Longrightarrow> hex_digit (hex_char n) = Some n"
  by (auto simp: hex_digit_def hex_char_def byte_char_of)

lemma char_constant: "c_char_constant char_signed (char_lit_text c) = Some (if char_signed then sint c else uint c)"
proof -
  have "unat c < 2 ^ 8" using unsigned_less [of c] by simp
  then have "unat c div 16 < 16" by simp
  moreover have "16 * word_of_nat (unat c div 16) + word_of_nat (unat c mod 16) = c"
  proof -
    have "word_of_nat (16 * (unat c div 16) + unat c mod 16) = c" unfolding mult_div_mod_eq by simp
    then show ?thesis by (simp only: of_nat_add of_nat_mult of_nat_numeral)
  qed
  ultimately show ?thesis by (simp add: c_char_constant_def char_lit_text_def hex2_def hex_digit_char Let_def)
qed

lemma sint_u8: "sint (c :: u8) = (if c < 0x80 then uint c else uint c - 256)"
proof -
  have b: "0 \<le> uint c" "uint c < 256" using uint_bounded [of c] by simp_all
  have "sint c = signed_take_bit 7 (uint c)" by (simp add: sint_uint)
  also have "\<dots> = (if uint c < 128 then uint c else uint c - 256)"
  proof (cases "uint c < 128")
    case False
    then have "(uint c + 128) mod 256 = uint c + 128 - 256"
      using b by (simp add: mod_pos_geq)
    then show ?thesis using False b by (simp add: signed_take_bit_eq_take_bit_shift take_bit_eq_mod)
  qed (use b in \<open>simp add: signed_take_bit_eq_take_bit_shift take_bit_eq_mod\<close>)
  finally show ?thesis by (simp add: word_less_def)
qed

subsection \<open>Properties\<close>


text \<open>The arms of \<open>sample_arms\<close> with bodies, and a guarded arm \<open>some(green(_))\<close> before them.\<close>

definition sample_cg :: cg_ctx where
  "sample_cg = \<lparr>cg_stub = shallow_resolver, cg_instance = (\<lambda>_. None), cg_lit_type = (\<lambda>_. type_int32)\<rparr>"

definition sample_codes :: "arm_code list" where
  "sample_codes =
     [\<lparr>ac_pattern = PAT_SOME sample_loc (Some (PAT_VARIANT sample_loc ''green'' (Some (PAT_WILDCARD sample_loc)))),
       ac_guard = Some ''if (late) {'', ac_bindings = [], ac_body = ''_match0 = 0;''\<rparr>,
      \<lparr>ac_pattern = PAT_SOME sample_loc (Some (PAT_VARIANT sample_loc ''red'' None)),
       ac_guard = None, ac_bindings = [], ac_body = ''_match0 = 1;''\<rparr>,
      \<lparr>ac_pattern = PAT_SOME sample_loc (Some (PAT_OR sample_loc [sample_green True, sample_green False])),
       ac_guard = None, ac_bindings = [], ac_body = ''_match0 = 2;''\<rparr>,
      \<lparr>ac_pattern = PAT_NONE sample_loc, ac_guard = None, ac_bindings = [], ac_body = ''_match0 = 3;''\<rparr>]"

definition guarded_sample :: "arm list" where
  "guarded_sample =
     (PAT_SOME sample_loc (Some (PAT_VARIANT sample_loc ''green'' (Some (PAT_WILDCARD sample_loc)))), True) # sample_arms False"

lemma sample_code_ok: "code_ok sample_cg {sample_type, sample_union, type_bool}"
proof -
  have parts: "option_inner sample_type = Some sample_union" "option_inner sample_union = None" "option_inner type_bool = None"
    "result_inner sample_type = None" "result_inner sample_union = None" "result_inner type_bool = None"
    "struct_fields sample_type = []" "struct_fields sample_union = []" "struct_fields type_bool = []"
    "kind sample_type = TYPE_OPTION" "kind sample_union = TYPE_UNION" "kind type_bool = Prim TYPE_BOOL"
    by code_simp+
  have res: "sample_type \<noteq> TResult i u" "sample_union \<noteq> TResult i u" "type_bool \<noteq> TResult i u" for i u
    by (simp_all add: sample_defs type_bool_def)
  have pay: "variant_payload sample_type n = None" "variant_payload type_bool n = None"
    "variant_payload sample_union n = (if n = ''green'' then Some type_bool else None)" for n
    by (auto simp: variant_payload_def sample_defs type_bool_def find_variant_def)
  show ?thesis
    by (simp add: code_ok_def error_free_def sample_cg_def shallow_resolver_ok instances_agree_def sample_parts parts pay is_err_def res)
qed




text \<open>
  C35: a string literal reaches C as it is. Whatever the source text of a literal, a C compiler
  reads from the text that is printed for it the bytes that the text denotes, up to the closing
  quote, and the text holds no trigraph.
\<close>

theorem string_literal_carried:
  "read_c_string (emit_str_lit_body s @ dquote # rest) = Some (decode_str_lit s, rest) \<and>
   \<not> has_trigraph (emit_str_lit_body s) \<and> str_lit_len s = length (decode_str_lit s)"
  by (simp add: emit_str_lit_body_def read_literal trigraph_literal str_lit_len_def)

text \<open>
  The tag constants of unions are told apart. Two variants of unions of the program, whose C
  names start with \<open>fc__\<close>, have one constant only when both the variants and the unions have
  one name.
\<close>

theorem tag_constants_unique:
  assumes "\<not> has_dunder v" "\<not> has_dunder w"
  shows "union_tag_value (''fc__'' @ r) v = union_tag_value (''fc__'' @ s) w \<longleftrightarrow> v = w \<and> r = s"
  using tag_value_inject [OF assms, of r s] by auto

theorem tag_constants_unique_witness:
  "union_tag_value ''fc__a_'' ''b'' \<noteq> union_tag_value ''fc__a'' ''_b''"
  using tag_constants_unique [of "''b''" "''_b''" "''a_''" "''a''"] by simp

text \<open>
  C36: a character pattern tests the byte only below 0x80. The constant printed for the byte \<open>c\<close>,
  where \<open>char\<close> of C is signed, is not equal to \<open>c\<close> from 0x80 on, and the subject is a \<open>uint8_t\<close>:
  the arm is never taken.
\<close>

theorem character_pattern_gap:
  "c_char_constant char_signed (char_lit_text c) = Some (uint v) \<longleftrightarrow> v = c \<and> (if char_signed then c < 0x80 else True)"
proof -
  have "uint c < 256" using uint_bounded [of c] by simp
  then have "uint c - 256 \<noteq> uint v" using uint_ge_0 [of v] by linarith
  then show ?thesis by (auto simp: char_constant sint_u8 word_less_def word_uint_eq_iff)
qed

end
