(* ===== verification/FC_Parser.thy ===== *)
theory FC_Parser
  imports FC_Type "HOL-Library.Monad_Syntax"
begin

section \<open>The state of the parser (\<open>src/parser.c\<close>)\<close>

text \<open>
  The record holds the fields of \<open>Parser\<close> that the modelled parsers read, the buffer the tokens
  point into, and the diagnostics reported so far; a speculative reading that is given up
  restores them. A function of the parser that moves on returns the state after it. The array of
  tokens ends with the end-of-file token.
\<close>

record parser =
  ps_src :: string
  ps_tokens :: "token list"
  ps_pos :: nat
  ps_filename :: "string option"
  ps_allow_fixed_array :: bool
  ps_in_const_expr :: bool
  ps_half_gt :: bool
  ps_half_gt_pos :: int
  ps_diags :: "(src_loc \<times> string) list"

abbreviation "TOK_EOF_K \<equiv> Sp TOK_EOF"

subsection \<open>Token access\<close>

definition token_count :: "parser \<Rightarrow> nat" where "token_count p = length (ps_tokens p)"

definition current :: "parser \<Rightarrow> token" where "current p = ps_tokens p ! ps_pos p"

definition peek_p :: "parser \<Rightarrow> nat \<Rightarrow> token" where
  "peek_p p offset =
     (let idx = ps_pos p + offset
      in if token_count p \<le> idx then ps_tokens p ! (token_count p - 1) else ps_tokens p ! idx)"

definition check :: "parser \<Rightarrow> token_kind \<Rightarrow> bool" where "check p k \<longleftrightarrow> t_kind (current p) = k"

definition at_end_p :: "parser \<Rightarrow> bool" where "at_end_p p \<longleftrightarrow> t_kind (current p) = TOK_EOF_K"

text \<open>The token that \<open>advance_p\<close> returns is the current one before it.\<close>

definition advance_p :: "parser \<Rightarrow> parser" where
  "advance_p p = (if at_end_p p then p else p\<lparr>ps_pos := ps_pos p + 1\<rparr>)"

definition restore_pos :: "nat \<Rightarrow> parser \<Rightarrow> parser" where
  "restore_pos save p = p\<lparr>ps_half_gt := False, ps_half_gt_pos := - 1, ps_pos := save\<rparr>"

definition text_of_token :: "parser \<Rightarrow> token \<Rightarrow> string" where
  "text_of_token p t = tok_text (ps_src p) t"

definition tok_intern :: "parser \<Rightarrow> token \<Rightarrow> string" where "tok_intern p t = text_of_token p t"

definition tok_loc_p :: "parser \<Rightarrow> token \<Rightarrow> src_loc" where
  "tok_loc_p p t = (loc_from_token t)\<lparr>loc_file := ps_filename p\<rparr>"

definition parse_error :: "src_loc \<Rightarrow> string \<Rightarrow> parser \<Rightarrow> parser" where
  "parse_error loc msg p = p\<lparr>ps_diags := ps_diags p @ [(loc, msg)]\<rparr>"

text \<open>On a mismatch the current token is returned and not consumed.\<close>

definition expect :: "token_kind \<Rightarrow> parser \<Rightarrow> parser" where
  "expect k p =
     (if check p k then advance_p p
      else parse_error (loc_from_token (current p))
             (''expected '' @ token_kind_name k @ '', got '' @ token_kind_name (t_kind (current p))) p)"

definition is_keyword_token :: "parser \<Rightarrow> token \<Rightarrow> bool" where
  "is_keyword_token p t =
     (let s = text_of_token p t
      in \<not> (t_kind t = Idt TOK_IDENT \<or> t_length t = 0 \<or> \<not> (isalpha (at_c s 0) \<or> at_c s 0 = CHR ''_'')) \<and>
         list_all (\<lambda>c. isalnum c \<or> c = CHR ''_'') (tl s))"

definition expect_name :: "parser \<Rightarrow> parser" where
  "expect_name p =
     (let t = current p
      in if is_keyword_token p t
         then advance_p (parse_error (loc_from_token t)
                (squote # text_of_token p t @ [squote] @ '' is a keyword and cannot be used as a name'') p)
         else expect (Idt TOK_IDENT) p)"

text \<open>A token array that has run out, which ends in the end of file, stops the loop too.\<close>

function skip_newlines :: "parser \<Rightarrow> parser" where
  "skip_newlines p =
     (if ps_pos p < token_count p \<and> check p (Lay TOK_NEWLINE) then skip_newlines (advance_p p) else p)"
  by pat_completeness auto
termination skip_newlines
  by (relation "measure (\<lambda>p. token_count p - ps_pos p)")
    (auto simp: advance_p_def at_end_p_def check_def token_count_def)

declare skip_newlines.simps [simp del]

definition is_hard_stop :: "token_kind \<Rightarrow> bool" where
  "is_hard_stop k \<longleftrightarrow>
     k \<in> {Lay TOK_NEWLINE, Lay TOK_INDENT, Lay TOK_DEDENT, TOK_EOF_K, Dl TOK_RPAREN, Dl TOK_RBRACE,
           Dl TOK_RBRACKET, Op TOK_SEMICOLON}"

text \<open>The step over a token that no parser could use.\<close>

definition leaf_bump :: "parser \<Rightarrow> parser" where
  "leaf_bump p = (if is_hard_stop (t_kind (current p)) then p else advance_p p)"

subsection \<open>Type-argument closers\<close>

definition half_here :: "parser \<Rightarrow> bool" where
  "half_here p \<longleftrightarrow> ps_half_gt p \<and> int (ps_pos p) = ps_half_gt_pos p"

definition at_typearg_gt :: "parser \<Rightarrow> bool" where
  "at_typearg_gt p \<longleftrightarrow> half_here p \<or> check p (Op TOK_GT) \<or> check p (Op TOK_GTGT)"

definition consume_typearg_gt :: "parser \<Rightarrow> bool \<times> parser" where
  "consume_typearg_gt p =
     (if half_here p then (True, advance_p (p\<lparr>ps_half_gt := False, ps_half_gt_pos := - 1\<rparr>))
      else if check p (Op TOK_GT) then (True, advance_p p)
      else if check p (Op TOK_GTGT) then (True, p\<lparr>ps_half_gt := True, ps_half_gt_pos := int (ps_pos p)\<rparr>)
      else (False, p))"

subsection \<open>Integer literals\<close>

definition int_base :: "string \<Rightarrow> nat \<times> nat" where
  "int_base s =
     (if 2 \<le> length s \<and> s ! 0 = CHR ''0'' then
        (if s ! 1 \<in> {CHR ''x'', CHR ''X''} then (16, 2)
         else if s ! 1 \<in> {CHR ''b'', CHR ''B''} then (2, 2)
         else if s ! 1 \<in> {CHR ''o'', CHR ''O''} then (8, 2)
         else (10, 0))
      else (10, 0))"

definition base_digit :: "nat \<Rightarrow> char \<Rightarrow> bool" where
  "base_digit base c =
     (if base = 16 then isxdigit c else if base = 10 then isdigit c
      else if base = 8 then 48 \<le> byte c \<and> byte c \<le> 55 else c = CHR ''0'' \<or> c = CHR ''1'')"

fun copy_digits :: "nat \<Rightarrow> string \<Rightarrow> string" where
  "copy_digits base [] = []"
| "copy_digits base (c # cs) =
     (if base_digit base c then c # copy_digits base cs
      else if c = CHR ''_'' then copy_digits base cs
      else [])"

text \<open>\<open>strtoull\<close> of a string of digits of the base: the value and whether \<open>errno\<close> is \<open>ERANGE\<close>.\<close>

definition digits_value :: "nat \<Rightarrow> string \<Rightarrow> nat" where
  "digits_value base = foldl (\<lambda>n c. base * n + nat (hex_digit_val c)) 0"

definition strtoull :: "nat \<Rightarrow> string \<Rightarrow> u64 \<times> bool" where
  "strtoull base s =
     (let n = digits_value base s
      in if n < 18446744073709551616 then (word_of_nat n, False) else (18446744073709551615, True))"

definition parse_int_value :: "string \<Rightarrow> u64 \<times> bool" where
  "parse_int_value s =
     (let (base, prefix_len) = int_base s in strtoull base (copy_digits base (drop prefix_len s)))"

definition int_num_end :: "string \<Rightarrow> nat" where
  "int_num_end s =
     (let (base, i) = int_base s
      in i + length (takeWhile (\<lambda>c. base_digit base c \<or> c = CHR ''_'') (drop i s)))"

definition int_lit_type :: "parser \<Rightarrow> token \<Rightarrow> ctype option" where
  "int_lit_type p t =
     (let s = text_of_token p t; num_end = int_num_end s
      in if length s \<le> num_end then Some (if ps_in_const_expr p then type_int64 else type_int32)
         else type_from_int_suffix (drop num_end s))"

definition char_lit_value :: "string \<Rightarrow> u8" where
  "char_lit_value s = (case decode_str_lit (sub_c s 1 (length s - 2)) of [] \<Rightarrow> 0 | b # _ \<Rightarrow> b)"

lemma copy_digits_filter:
  "copy_digits base s = filter (\<lambda>c. c \<noteq> CHR ''_'') (takeWhile (\<lambda>c. base_digit base c \<or> c = CHR ''_'') s)"
  if "\<not> base_digit base (CHR ''_'')"
  using that by (induction s) auto

lemma digit_not_separator: "\<not> base_digit base (CHR ''_'')"
  by (simp add: base_digit_def isxdigit_def isdigit_def byte_def)

text \<open>The two scans of a literal agree on its digits.\<close>

lemma parse_int_digits:
  "parse_int_value s = strtoull (fst (int_base s))
     (filter (\<lambda>c. c \<noteq> CHR ''_'') (drop (snd (int_base s)) (take (int_num_end s) s)))"
proof -
  obtain base i where b: "int_base s = (base, i)" by force
  let ?P = "\<lambda>c. base_digit base c \<or> c = CHR ''_''"
  have "takeWhile ?P (drop i s) = drop i (take (i + length (takeWhile ?P (drop i s))) s)"
    by (simp add: drop_take takeWhile_eq_take [symmetric])
  then show ?thesis
    by (simp add: parse_int_value_def int_num_end_def b Let_def copy_digits_filter [OF digit_not_separator])
qed

subsection \<open>Where the parser stands\<close>

text \<open>Tokens as the lexer hands them over, and a position among them.\<close>

definition parser_ok :: "parser \<Rightarrow> bool" where
  "parser_ok p \<longleftrightarrow> ps_pos p < token_count p \<and> t_kind (ps_tokens p ! (token_count p - 1)) = TOK_EOF_K"

text \<open>A parser moved on: nothing but its position, the pending \<open>>\<close> and the reports changed.\<close>

definition moved :: "parser \<Rightarrow> parser \<Rightarrow> bool" where
  "moved p q \<longleftrightarrow> ps_tokens q = ps_tokens p \<and> ps_src q = ps_src p \<and> ps_filename q = ps_filename p \<and>
     ps_allow_fixed_array q = ps_allow_fixed_array p \<and> ps_in_const_expr q = ps_in_const_expr p \<and> ps_pos p \<le> ps_pos q"

definition tokens_left :: "parser \<Rightarrow> nat" where "tokens_left p = token_count p - ps_pos p"

lemma moved_refl [simp, intro]: "moved p p"
  by (simp add: moved_def)

lemma moved_trans [trans]: "moved p q \<Longrightarrow> moved q r \<Longrightarrow> moved p r"
  by (auto simp: moved_def)

lemma moved_left: "moved p q \<Longrightarrow> tokens_left q \<le> tokens_left p"
  by (auto simp: moved_def tokens_left_def token_count_def intro: diff_le_mono2)

lemma parser_ok_not_end: "parser_ok p \<Longrightarrow> \<not> at_end_p p \<Longrightarrow> ps_pos p + 1 < token_count p"
  unfolding parser_ok_def at_end_p_def current_def
  by (metis Suc_eq_plus1 Suc_lessI diff_Suc_1)

lemma advance_moved [simp, intro]: "moved p (advance_p p)"
  by (simp add: moved_def advance_p_def)

lemma advance_ok [simp, intro]: "parser_ok p \<Longrightarrow> parser_ok (advance_p p)"
  using parser_ok_not_end [of p] by (auto simp: advance_p_def parser_ok_def token_count_def)

lemma advance_left: "parser_ok p \<Longrightarrow> \<not> at_end_p p \<Longrightarrow> tokens_left (advance_p p) < tokens_left p"
  using parser_ok_not_end [of p] by (simp add: advance_p_def tokens_left_def token_count_def)

lemma error_moved [simp, intro]: "moved p (parse_error loc msg p)"
  by (simp add: moved_def parse_error_def)

lemma error_ok [simp]: "parser_ok (parse_error loc msg p) = parser_ok p"
  by (simp add: parser_ok_def parse_error_def token_count_def)

lemma error_left [simp]: "tokens_left (parse_error loc msg p) = tokens_left p"
  by (simp add: tokens_left_def parse_error_def token_count_def)

lemma error_simps [simp]:
  "current (parse_error loc msg p) = current p" "check (parse_error loc msg p) k = check p k"
  "at_end_p (parse_error loc msg p) = at_end_p p"
  by (simp_all add: current_def check_def at_end_p_def parse_error_def)

lemma check_end: "check p k \<Longrightarrow> k \<noteq> TOK_EOF_K \<Longrightarrow> \<not> at_end_p p"
  by (simp add: check_def at_end_p_def)

lemma expect_moved [simp, intro]: "moved p (expect k p)"
  by (simp add: expect_def)

lemma expect_ok [simp, intro]: "parser_ok p \<Longrightarrow> parser_ok (expect k p)"
  by (simp add: expect_def)

lemma skip_moved: "moved p (skip_newlines p) \<and> (parser_ok p \<longrightarrow> parser_ok (skip_newlines p))"
proof (induction p rule: skip_newlines.induct)
  case (1 p)
  show ?case
  proof (cases "ps_pos p < token_count p \<and> check p (Lay TOK_NEWLINE)")
    case True
    then show ?thesis using 1 moved_trans [OF advance_moved] by (simp add: skip_newlines.simps [of p])
  next
    case False
    then have "skip_newlines p = p" by (subst skip_newlines.simps) (rule if_not_P)
    then show ?thesis by simp
  qed
qed

lemmas skip_newlines_moved [simp, intro] = skip_moved [THEN conjunct1]
lemmas skip_newlines_ok [simp, intro] = skip_moved [THEN conjunct2, rule_format]

subsection \<open>Tokens ahead\<close>

text \<open>The kinds and texts of the tokens at the position of the parser.\<close>

type_synonym spelling = "(token_kind \<times> string) list"

definition ahead :: "parser \<Rightarrow> spelling" where
  "ahead p = map (\<lambda>t. (t_kind t, text_of_token p t)) (drop (ps_pos p) (ps_tokens p))"

definition step_over :: "nat \<Rightarrow> parser \<Rightarrow> parser" where
  "step_over n p = p\<lparr>ps_pos := ps_pos p + n\<rparr>"

lemma step_over_simps [simp]:
  "step_over 0 p = p" "step_over m (step_over n p) = step_over (n + m) p"
  by (simp_all add: step_over_def add.assoc)

lemma ahead_step: "ahead (step_over n p) = drop n (ahead p)"
  by (simp add: ahead_def step_over_def drop_map add.commute text_of_token_def)

lemma ahead_current:
  assumes "ahead p = (k, s) # r"
  shows "t_kind (current p) = k" "text_of_token p (current p) = s"
proof -
  have "ps_pos p < length (ps_tokens p)" using assms by (auto simp: ahead_def Cons_nth_drop_Suc [symmetric] intro: ccontr)
  then have "drop (ps_pos p) (ps_tokens p) = current p # drop (Suc (ps_pos p)) (ps_tokens p)"
    by (simp add: current_def Cons_nth_drop_Suc)
  then show "t_kind (current p) = k" "text_of_token p (current p) = s" using assms by (simp_all add: ahead_def)
qed

lemma ahead_check: "ahead p = (k, s) # r \<Longrightarrow> check p k' \<longleftrightarrow> k = k'"
  by (auto simp: check_def ahead_current)

lemma ahead_advance: "ahead p = (k, s) # r \<Longrightarrow> k \<noteq> TOK_EOF_K \<Longrightarrow> advance_p p = step_over 1 p"
  by (simp add: advance_p_def at_end_p_def ahead_current step_over_def)

lemma ahead_peek:
  assumes "ahead p = xs" "n < length xs"
  shows "t_kind (peek_p p n) = fst (xs ! n)"
proof -
  have "ps_pos p + n < length (ps_tokens p)" using assms by (auto simp: ahead_def)
  then show ?thesis using assms(1) by (auto simp: peek_p_def ahead_def token_count_def)
qed

lemma ahead_expect: "ahead p = (k, s) # r \<Longrightarrow> k \<noteq> TOK_EOF_K \<Longrightarrow> expect k p = step_over 1 p"
  by (simp add: expect_def ahead_check ahead_advance)

lemma ahead_skip: "ahead p = (k, s) # r \<Longrightarrow> k \<noteq> Lay TOK_NEWLINE \<Longrightarrow> skip_newlines p = p"
  by (simp add: skip_newlines.simps [of p] ahead_check)

end
