(* ===== verification/FC_ParsePattern.thy ===== *)
theory FC_ParsePattern
  imports FC_Parser FC_Coverage
begin

section \<open>The parser of patterns (\<open>src/parser.c\<close>)\<close>

text \<open>
  A parser takes the number of nested calls it may make and gives \<open>None\<close> when they run out, which
  \<open>parse_pattern_total\<close> excludes. The type of an integer literal, which a pattern keeps for the
  code generator, is not a field of \<open>PAT_INT_LIT\<close>.
\<close>

type_synonym 'a parse = "parser \<Rightarrow> ('a \<times> parser) option"

text \<open>What follows an opening parenthesis.\<close>

definition paren_pattern :: "pattern parse \<Rightarrow> pattern parse" where
  "paren_pattern rec p = do { (q, p) \<leftarrow> rec p; Some (q, expect (Dl TOK_RPAREN) p) }"

fun field_patterns :: "nat \<Rightarrow> pattern parse \<Rightarrow> (string \<times> pattern) list parse" where
  "field_patterns 0 rec p = None"
| "field_patterns (Suc n) rec p =
     (let p1 = skip_newlines p; name = tok_intern p1 (current p1)
      in do {
        (q, p2) \<leftarrow> rec (expect (Op TOK_EQ) (expect (Idt TOK_IDENT) p1));
        if check p2 (Op TOK_COMMA) then
          if check (advance_p p2) (Dl TOK_RBRACE) then Some ([(name, q)], advance_p p2)
          else do {
            (fs, p3) \<leftarrow> field_patterns n rec (advance_p p2);
            Some ((name, q) # fs, p3)
          }
        else Some ([(name, q)], p2)
      })"

fun elem_patterns :: "nat \<Rightarrow> pattern parse \<Rightarrow> pattern list parse" where
  "elem_patterns 0 rec p = None"
| "elem_patterns (Suc n) rec p =
     do {
       (q, p2) \<leftarrow> rec (skip_newlines p);
       if check p2 (Op TOK_COMMA) then
         if check (advance_p p2) (Dl TOK_RBRACE) then Some ([q], advance_p p2)
         else do {
           (qs, p3) \<leftarrow> elem_patterns n rec (advance_p p2);
           Some (q # qs, p3)
         }
       else Some ([q], p2)
     }"

definition at_member :: "parser \<Rightarrow> bool" where
  "at_member p \<longleftrightarrow> check p (Op TOK_DOT) \<and> t_kind (peek_p p 1) = Idt TOK_IDENT"

function path_parts :: "parser \<Rightarrow> string list \<times> parser" where
  "path_parts p =
     (if ps_pos p < token_count p \<and> at_member p then
        let p1 = advance_p p; (parts, q) = path_parts (advance_p p1) in (tok_intern p1 (current p1) # parts, q)
      else ([], p))"
  by pat_completeness auto
termination path_parts
  by (relation "measure (\<lambda>p. token_count p - ps_pos p)")
    (auto simp: advance_p_def at_end_p_def at_member_def check_def token_count_def)

declare path_parts.simps [simp del]

definition negative_pattern :: "parser \<Rightarrow> pattern \<times> parser" where
  "negative_pattern p =
     (let p1 = advance_p p; t = current p1; p2 = advance_p p1; lt = int_lit_type p2 t;
          p3 = (if (case lt of None \<Rightarrow> False | Some lt \<Rightarrow> type_is_unsigned lt)
                then parse_error (loc_from_token (current p)) ''cannot negate unsigned integer literal'' p2 else p2);
          (v, oor) = parse_int_value (text_of_token p t)
      in (PAT_INT_LIT (tok_loc_p p (current p)) (- v) oor True, p3))"

definition brace_pattern :: "nat \<Rightarrow> pattern parse \<Rightarrow> pattern parse" where
  "brace_pattern n rec p =
     (let loc = tok_loc_p p (current p);
          is_named = t_kind (peek_p p 1) = Dl TOK_RBRACE \<or>
                     (t_kind (peek_p p 1) = Idt TOK_IDENT \<and> t_kind (peek_p p 2) = Op TOK_EQ);
          p1 = advance_p p
      in if is_named then
           do {
             (fs, p2) \<leftarrow> (if check p1 (Dl TOK_RBRACE) then Some ([], p1) else field_patterns n rec p1);
             Some (PAT_STRUCT loc fs, expect (Dl TOK_RBRACE) (skip_newlines p2))
           }
         else
           do {
             (qs, p2) \<leftarrow> elem_patterns n rec p1;
             Some (PAT_TUPLE loc qs, expect (Dl TOK_RBRACE) (skip_newlines p2))
           })"

definition name_pattern :: "pattern parse \<Rightarrow> pattern parse" where
  "name_pattern rec p =
     (let loc = tok_loc_p p (current p); name = tok_intern p (current p); p1 = advance_p p
      in if name = ''_'' then Some (PAT_WILDCARD loc, p1)
         else if t_kind (peek_p p 1) = Op TOK_DOT \<and> t_kind (peek_p p 2) = Idt TOK_IDENT then
           let (parts, p2) = path_parts p1 in Some (PAT_CONST_PATH loc (name # parts), p2)
         else if t_kind (peek_p p 1) = Dl TOK_LPAREN then
           do { (q, p2) \<leftarrow> paren_pattern rec (advance_p p1); Some (PAT_VARIANT loc name (Some q), p2) }
         else Some (PAT_BINDING loc name, p1))"

definition parse_pattern_atom :: "nat \<Rightarrow> pattern parse \<Rightarrow> pattern parse" where
  "parse_pattern_atom n rec p =
     (let t = current p; loc = tok_loc_p p t; s = text_of_token p t; p1 = advance_p p
      in if check p (Op TOK_MINUS) \<and> t_kind (peek_p p 1) = Lit TOK_INT_LIT then Some (negative_pattern p)
         else if check p (Lit TOK_INT_LIT) then
           let (v, oor) = parse_int_value s in Some (PAT_INT_LIT loc v oor False, p1)
         else if check p (Kw TOK_TRUE) then Some (PAT_BOOL_LIT loc True, p1)
         else if check p (Kw TOK_FALSE) then Some (PAT_BOOL_LIT loc False, p1)
         else if check p (Lit TOK_CHAR_LIT) then Some (PAT_CHAR_LIT loc (char_lit_value s), p1)
         else if check p (Lit TOK_STRING_LIT) then
           Some (PAT_STRING_LIT loc (sub_c s 1 (length s - 2)) (length s - 2), p1)
         else if check p (Kw TOK_NONE) then Some (PAT_NONE loc, p1)
         else if check p (Kw TOK_SOME) then
           do { (q, p2) \<leftarrow> paren_pattern rec (expect (Dl TOK_LPAREN) p1); Some (PAT_SOME loc (Some q), p2) }
         else if check p (Kw TOK_OK) then
           if check p1 (Dl TOK_LPAREN) then
             do { (q, p2) \<leftarrow> paren_pattern rec (advance_p p1); Some (PAT_OK loc (Some q), p2) }
           else Some (PAT_OK loc None, p1)
         else if check p (Kw TOK_ERR) then
           do { (q, p2) \<leftarrow> paren_pattern rec (expect (Dl TOK_LPAREN) p1); Some (PAT_ERR loc (Some q), p2) }
         else if check p (Dl TOK_LBRACE) then brace_pattern n rec p
         else if check p (Idt TOK_IDENT) then name_pattern rec p
         else
           Some (PAT_ERROR loc,
                 leaf_bump (parse_error (loc_from_token t) (''expected pattern, got '' @ token_kind_name (t_kind t)) p)))"

fun pat_loc :: "pattern \<Rightarrow> src_loc" where
  "pat_loc (PAT_WILDCARD loc) = loc"
| "pat_loc (PAT_BINDING loc _) = loc"
| "pat_loc (PAT_INT_LIT loc _ _ _) = loc"
| "pat_loc (PAT_CHAR_LIT loc _) = loc"
| "pat_loc (PAT_BOOL_LIT loc _) = loc"
| "pat_loc (PAT_STRING_LIT loc _ _) = loc"
| "pat_loc (PAT_NONE loc) = loc"
| "pat_loc (PAT_SOME loc _) = loc"
| "pat_loc (PAT_OK loc _) = loc"
| "pat_loc (PAT_ERR loc _) = loc"
| "pat_loc (PAT_CONST_PATH loc _) = loc"
| "pat_loc (PAT_VARIANT loc _ _) = loc"
| "pat_loc (PAT_STRUCT loc _) = loc"
| "pat_loc (PAT_TUPLE loc _) = loc"
| "pat_loc (PAT_OR loc _) = loc"
| "pat_loc (PAT_ERROR loc) = loc"

definition add_alt :: "pattern list \<Rightarrow> pattern \<Rightarrow> pattern list" where
  "add_alt alts alt = alts @ (case alt of PAT_OR _ qs \<Rightarrow> qs | _ \<Rightarrow> [alt])"

fun more_alts :: "nat \<Rightarrow> pattern parse \<Rightarrow> pattern list \<Rightarrow> pattern list parse" where
  "more_alts 0 atom alts p = None"
| "more_alts (Suc n) atom alts p =
     (if check p (Op TOK_PIPE)
      then do { (q, p1) \<leftarrow> atom (advance_p p); more_alts n atom (add_alt alts q) p1 }
      else Some (alts, p))"

primrec parse_pattern :: "nat \<Rightarrow> pattern parse" where
  "parse_pattern 0 p = None"
| "parse_pattern (Suc n) p =
     (let atom = parse_pattern_atom n (parse_pattern n)
      in do {
        (first, p1) \<leftarrow> atom p;
        if \<not> check p1 (Op TOK_PIPE) then Some (first, p1)
        else do {
          (alts, p2) \<leftarrow> more_alts n atom (add_alt [] first) p1;
          Some (PAT_OR (pat_loc first) alts, p2)
        }
      })"

subsection \<open>The parser returns\<close>

text \<open>Where a parser may stand after it started at \<open>p\<close>, and with a token read.\<close>

definition later :: "parser \<Rightarrow> parser \<Rightarrow> bool" where
  "later p q \<longleftrightarrow> parser_ok q \<and> moved p q"

text \<open>A parser that returns on every position with fewer than \<open>m\<close> tokens ahead.\<close>

definition returns :: "nat \<Rightarrow> 'a parse \<Rightarrow> bool" where
  "returns m f \<longleftrightarrow> (\<forall>p. parser_ok p \<and> tokens_left p < m \<longrightarrow> (\<exists>x q. f p = Some (x, q) \<and> later p q))"

lemma returnsD:
  assumes "returns m f" "parser_ok p" "tokens_left p < m"
  obtains x q where "f p = Some (x, q)" "later p q"
  using assms unfolding returns_def by blast

definition ends :: "parser \<Rightarrow> ('a \<times> parser) option \<Rightarrow> bool" where
  "ends p r \<longleftrightarrow> (\<exists>x q. r = Some (x, q) \<and> later p q)"

lemma ends_if: "(b \<Longrightarrow> ends p x) \<Longrightarrow> (\<not> b \<Longrightarrow> ends p y) \<Longrightarrow> ends p (if b then x else y)"
  by simp

lemma ends_value: "later p (snd r) \<Longrightarrow> ends p (Some r)"
  by (cases r) (simp add: ends_def)

lemma ends_bind: "ends p m \<Longrightarrow> ends p (m \<bind> (\<lambda>(x, q). Some (f x, q)))"
  by (auto simp: ends_def)

lemma later_left: "later p q \<Longrightarrow> tokens_left q \<le> tokens_left p" "later p q \<Longrightarrow> parser_ok q"
  using moved_left by (auto simp: later_def)

lemma later_trans: "later p q \<Longrightarrow> later q r \<Longrightarrow> later p r"
  using moved_trans by (auto simp: later_def)

lemma later_refl: "parser_ok p \<Longrightarrow> later p p"
  by (simp add: later_def)

lemma later_steps:
  "parser_ok p \<Longrightarrow> later p (advance_p p)" "parser_ok p \<Longrightarrow> later p (expect k p)"
  "parser_ok p \<Longrightarrow> later p (skip_newlines p)" "parser_ok p \<Longrightarrow> later p (parse_error loc msg p)"
  "parser_ok p \<Longrightarrow> later p (leaf_bump p)"
  by (simp_all add: later_def leaf_bump_def)

lemma left_pos: "parser_ok p \<Longrightarrow> 0 < tokens_left p"
  by (simp add: parser_ok_def tokens_left_def)

lemma advance_over: "parser_ok p \<Longrightarrow> check p k \<Longrightarrow> k \<noteq> TOK_EOF_K \<Longrightarrow> tokens_left (advance_p p) < tokens_left p"
  by (rule advance_left) (simp_all add: check_end)

lemma later_ok [simp]:
  "parser_ok p \<Longrightarrow> parser_ok (leaf_bump p)"
  using later_left(2) [OF later_steps(5)] .

lemma paren_returns:
  assumes "returns m rec"
  shows "returns m (paren_pattern rec)"
  unfolding returns_def
proof (intro allI impI, elim conjE)
  fix p assume p: "parser_ok p" "tokens_left p < m"
  obtain q p' where "rec p = Some (q, p')" "later p p'" by (rule returnsD [OF assms p])
  then show "\<exists>x q. paren_pattern rec p = Some (x, q) \<and> later p q"
    using later_trans [OF _ later_steps(2)] later_left(2) by (auto simp: paren_pattern_def)
qed

lemma field_patterns_return:
  assumes "returns m rec"
  shows "parser_ok p \<Longrightarrow> tokens_left p < m \<Longrightarrow> tokens_left p \<le> n \<Longrightarrow>
    \<exists>x q. field_patterns n rec p = Some (x, q) \<and> later p q"
proof (induction n arbitrary: p)
  case 0
  then show ?case using left_pos by fastforce
next
  case (Suc n)
  define p1 where "p1 = expect (Op TOK_EQ) (expect (Idt TOK_IDENT) (skip_newlines p))"
  have p1: "later p p1" using Suc.prems(1) unfolding p1_def by (meson later_trans later_steps later_left(2))
  obtain q p2 where q: "rec p1 = Some (q, p2)" "later p1 p2"
    using returnsD [OF assms, of p1] later_left [OF p1] Suc.prems by auto
  have p2: "later p p2" using p1 q(2) later_trans by blast
  have ok2: "parser_ok p2" "later p2 (advance_p p2)" using later_left(2) [OF p2] later_steps(1) by auto
  show ?case
  proof (cases "check p2 (Op TOK_COMMA) \<and> \<not> check (advance_p p2) (Dl TOK_RBRACE)")
    case True
    have "tokens_left (advance_p p2) < tokens_left p2" using True ok2 advance_over by blast
    then have "\<exists>x q. field_patterns n rec (advance_p p2) = Some (x, q) \<and> later (advance_p p2) q"
      using later_left(1) [OF p2] Suc.prems by (intro Suc.IH) (auto simp: ok2)
    then obtain x r where "field_patterns n rec (advance_p p2) = Some (x, r)" "later (advance_p p2) r" by blast
    then show ?thesis using True q(1) later_trans [OF later_trans [OF p2 ok2(2)]] by (auto simp: p1_def [symmetric] Let_def)
  next
    case False
    then show ?thesis using q(1) p2 later_trans [OF p2 ok2(2)] by (auto simp: p1_def [symmetric] Let_def)
  qed
qed

lemma elem_patterns_return:
  assumes "returns m rec"
  shows "parser_ok p \<Longrightarrow> tokens_left p < m \<Longrightarrow> tokens_left p \<le> n \<Longrightarrow>
    \<exists>x q. elem_patterns n rec p = Some (x, q) \<and> later p q"
proof (induction n arbitrary: p)
  case 0
  then show ?case using left_pos by fastforce
next
  case (Suc n)
  have p1: "later p (skip_newlines p)" using Suc.prems(1) later_steps by blast
  obtain q p2 where q: "rec (skip_newlines p) = Some (q, p2)" "later (skip_newlines p) p2"
    using returnsD [OF assms, of "skip_newlines p"] later_left [OF p1] Suc.prems by auto
  have p2: "later p p2" using p1 q(2) later_trans by blast
  have ok2: "parser_ok p2" "later p2 (advance_p p2)" using later_left(2) [OF p2] later_steps(1) by auto
  show ?case
  proof (cases "check p2 (Op TOK_COMMA) \<and> \<not> check (advance_p p2) (Dl TOK_RBRACE)")
    case True
    have "tokens_left (advance_p p2) < tokens_left p2" using True ok2 advance_over by blast
    then have "\<exists>x q. elem_patterns n rec (advance_p p2) = Some (x, q) \<and> later (advance_p p2) q"
      using later_left(1) [OF p2] Suc.prems by (intro Suc.IH) (auto simp: ok2)
    then obtain x r where "elem_patterns n rec (advance_p p2) = Some (x, r)" "later (advance_p p2) r" by blast
    then show ?thesis using True q(1) later_trans [OF later_trans [OF p2 ok2(2)]] by auto
  next
    case False
    then show ?thesis using q(1) p2 later_trans [OF p2 ok2(2)] by auto
  qed
qed

lemma path_later: "parser_ok p \<Longrightarrow> later p (snd (path_parts p))"
proof (induction p rule: path_parts.induct)
  case (1 p)
  show ?case
  proof (cases "ps_pos p < token_count p \<and> at_member p")
    case True
    have "later p (advance_p (advance_p p))" using 1(2) later_steps(1) later_trans by (meson later_left(2))
    then have "later p (snd (path_parts (advance_p (advance_p p))))"
      using 1(1) [OF True refl] later_left(2) later_trans by blast
    then show ?thesis using True by (subst path_parts.simps) (simp add: Let_def split_beta)
  next
    case False
    then have "path_parts p = ([], p)" by (subst path_parts.simps) (rule if_not_P)
    then show ?thesis using 1(2) later_refl by simp
  qed
qed

lemma atom_returns:
  assumes "returns n rec"
  shows "returns (Suc n) (parse_pattern_atom n rec)"
  unfolding returns_def
proof (intro allI impI, elim conjE)
  fix p assume p: "parser_ok p" "tokens_left p < Suc n"
  let ?p1 = "advance_p p"
  have p1: "later p ?p1" "parser_ok ?p1" using p(1) later_steps by auto
  have sub: "\<exists>x r. paren_pattern rec q = Some (x, r) \<and> later p r" if "later ?p1 q" "check p k" "k \<noteq> TOK_EOF_K" for q k
  proof -
    have "tokens_left q < n" using later_left(1) [OF that(1)] advance_over [OF p(1) that(2,3)] p(2) by simp
    then have "\<exists>x r. paren_pattern rec q = Some (x, r) \<and> later q r"
      using paren_returns [OF assms] later_left(2) [OF that(1)] by (simp add: returns_def)
    then show ?thesis using later_trans [OF later_trans [OF p1(1) that(1)]] by blast
  qed
  have paren: "\<exists>x r. paren_pattern rec (advance_p ?p1) = Some (x, r) \<and> later p r"
    "\<exists>x r. paren_pattern rec (expect k' ?p1) = Some (x, r) \<and> later p r" if "check p k" "k \<noteq> TOK_EOF_K" for k k'
    using sub [OF later_steps(1) [OF p1(2)] that] sub [OF later_steps(2) [OF p1(2)] that] by blast+
  have brace: "\<exists>x r. brace_pattern n rec p = Some (x, r) \<and> later p r" if "check p (Dl TOK_LBRACE)"
  proof -
    have left: "tokens_left ?p1 < n" using advance_over [OF p(1) that] p(2) by simp
    have close: "later p (expect (Dl TOK_RBRACE) (skip_newlines r))" if "later ?p1 r" for r
      using that p1(1) by (meson later_trans later_steps later_left(2))
    obtain fs r where fs: "field_patterns n rec ?p1 = Some (fs, r)" "later ?p1 r"
      using field_patterns_return [OF assms p1(2) left less_imp_le [OF left]] by blast
    obtain qs s where qs: "elem_patterns n rec ?p1 = Some (qs, s)" "later ?p1 s"
      using elem_patterns_return [OF assms p1(2) left less_imp_le [OF left]] by blast
    show ?thesis
      using fs(1) qs(1) close [OF fs(2)] close [OF qs(2)] close [OF later_refl [OF p1(2)]]
      by (simp add: brace_pattern_def Let_def)
  qed
  have name: "\<exists>x r. name_pattern rec p = Some (x, r) \<and> later p r" if "check p (Idt TOK_IDENT)"
    using paren(1) [OF that] p1(1) path_later [OF p1(2)] later_trans [OF p1(1)]
    by (auto simp: name_pattern_def Let_def split: prod.splits)
  have neg: "later p (snd (negative_pattern p))"
    using p(1) by (auto simp: negative_pattern_def Let_def split: prod.splits
        intro: later_trans [OF _ later_steps(4)] later_trans [OF _ later_steps(1)] later_refl)
  then have neg': "\<exists>x q. negative_pattern p = (x, q) \<and> later p q" by (cases "negative_pattern p") auto
  have bump: "later p (leaf_bump (parse_error loc msg p))" for loc msg
    using later_trans [OF later_steps(4) later_steps(5)] p(1) by simp
  have "ends p (parse_pattern_atom n rec p)"
    unfolding parse_pattern_atom_def Let_def
    by (intro ends_if ends_bind)
      (auto simp: ends_def split_beta intro: neg' p1(1) bump paren brace name)
  then show "\<exists>x r. parse_pattern_atom n rec p = Some (x, r) \<and> later p r" by (simp only: ends_def)
qed

lemma more_alts_return:
  assumes "returns m atom"
  shows "parser_ok p \<Longrightarrow> tokens_left p < m \<Longrightarrow> tokens_left p \<le> n \<Longrightarrow>
    \<exists>x q. more_alts n atom alts p = Some (x, q) \<and> later p q"
proof (induction n arbitrary: p alts)
  case 0
  then show ?case using left_pos by fastforce
next
  case (Suc n)
  show ?case
  proof (cases "check p (Op TOK_PIPE)")
    case True
    have p1: "later p (advance_p p)" "tokens_left (advance_p p) < tokens_left p"
      using later_steps(1) [OF Suc.prems(1)] advance_over [OF Suc.prems(1) True] by auto
    obtain q p2 where q: "atom (advance_p p) = Some (q, p2)" "later (advance_p p) p2"
      using returnsD [OF assms, of "advance_p p"] p1(2) later_left [OF p1(1)] Suc.prems by auto
    obtain x r where "more_alts n atom (add_alt alts q) p2 = Some (x, r)" "later p2 r"
      using Suc.IH [of p2 "add_alt alts q"] later_left [OF q(2)] p1(2) Suc.prems by auto
    then show ?thesis using True q later_trans [OF later_trans [OF p1(1) q(2)]] by auto
  next
    case False
    then show ?thesis using Suc.prems(1) later_refl by simp
  qed
qed

lemma pattern_returns: "returns n (parse_pattern n)"
proof (induction n)
  case 0
  show ?case by (simp add: returns_def)
next
  case (Suc n)
  let ?atom = "parse_pattern_atom n (parse_pattern n)"
  have atom: "returns (Suc n) ?atom" by (rule atom_returns [OF Suc])
  show ?case
    unfolding returns_def
  proof (intro allI impI, elim conjE)
    fix p assume p: "parser_ok p" "tokens_left p < Suc n"
    obtain q p1 where q: "?atom p = Some (q, p1)" "later p p1" by (rule returnsD [OF atom p])
    obtain x r where "more_alts n ?atom (add_alt [] q) p1 = Some (x, r)" "later p1 r"
      using more_alts_return [OF atom, of p1 n "add_alt [] q"] later_left [OF q(2)] p(2) by auto
    then show "\<exists>x r. parse_pattern (Suc n) p = Some (x, r) \<and> later p r"
      using q later_trans [OF q(2)] by (auto simp: Let_def)
  qed
qed

subsection \<open>What it returns\<close>

text \<open>An or-pattern has alternatives and a variant pattern a payload.\<close>

lemma parsed_pat_simps [simp]:
  "parsed (PAT_WILDCARD loc)" "parsed (PAT_BINDING loc n)" "parsed (PAT_INT_LIT loc x oor neg)"
  "parsed (PAT_CHAR_LIT loc c)" "parsed (PAT_BOOL_LIT loc b)" "parsed (PAT_STRING_LIT loc s len)"
  "parsed (PAT_NONE loc)" "parsed (PAT_CONST_PATH loc parts)" "parsed (PAT_ERROR loc)"
  "parsed (PAT_SOME loc q) \<longleftrightarrow> (\<forall>p\<in>set_option q. parsed p)"
  "parsed (PAT_OK loc q) \<longleftrightarrow> (\<forall>p\<in>set_option q. parsed p)"
  "parsed (PAT_ERR loc q) \<longleftrightarrow> (\<forall>p\<in>set_option q. parsed p)"
  "parsed (PAT_VARIANT loc n q) \<longleftrightarrow> q \<noteq> None \<and> (\<forall>p\<in>set_option q. parsed p)"
  "parsed (PAT_STRUCT loc fs) \<longleftrightarrow> (\<forall>f\<in>set fs. parsed (snd f))"
  "parsed (PAT_TUPLE loc ps) \<longleftrightarrow> (\<forall>p\<in>set ps. parsed p)"
  "parsed (PAT_OR loc ps) \<longleftrightarrow> ps \<noteq> [] \<and> (\<forall>p\<in>set ps. parsed p)"
proof -
  define P where "P = (\<lambda>p. case p of PAT_OR _ ps \<Rightarrow> ps \<noteq> [] | PAT_VARIANT _ _ q \<Rightarrow> q \<noteq> None | _ \<Rightarrow> True)"
  have eq: "parsed = pattern_all P" by (simp only: parsed_def P_def)
  have P: "P (PAT_WILDCARD loc)" "P (PAT_BINDING loc n)" "P (PAT_INT_LIT loc x oor neg)" "P (PAT_CHAR_LIT loc c)"
    "P (PAT_BOOL_LIT loc b)" "P (PAT_STRING_LIT loc s len)" "P (PAT_NONE loc)" "P (PAT_CONST_PATH loc parts)"
    "P (PAT_ERROR loc)" "P (PAT_SOME loc q)" "P (PAT_OK loc q)" "P (PAT_ERR loc q)" "P (PAT_VARIANT loc n q) = (q \<noteq> None)"
    "P (PAT_STRUCT loc fs)" "P (PAT_TUPLE loc ps)" "P (PAT_OR loc ps) = (ps \<noteq> [])"
    by (simp_all add: P_def)
  show "parsed (PAT_WILDCARD loc)" "parsed (PAT_BINDING loc n)" "parsed (PAT_INT_LIT loc x oor neg)"
    "parsed (PAT_CHAR_LIT loc c)" "parsed (PAT_BOOL_LIT loc b)" "parsed (PAT_STRING_LIT loc s len)"
    "parsed (PAT_NONE loc)" "parsed (PAT_CONST_PATH loc parts)" "parsed (PAT_ERROR loc)"
    "parsed (PAT_SOME loc q) \<longleftrightarrow> (\<forall>p\<in>set_option q. parsed p)"
    "parsed (PAT_OK loc q) \<longleftrightarrow> (\<forall>p\<in>set_option q. parsed p)"
    "parsed (PAT_ERR loc q) \<longleftrightarrow> (\<forall>p\<in>set_option q. parsed p)"
    "parsed (PAT_VARIANT loc n q) \<longleftrightarrow> q \<noteq> None \<and> (\<forall>p\<in>set_option q. parsed p)"
    "parsed (PAT_STRUCT loc fs) \<longleftrightarrow> (\<forall>f\<in>set fs. parsed (snd f))"
    "parsed (PAT_TUPLE loc ps) \<longleftrightarrow> (\<forall>p\<in>set ps. parsed p)"
    "parsed (PAT_OR loc ps) \<longleftrightarrow> ps \<noteq> [] \<and> (\<forall>p\<in>set ps. parsed p)"
    unfolding eq by (simp_all add: P pred_option_def list_all_iff option.set_map)
qed

definition out :: "('a \<Rightarrow> bool) \<Rightarrow> ('a \<times> parser) option \<Rightarrow> bool" where
  "out P r \<longleftrightarrow> (\<forall>x q. r = Some (x, q) \<longrightarrow> P x)"

lemma out_if: "(b \<Longrightarrow> out P x) \<Longrightarrow> (\<not> b \<Longrightarrow> out P y) \<Longrightarrow> out P (if b then x else y)"
  by simp

lemma out_value: "P x \<Longrightarrow> out P (Some (x, q))"
  by (simp add: out_def)

lemma out_bind: "out Q m \<Longrightarrow> (\<And>x q. Q x \<Longrightarrow> out P (f x q)) \<Longrightarrow> out P (m \<bind> (\<lambda>(x, q). f x q))"
  unfolding out_def by (cases m) (simp, fastforce)

lemma out_mono: "out P r \<Longrightarrow> (\<And>x. P x \<Longrightarrow> Q x) \<Longrightarrow> out Q r"
  by (auto simp: out_def)

abbreviation "gives_parsed f \<equiv> \<forall>p. out parsed (f p)"

lemma field_patterns_parsed:
  "gives_parsed rec \<Longrightarrow> out (\<lambda>fs. \<forall>f\<in>set fs. parsed (snd f)) (field_patterns n rec p)"
proof (induction n arbitrary: p)
  case (Suc n)
  show ?case
    unfolding field_patterns.simps Let_def
    by (rule out_bind [OF Suc.prems [rule_format]])
      (intro out_if out_value out_bind [OF Suc.IH [OF Suc.prems]]; simp)
qed (simp add: out_def)

lemma elem_patterns_parsed:
  "gives_parsed rec \<Longrightarrow> out (\<lambda>qs. \<forall>q\<in>set qs. parsed q) (elem_patterns n rec p)"
proof (induction n arbitrary: p)
  case (Suc n)
  show ?case
    unfolding elem_patterns.simps Let_def
    by (rule out_bind [OF Suc.prems [rule_format]])
      (intro out_if out_value out_bind [OF Suc.IH [OF Suc.prems]]; simp)
qed (simp add: out_def)

lemma atom_parsed:
  assumes "gives_parsed rec"
  shows "gives_parsed (parse_pattern_atom n rec)"
proof
  fix p
  have paren: "out parsed (paren_pattern rec p)" for p
    unfolding paren_pattern_def by (rule out_bind [OF assms [rule_format]]) (rule out_value)
  have sub: "out parsed (paren_pattern rec p \<bind> (\<lambda>(q, p2). Some (c (Some q), p2)))"
    if "\<And>q. parsed q \<Longrightarrow> parsed (c (Some q))" for c p
    using that by (intro out_bind [OF paren] out_value)
  have brace: "out parsed (brace_pattern n rec p)"
    unfolding brace_pattern_def Let_def
    by (intro out_if out_bind [OF field_patterns_parsed [OF assms]] out_bind [OF elem_patterns_parsed [OF assms]] out_value
        out_bind [OF out_if [OF out_value field_patterns_parsed [OF assms]]]; simp)
  have name: "out parsed (name_pattern rec p)"
    unfolding name_pattern_def Let_def
    by (intro out_if out_value sub; simp add: split_beta out_value)
  show "out parsed (parse_pattern_atom n rec p)"
    unfolding parse_pattern_atom_def Let_def
    by (intro out_if out_value sub brace name; simp add: negative_pattern_def Let_def split_beta out_value)
qed

lemma add_alt_parsed: "parsed q \<Longrightarrow> \<forall>x\<in>set alts. parsed x \<Longrightarrow> (\<forall>x\<in>set (add_alt alts q). parsed x) \<and> add_alt alts q \<noteq> []"
  by (cases q) (auto simp: add_alt_def)

lemma more_alts_parsed:
  "gives_parsed atom \<Longrightarrow> \<forall>q\<in>set alts. parsed q \<Longrightarrow> alts \<noteq> [] \<Longrightarrow>
    out (\<lambda>qs. (\<forall>q\<in>set qs. parsed q) \<and> qs \<noteq> []) (more_alts n atom alts p)"
proof (induction n arbitrary: p alts)
  case (Suc n)
  have "out (\<lambda>qs. (\<forall>q\<in>set qs. parsed q) \<and> qs \<noteq> []) (more_alts n atom (add_alt alts q) p1)" if "parsed q" for q p1
    using Suc.IH [OF Suc.prems(1)] add_alt_parsed [OF that Suc.prems(2)] by blast
  then show ?case
    unfolding more_alts.simps using Suc.prems
    by (intro out_if out_value out_bind [OF Suc.prems(1) [rule_format]]) auto
qed (simp add: out_def)

lemma pattern_parsed: "gives_parsed (parse_pattern n)"
proof (induction n)
  case (Suc n)
  note atom = atom_parsed [OF Suc, of n]
  show ?case
    unfolding parse_pattern.simps Let_def
    by (intro allI out_bind [OF atom [rule_format]] out_if out_value out_bind [OF more_alts_parsed [OF atom]];
        simp add: add_alt_parsed [where alts = "[]", simplified])
qed (simp add: out_def)

end
