(* ===== verification/FC_ParseType.thy ===== *)
theory FC_ParseType
  imports FC_ParsePattern FC_Mangle
begin

section \<open>The parser of types (\<open>src/parser.c\<close>)\<close>

text \<open>
  Const expressions in parentheses and \<open>sizeof\<close> go to the parser of expressions, and a dotted name
  becomes an expression node that \<open>cexpr\<close> does not split: these are parameters.
\<close>

record expr_parsers =
  bracketed_expr :: "parser \<Rightarrow> cexpr \<times> parser"
  prefix_expr :: "parser \<Rightarrow> cexpr \<times> parser"
  path_node :: "src_loc \<Rightarrow> string \<Rightarrow> (string \<times> src_loc) list \<Rightarrow> cexpr"
  error_node :: "src_loc \<Rightarrow> cexpr"

definition starts_const_atom :: "token_kind \<Rightarrow> bool" where
  "starts_const_atom k \<longleftrightarrow>
     k \<in> {Lit TOK_INT_LIT, Idt TOK_TYPE_VAR, Idt TOK_IDENT, Op TOK_MINUS, Dl TOK_LPAREN, Bi TOK_SIZEOF, Bi TOK_ALIGNOF}"

subsection \<open>Const expressions\<close>

function const_fields :: "parser \<Rightarrow> (string \<times> src_loc) list \<times> parser" where
  "const_fields p =
     (if ps_pos p < token_count p \<and> check p (Op TOK_DOT) then
        let p1 = advance_p p; m = current p1; (fs, q) = const_fields (expect (Idt TOK_IDENT) p1)
        in ((tok_intern p1 m, tok_loc_p p1 m) # fs, q)
      else ([], p))"
  by pat_completeness auto
termination const_fields
  by (relation "measure (\<lambda>p. token_count p - ps_pos p)")
    (auto simp: advance_p_def at_end_p_def check_def expect_def parse_error_def token_count_def)

declare const_fields.simps [simp del]

primrec parse_const_atom :: "expr_parsers \<Rightarrow> nat \<Rightarrow> cexpr parse" where
  "parse_const_atom env 0 p = None"
| "parse_const_atom env (Suc n) p =
     (let t = current p; loc = tok_loc_p p t; p1 = advance_p p
      in if check p (Lit TOK_INT_LIT) then
           let (v, oor) = parse_int_value (text_of_token p t) in Some (CIntLit loc None v oor, p1)
         else if check p (Idt TOK_TYPE_VAR) then Some (CTypeVarRef loc None (tok_intern p t), p1)
         else if check p (Idt TOK_IDENT) then
           let (fs, p2) = const_fields p1 in Some (path_node env loc (tok_intern p t) fs, p2)
         else if check p (Op TOK_MINUS) then
           do { (e, p2) \<leftarrow> parse_const_atom env n p1; Some (CUnary loc None (Op TOK_MINUS) e, p2) }
         else if check p (Dl TOK_LPAREN) then
           let (e, p2) = bracketed_expr env p1 in Some (e, expect (Dl TOK_RPAREN) p2)
         else if check p (Bi TOK_SIZEOF) \<or> check p (Bi TOK_ALIGNOF) then Some (prefix_expr env p)
         else
           Some (error_node env loc,
                 leaf_bump (parse_error (loc_from_token t)
                   (''expected a constant (an integer, a const parameter or a named constant), got '' @
                    token_kind_name (t_kind t)) p)))"

definition const_prec :: "token_kind \<Rightarrow> nat option" where
  "const_prec k =
     (if k \<in> {Op TOK_STAR, Op TOK_SLASH, Op TOK_PERCENT} then Some 2
      else if k \<in> {Op TOK_PLUS, Op TOK_MINUS} then Some 1 else None)"

text \<open>The loop over the operators, with the parser of a right operand of a given level.\<close>

fun const_operators :: "nat \<Rightarrow> (nat \<Rightarrow> cexpr parse) \<Rightarrow> nat \<Rightarrow> cexpr \<Rightarrow> cexpr parse" where
  "const_operators 0 rec min_prec left p = None"
| "const_operators (Suc n) rec min_prec left p =
     (let t = current p; k = t_kind t
      in case const_prec k of
           None \<Rightarrow> Some (left, p)
         | Some prec \<Rightarrow>
             if prec < min_prec then Some (left, p)
             else do {
               (right, p1) \<leftarrow> rec (prec + 1) (advance_p p);
               const_operators n rec min_prec (CBinary (tok_loc_p p t) None k left right) p1
             })"

primrec parse_const_arith_inner :: "expr_parsers \<Rightarrow> nat \<Rightarrow> nat \<Rightarrow> cexpr parse" where
  "parse_const_arith_inner env 0 min_prec p = None"
| "parse_const_arith_inner env (Suc n) min_prec p =
     do {
       (left, p1) \<leftarrow> parse_const_atom env (Suc n) p;
       const_operators (Suc n) (parse_const_arith_inner env n) min_prec left p1
     }"

definition parse_const_arith :: "expr_parsers \<Rightarrow> nat \<Rightarrow> nat \<Rightarrow> cexpr parse" where
  "parse_const_arith env n min_prec p =
     do {
       (e, q) \<leftarrow> parse_const_arith_inner env n min_prec (p\<lparr>ps_in_const_expr := True\<rparr>);
       Some (e, q\<lparr>ps_in_const_expr := ps_in_const_expr p\<rparr>)
     }"

subsection \<open>Suffixes\<close>

definition parse_size_literal :: "token \<Rightarrow> parser \<Rightarrow> u64 \<times> parser" where
  "parse_size_literal t p =
     (let (n, oor) = parse_int_value (text_of_token p t)
      in if oor then
           (1, parse_error (loc_from_token t)
                 ''integer literal exceeds 64-bit unsigned range (max 18446744073709551615)'' p)
         else if mask 63 < n then
           (1, parse_error (loc_from_token t)
                 (''integer literal '' @ dec_nat (unat n) @
                  '' out of range for i64 (-9223372036854775808..9223372036854775807)'') p)
         else (n, p))"

text \<open>One round of the loop: the type with its suffix, or \<open>None\<close> at the end.\<close>

definition suffix_step :: "expr_parsers \<Rightarrow> nat \<Rightarrow> ctype \<Rightarrow> ctype option parse" where
  "suffix_step env n base p =
     (let k1 = t_kind (peek_p p 1); k2 = t_kind (peek_p p 2); p1 = advance_p p
      in if kind base = TYPE_FIXED_ARRAY \<and>
            (check p (Op TOK_STAR) \<or> check p (Dl TOK_LBRACKET) \<or> check p (Op TOK_QUESTION) \<or> check p (Op TOK_BANG)) then
           Some (None, parse_error (loc_from_token (current p)) ''a fixed array must be a field's outermost type'' p)
         else if check p (Op TOK_STAR) then Some (Some (type_pointer base), p1)
         else if check p (Dl TOK_LBRACKET) \<and> k1 = Dl TOK_RBRACKET \<and> k2 \<noteq> Dl TOK_LBRACE then
           Some (Some (type_slice base), advance_p p1)
         else if ps_allow_fixed_array p \<and> check p (Dl TOK_LBRACKET) \<and> k1 = Lit TOK_INT_LIT \<and> k2 = Dl TOK_RBRACKET then
           let (size, p2) = parse_size_literal (current p1) p1
           in Some (Some (type_fixed_array base size), expect (Dl TOK_RBRACKET) (advance_p p2))
         else if ps_allow_fixed_array p \<and> check p (Dl TOK_LBRACKET) \<and> k1 = Idt TOK_TYPE_VAR \<and> k2 = Dl TOK_RBRACKET then
           Some (Some (type_fixed_array_sym base (type_type_var (tok_intern p1 (current p1)))),
                 expect (Dl TOK_RBRACKET) (advance_p p1))
         else if ps_allow_fixed_array p \<and> check p (Dl TOK_LBRACKET) \<and> starts_const_atom k1 then
           do {
             (e, p2) \<leftarrow> parse_const_arith env n 1 p1;
             Some (Some (type_fixed_array_sym base (type_const_expr e)), expect (Dl TOK_RBRACKET) p2)
           }
         else if check p (Op TOK_QUESTION) then Some (Some (type_option base), p1)
         else if check p (Op TOK_BANG) then Some (Some (type_result base), p1)
         else Some (None, p))"

primrec parse_type_suffix :: "expr_parsers \<Rightarrow> nat \<Rightarrow> ctype \<Rightarrow> ctype parse" where
  "parse_type_suffix env 0 base p = None"
| "parse_type_suffix env (Suc n) base p =
     do {
       (r, p1) \<leftarrow> suffix_step env n base p;
       case r of None \<Rightarrow> Some (base, p1) | Some t \<Rightarrow> parse_type_suffix env n t p1
     }"

definition const_kind :: "ctype \<Rightarrow> bool" where
  "const_kind t \<longleftrightarrow> kind t \<in> {TYPE_POINTER, TYPE_SLICE, TYPE_ANY_PTR}"

definition not_constable :: "ctype \<Rightarrow> src_loc \<Rightarrow> parser \<Rightarrow> ctype \<times> parser" where
  "not_constable inner loc p =
     (type_error,
      parse_error loc ([squote] @ ''const'' @ [squote] @ '' can only modify pointer (*) or slice ([]) types, got '' @
                       type_name inner) p)"

definition apply_const :: "ctype \<Rightarrow> src_loc \<Rightarrow> parser \<Rightarrow> ctype \<times> parser" where
  "apply_const inner loc p =
     (if const_kind inner then (set_const True inner, p)
      else
        case inner of
          TOption _ ci \<Rightarrow> if const_kind ci then (type_option (set_const True ci), p) else not_constable inner loc p
        | TResult _ ci \<Rightarrow> if const_kind ci then (type_result (set_const True ci), p) else not_constable inner loc p
        | _ \<Rightarrow> not_constable inner loc p)"

subsection \<open>Types\<close>

text \<open>The loops over the elements of a list of types, up to the token that is no comma.\<close>

fun type_list :: "nat \<Rightarrow> ctype parse \<Rightarrow> ctype list parse" where
  "type_list 0 rec p = None"
| "type_list (Suc n) rec p =
     do {
       (t, p1) \<leftarrow> rec p;
       if check p1 (Op TOK_COMMA) then do { (ts, p2) \<leftarrow> type_list n rec (advance_p p1); Some (t # ts, p2) }
       else Some ([t], p1)
     }"

fun tuple_elems :: "nat \<Rightarrow> ctype parse \<Rightarrow> ctype list parse" where
  "tuple_elems 0 rec p = None"
| "tuple_elems (Suc n) rec p =
     do {
       (t, p1) \<leftarrow> rec p;
       if check p1 (Op TOK_COMMA) then
         if check (advance_p p1) (Dl TOK_RBRACE) then Some ([t], advance_p p1)
         else do { (ts, p2) \<leftarrow> tuple_elems n rec (advance_p p1); Some (t # ts, p2) }
       else Some ([t], p1)
     }"

text \<open>Parameters, with whether an ellipsis ended them.\<close>

fun param_list :: "nat \<Rightarrow> ctype parse \<Rightarrow> (ctype list \<times> bool) parse" where
  "param_list 0 rec p = None"
| "param_list (Suc n) rec p =
     do {
       (t, p1) \<leftarrow> rec p;
       if check p1 (Op TOK_COMMA) then
         if check (advance_p p1) (Op TOK_ELLIPSIS) then Some (([t], True), advance_p (advance_p p1))
         else do { ((ts, v), p2) \<leftarrow> param_list n rec (advance_p p1); Some ((t # ts, v), p2) }
       else Some (([t], False), p1)
     }"

function type_path :: "parser \<Rightarrow> string \<Rightarrow> string \<times> parser" where
  "type_path p name =
     (if ps_pos p < token_count p \<and> at_member p then
        let p1 = advance_p p in type_path (advance_p p1) (name @ ''.'' @ text_of_token p1 (current p1))
      else (name, p))"
  by pat_completeness auto
termination type_path
  by (relation "measure (\<lambda>(p, _). token_count p - ps_pos p)")
    (auto simp: advance_p_def at_end_p_def at_member_def check_def token_count_def)

declare type_path.simps [simp del]

definition type_stub :: "string \<Rightarrow> ctype list \<Rightarrow> ctype" where
  "type_stub n args = TStub plain \<lparr>st_name = n, st_qualified_name = None, st_base_name = None\<rparr> args"

text \<open>
  Type arguments are read tentatively: if no \<open>>\<close> closes them the position and the reports are
  those before.
\<close>

definition stub_type :: "expr_parsers \<Rightarrow> nat \<Rightarrow> ctype list parse \<Rightarrow> ctype parse" where
  "stub_type env n args p =
     (let (name, p1) = type_path (advance_p p) (tok_intern p (current p))
      in if check p1 (Op TOK_LT) then
           do {
             (ts, p2) \<leftarrow> args (advance_p p1);
             if at_typearg_gt p2 then parse_type_suffix env n (type_stub name ts) (snd (consume_typearg_gt p2))
             else parse_type_suffix env n (type_stub name [])
                    (restore_pos (ps_pos p1) (p2\<lparr>ps_diags := ps_diags p1\<rparr>))
           }
         else parse_type_suffix env n (type_stub name []) p1)"

definition named_type :: "expr_parsers \<Rightarrow> nat \<Rightarrow> ctype list parse \<Rightarrow> ctype parse" where
  "named_type env n args p =
     (let p1 = advance_p p
      in case type_from_name (text_of_token p (current p)) of
           None \<Rightarrow> stub_type env n args p
         | Some base \<Rightarrow>
             if base = type_any_ptr then
               if check p1 (Op TOK_STAR) then parse_type_suffix env n base (advance_p p1)
               else Some (type_error,
                          parse_error (loc_from_token (current p1))
                            ([squote] @ ''any'' @ [squote] @ '' must be followed by '' @ [squote] @ ''*'' @ [squote] @ '' (any*)'') p1)
             else parse_type_suffix env n base p1)"

definition tuple_type :: "expr_parsers \<Rightarrow> nat \<Rightarrow> ctype parse \<Rightarrow> ctype parse" where
  "tuple_type env n rec p =
     (let p1 = advance_p p
      in do {
        (elems, p2) \<leftarrow> (if check p1 (Dl TOK_RBRACE) then Some ([], p1) else tuple_elems n rec p1);
        let p3 = expect (Dl TOK_RBRACE) p2
        in if length elems < 2 then
             Some (type_error,
                   parse_error (loc_from_token (current p))
                     (''tuple type requires at least 2 element types, got '' @ dec_nat (length elems)) p3)
           else parse_type_suffix env n (type_tuple elems) p3
      })"

definition func_type :: "expr_parsers \<Rightarrow> nat \<Rightarrow> ctype parse \<Rightarrow> ctype parse" where
  "func_type env n rec p =
     (let p1 = advance_p p
      in do {
        ((params, variadic), p2) \<leftarrow>
          (if check p1 (Dl TOK_RPAREN) then Some (([], False), p1)
           else if check p1 (Op TOK_ELLIPSIS) then Some (([], True), advance_p p1)
           else param_list n rec p1);
        let p3 = expect (Dl TOK_RPAREN) p2
        in if \<not> check p3 (Op TOK_ARROW) then
             if length params \<noteq> 1 \<or> variadic then
               Some (type_error,
                     parse_error (loc_from_token (current p3))
                       (''expected '' @ [squote] @ ''->'' @ [squote] @ '' after function parameter list'') p3)
             else parse_type_suffix env n (hd params) p3
           else do {
             (ret, p4) \<leftarrow> rec (advance_p p3);
             parse_type_suffix env n (TFunc plain params ret variadic []) p4
           }
      })"

subsection \<open>Type arguments\<close>

function scan_dotted_ident :: "parser \<Rightarrow> nat \<Rightarrow> nat" where
  "scan_dotted_ident p off =
     (if ps_pos p + off < token_count p \<and>
         t_kind (peek_p p (off + 1)) = Op TOK_DOT \<and> t_kind (peek_p p (off + 2)) = Idt TOK_IDENT
      then scan_dotted_ident p (off + 2) else off + 1)"
  by pat_completeness auto
termination scan_dotted_ident
  by (relation "measure (\<lambda>(p, off). token_count p - (ps_pos p + off))") auto

declare scan_dotted_ident.simps [simp del]

definition ident_arg_is_const_expr :: "parser \<Rightarrow> bool" where
  "ident_arg_is_const_expr p =
     (if check p (Idt TOK_IDENT) \<and> type_from_name (text_of_token p (current p)) \<noteq> None \<and>
         t_kind (peek_p p 1) = Op TOK_DOT \<and> t_kind (peek_p p 2) = Idt TOK_IDENT then True
      else
        let off = (if check p (Idt TOK_TYPE_VAR) then 1 else scan_dotted_ident p 0); k = t_kind (peek_p p off)
        in if k \<in> {Op TOK_PLUS, Op TOK_SLASH, Op TOK_PERCENT, Op TOK_MINUS} then True
           else if k = Op TOK_STAR then starts_const_atom (t_kind (peek_p p (off + 1)))
           else False)"

text \<open>The offset of the parenthesis that closes the one here, or of the end of the file.\<close>

fun close_offset :: "nat \<Rightarrow> token_kind list \<Rightarrow> nat" where
  "close_offset depth [] = 0"
| "close_offset depth (k # ks) =
     (if k = TOK_EOF_K then 0
      else if k = Dl TOK_LPAREN then Suc (close_offset (depth + 1) ks)
      else if k = Dl TOK_RPAREN then (if depth - 1 = 0 then 0 else Suc (close_offset (depth - 1) ks))
      else Suc (close_offset depth ks))"

definition is_const_arg :: "parser \<Rightarrow> bool" where
  "is_const_arg p =
     (let k = t_kind (current p)
      in if k \<in> {Lit TOK_INT_LIT, Op TOK_MINUS, Bi TOK_SIZEOF, Bi TOK_ALIGNOF} then True
         else if k \<in> {Idt TOK_TYPE_VAR, Idt TOK_IDENT} then ident_arg_is_const_expr p
         else if k = Dl TOK_LPAREN then
           t_kind (peek_p p (close_offset 0 (map t_kind (drop (ps_pos p) (ps_tokens p))) + 1)) \<noteq> Op TOK_ARROW
         else False)"

definition parse_type_arg :: "expr_parsers \<Rightarrow> nat \<Rightarrow> ctype parse \<Rightarrow> ctype parse" where
  "parse_type_arg env n rec p =
     (if \<not> is_const_arg p then rec p
      else do {
        (e, q) \<leftarrow> parse_const_arith env n 1 p;
        case e of
          CIntLit _ _ v oor \<Rightarrow>
            if oor then Some (type_error, parse_error (loc_from_token (current p)) ''const generic argument out of range'' q)
            else Some (type_const_int v, q)
        | _ \<Rightarrow> Some (type_const_expr e, q)
      })"

primrec parse_type :: "expr_parsers \<Rightarrow> nat \<Rightarrow> ctype parse" where
  "parse_type env 0 p = None"
| "parse_type env (Suc n) p =
     (let t = current p; p1 = advance_p p; rec = parse_type env n; suffix = parse_type_suffix env (Suc n)
      in if check p (Bi TOK_CONST) then
           do { (inner, p2) \<leftarrow> rec p1; Some (apply_const inner (loc_from_token t) p2) }
         else if check p (Kw TOK_VOID) then
           if check p1 (Op TOK_BANG) then suffix (type_result type_void) (advance_p p1) else Some (type_void, p1)
         else if check p (Kw TOK_ERROR_KW) then suffix type_error_code p1
         else if check p (Idt TOK_TYPE_VAR) then suffix (type_type_var (tok_intern p t)) p1
         else if check p (Idt TOK_IDENT) then
           named_type env (Suc n) (type_list (Suc n) (parse_type_arg env (Suc n) rec)) p
         else if check p (Dl TOK_LBRACE) then tuple_type env (Suc n) rec p
         else if check p (Dl TOK_LPAREN) then func_type env (Suc n) rec p
         else Some (type_error,
                    parse_error (loc_from_token t) (''expected type, got '' @ token_kind_name (t_kind t)) p))"

end
