(* ===== verification/FC_Lookahead.thy ===== *)
theory FC_Lookahead
  imports FC_ParseType
begin

section \<open>Lookahead and recovery of the parser (\<open>src/parser.c\<close>)\<close>

text \<open>
  Scans over the tokens ahead that choose a reading before anything is parsed, and the loops that
  skip tokens after an error. An offset \<open>-1\<close> of the code, for no match, is \<open>None\<close>.
\<close>

subsection \<open>The names of generic declarations\<close>

definition gn_add :: "string \<Rightarrow> string list \<Rightarrow> string list" where
  "gn_add name names = (if name \<in> set names then names else names @ [name])"

definition gn_range_has_type_var :: "token list \<Rightarrow> bool" where
  "gn_range_has_type_var ts \<longleftrightarrow> (\<exists>t\<in>set ts. t_kind t = Idt TOK_TYPE_VAR)"

text \<open>The tokens after an opening bracket, up to its closer, a stopping token or the end.\<close>

fun group_tokens :: "token_kind \<Rightarrow> token_kind \<Rightarrow> token_kind set \<Rightarrow> nat \<Rightarrow> token list \<Rightarrow> token list" where
  "group_tokens opn cls stop depth [] = []"
| "group_tokens opn cls stop depth (t # ts) =
     (if depth = 0 then []
      else if t_kind t = opn then t # group_tokens opn cls stop (depth + 1) ts
      else if t_kind t = cls then t # group_tokens opn cls stop (depth - 1) ts
      else if t_kind t \<in> stop then []
      else t # group_tokens opn cls stop depth ts)"

definition generic_struct :: "string \<Rightarrow> token list \<Rightarrow> string list" where
  "generic_struct src ts =
     (case ts of
        n # e # r \<Rightarrow>
          if t_kind n = Idt TOK_IDENT \<and> t_kind e = Op TOK_EQ then
            case dropWhile (\<lambda>t. t_kind t = Lay TOK_NEWLINE) r of
              [] \<Rightarrow> []
            | i # body \<Rightarrow>
                if t_kind i = Lay TOK_INDENT \<and>
                   gn_range_has_type_var (group_tokens (Lay TOK_INDENT) (Lay TOK_DEDENT) {} 1 body)
                then [tok_text src n] else []
          else []
      | _ \<Rightarrow> [])"

definition generic_let :: "string \<Rightarrow> token list \<Rightarrow> string list" where
  "generic_let src ts =
     (case (case ts of t # r \<Rightarrow> if t_kind t = Kw TOK_MUT then r else ts | [] \<Rightarrow> []) of
        n # e # r \<Rightarrow>
          if t_kind n = Idt TOK_IDENT \<and> t_kind e = Op TOK_EQ then
            case dropWhile (\<lambda>t. t_kind t \<in> {Lay TOK_NEWLINE, Lay TOK_INDENT}) r of
              [] \<Rightarrow> []
            | i # body \<Rightarrow>
                if t_kind i = Op TOK_LT then [tok_text src n]
                else if t_kind i = Dl TOK_LPAREN \<and>
                        gn_range_has_type_var
                          (group_tokens (Dl TOK_LPAREN) (Dl TOK_RPAREN) {Lay TOK_NEWLINE, TOK_EOF_K} 1 body)
                then [tok_text src n] else []
          else []
      | _ \<Rightarrow> [])"

fun import_aliases :: "string \<Rightarrow> token list \<Rightarrow> string list" where
  "import_aliases src (t # n # ts) =
     (if t_kind t \<in> {Lay TOK_NEWLINE, TOK_EOF_K} then []
      else if t_kind t = Kw TOK_AS \<and> t_kind n = Idt TOK_IDENT then tok_text src n # import_aliases src (n # ts)
      else import_aliases src (n # ts))"
| "import_aliases src ts = []"

definition generic_names_at :: "string \<Rightarrow> token list \<Rightarrow> string list" where
  "generic_names_at src ts =
     (case ts of
        [] \<Rightarrow> []
      | t # r \<Rightarrow>
          if t_kind t \<in> {Kw TOK_STRUCT, Kw TOK_UNION} then generic_struct src r
          else if t_kind t = Kw TOK_LET then generic_let src r
          else if t_kind t = Kw TOK_IMPORT then import_aliases src r
          else [])"

fun collect_generic_names :: "string \<Rightarrow> token list \<Rightarrow> string list \<Rightarrow> string list" where
  "collect_generic_names src [] names = names"
| "collect_generic_names src (t # ts) names =
     collect_generic_names src ts (fold gn_add (generic_names_at src (t # ts)) names)"

subsection \<open>Brackets\<close>

definition at_struct_lit_brace :: "parser \<Rightarrow> nat \<Rightarrow> bool" where
  "at_struct_lit_brace p off \<longleftrightarrow>
     t_kind (peek_p p off) = Dl TOK_LBRACE \<and>
     (let k = t_kind (peek_p p (off + 1))
      in k = Dl TOK_RBRACE \<or> k = Idt TOK_IDENT \<and> t_kind (peek_p p (off + 2)) = Op TOK_EQ)"

text \<open>The loop runs at least once, and a token array that has run out ends it like its last token.\<close>

function skip_group_from :: "parser \<Rightarrow> nat \<Rightarrow> token_kind \<Rightarrow> token_kind \<Rightarrow> nat \<Rightarrow> nat" where
  "skip_group_from p off opn cls depth =
     (let k = t_kind (peek_p p off);
          d = (if k = opn then depth + 1 else if k = cls then depth - 1 else depth)
      in if k \<noteq> opn \<and> k \<noteq> cls \<and> k = TOK_EOF_K then off
         else if 0 < d \<and> ps_pos p + off < token_count p then skip_group_from p (off + 1) opn cls d
         else off + 1)"
  by pat_completeness auto
termination skip_group_from
  by (relation "measure (\<lambda>(p, off, _, _, _). token_count p - (ps_pos p + off))") auto

declare skip_group_from.simps [simp del]

definition skip_group :: "parser \<Rightarrow> nat \<Rightarrow> token_kind \<Rightarrow> token_kind \<Rightarrow> nat" where
  "skip_group p off opn cls = skip_group_from p off opn cls 0"

definition at_slice_lit_brackets :: "parser \<Rightarrow> nat \<Rightarrow> bool" where
  "at_slice_lit_brackets p off \<longleftrightarrow>
     t_kind (peek_p p off) = Dl TOK_LBRACKET \<and>
     t_kind (peek_p p (skip_group p off (Dl TOK_LBRACKET) (Dl TOK_RBRACKET))) = Dl TOK_LBRACE"

subsection \<open>Type arguments in expressions\<close>

definition is_type_arg_token :: "token_kind \<Rightarrow> bool" where
  "is_type_arg_token k \<longleftrightarrow>
     k \<in> {Idt TOK_IDENT, Idt TOK_TYPE_VAR, Kw TOK_VOID, Kw TOK_ERROR_KW, Op TOK_LT, Op TOK_GT, Op TOK_COMMA, Op TOK_DOT,
          Op TOK_QUESTION, Op TOK_STAR, Op TOK_BANG, Dl TOK_LBRACKET, Dl TOK_RBRACKET, Dl TOK_LPAREN, Dl TOK_RPAREN,
          Dl TOK_LBRACE, Dl TOK_RBRACE, Op TOK_ARROW, Bi TOK_CONST, Lit TOK_INT_LIT, Op TOK_MINUS,
          Bi TOK_SIZEOF, Bi TOK_ALIGNOF, Op TOK_PLUS, Op TOK_SLASH, Op TOK_PERCENT}"

text \<open>
  The scan over the kinds from an index on, with the depth of angle brackets and of parentheses.
\<close>

fun typearg_loop :: "token_kind list \<Rightarrow> nat \<Rightarrow> nat \<Rightarrow> nat \<Rightarrow> nat option" where
  "typearg_loop [] depth paren scan = None"
| "typearg_loop (k # ks) depth paren scan =
     (if depth = 0 then (if paren \<noteq> 0 then None else Some scan)
      else if k = Dl TOK_LPAREN then typearg_loop ks depth (paren + 1) (scan + 1)
      else if k = Dl TOK_RPAREN then
        if paren = 0 then None else typearg_loop ks depth (paren - 1) (scan + 1)
      else if 0 < paren then
        if k = Lay TOK_NEWLINE \<or> k = TOK_EOF_K then None else typearg_loop ks depth paren (scan + 1)
      else if k = Op TOK_LT then typearg_loop ks (depth + 1) paren (scan + 1)
      else if k = Op TOK_GT then typearg_loop ks (depth - 1) paren (scan + 1)
      else if k = Op TOK_GTGT then
        if depth < 2 then None else typearg_loop ks (depth - 2) paren (scan + 1)
      else if \<not> is_type_arg_token k then None
      else typearg_loop ks depth paren (scan + 1))"

definition typearg_scan :: "parser \<Rightarrow> nat \<Rightarrow> nat option" where
  "typearg_scan p start = typearg_loop (map t_kind (drop start (ps_tokens p))) 1 0 start"

definition kind_at :: "parser \<Rightarrow> nat \<Rightarrow> token_kind" where "kind_at p i = t_kind (ps_tokens p ! i)"

definition generic_call_scan :: "parser \<Rightarrow> nat \<Rightarrow> bool" where
  "generic_call_scan p start =
     (case typearg_scan p start of None \<Rightarrow> False | Some e \<Rightarrow> kind_at p e \<in> {Dl TOK_LPAREN, Op TOK_DOT})"

definition bare_inst_scan :: "parser \<Rightarrow> nat \<Rightarrow> bool" where
  "bare_inst_scan p start =
     (case typearg_scan p start of
        None \<Rightarrow> False
      | Some e \<Rightarrow> kind_at p e \<in> {Lay TOK_NEWLINE, Lay TOK_DEDENT, TOK_EOF_K, Dl TOK_RPAREN, Dl TOK_RBRACKET,
                                 Dl TOK_RBRACE, Op TOK_COMMA})"

definition struct_lit_typearg_scan :: "parser \<Rightarrow> nat \<Rightarrow> bool" where
  "struct_lit_typearg_scan p start =
     (case typearg_scan p start of None \<Rightarrow> False | Some e \<Rightarrow> at_struct_lit_brace p (e - ps_pos p))"

subsection \<open>Slice literals\<close>

text \<open>The offset of the first token from \<open>off\<close> on that is not of the given kinds.\<close>

function skip_kinds :: "token_kind set \<Rightarrow> parser \<Rightarrow> nat \<Rightarrow> nat" where
  "skip_kinds K p off =
     (if ps_pos p + off < token_count p \<and> t_kind (peek_p p off) \<in> K then skip_kinds K p (off + 1) else off)"
  by pat_completeness auto
termination skip_kinds
  by (relation "measure (\<lambda>(K, p, off). token_count p - (ps_pos p + off))") auto

declare skip_kinds.simps [simp del]

definition scan_type_head :: "parser \<Rightarrow> nat option" where
  "scan_type_head p =
     (let c = skip_kinds {Bi TOK_CONST} p 0; k = t_kind (peek_p p c);
          suffix = skip_kinds {Op TOK_QUESTION, Op TOK_STAR, Op TOK_BANG} p
      in if k = Idt TOK_TYPE_VAR then Some (suffix (c + 1))
         else if k = Idt TOK_IDENT then
           let off = scan_dotted_ident p c
           in Some (suffix
                (if t_kind (peek_p p off) = Op TOK_LT then
                   case typearg_scan p (ps_pos p + off + 1) of None \<Rightarrow> off | Some e \<Rightarrow> e - ps_pos p
                 else off))
         else None)"

definition at_slice_literal :: "parser \<Rightarrow> bool" where
  "at_slice_literal p = (case scan_type_head p of None \<Rightarrow> False | Some off \<Rightarrow> at_slice_lit_brackets p off)"

subsection \<open>Closers and separators\<close>

definition expect_typearg_gt :: "parser \<Rightarrow> parser" where
  "expect_typearg_gt p =
     (let (ok, q) = consume_typearg_gt p
      in if ok then q
         else parse_error (loc_from_token (current q))
                (''expected '' @ [squote] @ ''>'' @ [squote] @ '' to close type arguments, got '' @
                 token_kind_name (t_kind (current q))) q)"

function skip_separators :: "parser \<Rightarrow> parser" where
  "skip_separators p =
     (if ps_pos p < token_count p \<and> (check p (Lay TOK_NEWLINE) \<or> check p (Op TOK_SEMICOLON))
      then skip_separators (advance_p p) else p)"
  by pat_completeness auto
termination skip_separators
  by (relation "measure (\<lambda>p. token_count p - ps_pos p)")
    (auto simp: advance_p_def at_end_p_def check_def token_count_def)

declare skip_separators.simps [simp del]

definition expect_extern_c_name :: "parser \<Rightarrow> token option \<times> parser" where
  "expect_extern_c_name p =
     (let t = current p; k = t_kind t
      in if k = Idt TOK_IDENT \<or> is_keyword_token p t then (Some t, advance_p p)
         else (None, parse_error (loc_from_token t) (''expected identifier in extern declaration, got '' @ token_kind_name k) p))"

definition at_stmt_terminator :: "parser \<Rightarrow> bool" where
  "at_stmt_terminator p \<longleftrightarrow>
     t_kind (current p) \<in> {Lay TOK_NEWLINE, Lay TOK_DEDENT, Op TOK_SEMICOLON, Dl TOK_RPAREN, Kw TOK_ELSE} \<or> at_end_p p"

definition is_decl_start :: "token_kind \<Rightarrow> bool" where
  "is_decl_start k \<longleftrightarrow>
     k \<in> {Kw TOK_PRIVATE, Kw TOK_IMPORT, Kw TOK_LET, Kw TOK_STRUCT, Kw TOK_UNION, Kw TOK_ENUM, Kw TOK_ERROR_KW,
           Kw TOK_MODULE, Kw TOK_NAMESPACE, Kw TOK_EXTERN}"

subsection \<open>Recovery\<close>

function recover_to :: "token_kind list \<Rightarrow> parser \<Rightarrow> parser" where
  "recover_to anchors p =
     (if ps_pos p < token_count p \<and> \<not> at_end_p p \<and> \<not> check p (Lay TOK_DEDENT) \<and> t_kind (current p) \<notin> set anchors
      then recover_to anchors (advance_p p) else p)"
  by pat_completeness auto
termination recover_to
  by (relation "measure (\<lambda>(_, p). token_count p - ps_pos p)") (auto simp: advance_p_def token_count_def)

declare recover_to.simps [simp del]

text \<open>The skip over the rest of a line, nested blocks included.\<close>

function skip_line :: "int \<Rightarrow> parser \<Rightarrow> parser" where
  "skip_line depth p =
     (if ps_pos p < token_count p \<and> \<not> at_end_p p \<and>
         \<not> (depth = 0 \<and> (check p (Lay TOK_NEWLINE) \<or> check p (Lay TOK_DEDENT)))
      then skip_line (if check p (Lay TOK_INDENT) then depth + 1 else if check p (Lay TOK_DEDENT) then depth - 1 else depth)
             (advance_p p)
      else p)"
  by pat_completeness auto
termination skip_line
  by (relation "measure (\<lambda>(_, p). token_count p - ps_pos p)") (auto simp: advance_p_def token_count_def)

declare skip_line.simps [simp del]

definition end_body_line :: "nat \<Rightarrow> parser \<Rightarrow> parser" where
  "end_body_line line_errs p =
     (if check p (Lay TOK_NEWLINE) \<or> check p (Lay TOK_DEDENT) \<or> at_end_p p then p
      else skip_line 0
             (if length (ps_diags p) = line_errs then
                parse_error (loc_from_token (current p))
                  (''expected end of line, got '' @ token_kind_name (t_kind (current p))) p
              else p))"

function recover_to_decl :: "parser \<Rightarrow> parser" where
  "recover_to_decl p =
     (if ps_pos p < token_count p \<and> \<not> at_end_p p \<and> \<not> check p (Lay TOK_DEDENT) \<and> \<not> is_decl_start (t_kind (current p))
      then recover_to_decl (advance_p p) else p)"
  by pat_completeness auto
termination recover_to_decl
  by (relation "measure (\<lambda>p. token_count p - ps_pos p)") (auto simp: advance_p_def token_count_def)

declare recover_to_decl.simps [simp del]

definition recover_progress :: "nat \<Rightarrow> parser \<Rightarrow> parser" where
  "recover_progress guard_pos p =
     (if ps_pos p = guard_pos \<and> \<not> at_end_p p \<and> \<not> check p (Lay TOK_DEDENT) then advance_p p else p)"

definition parse_type_allowing_fixed_array :: "expr_parsers \<Rightarrow> nat \<Rightarrow> ctype parse" where
  "parse_type_allowing_fixed_array env n p =
     do {
       (t, q) \<leftarrow> parse_type env n (p\<lparr>ps_allow_fixed_array := True\<rparr>);
       Some (t, q\<lparr>ps_allow_fixed_array := ps_allow_fixed_array p\<rparr>)
     }"

text \<open>A result or option of a name, which no cast targets.\<close>

fun wrapper_base :: "ctype \<Rightarrow> ctype" where
  "wrapper_base (TResult _ t) = wrapper_base t"
| "wrapper_base (TOption _ t) = wrapper_base t"
| "wrapper_base t = t"

definition name_suffix_only :: "ctype option \<Rightarrow> bool \<Rightarrow> bool" where
  "name_suffix_only target name_led =
     (name_led \<and>
      (case target of
         None \<Rightarrow> False
       | Some t \<Rightarrow> (case wrapper_base t of TStub _ _ args \<Rightarrow> wrapper_base t \<noteq> t \<and> args = [] | _ \<Rightarrow> False)))"

subsection \<open>Precedence of operators\<close>

datatype prec =
    PREC_NONE | PREC_ASSIGN | PREC_LOR | PREC_LAND | PREC_CMP | PREC_BOR | PREC_BXOR | PREC_BAND
  | PREC_SHIFT | PREC_ADD | PREC_MUL | PREC_PREFIX | PREC_POSTFIX

definition infix_prec :: "token_kind \<Rightarrow> prec" where
  "infix_prec k =
     (if k = Op TOK_EQ then PREC_ASSIGN
      else if k = Op TOK_PIPEPIPE then PREC_LOR
      else if k = Op TOK_AMPAMP then PREC_LAND
      else if k \<in> {Op TOK_EQEQ, Op TOK_BANGEQ, Op TOK_LT, Op TOK_GT, Op TOK_LTEQ, Op TOK_GTEQ} then PREC_CMP
      else if k = Op TOK_PIPE then PREC_BOR
      else if k = Op TOK_CARET then PREC_BXOR
      else if k = Op TOK_AMP then PREC_BAND
      else if k \<in> {Op TOK_LTLT, Op TOK_GTGT} then PREC_SHIFT
      else if k \<in> {Op TOK_PLUS, Op TOK_MINUS} then PREC_ADD
      else if k \<in> {Op TOK_STAR, Op TOK_SLASH, Op TOK_PERCENT} then PREC_MUL
      else if k \<in> {Op TOK_BANG, Op TOK_QUESTION, Dl TOK_LBRACKET, Op TOK_DOT, Op TOK_ARROW, Dl TOK_LPAREN} then PREC_POSTFIX
      else PREC_NONE)"

end
