(* ===== verification/FC_PatternText.thy ===== *)
theory FC_PatternText
  imports FC_ParsePattern
begin

section \<open>Patterns as a program writes them\<close>

text \<open>The tokens of a pattern, by kind and text. Commas and bars separate; nothing is left out.\<close>

definition separated :: "spelling \<Rightarrow> spelling list \<Rightarrow> spelling" where
  "separated sep xs = (case xs of [] \<Rightarrow> [] | x # r \<Rightarrow> x @ concat (map (\<lambda>y. sep @ y) r))"

definition in_parens :: "spelling \<Rightarrow> spelling" where
  "in_parens s = (Dl TOK_LPAREN, ''('') # s @ [(Dl TOK_RPAREN, '')'')]"

definition in_braces :: "spelling \<Rightarrow> spelling" where
  "in_braces s = (Dl TOK_LBRACE, ''{'') # s @ [(Dl TOK_RBRACE, ''}'')]"

definition comma :: spelling where "comma = [(Op TOK_COMMA, '','')]"

definition sub_spelling :: "spelling option \<Rightarrow> spelling" where
  "sub_spelling q = (case q of None \<Rightarrow> [] | Some s \<Rightarrow> in_parens s)"

definition int_token :: "u64 \<Rightarrow> token_kind \<times> string" where
  "int_token v = (Lit TOK_INT_LIT, dec_nat (unat v))"

definition name_token :: "string \<Rightarrow> token_kind \<times> string" where
  "name_token n = (Idt TOK_IDENT, n)"

primrec pattern_spelling :: "pattern \<Rightarrow> spelling" where
  "pattern_spelling (PAT_WILDCARD loc) = [name_token ''_'']"
| "pattern_spelling (PAT_BINDING loc n) = [name_token n]"
| "pattern_spelling (PAT_INT_LIT loc v oor neg) =
     (if neg then [(Op TOK_MINUS, ''-''), int_token (- v)] else [int_token v])"
| "pattern_spelling (PAT_CHAR_LIT loc c) = [(Lit TOK_CHAR_LIT, squote # hex_escape c @ [squote])]"
| "pattern_spelling (PAT_BOOL_LIT loc b) = [if b then (Kw TOK_TRUE, ''true'') else (Kw TOK_FALSE, ''false'')]"
| "pattern_spelling (PAT_STRING_LIT loc s len) = [(Lit TOK_STRING_LIT, dquote # s @ [dquote])]"
| "pattern_spelling (PAT_NONE loc) = [(Kw TOK_NONE, ''none'')]"
| "pattern_spelling (PAT_SOME loc q) = (Kw TOK_SOME, ''some'') # sub_spelling (map_option pattern_spelling q)"
| "pattern_spelling (PAT_OK loc q) = (Kw TOK_OK, ''ok'') # sub_spelling (map_option pattern_spelling q)"
| "pattern_spelling (PAT_ERR loc q) = (Kw TOK_ERR, ''err'') # sub_spelling (map_option pattern_spelling q)"
| "pattern_spelling (PAT_CONST_PATH loc parts) =
     separated [(Op TOK_DOT, ''.'')] (map (\<lambda>n. [name_token n]) parts)"
| "pattern_spelling (PAT_VARIANT loc n q) = name_token n # sub_spelling (map_option pattern_spelling q)"
| "pattern_spelling (PAT_STRUCT loc fs) =
     in_braces (separated comma (map (\<lambda>(n, s). name_token n # (Op TOK_EQ, ''='') # s)
                                  (map (map_prod id pattern_spelling) fs)))"
| "pattern_spelling (PAT_TUPLE loc ps) = in_braces (separated comma (map pattern_spelling ps))"
| "pattern_spelling (PAT_OR loc ps) = separated [(Op TOK_PIPE, ''|'')] (map pattern_spelling ps)"
| "pattern_spelling (PAT_ERROR loc) = []"

text \<open>
  Patterns that have a spelling: wrappers have their subpattern, an or-pattern has two or more
  alternatives that are none themselves, a tuple has an element, a path two names.
\<close>

definition is_or :: "pattern \<Rightarrow> bool" where
  "is_or q \<longleftrightarrow> (case q of PAT_OR _ _ \<Rightarrow> True | _ \<Rightarrow> False)"

definition plain_shape :: "pattern \<Rightarrow> bool" where
  "plain_shape q \<longleftrightarrow>
     (case q of
        PAT_BINDING _ n \<Rightarrow> n \<noteq> ''_''
      | PAT_INT_LIT _ _ oor _ \<Rightarrow> \<not> oor
      | PAT_STRING_LIT _ s len \<Rightarrow> len = length s
      | PAT_SOME _ q \<Rightarrow> q \<noteq> None
      | PAT_ERR _ q \<Rightarrow> q \<noteq> None
      | PAT_CONST_PATH _ parts \<Rightarrow> 2 \<le> length parts \<and> hd parts \<noteq> ''_''
      | PAT_VARIANT _ n q \<Rightarrow> n \<noteq> ''_'' \<and> q \<noteq> None
      | PAT_TUPLE _ ps \<Rightarrow> ps \<noteq> []
      | PAT_OR _ ps \<Rightarrow> 2 \<le> length ps \<and> (\<forall>p\<in>set ps. \<not> is_or p)
      | PAT_ERROR _ \<Rightarrow> False
      | _ \<Rightarrow> True)"

definition printable :: "pattern \<Rightarrow> bool" where "printable = pattern_all plain_shape"

text \<open>The pattern with the locations left out.\<close>

definition no_loc :: src_loc where "no_loc = mk_loc 0 0"

primrec unlocated :: "pattern \<Rightarrow> pattern" where
  "unlocated (PAT_WILDCARD loc) = PAT_WILDCARD no_loc"
| "unlocated (PAT_BINDING loc n) = PAT_BINDING no_loc n"
| "unlocated (PAT_INT_LIT loc v oor neg) = PAT_INT_LIT no_loc v oor neg"
| "unlocated (PAT_CHAR_LIT loc c) = PAT_CHAR_LIT no_loc c"
| "unlocated (PAT_BOOL_LIT loc b) = PAT_BOOL_LIT no_loc b"
| "unlocated (PAT_STRING_LIT loc s len) = PAT_STRING_LIT no_loc s len"
| "unlocated (PAT_NONE loc) = PAT_NONE no_loc"
| "unlocated (PAT_SOME loc q) = PAT_SOME no_loc (map_option unlocated q)"
| "unlocated (PAT_OK loc q) = PAT_OK no_loc (map_option unlocated q)"
| "unlocated (PAT_ERR loc q) = PAT_ERR no_loc (map_option unlocated q)"
| "unlocated (PAT_CONST_PATH loc parts) = PAT_CONST_PATH no_loc parts"
| "unlocated (PAT_VARIANT loc n q) = PAT_VARIANT no_loc n (map_option unlocated q)"
| "unlocated (PAT_STRUCT loc fs) = PAT_STRUCT no_loc (map (map_prod id unlocated) fs)"
| "unlocated (PAT_TUPLE loc ps) = PAT_TUPLE no_loc (map unlocated ps)"
| "unlocated (PAT_OR loc ps) = PAT_OR no_loc (map unlocated ps)"
| "unlocated (PAT_ERROR loc) = PAT_ERROR no_loc"

lemma printable_simps [simp]:
  "printable (PAT_WILDCARD loc)" "printable (PAT_BINDING loc n) \<longleftrightarrow> n \<noteq> ''_''"
  "printable (PAT_INT_LIT loc v oor neg) \<longleftrightarrow> \<not> oor" "printable (PAT_CHAR_LIT loc c)" "printable (PAT_BOOL_LIT loc b)"
  "printable (PAT_STRING_LIT loc s len) \<longleftrightarrow> len = length s" "printable (PAT_NONE loc)"
  "printable (PAT_CONST_PATH loc parts) \<longleftrightarrow> 2 \<le> length parts \<and> hd parts \<noteq> ''_''" "\<not> printable (PAT_ERROR loc)"
  "printable (PAT_SOME loc q) \<longleftrightarrow> q \<noteq> None \<and> (\<forall>p\<in>set_option q. printable p)"
  "printable (PAT_OK loc q) \<longleftrightarrow> (\<forall>p\<in>set_option q. printable p)"
  "printable (PAT_ERR loc q) \<longleftrightarrow> q \<noteq> None \<and> (\<forall>p\<in>set_option q. printable p)"
  "printable (PAT_VARIANT loc n q) \<longleftrightarrow> n \<noteq> ''_'' \<and> q \<noteq> None \<and> (\<forall>p\<in>set_option q. printable p)"
  "printable (PAT_STRUCT loc fs) \<longleftrightarrow> (\<forall>f\<in>set fs. printable (snd f))"
  "printable (PAT_TUPLE loc ps) \<longleftrightarrow> ps \<noteq> [] \<and> (\<forall>p\<in>set ps. printable p)"
  "printable (PAT_OR loc ps) \<longleftrightarrow> 2 \<le> length ps \<and> (\<forall>p\<in>set ps. \<not> is_or p) \<and> (\<forall>p\<in>set ps. printable p)"
proof -
  note shape = plain_shape_def pattern.case
  show "printable (PAT_WILDCARD loc)" "printable (PAT_BINDING loc n) \<longleftrightarrow> n \<noteq> ''_''"
    "printable (PAT_INT_LIT loc v oor neg) \<longleftrightarrow> \<not> oor" "printable (PAT_CHAR_LIT loc c)" "printable (PAT_BOOL_LIT loc b)"
    "printable (PAT_STRING_LIT loc s len) \<longleftrightarrow> len = length s" "printable (PAT_NONE loc)"
    "printable (PAT_CONST_PATH loc parts) \<longleftrightarrow> 2 \<le> length parts \<and> hd parts \<noteq> ''_''" "\<not> printable (PAT_ERROR loc)"
    "printable (PAT_SOME loc q) \<longleftrightarrow> q \<noteq> None \<and> (\<forall>p\<in>set_option q. printable p)"
    "printable (PAT_OK loc q) \<longleftrightarrow> (\<forall>p\<in>set_option q. printable p)"
    "printable (PAT_ERR loc q) \<longleftrightarrow> q \<noteq> None \<and> (\<forall>p\<in>set_option q. printable p)"
    "printable (PAT_VARIANT loc n q) \<longleftrightarrow> n \<noteq> ''_'' \<and> q \<noteq> None \<and> (\<forall>p\<in>set_option q. printable p)"
    "printable (PAT_STRUCT loc fs) \<longleftrightarrow> (\<forall>f\<in>set fs. printable (snd f))"
    "printable (PAT_TUPLE loc ps) \<longleftrightarrow> ps \<noteq> [] \<and> (\<forall>p\<in>set ps. printable p)"
    "printable (PAT_OR loc ps) \<longleftrightarrow> 2 \<le> length ps \<and> (\<forall>p\<in>set ps. \<not> is_or p) \<and> (\<forall>p\<in>set ps. printable p)"
    unfolding printable_def
    by (simp_all add: shape pred_option_def list_all_iff option.set_map conj_assoc)
qed

subsection \<open>Literals\<close>

lemma hex_digit_val_digit: "isdigit c \<Longrightarrow> nat (hex_digit_val c) = byte c - 48"
  by (auto simp: hex_digit_val_def isdigit_def)

lemma digit_char: "(n :: nat) < 10 \<Longrightarrow> isdigit (char_of (48 + n))"
  by (simp add: isdigit_def byte_char_of)

lemma dec_digits: "list_all isdigit (dec_nat n)"
  by (induction n rule: dec_nat.induct) (subst dec_nat.simps, simp add: digit_char)

lemma dec_nat_nonempty: "dec_nat n \<noteq> []"
  by (subst dec_nat.simps) simp

lemma digits_value_append: "digits_value b (s @ [c]) = b * digits_value b s + nat (hex_digit_val c)"
  by (simp add: digits_value_def)

lemma digits_value_dec: "digits_value 10 (dec_nat n) = n"
proof (induction n rule: dec_nat.induct)
  case (1 n)
  show ?case
  proof (cases "n < 10")
    case True
    then show ?thesis by (subst dec_nat.simps) (simp add: digits_value_def hex_digit_val_def isdigit_def byte_char_of)
  next
    case False
    have "nat (hex_digit_val (char_of (48 + n mod 10))) = n mod 10"
      by (simp add: hex_digit_val_def isdigit_def byte_char_of)
    then show ?thesis using False 1 by (subst dec_nat.simps) (simp add: digits_value_append)
  qed
qed

lemma dec_int_base: "int_base (dec_nat n) = (10, 0)"
proof -
  have "list_all isdigit (dec_nat n)" by (rule dec_digits)
  then have "2 \<le> length (dec_nat n) \<Longrightarrow> isdigit (dec_nat n ! 1)" by (simp add: list_all_length)
  then show ?thesis by (auto simp: int_base_def isdigit_def byte_def)
qed

lemma copy_all: "list_all isdigit s \<Longrightarrow> copy_digits 10 s = s"
  by (induction s) (auto simp: base_digit_def)

lemma parse_dec: "parse_int_value (dec_nat (unat v)) = (v, False)"
proof -
  have "unat v < 18446744073709551616" using unsigned_less [of v, where ?'a = nat] by simp
  then show ?thesis
    by (simp add: parse_int_value_def dec_int_base copy_all [OF dec_digits] strtoull_def digits_value_dec)
qed

lemma plain_int_type: "text_of_token p t = dec_nat n \<Longrightarrow> int_lit_type p t = Some (if ps_in_const_expr p then type_int64 else type_int32)"
proof -
  assume t: "text_of_token p t = dec_nat n"
  have all: "takeWhile (\<lambda>c. base_digit 10 c \<or> c = CHR ''_'') (dec_nat n) = dec_nat n"
    using dec_digits [of n] by (auto simp: takeWhile_eq_all_conv list_all_iff base_digit_def)
  show ?thesis using t by (simp add: int_lit_type_def int_num_end_def dec_int_base Let_def all)
qed

lemma char_value: "char_lit_value (squote # hex_escape c @ [squote]) = c"
  using decode_hex_literal [of "[c]" "[]"]
  by (simp add: char_lit_value_def sub_c_def hex_literal_def hex_escape_def)

subsection \<open>Reading back\<close>

text \<open>After a pattern stands a token that does not continue it.\<close>

definition follows :: "spelling \<Rightarrow> bool" where
  "follows rest \<longleftrightarrow> rest \<noteq> [] \<and> fst (hd rest) \<notin> {Op TOK_DOT, Dl TOK_LPAREN}"

definition reads_as :: "spelling \<Rightarrow> pattern parse \<Rightarrow> parser \<Rightarrow> pattern \<Rightarrow> bool" where
  "reads_as s f p q \<longleftrightarrow> (\<exists>q'. f p = Some (q', step_over (length s) p) \<and> unlocated q' = unlocated q)"

definition atom_reads :: "pattern \<Rightarrow> bool" where
  "atom_reads q \<longleftrightarrow>
     (let s = pattern_spelling q
      in \<forall>p n rest. ahead p = s @ rest \<longrightarrow> follows rest \<longrightarrow> length s \<le> n \<longrightarrow>
           reads_as s (parse_pattern_atom n (parse_pattern n)) p q)"

definition reads :: "pattern \<Rightarrow> bool" where
  "reads q \<longleftrightarrow>
     (let s = pattern_spelling q
      in \<forall>p n rest. ahead p = s @ rest \<longrightarrow> follows rest \<longrightarrow> fst (hd rest) \<noteq> Op TOK_PIPE \<longrightarrow> length s < n \<longrightarrow>
           reads_as s (parse_pattern n) p q)"

lemma atom_readsD:
  assumes "atom_reads q" "ahead p = pattern_spelling q @ rest" "follows rest" "length (pattern_spelling q) \<le> n"
  shows "reads_as (pattern_spelling q) (parse_pattern_atom n (parse_pattern n)) p q"
  using assms unfolding atom_reads_def Let_def by blast

lemma readsD:
  assumes "reads q" "ahead p = pattern_spelling q @ rest" "follows rest" "fst (hd rest) \<noteq> Op TOK_PIPE"
    "length (pattern_spelling q) < n"
  shows "reads_as (pattern_spelling q) (parse_pattern n) p q"
  using assms unfolding reads_def Let_def by blast

lemma follows_check: "ahead p = s @ rest \<Longrightarrow> follows rest \<Longrightarrow> check (step_over (length s) p) k \<longleftrightarrow> fst (hd rest) = k"
  using ahead_check [of "step_over (length s) p"] by (cases rest) (auto simp: follows_def ahead_step)

lemma atom_pattern_reads:
  assumes "atom_reads q"
  shows "reads q"
  unfolding reads_def Let_def
proof (intro allI impI)
  fix p n rest
  assume a: "ahead p = pattern_spelling q @ rest" "follows rest" "fst (hd rest) \<noteq> Op TOK_PIPE" "length (pattern_spelling q) < n"
  then obtain m where m: "n = Suc m" by (cases n) auto
  obtain q' where "parse_pattern_atom m (parse_pattern m) p = Some (q', step_over (length (pattern_spelling q)) p)"
    "unlocated q' = unlocated q"
    using atom_readsD [OF assms a(1,2), of m] a(4) m by (auto simp: reads_as_def)
  then show "reads_as (pattern_spelling q) (parse_pattern n) p q"
    using follows_check [OF a(1,2)] a(3) by (simp add: reads_as_def m Let_def)
qed

lemma unlocated_or: "unlocated q' = unlocated q \<Longrightarrow> is_or q' = is_or q"
  by (cases q; cases q') (simp_all add: is_or_def)

lemma add_one: "\<not> is_or q \<Longrightarrow> add_alt alts q = alts @ [q]"
  by (cases q) (simp_all add: add_alt_def is_or_def)

abbreviation "bar \<equiv> [(Op TOK_PIPE, ''|'')] :: spelling"

lemma follows_bar [simp]: "follows ((Op TOK_PIPE, s) # r)" "follows ((Op TOK_COMMA, s) # r)"
  "follows ((Dl TOK_RPAREN, s) # r)" "follows ((Dl TOK_RBRACE, s) # r)"
  by (simp_all add: follows_def)

lemma more_alts_reads:
  assumes "\<forall>q\<in>set qs. atom_reads q \<and> \<not> is_or q \<and> length (pattern_spelling q) \<le> n"
    and "ahead p = concat (map (\<lambda>q. bar @ pattern_spelling q) qs) @ rest" "follows rest" "fst (hd rest) \<noteq> Op TOK_PIPE"
    and "length qs < k"
  shows "\<exists>qs'. more_alts k (parse_pattern_atom n (parse_pattern n)) alts p =
      Some (alts @ qs', step_over (length (concat (map (\<lambda>q. bar @ pattern_spelling q) qs))) p) \<and>
    map unlocated qs' = map unlocated qs"
  using assms
proof (induction qs arbitrary: p k alts)
  case Nil
  then obtain j where "k = Suc j" by (cases k) auto
  then show ?case using Nil follows_check [of p "[]" rest] by simp
next
  case (Cons q qs)
  obtain j where k: "k = Suc j" using Cons.prems(5) by (cases k) auto
  let ?more = "concat (map (\<lambda>q. bar @ pattern_spelling q) qs)"
  have a: "ahead p = (Op TOK_PIPE, ''|'') # pattern_spelling q @ ?more @ rest" using Cons.prems(2) by simp
  have adv: "advance_p p = step_over 1 p" using ahead_advance [OF a] by simp
  have nxt: "follows (?more @ rest)" using Cons.prems(3) by (cases qs) auto
  obtain q' where q': "parse_pattern_atom n (parse_pattern n) (step_over 1 p) =
      Some (q', step_over (length (pattern_spelling q)) (step_over 1 p))" "unlocated q' = unlocated q"
    using atom_readsD [of q "step_over 1 p" "?more @ rest" n] Cons.prems(1) a nxt by (auto simp: ahead_step reads_as_def)
  let ?p2 = "step_over (length (pattern_spelling q)) (step_over 1 p)"
  have "ahead ?p2 = ?more @ rest" using a by (simp add: ahead_step)
  then obtain qs' where qs': "more_alts j (parse_pattern_atom n (parse_pattern n)) (alts @ [q']) ?p2 =
      Some ((alts @ [q']) @ qs', step_over (length ?more) ?p2)" "map unlocated qs' = map unlocated qs"
    using Cons.IH [of ?p2 j "alts @ [q']"] Cons.prems k by auto
  have "\<not> is_or q'" using unlocated_or [OF q'(2)] Cons.prems(1) by simp
  then show ?case using qs' q' ahead_check [OF a] adv k by (simp add: add_one add.commute add.left_commute)
qed

lemma spelled_separated: "separated sep (x # xs) = x @ concat (map (\<lambda>y. sep @ y) xs)"
  by (simp add: separated_def)

lemma separated_nonempty: "xs \<noteq> [] \<Longrightarrow> hd xs \<noteq> [] \<Longrightarrow> separated sep xs \<noteq> []"
  by (cases xs) (simp_all add: spelled_separated)

lemma spelling_nonempty: "printable q \<Longrightarrow> pattern_spelling q \<noteq> []"
proof (induction q)
  case (PAT_OR loc ps)
  then show ?case by (cases ps) (auto simp: spelled_separated)
next
  case (PAT_CONST_PATH loc parts)
  then show ?case by (cases parts) (auto simp: spelled_separated)
qed (simp_all add: in_braces_def)

lemma or_reads:
  assumes "\<forall>q\<in>set qs. atom_reads q \<and> \<not> is_or q \<and> printable q" "2 \<le> length qs"
  shows "reads (PAT_OR loc qs)"
  unfolding reads_def Let_def
proof (intro allI impI)
  fix p n rest
  let ?s = "pattern_spelling (PAT_OR loc qs)"
  assume a: "ahead p = ?s @ rest" "follows rest" "fst (hd rest) \<noteq> Op TOK_PIPE" "length ?s < n"
  obtain q r qs1 where qs: "qs = q # r # qs1" using assms(2) by (cases qs; cases "tl qs") auto
  obtain m where n: "n = Suc m" using a(4) by (cases n) auto
  let ?more = "concat (map (\<lambda>q. bar @ pattern_spelling q) (r # qs1))"
  have s: "?s = pattern_spelling q @ ?more" by (simp add: qs spelled_separated comp_def)
  obtain q' where q': "parse_pattern_atom m (parse_pattern m) p = Some (q', step_over (length (pattern_spelling q)) p)"
    "unlocated q' = unlocated q"
    using atom_readsD [of q p "?more @ rest" m] assms(1) qs a(1,4) n s by (auto simp: reads_as_def)
  let ?p1 = "step_over (length (pattern_spelling q)) p"
  have p1: "ahead ?p1 = ?more @ rest" using a(1) s by (simp add: ahead_step)
  have "length (pattern_spelling x) \<le> length ?more" if "x \<in> set (r # qs1)" for x
    using that by (induction qs1) auto
  then have small: "\<forall>x\<in>set (r # qs1). atom_reads x \<and> \<not> is_or x \<and> length (pattern_spelling x) \<le> m"
    using assms(1) qs a(4) n s by fastforce
  have "length (r # qs1) \<le> length ?more" by (induction qs1) auto
  moreover have "pattern_spelling q \<noteq> []" using spelling_nonempty assms(1) qs by auto
  ultimately have "length (r # qs1) < m" using a(4) n s by (auto simp: neq_Nil_conv)
  then obtain qs' where qs': "more_alts m (parse_pattern_atom m (parse_pattern m)) [q'] ?p1 =
      Some ([q'] @ qs', step_over (length ?more) ?p1)" "map unlocated qs' = map unlocated (r # qs1)"
    using more_alts_reads [OF small p1 a(2,3), of m "[q']"] by blast
  have "check ?p1 (Op TOK_PIPE)" using ahead_check [of ?p1 "Op TOK_PIPE" "''|''"] p1 by simp
  then show "reads_as ?s (parse_pattern n) p (PAT_OR loc qs)"
    using q' qs' unlocated_or [OF q'(2)] assms(1) qs s
    by (simp add: reads_as_def n Let_def add_one [of _ "[]", simplified] is_or_def)
qed

text \<open>The atoms.\<close>

lemma paren_reads:
  assumes "reads q" "ahead p = pattern_spelling q @ (Dl TOK_RPAREN, s) # rest" "length (pattern_spelling q) < n"
  shows "\<exists>q'. paren_pattern (parse_pattern n) p = Some (q', step_over (length (pattern_spelling q) + 1) p) \<and> unlocated q' = unlocated q"
proof -
  obtain q' where q': "parse_pattern n p = Some (q', step_over (length (pattern_spelling q)) p)" "unlocated q' = unlocated q"
    using readsD [OF assms(1,2) _ _ assms(3)] by (auto simp: reads_as_def)
  have "ahead (step_over (length (pattern_spelling q)) p) = (Dl TOK_RPAREN, s) # rest" using assms(2) by (simp add: ahead_step)
  from ahead_expect [OF this] show ?thesis using q' by (simp add: paren_pattern_def)
qed

lemma wrapped_reads:
  assumes "reads q" "ahead p = t # sub_spelling (Some (pattern_spelling q)) @ rest" "length (pattern_spelling q) < n"
  shows "\<exists>q'. paren_pattern (parse_pattern n) (step_over 2 p) =
      Some (q', step_over (Suc (length (sub_spelling (Some (pattern_spelling q))))) p) \<and> unlocated q' = unlocated q"
  using paren_reads [OF assms(1), of "step_over 2 p" "'')''" rest n] assms(2,3)
  by (simp add: ahead_step sub_spelling_def in_parens_def)

text \<open>The first two tokens and what they decide.\<close>

lemmas first_token = ahead_check ahead_current ahead_advance

lemma atom_readsI:
  "(\<And>p n rest. ahead p = pattern_spelling q @ rest \<Longrightarrow> follows rest \<Longrightarrow> length (pattern_spelling q) \<le> n \<Longrightarrow>
      reads_as (pattern_spelling q) (parse_pattern_atom n (parse_pattern n)) p q) \<Longrightarrow> atom_reads q"
  by (simp add: atom_reads_def)

lemma token_facts:
  assumes "ahead p = (k, s) # rest" "k \<noteq> TOK_EOF_K"
  shows "check p k' \<longleftrightarrow> k = k'" "t_kind (current p) = k" "text_of_token p (current p) = s" "tok_intern p (current p) = s"
    "advance_p p = step_over 1 p" "rest \<noteq> [] \<Longrightarrow> t_kind (peek_p p 1) = fst (hd rest)"
    "rest \<noteq> [] \<Longrightarrow> t_kind (peek_p p (Suc 0)) = fst (hd rest)"
  using assms ahead_check [OF assms(1)] ahead_current [OF assms(1)] ahead_advance [OF assms(1)]
    ahead_peek [OF assms(1), of 1]
  by (simp_all add: tok_intern_def hd_conv_nth)

lemma atom_literals:
  "atom_reads (PAT_CHAR_LIT loc c)" "atom_reads (PAT_BOOL_LIT loc b)" "atom_reads (PAT_STRING_LIT loc s (length s))"
  "atom_reads (PAT_NONE loc)"
proof -
  show "atom_reads (PAT_CHAR_LIT loc c)"
  proof (rule atom_readsI)
    fix p n rest assume "ahead p = pattern_spelling (PAT_CHAR_LIT loc c) @ rest"
    then have a: "ahead p = (Lit TOK_CHAR_LIT, squote # hex_escape c @ [squote]) # rest" by simp
    show "reads_as (pattern_spelling (PAT_CHAR_LIT loc c)) (parse_pattern_atom n (parse_pattern n)) p (PAT_CHAR_LIT loc c)"
      by (simp add: reads_as_def parse_pattern_atom_def Let_def token_facts [OF a] char_value)
  qed
  show "atom_reads (PAT_BOOL_LIT loc b)"
  proof (rule atom_readsI)
    fix p n rest assume a: "ahead p = pattern_spelling (PAT_BOOL_LIT loc b) @ rest"
    then have t: "b \<Longrightarrow> ahead p = (Kw TOK_TRUE, ''true'') # rest" "\<not> b \<Longrightarrow> ahead p = (Kw TOK_FALSE, ''false'') # rest" by simp_all
    show "reads_as (pattern_spelling (PAT_BOOL_LIT loc b)) (parse_pattern_atom n (parse_pattern n)) p (PAT_BOOL_LIT loc b)"
      by (cases b) (simp_all add: reads_as_def parse_pattern_atom_def Let_def token_facts [OF t(1)] token_facts [OF t(2)])
  qed
  show "atom_reads (PAT_STRING_LIT loc s (length s))"
  proof (rule atom_readsI)
    fix p n rest assume "ahead p = pattern_spelling (PAT_STRING_LIT loc s (length s)) @ rest"
    then have a: "ahead p = (Lit TOK_STRING_LIT, dquote # s @ [dquote]) # rest" by simp
    show "reads_as (pattern_spelling (PAT_STRING_LIT loc s (length s))) (parse_pattern_atom n (parse_pattern n)) p (PAT_STRING_LIT loc s (length s))"
      by (simp add: reads_as_def parse_pattern_atom_def Let_def token_facts [OF a] sub_c_def)
  qed
  show "atom_reads (PAT_NONE loc)"
  proof (rule atom_readsI)
    fix p n rest assume "ahead p = pattern_spelling (PAT_NONE loc) @ rest"
    then have a: "ahead p = (Kw TOK_NONE, ''none'') # rest" by simp
    show "reads_as (pattern_spelling (PAT_NONE loc)) (parse_pattern_atom n (parse_pattern n)) p (PAT_NONE loc)"
      by (simp add: reads_as_def parse_pattern_atom_def Let_def token_facts [OF a])
  qed
qed

lemma int_reads: "atom_reads (PAT_INT_LIT loc v False neg)"
proof (rule atom_readsI)
  fix p n rest assume a: "ahead p = pattern_spelling (PAT_INT_LIT loc v False neg) @ rest"
  show "reads_as (pattern_spelling (PAT_INT_LIT loc v False neg)) (parse_pattern_atom n (parse_pattern n)) p (PAT_INT_LIT loc v False neg)"
  proof (cases neg)
    case True
    then have t: "ahead p = (Op TOK_MINUS, ''-'') # (Lit TOK_INT_LIT, dec_nat (unat (- v))) # rest" using a by (simp add: int_token_def)
    then have t1: "ahead (step_over (Suc 0) p) = (Lit TOK_INT_LIT, dec_nat (unat (- v))) # rest" by (simp add: ahead_step)
    let ?t = "current (step_over (Suc 0) p)"
    have spelled: "text_of_token p ?t = dec_nat (unat (- v))" "text_of_token (step_over (Suc (Suc 0)) p) ?t = dec_nat (unat (- v))"
      using token_facts(3) [OF t1] by (simp_all add: text_of_token_def step_over_def)
    then show ?thesis
      using True by (simp add: reads_as_def parse_pattern_atom_def negative_pattern_def Let_def token_facts [OF t] token_facts [OF t1]
          parse_dec plain_int_type [OF spelled(2)] type_is_unsigned_def type_int64_def type_int32_def int_token_def)
  next
    case False
    then have t: "ahead p = (Lit TOK_INT_LIT, dec_nat (unat v)) # rest" using a by (simp add: int_token_def)
    show ?thesis
      using False by (simp add: reads_as_def parse_pattern_atom_def Let_def token_facts [OF t] parse_dec int_token_def)
  qed
qed

lemma name_reads: "atom_reads (PAT_WILDCARD loc)" "n \<noteq> ''_'' \<Longrightarrow> atom_reads (PAT_BINDING loc n)"
proof -
  have "reads_as [name_token n] (parse_pattern_atom k (parse_pattern k)) p (if n = ''_'' then PAT_WILDCARD loc else PAT_BINDING loc n)"
    if t: "ahead p = (Idt TOK_IDENT, n) # rest" and f: "follows rest" for p k rest n
    using f by (auto simp: reads_as_def parse_pattern_atom_def name_pattern_def Let_def token_facts [OF t] follows_def name_token_def)
  then show "atom_reads (PAT_WILDCARD loc)" "n \<noteq> ''_'' \<Longrightarrow> atom_reads (PAT_BINDING loc n)"
    by (force intro!: atom_readsI simp: name_token_def)+
qed

lemma wrapper_reads:
  assumes "reads q"
  shows "atom_reads (PAT_SOME loc (Some q))" "atom_reads (PAT_OK loc (Some q))" "atom_reads (PAT_ERR loc (Some q))"
    "n \<noteq> ''_'' \<Longrightarrow> atom_reads (PAT_VARIANT loc n (Some q))"
proof -
  have wrapped: "\<exists>q'. paren_pattern (parse_pattern k) (step_over (Suc (Suc 0)) p) =
        Some (q', step_over (Suc (length (sub_spelling (Some (pattern_spelling q))))) p) \<and> unlocated q' = unlocated q"
    and tokens: "ahead p = t # (Dl TOK_LPAREN, ''('') # pattern_spelling q @ (Dl TOK_RPAREN, '')'') # rest"
    "ahead (step_over (Suc 0) p) = (Dl TOK_LPAREN, ''('') # pattern_spelling q @ (Dl TOK_RPAREN, '')'') # rest"
    if a: "ahead p = t # sub_spelling (Some (pattern_spelling q)) @ rest"
      and "Suc (length (sub_spelling (Some (pattern_spelling q)))) \<le> k" for p k rest t
    using wrapped_reads [OF assms a, of k] that by (simp_all add: ahead_step sub_spelling_def in_parens_def numeral_2_eq_2)
  show "atom_reads (PAT_SOME loc (Some q))"
  proof (rule atom_readsI)
    fix p k rest
    assume a: "ahead p = pattern_spelling (PAT_SOME loc (Some q)) @ rest" "length (pattern_spelling (PAT_SOME loc (Some q))) \<le> k"
    then have b: "ahead p = (Kw TOK_SOME, ''some'') # sub_spelling (Some (pattern_spelling q)) @ rest"
      "Suc (length (sub_spelling (Some (pattern_spelling q)))) \<le> k" by simp_all
    show "reads_as (pattern_spelling (PAT_SOME loc (Some q))) (parse_pattern_atom k (parse_pattern k)) p (PAT_SOME loc (Some q))"
      using wrapped [OF b]
      by (auto simp: reads_as_def parse_pattern_atom_def Let_def token_facts [OF tokens(1) [OF b]] ahead_expect [OF tokens(2) [OF b]])
  qed
  show "atom_reads (PAT_ERR loc (Some q))"
  proof (rule atom_readsI)
    fix p k rest
    assume a: "ahead p = pattern_spelling (PAT_ERR loc (Some q)) @ rest" "length (pattern_spelling (PAT_ERR loc (Some q))) \<le> k"
    then have b: "ahead p = (Kw TOK_ERR, ''err'') # sub_spelling (Some (pattern_spelling q)) @ rest"
      "Suc (length (sub_spelling (Some (pattern_spelling q)))) \<le> k" by simp_all
    show "reads_as (pattern_spelling (PAT_ERR loc (Some q))) (parse_pattern_atom k (parse_pattern k)) p (PAT_ERR loc (Some q))"
      using wrapped [OF b]
      by (auto simp: reads_as_def parse_pattern_atom_def Let_def token_facts [OF tokens(1) [OF b]] ahead_expect [OF tokens(2) [OF b]])
  qed
  show "atom_reads (PAT_OK loc (Some q))"
  proof (rule atom_readsI)
    fix p k rest
    assume a: "ahead p = pattern_spelling (PAT_OK loc (Some q)) @ rest" "length (pattern_spelling (PAT_OK loc (Some q))) \<le> k"
    then have b: "ahead p = (Kw TOK_OK, ''ok'') # sub_spelling (Some (pattern_spelling q)) @ rest"
      "Suc (length (sub_spelling (Some (pattern_spelling q)))) \<le> k" by simp_all
    show "reads_as (pattern_spelling (PAT_OK loc (Some q))) (parse_pattern_atom k (parse_pattern k)) p (PAT_OK loc (Some q))"
      using wrapped [OF b]
      by (auto simp: reads_as_def parse_pattern_atom_def Let_def token_facts [OF tokens(1) [OF b]] token_facts [OF tokens(2) [OF b]])
  qed
  assume n: "n \<noteq> ''_''"
  show "atom_reads (PAT_VARIANT loc n (Some q))"
  proof (rule atom_readsI)
    fix p k rest
    assume a: "ahead p = pattern_spelling (PAT_VARIANT loc n (Some q)) @ rest" "length (pattern_spelling (PAT_VARIANT loc n (Some q))) \<le> k"
    then have b: "ahead p = (Idt TOK_IDENT, n) # sub_spelling (Some (pattern_spelling q)) @ rest"
      "Suc (length (sub_spelling (Some (pattern_spelling q)))) \<le> k" by (simp_all add: name_token_def)
    show "reads_as (pattern_spelling (PAT_VARIANT loc n (Some q))) (parse_pattern_atom k (parse_pattern k)) p (PAT_VARIANT loc n (Some q))"
      using wrapped [OF b] n
      by (auto simp: reads_as_def parse_pattern_atom_def name_pattern_def Let_def token_facts [OF tokens(1) [OF b]] token_facts [OF tokens(2) [OF b]])
  qed
qed

lemma bare_ok_reads: "atom_reads (PAT_OK loc None)"
proof (rule atom_readsI)
  fix p n rest
  assume "ahead p = pattern_spelling (PAT_OK loc None) @ rest" and f: "follows rest"
  then have a: "ahead p = (Kw TOK_OK, ''ok'') # rest" by (simp add: sub_spelling_def)
  have "\<not> check (step_over 1 p) (Dl TOK_LPAREN)" using follows_check [of p "[(Kw TOK_OK, ''ok'')]" rest] a f by (simp add: follows_def)
  then show "reads_as (pattern_spelling (PAT_OK loc None)) (parse_pattern_atom n (parse_pattern n)) p (PAT_OK loc None)"
    by (simp add: reads_as_def parse_pattern_atom_def Let_def token_facts [OF a] sub_spelling_def)
qed

text \<open>Paths.\<close>

lemma path_reads:
  assumes "ahead p = concat (map (\<lambda>n. [(Op TOK_DOT, ''.''), name_token n]) ns) @ rest" "follows rest"
  shows "path_parts p = (ns, step_over (2 * length ns) p)"
  using assms(1)
proof (induction ns arbitrary: p)
  case Nil
  then have "\<not> at_member p" using assms(2) follows_check [of p "[]" rest] by (simp add: at_member_def follows_def)
  then show ?case by (subst path_parts.simps) simp
next
  case (Cons n ns)
  let ?more = "concat (map (\<lambda>n. [(Op TOK_DOT, ''.''), name_token n]) ns)"
  have a: "ahead p = (Op TOK_DOT, ''.'') # name_token n # ?more @ rest" using Cons.prems by simp
  then have b: "ahead (step_over (Suc 0) p) = (Idt TOK_IDENT, n) # ?more @ rest" by (simp add: ahead_step name_token_def)
  have "ps_pos p < token_count p" using a by (auto simp: ahead_def token_count_def intro: ccontr)
  moreover have "at_member p" using a by (simp add: at_member_def token_facts [OF a] name_token_def)
  moreover have "tok_intern (step_over (Suc 0) p) (current (step_over (Suc 0) p)) = n" by (rule token_facts(4) [OF b]) simp
  moreover have "path_parts (step_over (Suc (Suc 0)) p) = (ns, step_over (Suc (Suc (2 * length ns))) p)"
    using Cons.IH [of "step_over (Suc (Suc 0)) p"] a by (simp add: ahead_step)
  ultimately show ?case by (subst path_parts.simps) (simp add: Let_def token_facts(5) [OF a] token_facts(5) [OF b])
qed

lemma const_path_reads:
  assumes "2 \<le> length parts" "hd parts \<noteq> ''_''"
  shows "atom_reads (PAT_CONST_PATH loc parts)"
proof (rule atom_readsI)
  fix p k rest
  assume a: "ahead p = pattern_spelling (PAT_CONST_PATH loc parts) @ rest" and f: "follows rest"
  obtain n m ns where parts: "parts = n # m # ns" using assms(1) by (cases parts; cases "tl parts") auto
  let ?more = "concat (map (\<lambda>n. [(Op TOK_DOT, ''.''), name_token n]) (m # ns))"
  have t: "ahead p = (Idt TOK_IDENT, n) # ?more @ rest"
    using a by (simp add: parts spelled_separated comp_def name_token_def)
  then have "path_parts (step_over (Suc 0) p) = (m # ns, step_over (2 * length (m # ns)) (step_over (Suc 0) p))"
    by (intro path_reads [OF _ f]) (simp add: ahead_step)
  moreover have "t_kind (peek_p p 2) = Idt TOK_IDENT" using ahead_peek [OF t, of 2] by (simp add: name_token_def)
  moreover have "length (pattern_spelling (PAT_CONST_PATH loc parts)) = Suc (2 * length (m # ns))"
    by (simp add: parts spelled_separated length_concat comp_def sum_list_triv)
  ultimately show "reads_as (pattern_spelling (PAT_CONST_PATH loc parts)) (parse_pattern_atom k (parse_pattern k)) p (PAT_CONST_PATH loc parts)"
    using assms(2) parts
    by (simp add: reads_as_def parse_pattern_atom_def name_pattern_def Let_def token_facts [OF t])
qed

text \<open>Braces.\<close>

lemma separated_two: "separated sep (x # y # r) = x @ sep @ separated sep (y # r)"
  by (simp add: separated_def)

definition field_spelling :: "string \<times> pattern \<Rightarrow> spelling" where
  "field_spelling f = name_token (fst f) # (Op TOK_EQ, ''='') # pattern_spelling (snd f)"

lemma field_spellings:
  "pattern_spelling (PAT_STRUCT loc fs) = in_braces (separated comma (map field_spelling fs))"
  by (simp add: field_spelling_def [abs_def] comp_def split_beta)

lemma separated_length: "\<forall>x\<in>set xs. x \<noteq> [] \<Longrightarrow> length xs \<le> length (separated sep xs)"
proof (cases xs)
  case (Cons x r)
  assume all: "\<forall>x\<in>set xs. x \<noteq> []"
  have "length r \<le> length (concat (map (\<lambda>y. sep @ y) r))" if "\<forall>x\<in>set r. x \<noteq> []"
    using that by (induction r) (auto simp: Suc_le_eq neq_Nil_conv)
  then show ?thesis using all Cons by (auto simp: spelled_separated neq_Nil_conv)
qed simp

lemma hd_tl_nth: "Suc 0 < length xs \<Longrightarrow> hd (tl xs) = xs ! Suc 0"
  by (cases xs; cases "tl xs") auto

lemma field_patterns_read:
  assumes "ahead p = separated comma (map field_spelling fs) @ (Dl TOK_RBRACE, s) # rest" "fs \<noteq> []"
    and "\<forall>f\<in>set fs. reads (snd f)" "length (separated comma (map field_spelling fs)) < n"
    and "length fs \<le> k"
  shows "\<exists>fs'. field_patterns k (parse_pattern n) p = Some (fs', step_over (length (separated comma (map field_spelling fs))) p) \<and>
    map (map_prod id unlocated) fs' = map (map_prod id unlocated) fs"
  using assms
proof (induction fs arbitrary: p k)
  case (Cons f fs)
  obtain j where k: "k = Suc j" using Cons.prems(5) by (cases k) auto
  let ?q = "snd f" and ?close = "(Dl TOK_RBRACE, s) # rest"
  define tail where "tail = (if fs = [] then ?close else comma @ separated comma (map field_spelling fs) @ ?close)"
  have split: "separated comma (map field_spelling (f # fs)) @ ?close = field_spelling f @ tail"
    by (cases fs) (simp_all add: tail_def spelled_separated separated_two)
  have a: "ahead p = (Idt TOK_IDENT, fst f) # (Op TOK_EQ, ''='') # pattern_spelling ?q @ tail"
    using Cons.prems(1) unfolding split by (simp add: field_spelling_def name_token_def)
  then have b: "ahead (step_over (Suc 0) p) = (Op TOK_EQ, ''='') # pattern_spelling ?q @ tail"
    and c: "ahead (step_over (Suc (Suc 0)) p) = pattern_spelling ?q @ tail" by (simp_all add: ahead_step)
  have tail: "follows tail" "fst (hd tail) \<noteq> Op TOK_PIPE" by (simp_all add: tail_def comma_def)
  have "length (pattern_spelling ?q) < n"
    using Cons.prems(4) by (cases fs) (simp_all add: spelled_separated separated_two field_spelling_def)
  then obtain q' where q': "parse_pattern n (step_over (Suc (Suc 0)) p) =
      Some (q', step_over (length (pattern_spelling ?q)) (step_over (Suc (Suc 0)) p))" "unlocated q' = unlocated ?q"
    using readsD [OF _ c tail, of n] Cons.prems(3) by (auto simp: reads_as_def)
  let ?p2 = "step_over (Suc (Suc (length (pattern_spelling ?q)))) p"
  have p2: "ahead ?p2 = tail" using a by (simp add: ahead_step)
  have skip: "skip_newlines p = p" by (rule ahead_skip [OF a]) simp
  have field: "map_prod (\<lambda>a. a) unlocated f = (fst f, unlocated (snd f))" by (cases f) simp
  note run = k Let_def skip token_facts(4) [OF a] ahead_expect [OF a] ahead_expect [OF b] q'(1)
  show ?case
  proof (cases "fs = []")
    case True
    then have "ahead ?p2 = ?close" using p2 by (simp add: tail_def)
    from ahead_check [OF this] show ?thesis
      using q'(2) True by (simp add: run spelled_separated field_spelling_def field)
  next
    case False
    let ?more = "separated comma (map field_spelling fs)"
    have p2': "ahead ?p2 = (Op TOK_COMMA, '','') # ?more @ ?close" using p2 False by (simp add: tail_def comma_def)
    then have p3: "ahead (step_over (Suc 0) ?p2) = ?more @ ?close" by (simp only: ahead_step) simp
    obtain g gs where fs: "fs = g # gs" using False by (cases fs) auto
    have "ahead (step_over (Suc 0) ?p2) = (Idt TOK_IDENT, fst g) # tl (?more @ ?close)"
      using p3 by (simp add: fs spelled_separated field_spelling_def name_token_def)
    then have no: "\<not> check (step_over (Suc 0) ?p2) (Dl TOK_RBRACE)" by (simp add: ahead_check)
    have small: "\<forall>f\<in>set fs. reads (snd f)" "length ?more < n" "length fs \<le> j"
      using Cons.prems(3-5) k by (simp_all add: fs separated_two)
    obtain fs' where fs': "field_patterns j (parse_pattern n) (step_over (Suc 0) ?p2) =
        Some (fs', step_over (length ?more) (step_over (Suc 0) ?p2))" "map (map_prod id unlocated) fs' = map (map_prod id unlocated) fs"
      using Cons.IH [OF p3 False small] by blast
    have len: "length (separated comma (map field_spelling (f # fs))) = Suc (Suc (Suc (length (pattern_spelling ?q) + length ?more)))"
      by (simp add: fs separated_two field_spelling_def comma_def)
    show ?thesis
      unfolding len using fs'(1) fs'(2) [unfolded id_def] no q'(2) ahead_check [OF p2'] ahead_advance [OF p2'] by (simp add: run field)
  qed
qed simp

text \<open>How a pattern starts: not with what closes a brace, and a name is not followed by \<open>=\<close>.\<close>

lemma spelling_head:
  "printable q \<Longrightarrow> fst (hd (pattern_spelling q)) \<notin> {Dl TOK_RBRACE, Lay TOK_NEWLINE, TOK_EOF_K}"
proof (induction q)
  case (PAT_OR loc ps)
  then obtain q qs where "ps = q # qs" by (cases ps) auto
  moreover have "pattern_spelling q \<noteq> []" using spelling_nonempty PAT_OR.prems calculation by simp
  ultimately show ?case using PAT_OR by (simp add: spelled_separated)
next
  case (PAT_CONST_PATH loc parts)
  then show ?case by (cases parts) (simp_all add: spelled_separated name_token_def)
qed (simp_all add: name_token_def int_token_def in_braces_def)

lemma spelling_not_field:
  assumes "printable q" "rest \<noteq> []" "fst (hd rest) \<noteq> Op TOK_EQ" "fst (hd (pattern_spelling q)) = Idt TOK_IDENT"
  shows "fst (hd (tl (pattern_spelling q @ rest))) \<noteq> Op TOK_EQ"
  using assms
proof (induction q arbitrary: rest)
  case (PAT_OR loc ps)
  then obtain q qs where ps: "ps = q # qs" by (cases ps) auto
  moreover have "pattern_spelling q \<noteq> []" using spelling_nonempty PAT_OR.prems ps by simp
  moreover obtain t more where "concat (map (\<lambda>q. bar @ pattern_spelling q) qs) = (Op TOK_PIPE, t) # more"
    using PAT_OR.prems(1) ps by (cases qs) auto
  ultimately show ?case
    using PAT_OR.IH [of q "concat (map (\<lambda>q. bar @ pattern_spelling q) qs) @ rest"] PAT_OR.prems
    by (simp add: spelled_separated comp_def)
next
  case (PAT_CONST_PATH loc parts)
  then obtain n m ns where "parts = n # m # ns" by (cases parts; cases "tl parts") auto
  then show ?case by (simp add: spelled_separated)
qed (auto simp: name_token_def int_token_def in_braces_def sub_spelling_def in_parens_def split: if_splits)

lemma elem_patterns_read:
  assumes "ahead p = separated comma (map pattern_spelling qs) @ (Dl TOK_RBRACE, s) # rest" "qs \<noteq> []"
    and "\<forall>q\<in>set qs. reads q \<and> printable q" "length (separated comma (map pattern_spelling qs)) < n"
    and "length qs \<le> k"
  shows "\<exists>qs'. elem_patterns k (parse_pattern n) p = Some (qs', step_over (length (separated comma (map pattern_spelling qs))) p) \<and>
    map unlocated qs' = map unlocated qs"
  using assms
proof (induction qs arbitrary: p k)
  case (Cons q qs)
  obtain j where k: "k = Suc j" using Cons.prems(5) by (cases k) auto
  let ?close = "(Dl TOK_RBRACE, s) # rest"
  define tail where "tail = (if qs = [] then ?close else comma @ separated comma (map pattern_spelling qs) @ ?close)"
  have split: "separated comma (map pattern_spelling (q # qs)) @ ?close = pattern_spelling q @ tail"
    by (cases qs) (simp_all add: tail_def spelled_separated separated_two)
  have a: "ahead p = pattern_spelling q @ tail" using Cons.prems(1) unfolding split .
  have tail: "follows tail" "fst (hd tail) \<noteq> Op TOK_PIPE" by (simp_all add: tail_def comma_def)
  have "length (pattern_spelling q) < n"
    using Cons.prems(4) by (cases qs) (simp_all add: spelled_separated separated_two)
  then obtain q' where q': "parse_pattern n p = Some (q', step_over (length (pattern_spelling q)) p)" "unlocated q' = unlocated q"
    using readsD [OF _ a tail, of n] Cons.prems(3) by (auto simp: reads_as_def)
  let ?p2 = "step_over (length (pattern_spelling q)) p"
  have p2: "ahead ?p2 = tail" using a by (simp add: ahead_step)
  have "skip_newlines p = p"
    using ahead_skip [of p "fst (hd (pattern_spelling q))" "snd (hd (pattern_spelling q))" "tl (pattern_spelling q) @ tail"]
      spelling_head [of q] spelling_nonempty [of q] a Cons.prems(3) by simp
  note run = k this q'(1)
  show ?case
  proof (cases "qs = []")
    case True
    then have "ahead ?p2 = ?close" using p2 by (simp add: tail_def)
    from ahead_check [OF this] show ?thesis using q'(2) True by (simp add: run spelled_separated)
  next
    case False
    let ?more = "separated comma (map pattern_spelling qs)"
    have p2': "ahead ?p2 = (Op TOK_COMMA, '','') # ?more @ ?close" using p2 False by (simp add: tail_def comma_def)
    then have p3: "ahead (step_over (Suc 0) ?p2) = ?more @ ?close" by (simp only: ahead_step) simp
    obtain r rs where qs: "qs = r # rs" using False by (cases qs) auto
    have "\<not> check (step_over (Suc 0) ?p2) (Dl TOK_RBRACE)"
      using ahead_check [of "step_over (Suc 0) ?p2" "fst (hd (pattern_spelling r))" "snd (hd (pattern_spelling r))"
          "tl (pattern_spelling r) @ concat (map (\<lambda>q. comma @ pattern_spelling q) rs) @ ?close"]
        spelling_head [of r] spelling_nonempty [of r] p3 Cons.prems(3) qs by (simp add: spelled_separated comp_def)
    moreover have "length ?more < n" using Cons.prems(4) by (simp add: qs separated_two)
    then obtain qs' where "elem_patterns j (parse_pattern n) (step_over (Suc 0) ?p2) =
        Some (qs', step_over (length ?more) (step_over (Suc 0) ?p2))" "map unlocated qs' = map unlocated qs"
      using Cons.IH [OF p3 False, of j] Cons.prems(3,5) k by auto
    ultimately show ?thesis
      using q'(2) ahead_check [OF p2'] ahead_advance [OF p2'] by (simp add: run qs separated_two comma_def)
  qed
qed simp

lemma struct_reads:
  assumes "\<forall>f\<in>set fs. reads (snd f)"
  shows "atom_reads (PAT_STRUCT loc fs)"
proof (rule atom_readsI)
  fix p k rest
  let ?fs = "separated comma (map field_spelling fs)" and ?q = "PAT_STRUCT loc fs"
  assume "ahead p = pattern_spelling ?q @ rest" "length (pattern_spelling ?q) \<le> k"
  then have a: "ahead p = (Dl TOK_LBRACE, ''{'') # ?fs @ (Dl TOK_RBRACE, ''}'') # rest" and k: "length ?fs < k"
    unfolding field_spellings in_braces_def by simp_all
  then have b: "ahead (step_over (Suc 0) p) = ?fs @ (Dl TOK_RBRACE, ''}'') # rest" by (simp add: ahead_step)
  have c: "ahead (step_over (Suc (length ?fs)) p) = (Dl TOK_RBRACE, ''}'') # rest" using a by (simp add: ahead_step)
  have close: "expect (Dl TOK_RBRACE) (skip_newlines (step_over (Suc (length ?fs)) p)) = step_over (Suc (Suc (length ?fs))) p"
    using ahead_skip [OF c] ahead_expect [OF c] by simp
  show "reads_as (pattern_spelling ?q) (parse_pattern_atom k (parse_pattern k)) p ?q"
  proof (cases "fs = []")
    case True
    then have e: "?fs = []" by (simp add: separated_def)
    have "check (step_over (Suc 0) p) (Dl TOK_RBRACE)" using ahead_check [of "step_over (Suc 0) p"] b e by simp
    then show ?thesis
      using close e True
      by (simp add: reads_as_def parse_pattern_atom_def brace_pattern_def Let_def token_facts [OF a] in_braces_def)
  next
    case False
    obtain f gs where fs: "fs = f # gs" using False by (cases fs) auto
    obtain more where more: "?fs = (Idt TOK_IDENT, fst f) # (Op TOK_EQ, ''='') # more"
      by (simp add: fs spelled_separated field_spelling_def name_token_def)
    have "length fs \<le> length ?fs" using separated_length [of "map field_spelling fs" comma] by (simp add: field_spelling_def)
    then have "length fs \<le> k" using k by linarith
    from field_patterns_read [OF b False assms k this]
    obtain fs' where fs': "field_patterns k (parse_pattern k) (step_over (Suc 0) p) =
        Some (fs', step_over (length ?fs) (step_over (Suc 0) p))" "map (map_prod id unlocated) fs' = map (map_prod id unlocated) fs" by blast
    moreover have "\<not> check (step_over (Suc 0) p) (Dl TOK_RBRACE)"
      using ahead_check [of "step_over (Suc 0) p"] b more by simp
    moreover have "t_kind (peek_p p 2) = Op TOK_EQ" using ahead_peek [OF a, of 2] more by simp
    moreover have "t_kind (peek_p p (Suc 0)) = Idt TOK_IDENT" using ahead_peek [OF a, of 1] more by simp
    ultimately show ?thesis
      using close unfolding field_spellings
      by (simp add: reads_as_def parse_pattern_atom_def brace_pattern_def Let_def token_facts(1-5) [OF a] in_braces_def)
  qed
qed

lemma tuple_reads:
  assumes "\<forall>q\<in>set qs. reads q \<and> printable q" "qs \<noteq> []"
  shows "atom_reads (PAT_TUPLE loc qs)"
proof (rule atom_readsI)
  fix p k rest
  let ?qs = "separated comma (map pattern_spelling qs)" and ?q = "PAT_TUPLE loc qs"
  assume "ahead p = pattern_spelling ?q @ rest" "length (pattern_spelling ?q) \<le> k"
  then have a: "ahead p = (Dl TOK_LBRACE, ''{'') # ?qs @ (Dl TOK_RBRACE, ''}'') # rest" and k: "length ?qs < k"
    by (simp_all add: in_braces_def)
  then have b: "ahead (step_over (Suc 0) p) = ?qs @ (Dl TOK_RBRACE, ''}'') # rest" by (simp add: ahead_step)
  have c: "ahead (step_over (Suc (length ?qs)) p) = (Dl TOK_RBRACE, ''}'') # rest" using a by (simp add: ahead_step)
  have close: "expect (Dl TOK_RBRACE) (skip_newlines (step_over (Suc (length ?qs)) p)) = step_over (Suc (Suc (length ?qs))) p"
    using ahead_skip [OF c] ahead_expect [OF c] by simp
  obtain r rs where qs: "qs = r # rs" using assms(2) by (cases qs) auto
  let ?more = "concat (map (\<lambda>q. comma @ pattern_spelling q) rs) @ (Dl TOK_RBRACE, ''}'') # rest"
  have r: "printable r" "pattern_spelling r \<noteq> []" using assms(1) qs spelling_nonempty by auto
  have split: "?qs @ (Dl TOK_RBRACE, ''}'') # rest = pattern_spelling r @ ?more" by (simp add: qs spelled_separated comp_def)
  have "?more \<noteq> []" "fst (hd ?more) \<noteq> Op TOK_EQ" by (cases rs; simp add: comma_def)+
  note second = spelling_not_field [OF r(1) this]
  have first: "t_kind (peek_p p (Suc 0)) = fst (hd (pattern_spelling r))"
    using ahead_peek [OF a, of 1] split r(2) by (simp add: hd_conv_nth nth_append)
  have long: "Suc 0 < length (pattern_spelling r @ ?more)" using r(2) by (cases "pattern_spelling r"; cases rs) (auto simp: comma_def)
  then have "t_kind (peek_p p 2) = fst (hd (tl (pattern_spelling r @ ?more)))"
    using ahead_peek [OF a, of 2] unfolding split hd_tl_nth [OF long] by (simp add: numeral_2_eq_2)
  then have not_named: "\<not> (t_kind (peek_p p (Suc 0)) = Dl TOK_RBRACE \<or>
      t_kind (peek_p p (Suc 0)) = Idt TOK_IDENT \<and> t_kind (peek_p p 2) = Op TOK_EQ)"
    using second first spelling_head [OF r(1)] by auto
  have "length qs \<le> length ?qs"
    using separated_length [of "map pattern_spelling qs" comma] spelling_nonempty assms(1) by simp
  then obtain qs' where "elem_patterns k (parse_pattern k) (step_over (Suc 0) p) =
      Some (qs', step_over (length ?qs) (step_over (Suc 0) p))" "map unlocated qs' = map unlocated qs"
    using elem_patterns_read [OF b assms(2,1) k, of k] k by auto
  then show "reads_as (pattern_spelling ?q) (parse_pattern_atom k (parse_pattern k)) p ?q"
    using close
    by (simp add: reads_as_def parse_pattern_atom_def brace_pattern_def Let_def token_facts(1-5) [OF a] in_braces_def
        if_not_P [OF not_named])
qed

lemma pattern_reads: "printable q \<Longrightarrow> (is_or q \<or> atom_reads q) \<and> reads q"
proof (induction q)
  case (PAT_OR loc ps)
  then have "\<forall>q\<in>set ps. atom_reads q \<and> \<not> is_or q \<and> printable q" by auto
  from or_reads [OF this] show ?case using PAT_OR.prems by (simp add: is_or_def)
next
  case (PAT_STRUCT loc fs)
  then have "\<forall>f\<in>set fs. reads (snd f)" by fastforce
  from struct_reads [OF this] show ?case using atom_pattern_reads by blast
next
  case (PAT_TUPLE loc ps)
  then have "\<forall>q\<in>set ps. reads q \<and> printable q" by auto
  from tuple_reads [OF this] show ?case using PAT_TUPLE.prems atom_pattern_reads by simp
next
  case (PAT_CONST_PATH loc parts)
  then show ?case using const_path_reads atom_pattern_reads by simp
next
  case (PAT_INT_LIT loc v oor neg)
  then show ?case using int_reads atom_pattern_reads by simp
next
  case (PAT_OK loc q)
  then show ?case using wrapper_reads(2) bare_ok_reads atom_pattern_reads by (cases q) auto
next
  case (PAT_SOME loc q)
  then show ?case using wrapper_reads(1) atom_pattern_reads by (cases q) auto
next
  case (PAT_ERR loc q)
  then show ?case using wrapper_reads(3) atom_pattern_reads by (cases q) auto
next
  case (PAT_VARIANT loc n q)
  then show ?case using wrapper_reads(4) atom_pattern_reads by (cases q) auto
qed (use atom_literals name_reads atom_pattern_reads in auto)

subsection \<open>Properties\<close>

text \<open>
  C18: reading a pattern ends. Started inside a token array that ends with the end of file, with
  one nested call allowed for each token left, \<open>parse_pattern\<close> returns, whatever the tokens are;
  it leaves the tokens alone, stands inside them no earlier than before, and its result has the
  shape the checker relies on: alternatives in every or-pattern, a payload in every variant pattern.
\<close>

theorem pattern_parse_returns:
  assumes "parser_ok p" "tokens_left p < n"
  shows "\<exists>q p'. parse_pattern n p = Some (q, p') \<and> parser_ok p' \<and> moved p p' \<and> parsed q"
proof -
  obtain q p' where q: "parse_pattern n p = Some (q, p')" "later p p'"
    using pattern_returns [of n] assms by (auto simp: returns_def)
  then show ?thesis using pattern_parsed [of n] by (auto simp: out_def later_def)
qed

definition sample_token :: "nat \<Rightarrow> token_kind \<times> string \<Rightarrow> token" where
  "sample_token i ks = \<lparr>t_kind = fst ks, t_start = Static (snd ks), t_length = length (snd ks), t_line = 1, t_col = i\<rparr>"

definition parser_at :: "spelling \<Rightarrow> parser" where
  "parser_at ks =
     \<lparr>ps_src = [], ps_tokens = map (\<lambda>(i, ks). sample_token i ks) (enumerate 1 ks), ps_pos = 0, ps_filename = None,
      ps_allow_fixed_array = False, ps_in_const_expr = False, ps_half_gt = False, ps_half_gt_pos = - 1, ps_diags = []\<rparr>"

lemma sample_text: "text_of_token p (sample_token i ks) = snd ks"
  by (simp add: text_of_token_def sample_token_def)

lemma ahead_parser_at: "ahead (parser_at ks) = ks"
proof -
  have "map ((\<lambda>t. (t_kind t, text_of_token p t)) \<circ> (\<lambda>(i, ks). sample_token i ks)) (enumerate n ks) = ks" for p n
    by (induction ks arbitrary: n) (simp_all add: sample_text, simp add: sample_token_def)
  then show ?thesis by (simp add: ahead_def parser_at_def)
qed

lemma parser_at_plain: "\<not> ps_half_gt (parser_at ks)" "ps_diags (parser_at ks) = []"
  by (simp_all add: parser_at_def)

definition eof_token :: "token_kind \<times> string" where "eof_token = (TOK_EOF_K, [])"

text \<open>The stray tokens \<open>{ a = | , (\<close>.\<close>

definition stray :: spelling where
  "stray = [(Dl TOK_LBRACE, ''{''), name_token ''a'', (Op TOK_EQ, ''=''), (Op TOK_PIPE, ''|''), (Op TOK_COMMA, '',''),
     (Dl TOK_LPAREN, ''(''), eof_token]"

theorem pattern_parse_returns_witness:
  "\<exists>q p'. parse_pattern 8 (parser_at stray) = Some (q, p') \<and> parser_ok p' \<and> moved (parser_at stray) p' \<and> parsed q"
proof -
  have "parser_ok (parser_at stray)" "tokens_left (parser_at stray) < 8" by code_simp+
  then show ?thesis by (rule pattern_parse_returns)
qed

text \<open>
  C15: what is written is read. On the tokens of a pattern \<open>parse_pattern\<close> returns this pattern up
  to its locations, stands right behind them and reports nothing. The token after them must not
  be one that would continue a pattern.
\<close>

theorem pattern_round_trip:
  assumes "printable q" "ahead p = pattern_spelling q @ rest" "rest \<noteq> []"
    and "fst (hd rest) \<notin> {Op TOK_PIPE, Op TOK_DOT, Dl TOK_LPAREN}" "length (pattern_spelling q) < n"
  shows "\<exists>q'. parse_pattern n p = Some (q', step_over (length (pattern_spelling q)) p) \<and> unlocated q' = unlocated q"
  using pattern_reads [OF assms(1)] readsD [OF _ assms(2) _ _ assms(5)] assms(3,4)
  by (simp add: reads_as_def follows_def)

definition sample_pattern :: pattern where
  "sample_pattern =
     PAT_STRUCT no_loc
       [(''kind'', PAT_OR no_loc [PAT_VARIANT no_loc ''circle'' (Some (PAT_WILDCARD no_loc)), PAT_BINDING no_loc ''dot'']),
        (''at'', PAT_TUPLE no_loc [PAT_INT_LIT no_loc (- 42) False True, PAT_SOME no_loc (Some (PAT_CHAR_LIT no_loc 255))]),
        (''code'', PAT_ERR no_loc (Some (PAT_CONST_PATH no_loc [''io'', ''missing''])))]"

theorem pattern_round_trip_witness:
  "\<exists>q'. parse_pattern 40 (parser_at (pattern_spelling sample_pattern @ [eof_token])) =
      Some (q', step_over (length (pattern_spelling sample_pattern)) (parser_at (pattern_spelling sample_pattern @ [eof_token]))) \<and>
    unlocated q' = unlocated sample_pattern"
proof (rule pattern_round_trip)
  show "printable sample_pattern" by (simp add: sample_pattern_def is_or_def)
  show "ahead (parser_at (pattern_spelling sample_pattern @ [eof_token])) = pattern_spelling sample_pattern @ [eof_token]"
    by (rule ahead_parser_at)
  show "length (pattern_spelling sample_pattern) < 40" by code_simp
qed (simp_all add: eof_token_def)

text \<open>
  The value of an integer literal. The loop that copies the digits and the one that finds
  the suffix agree: the value is that of the digits up to the suffix, in the base of the prefix
  and without separators, and it is out of range exactly when it does not fit 64 bits.
\<close>

theorem int_literal_value:
  "parse_int_value s =
    (let (base, i) = int_base s;
         n = digits_value base (filter (\<lambda>c. c \<noteq> CHR ''_'') (drop i (take (int_num_end s) s)))
     in (if n < 2 ^ 64 then word_of_nat n else - 1, \<not> n < 2 ^ 64))"
proof -
  obtain base i where "int_base s = (base, i)" by force
  then show ?thesis using parse_int_digits [of s] by (simp add: strtoull_def Let_def)
qed

end
