(* ===== verification/FC_TypeText.thy ===== *)
theory FC_TypeText
  imports FC_ParseType FC_PatternText
begin

section \<open>Types as a program writes them\<close>

subsection \<open>The scanner's \<open>>>\<close>\<close>

text \<open>
  The scanner reads two adjacent \<open>>\<close> as one token. A parser stands before a spelling in which
  every closer is a token of its own: its tokens are that spelling with pairs of closers glued, or
  it has consumed one half of a glued pair.
\<close>

abbreviation "gt \<equiv> (Op TOK_GT, ''>'') :: token_kind \<times> string"
abbreviation "gtgt \<equiv> (Op TOK_GTGT, ''>>'') :: token_kind \<times> string"

fun glue :: "spelling \<Rightarrow> spelling" where
  "glue (x # y # r) = (if fst x = Op TOK_GT \<and> fst y = Op TOK_GT then gtgt # glue r else x # glue (y # r))"
| "glue s = s"

definition stands :: "parser \<Rightarrow> spelling \<Rightarrow> bool" where
  "stands p ks \<longleftrightarrow>
     (if ps_half_gt p then int (ps_pos p) = ps_half_gt_pos p \<and> (\<exists>s r. ks = (Op TOK_GT, s) # r \<and> ahead p = gtgt # glue r)
      else ahead p = glue ks)"

definition unreported :: "parser \<Rightarrow> parser \<Rightarrow> bool" where
  "unreported p q \<longleftrightarrow> moved p q \<and> ps_diags q = ps_diags p"

lemma unreported_refl [simp, intro]: "unreported p p"
  by (simp add: unreported_def)

lemma unreported_trans [trans]: "unreported p q \<Longrightarrow> unreported q r \<Longrightarrow> unreported p r"
  unfolding unreported_def by (metis moved_trans)

lemma glue_cons: "k \<noteq> Op TOK_GT \<Longrightarrow> glue ((k, s) # r) = (k, s) # glue r"
  by (cases r) auto

lemma glue_prefix: "\<forall>x\<in>set a. fst x \<noteq> Op TOK_GT \<Longrightarrow> glue (a @ r) = a @ glue r"
  by (induction a) (auto simp: glue_cons)

lemma glue_head: "glue ((k, s) # r) \<noteq> [] \<and> (fst (hd (glue ((k, s) # r))) = k \<or>
    k = Op TOK_GT \<and> fst (hd (glue ((k, s) # r))) = Op TOK_GTGT)"
  by (cases r) auto

lemma ahead_advanced: "ahead p = (k, s) # r \<Longrightarrow> k \<noteq> TOK_EOF_K \<Longrightarrow> ahead (advance_p p) = r"
  using ahead_advance [of p k s r] ahead_step [of 1 p] by simp

lemma unreported_advance [simp, intro]: "unreported p (advance_p p)"
  by (simp add: unreported_def) (simp add: advance_p_def)

lemma stands_head:
  assumes "stands p ((k, s) # r)" "k \<noteq> Op TOK_GT"
  shows "check p k' \<longleftrightarrow> k = k'" "t_kind (current p) = k" "text_of_token p (current p) = s" "\<not> half_here p"
    and "k \<noteq> TOK_EOF_K \<Longrightarrow> stands (advance_p p) r"
proof -
  have a: "ahead p = (k, s) # glue r" "\<not> ps_half_gt p"
    using assms by (auto simp: stands_def glue_cons split: if_splits)
  show "check p k' \<longleftrightarrow> k = k'" "t_kind (current p) = k" "text_of_token p (current p) = s"
    using ahead_check [OF a(1)] ahead_current [OF a(1)] by auto
  show "\<not> half_here p" using a(2) by (simp add: half_here_def)
  assume "k \<noteq> TOK_EOF_K"
  then show "stands (advance_p p) r" using ahead_advanced [OF a(1)] a(2) by (simp add: stands_def advance_p_def)
qed

lemma stands_kind:
  assumes "stands p ((k, s) # r)"
  shows "t_kind (current p) = k \<or> k = Op TOK_GT \<and> t_kind (current p) = Op TOK_GTGT"
proof -
  have "ahead p \<noteq> [] \<and> (fst (hd (ahead p)) = k \<or> k = Op TOK_GT \<and> fst (hd (ahead p)) = Op TOK_GTGT)"
    using assms glue_head [of k s r] by (auto simp: stands_def split: if_splits)
  then show ?thesis using ahead_current(1) by (cases "ahead p") fastforce+
qed

lemma stands_check: "stands p ((k, s) # r) \<Longrightarrow> k' \<noteq> Op TOK_GT \<Longrightarrow> k' \<noteq> Op TOK_GTGT \<Longrightarrow> check p k' \<longleftrightarrow> k = k'"
  using stands_kind [of p k s r] by (auto simp: check_def)

lemma stands_peek:
  assumes "stands p (a @ (k, s) # r)" "\<forall>x\<in>set a. fst x \<noteq> Op TOK_GT" "a \<noteq> []"
  shows "t_kind (peek_p p (length a)) = k \<or> k = Op TOK_GT \<and> t_kind (peek_p p (length a)) = Op TOK_GTGT"
proof -
  have "ahead p = a @ glue ((k, s) # r)"
    using assms glue_prefix [OF assms(2)] by (cases a) (auto simp: stands_def split: if_splits)
  then show ?thesis using ahead_peek [of p _ "length a"] glue_head [of k s r] by (auto simp: nth_append hd_conv_nth)
qed

lemma stands_closer:
  assumes "stands p ((Op TOK_GT, s) # r)"
  shows "at_typearg_gt p" "stands (snd (consume_typearg_gt p)) r" "unreported p (snd (consume_typearg_gt p))"
proof -
  show "at_typearg_gt p" using stands_kind [OF assms] by (auto simp: at_typearg_gt_def check_def)
  have unreported: "unreported p (q\<lparr>ps_half_gt := b, ps_half_gt_pos := i\<rparr>)" if "unreported p q" for b i q
    using that by (auto simp: unreported_def moved_def)
  have "half_here p \<longleftrightarrow> ps_half_gt p" using assms by (auto simp: stands_def half_here_def split: if_splits)
  then consider (half) "ps_half_gt p" "half_here p" "ahead p = gtgt # glue r"
    | (pair) t r' where "\<not> ps_half_gt p" "\<not> half_here p" "r = (Op TOK_GT, t) # r'" "ahead p = gtgt # glue r'"
    | (one) "\<not> ps_half_gt p" "\<not> half_here p" "ahead p = (Op TOK_GT, s) # glue r"
    using assms by (cases r) (fastforce simp: stands_def split: if_splits)+
  then have "stands (snd (consume_typearg_gt p)) r \<and> unreported p (snd (consume_typearg_gt p))"
  proof cases
    case half
    let ?q = "p\<lparr>ps_half_gt := False, ps_half_gt_pos := - 1\<rparr>"
    have "ahead ?q = gtgt # glue r" using half(3) by (simp add: ahead_def text_of_token_def)
    then have "ahead (advance_p ?q) = glue r" by (rule ahead_advanced) simp
    moreover have "\<not> ps_half_gt (advance_p ?q)" by (simp add: advance_p_def)
    ultimately show ?thesis
      using half(2) unreported_trans [OF unreported [OF unreported_refl] unreported_advance] by (simp add: consume_typearg_gt_def stands_def)
  next
    case pair
    then have "check p (Op TOK_GTGT)" "\<not> check p (Op TOK_GT)" using ahead_check by auto
    then show ?thesis
      using pair unreported [OF unreported_refl] by (auto simp: consume_typearg_gt_def stands_def ahead_def text_of_token_def)
  next
    case one
    then have "check p (Op TOK_GT)" using ahead_check by auto
    moreover have "\<not> ps_half_gt (advance_p p)" using one(1) by (simp add: advance_p_def)
    ultimately show ?thesis using one ahead_advanced [OF one(3)] by (simp add: consume_typearg_gt_def stands_def)
  qed
  then show "stands (snd (consume_typearg_gt p)) r" "unreported p (snd (consume_typearg_gt p))" by auto
qed

subsection \<open>Written types\<close>

text \<open>
  The forms of a type: a base with its suffixes, a function type, \<open>const\<close>. A list of names is a
  dotted name. An integer is a const argument.
\<close>

datatype suffix = SPtr | SSlice | SOpt | SRes

datatype wtype =
    WName string "string list" "suffix list"
  | WInst string "string list" "wtype list" "suffix list"
  | WVar string "suffix list"
  | WErrorCode "suffix list"
  | WVoid
  | WVoidRes "suffix list"
  | WAny "suffix list"
  | WTuple "wtype list" "suffix list"
  | WGroup wtype "suffix list"
  | WFunc "wtype list" bool wtype
  | WConst wtype
  | WInt u64

primrec suffix_spelling :: "suffix \<Rightarrow> spelling" where
  "suffix_spelling SPtr = [(Op TOK_STAR, ''*'')]"
| "suffix_spelling SSlice = [(Dl TOK_LBRACKET, ''[''), (Dl TOK_RBRACKET, '']'')]"
| "suffix_spelling SOpt = [(Op TOK_QUESTION, ''?'')]"
| "suffix_spelling SRes = [(Op TOK_BANG, ''!'')]"

definition suffixes :: "suffix list \<Rightarrow> spelling" where
  "suffixes ss = concat (map suffix_spelling ss)"

primrec suffixed :: "suffix \<Rightarrow> ctype \<Rightarrow> ctype" where
  "suffixed SPtr t = type_pointer t"
| "suffixed SSlice t = type_slice t"
| "suffixed SOpt t = type_option t"
| "suffixed SRes t = type_result t"

definition name_spelling :: "string \<Rightarrow> string list \<Rightarrow> spelling" where
  "name_spelling n ms = name_token n # concat (map (\<lambda>m. [(Op TOK_DOT, ''.''), name_token m]) ms)"

definition dotted :: "string \<Rightarrow> string list \<Rightarrow> string" where
  "dotted = foldl (\<lambda>a m. a @ ''.'' @ m)"

primrec type_spelling :: "wtype \<Rightarrow> spelling" where
  "type_spelling (WName n ms ss) = name_spelling n ms @ suffixes ss"
| "type_spelling (WInst n ms ws ss) =
     name_spelling n ms @ (Op TOK_LT, ''<'') # separated comma (map type_spelling ws) @ gt # suffixes ss"
| "type_spelling (WVar v ss) = (Idt TOK_TYPE_VAR, v) # suffixes ss"
| "type_spelling (WErrorCode ss) = (Kw TOK_ERROR_KW, ''error'') # suffixes ss"
| "type_spelling WVoid = [(Kw TOK_VOID, ''void'')]"
| "type_spelling (WVoidRes ss) = (Kw TOK_VOID, ''void'') # (Op TOK_BANG, ''!'') # suffixes ss"
| "type_spelling (WAny ss) = name_token ''any'' # (Op TOK_STAR, ''*'') # suffixes ss"
| "type_spelling (WTuple ws ss) = in_braces (separated comma (map type_spelling ws)) @ suffixes ss"
| "type_spelling (WGroup w ss) = in_parens (type_spelling w) @ suffixes ss"
| "type_spelling (WFunc ws v r) =
     in_parens (separated comma (map type_spelling ws @ (if v then [[(Op TOK_ELLIPSIS, ''...'')]] else []))) @
     (Op TOK_ARROW, ''->'') # type_spelling r"
| "type_spelling (WConst w) = (Bi TOK_CONST, ''const'') # type_spelling w"
| "type_spelling (WInt v) = [int_token v]"

text \<open>The type each form stands for.\<close>

definition const_of :: "ctype \<Rightarrow> ctype option" where
  "const_of t =
     (if const_kind t then Some (set_const True t)
      else case t of
             TOption _ c \<Rightarrow> if const_kind c then Some (type_option (set_const True c)) else None
           | TResult _ c \<Rightarrow> if const_kind c then Some (type_result (set_const True c)) else None
           | _ \<Rightarrow> None)"

primrec type_meaning :: "wtype \<Rightarrow> ctype" where
  "type_meaning (WName n ms ss) =
     fold suffixed ss (case type_from_name n of Some t \<Rightarrow> t | None \<Rightarrow> type_stub (dotted n ms) [])"
| "type_meaning (WInst n ms ws ss) = fold suffixed ss (type_stub (dotted n ms) (map type_meaning ws))"
| "type_meaning (WVar v ss) = fold suffixed ss (type_type_var v)"
| "type_meaning (WErrorCode ss) = fold suffixed ss type_error_code"
| "type_meaning WVoid = type_void"
| "type_meaning (WVoidRes ss) = fold suffixed ss (type_result type_void)"
| "type_meaning (WAny ss) = fold suffixed ss type_any_ptr"
| "type_meaning (WTuple ws ss) = fold suffixed ss (type_tuple (map type_meaning ws))"
| "type_meaning (WGroup w ss) = fold suffixed ss (type_meaning w)"
| "type_meaning (WFunc ws v r) = TFunc plain (map type_meaning ws) (type_meaning r) v []"
| "type_meaning (WConst w) = the (const_of (type_meaning w))"
| "type_meaning (WInt v) = type_const_int v"

text \<open>
  What may be written where. A parenthesis that opens a type argument opens a const expression
  unless an arrow follows its closer.
\<close>

definition arg_form :: "wtype \<Rightarrow> bool" where
  "arg_form w \<longleftrightarrow> (case w of WGroup _ _ \<Rightarrow> False | _ \<Rightarrow> True)"

definition type_form :: "wtype \<Rightarrow> bool" where
  "type_form w \<longleftrightarrow> (case w of WInt _ \<Rightarrow> False | _ \<Rightarrow> True)"

primrec legal :: "wtype \<Rightarrow> bool" where
  "legal (WName n ms ss) \<longleftrightarrow> n \<noteq> ''any'' \<and> (ms = [] \<or> type_from_name n = None)"
| "legal (WInst n ms ws ss) \<longleftrightarrow> type_from_name n = None \<and> ws \<noteq> [] \<and> (\<forall>w\<in>set ws. arg_form w) \<and> list_all id (map legal ws)"
| "legal (WVar v ss) \<longleftrightarrow> True"
| "legal (WErrorCode ss) \<longleftrightarrow> True"
| "legal WVoid \<longleftrightarrow> True"
| "legal (WVoidRes ss) \<longleftrightarrow> True"
| "legal (WAny ss) \<longleftrightarrow> True"
| "legal (WTuple ws ss) \<longleftrightarrow> 2 \<le> length ws \<and> (\<forall>w\<in>set ws. type_form w) \<and> list_all id (map legal ws)"
| "legal (WGroup w ss) \<longleftrightarrow> type_form w \<and> legal w"
| "legal (WFunc ws v r) \<longleftrightarrow> (\<forall>w\<in>set ws. type_form w) \<and> list_all id (map legal ws) \<and> type_form r \<and> legal r"
| "legal (WConst w) \<longleftrightarrow> const_of (type_meaning w) \<noteq> None \<and> type_form w \<and> legal w"
| "legal (WInt v) \<longleftrightarrow> True"

subsection \<open>Reading\<close>

text \<open>A parser of a form: before the form and an allowed rest it reads the form and reports nothing.\<close>

definition reading :: "'a parse \<Rightarrow> spelling \<Rightarrow> 'a \<Rightarrow> (spelling \<Rightarrow> bool) \<Rightarrow> bool" where
  "reading f s x C \<longleftrightarrow> (\<forall>p rest. stands p (s @ rest) \<longrightarrow> C rest \<longrightarrow> (\<exists>q. f p = Some (x, q) \<and> stands q rest \<and> unreported p q))"

lemma readingD:
  assumes "reading f s x C" "stands p (s @ rest)" "C rest"
  obtains q where "f p = Some (x, q)" "stands q rest" "unreported p q"
  using assms unfolding reading_def by blast

text \<open>The tokens after a type, and after a type inside brackets.\<close>

definition ends_type :: "spelling \<Rightarrow> bool" where
  "ends_type r \<longleftrightarrow> r \<noteq> [] \<and> fst (hd r) \<notin> {Op TOK_STAR, Dl TOK_LBRACKET, Op TOK_QUESTION, Op TOK_BANG, Op TOK_LT, Op TOK_DOT,
     Op TOK_ARROW, Dl TOK_LBRACE}"

definition inner_end :: "spelling \<Rightarrow> bool" where
  "inner_end r \<longleftrightarrow> r \<noteq> [] \<and> fst (hd r) \<in> {Op TOK_COMMA, Op TOK_GT, Dl TOK_RPAREN, Dl TOK_RBRACE}"

lemma inner_ends: "inner_end r \<Longrightarrow> ends_type r"
  by (auto simp: inner_end_def ends_type_def)

lemma ends_token: "ends_type r \<Longrightarrow> \<exists>k s r'. r = (k, s) # r' \<and> ends_type ((k, s) # r')"
  by (cases r) (auto simp: ends_type_def)

lemma suffixes_simps [simp]: "suffixes [] = []" "suffixes (x # ss) = suffix_spelling x @ suffixes ss"
  by (simp_all add: suffixes_def)

text \<open>What stands behind a suffix is again a suffix or the end.\<close>

lemma suffixes_end:
  assumes "ends_type rest"
  obtains k s r where "suffixes ss @ rest = (k, s) # r" "k \<notin> {Op TOK_LT, Op TOK_DOT, Op TOK_ARROW, Dl TOK_LBRACE}"
proof (cases ss)
  case Nil
  then show ?thesis using that assms ends_token [OF assms] by (auto simp: ends_type_def)
next
  case (Cons x ss')
  then show ?thesis using that by (cases x) auto
qed

lemma suffix_reads:
  assumes "stands p (suffixes ss @ rest)" "ends_type rest" "length ss < n" "kind t \<noteq> TYPE_FIXED_ARRAY"
  shows "\<exists>q. parse_type_suffix env n t p = Some (fold suffixed ss t, q) \<and> stands q rest \<and> unreported p q"
  using assms
proof (induction ss arbitrary: p n t)
  case Nil
  then obtain m where n: "n = Suc m" by (cases n) auto
  obtain k s r where rest: "rest = (k, s) # r" using ends_token [OF Nil.prems(2)] by blast
  have "check p k' \<longleftrightarrow> k = k'" if "k' \<noteq> Op TOK_GT" "k' \<noteq> Op TOK_GTGT" for k'
    using Nil.prems(1) stands_check [of p k s r, OF _ that] rest by simp
  then have "suffix_step env m t p = Some (None, p)"
    using Nil.prems(2,4) by (simp add: suffix_step_def Let_def rest ends_type_def)
  then show ?case using Nil.prems(1) by (auto simp: n)
next
  case (Cons x ss)
  then obtain m where n: "n = Suc m" by (cases n) auto
  have step: "\<exists>q. suffix_step env m t p = Some (Some (suffixed x t), q) \<and> stands q (suffixes ss @ rest) \<and> unreported p q"
  proof (cases x)
    case SSlice
    then have at: "stands p ((Dl TOK_LBRACKET, ''['') # (Dl TOK_RBRACKET, '']'') # suffixes ss @ rest)" using Cons.prems(1) by simp
    note h = stands_head [OF at]
    note h1 = stands_head [OF h(5)]
    obtain k s r where r: "suffixes ss @ rest = (k, s) # r" "k \<noteq> Dl TOK_LBRACE"
      by (rule suffixes_end [OF Cons.prems(2), of ss]) auto
    have "t_kind (peek_p p 1) = Dl TOK_RBRACKET"
      using stands_peek [of p "[(Dl TOK_LBRACKET, ''['')]" "Dl TOK_RBRACKET"] at by simp
    moreover have "t_kind (peek_p p 2) \<noteq> Dl TOK_LBRACE"
      using stands_peek [of p "[(Dl TOK_LBRACKET, ''[''), (Dl TOK_RBRACKET, '']'')]" k s r] at r by (auto simp: numeral_2_eq_2)
    ultimately show ?thesis
      using h(1) h1(5) Cons.prems(4) unreported_trans [OF unreported_advance unreported_advance] SSlice
      by (simp add: suffix_step_def Let_def)
  qed (use Cons.prems in \<open>simp add: suffix_step_def Let_def stands_head\<close>)+
  then obtain q where q: "suffix_step env m t p = Some (Some (suffixed x t), q)" "stands q (suffixes ss @ rest)" "unreported p q"
    by blast
  have "kind (suffixed x t) \<noteq> TYPE_FIXED_ARRAY"
    by (cases x) (simp_all add: type_pointer_def type_slice_def type_option_def type_result_def)
  then obtain q' where "parse_type_suffix env m (suffixed x t) q = Some (fold suffixed ss (suffixed x t), q')"
    "stands q' rest" "unreported q q'"
    using Cons.IH [OF q(2) Cons.prems(2), of m "suffixed x t"] Cons.prems(3) n by auto
  then show ?case using q unreported_trans [OF q(3)] by (auto simp: n)
qed

text \<open>The forms that end in suffixes, from the reading of their base.\<close>

lemma kind_not_array [simp]:
  "kind (type_stub n ts) \<noteq> TYPE_FIXED_ARRAY" "kind (type_type_var v) \<noteq> TYPE_FIXED_ARRAY"
  "kind type_error_code \<noteq> TYPE_FIXED_ARRAY" "kind (type_result t) \<noteq> TYPE_FIXED_ARRAY"
  "kind type_any_ptr \<noteq> TYPE_FIXED_ARRAY" "kind (type_tuple ts) \<noteq> TYPE_FIXED_ARRAY"
  by (simp_all add: type_stub_def type_type_var_def type_error_code_def type_result_def type_any_ptr_def type_tuple_def)

lemma kind_suffixed: "kind t \<noteq> TYPE_FIXED_ARRAY \<Longrightarrow> kind (fold suffixed ss t) \<noteq> TYPE_FIXED_ARRAY"
proof (induction ss arbitrary: t)
  case (Cons x ss)
  have "kind (suffixed x t) \<noteq> TYPE_FIXED_ARRAY"
    by (cases x) (simp_all add: type_pointer_def type_slice_def type_option_def type_result_def)
  then show ?case using Cons by simp
qed simp

lemma primitive_kind: "type_from_name n = Some t \<Longrightarrow> kind t \<noteq> TYPE_FIXED_ARRAY"
  by (auto simp: type_from_name_def PRIMITIVE_TYPES_def prim_type_defs type_str_def type_cstr_def split: if_splits)

lemma any_name: "type_from_name n = Some type_any_ptr \<longleftrightarrow> n = ''any''"
  by (auto simp: type_from_name_def PRIMITIVE_TYPES_def prim_type_defs type_str_def type_cstr_def split: if_splits)

lemma const_of_kind: "const_of t = Some u \<Longrightarrow> kind u \<noteq> TYPE_FIXED_ARRAY"
  by (cases t) (auto simp: const_of_def const_kind_def type_option_def type_result_def split: if_splits)

lemma meaning_kind: "legal w \<Longrightarrow> kind (type_meaning w) \<noteq> TYPE_FIXED_ARRAY"
proof (induction w)
  case (WName n ms ss)
  show ?case by (auto simp: primitive_kind intro!: kind_suffixed split: option.split)
qed (auto intro!: kind_suffixed simp: const_of_kind type_void_def type_const_int_def)

text \<open>Names.\<close>

definition no_member :: "spelling \<Rightarrow> bool" where
  "no_member r \<longleftrightarrow> r \<noteq> [] \<and> fst (hd r) \<noteq> Op TOK_DOT"

lemma at_member_token: "stands p ((k, s) # r) \<Longrightarrow> k \<noteq> Op TOK_DOT \<Longrightarrow> \<not> at_member p"
  by (simp add: at_member_def stands_check)

lemma in_bounds: "stands p (x # r) \<Longrightarrow> ps_pos p < token_count p"
proof -
  assume "stands p (x # r)"
  then have "ahead p \<noteq> []" using glue_head [of "fst x" "snd x" r] by (auto simp: stands_def split: if_splits)
  then show ?thesis by (simp add: ahead_def token_count_def)
qed

lemma type_path_reads:
  assumes "stands p (concat (map (\<lambda>m. [(Op TOK_DOT, ''.''), name_token m]) ms) @ rest)" "no_member rest"
  shows "\<exists>q. type_path p n = (dotted n ms, q) \<and> stands q rest \<and> unreported p q"
  using assms
proof (induction ms arbitrary: p n)
  case Nil
  obtain k s r where "rest = (k, s) # r" "k \<noteq> Op TOK_DOT" using Nil.prems(2) by (cases rest) (auto simp: no_member_def)
  then have "\<not> at_member p" using Nil.prems(1) at_member_token by simp
  then show ?case using Nil.prems(1) by (subst type_path.simps) (auto simp: dotted_def)
next
  case (Cons m ms)
  let ?rest = "concat (map (\<lambda>m. [(Op TOK_DOT, ''.''), name_token m]) ms) @ rest"
  have at: "stands p ((Op TOK_DOT, ''.'') # (Idt TOK_IDENT, m) # ?rest)" using Cons.prems(1) by (simp add: name_token_def)
  note h = stands_head [OF at]
  have p1: "stands (advance_p p) ((Idt TOK_IDENT, m) # ?rest)" using h(5) by simp
  note h1 = stands_head [OF p1]
  have "t_kind (peek_p p 1) = Idt TOK_IDENT"
    using stands_peek [of p "[(Op TOK_DOT, ''.'')]" "Idt TOK_IDENT"] at by simp
  then have member: "ps_pos p < token_count p \<and> at_member p" using in_bounds [OF at] h(1) by (simp add: at_member_def)
  obtain q where "type_path (advance_p (advance_p p)) (n @ ''.'' @ m) = (dotted (n @ ''.'' @ m) ms, q)" "stands q rest"
    "unreported (advance_p (advance_p p)) q"
    using Cons.IH [OF h1(5) Cons.prems(2)] by auto
  then show ?case
    using member h1(3) unreported_trans [OF unreported_trans [OF unreported_advance unreported_advance]]
    by (subst type_path.simps) (auto simp: Let_def dotted_def)
qed

subsection \<open>Lists\<close>

text \<open>The separated elements up to a token that is no comma.\<close>

abbreviation "list_end \<equiv> \<lambda>r. inner_end r \<and> fst (hd r) \<noteq> Op TOK_COMMA"

abbreviation "comma_tok \<equiv> (Op TOK_COMMA, '','') :: token_kind \<times> string"

lemma separated_more: "separated comma (x # y # ys) = x @ comma_tok # separated comma (y # ys)"
  by (simp add: separated_def comma_def)

lemma list_end_head: "list_end r \<Longrightarrow> \<exists>k s r'. r = (k, s) # r' \<and> k \<noteq> Op TOK_COMMA"
  by (cases r) (auto simp: inner_end_def)

lemma inner_end_comma [simp]: "inner_end ((Op TOK_COMMA, s) # r)"
  by (simp add: inner_end_def)

text \<open>
  A reading of an element before its comma and of the elements behind it is a reading of the list;
  \<open>sep\<close> is what the loop tests behind the comma.
\<close>

lemma comma_reads:
  assumes "reading rec s x inner_end" "stands p (s @ comma_tok # rest)"
  obtains q where "rec p = Some (x, q)" "check q (Op TOK_COMMA)" "stands (advance_p q) rest" "unreported p (advance_p q)"
proof -
  obtain q where q: "rec p = Some (x, q)" "stands q (comma_tok # rest)" "unreported p q"
    by (rule readingD [OF assms]) auto
  then show ?thesis using that stands_head [OF q(2)] unreported_trans [OF q(3) unreported_advance] by simp
qed

lemma last_reads:
  assumes "reading rec s x inner_end" "stands p (s @ rest)" "list_end rest"
  obtains q where "rec p = Some (x, q)" "\<not> check q (Op TOK_COMMA)" "stands q rest" "unreported p q"
proof -
  obtain q where q: "rec p = Some (x, q)" "stands q rest" "unreported p q"
    using readingD [OF assms(1,2)] assms(3) by blast
  obtain k t r where "rest = (k, t) # r" "k \<noteq> Op TOK_COMMA" using list_end_head [OF assms(3)] by blast
  then show ?thesis using that q stands_check [of q k t r "Op TOK_COMMA"] by simp
qed

lemma type_list_reads:
  assumes "\<forall>w\<in>set ws. reading rec (sp w) (m w) inner_end" "ws \<noteq> []" "length ws \<le> n"
  shows "reading (type_list n rec) (separated comma (map sp ws)) (map m ws) list_end"
  using assms
proof (induction ws arbitrary: n)
  case (Cons w ws)
  obtain k where n: "n = Suc k" using Cons.prems(3) by (cases n) auto
  have w: "reading rec (sp w) (m w) inner_end" using Cons.prems(1) by simp
  show ?case
    unfolding reading_def
  proof (intro allI impI)
    fix p rest
    assume a: "stands p (separated comma (map sp (w # ws)) @ rest)" "list_end rest"
    show "\<exists>q. type_list n rec p = Some (map m (w # ws), q) \<and> stands q rest \<and> unreported p q"
    proof (cases ws)
      case Nil
      then have "stands p (sp w @ rest)" using a(1) by (simp add: separated_def)
      then show ?thesis by (rule last_reads [OF w _ a(2)]) (auto simp: n Nil)
    next
      case (Cons w' ws')
      then have "stands p (sp w @ comma_tok # separated comma (map sp ws) @ rest)" using a(1) by (simp add: separated_more)
      then obtain q where q: "rec p = Some (m w, q)" "check q (Op TOK_COMMA)"
        "stands (advance_p q) (separated comma (map sp ws) @ rest)" "unreported p (advance_p q)" by (rule comma_reads [OF w])
      have "reading (type_list k rec) (separated comma (map sp ws)) (map m ws) list_end"
        using Cons.IH [of k] Cons.prems n Cons by simp
      then obtain r where "type_list k rec (advance_p q) = Some (map m ws, r)" "stands r rest" "unreported (advance_p q) r"
        using q(3) a(2) unfolding reading_def by blast
      then show ?thesis using q(1,2) unreported_trans [OF q(4)] by (auto simp: n)
    qed
  qed
qed simp

text \<open>The first token of an element, which is neither a closing brace nor an ellipsis.\<close>

definition starts_ok :: "spelling \<Rightarrow> bool" where
  "starts_ok s \<longleftrightarrow> s \<noteq> [] \<and> fst (hd s) \<notin> {Dl TOK_RBRACE, Op TOK_ELLIPSIS, Op TOK_GT, Dl TOK_RPAREN, TOK_EOF_K}"

lemma starts_check: "starts_ok s \<Longrightarrow> stands p (s @ r) \<Longrightarrow> k \<in> {Dl TOK_RBRACE, Op TOK_ELLIPSIS, Dl TOK_RPAREN} \<Longrightarrow> \<not> check p k"
  using stands_check [of p "fst (hd s)" "snd (hd s)" "tl s @ r" k] by (cases s) (auto simp: starts_ok_def)

lemma starts_separated: "starts_ok s \<Longrightarrow> starts_ok (separated comma (s # ss))"
  by (cases s) (auto simp: starts_ok_def separated_def)

lemma tuple_elems_read:
  assumes "\<forall>w\<in>set ws. reading rec (sp w) (m w) inner_end \<and> starts_ok (sp w)" "ws \<noteq> []" "length ws \<le> n"
  shows "reading (tuple_elems n rec) (separated comma (map sp ws)) (map m ws) list_end"
  using assms
proof (induction ws arbitrary: n)
  case (Cons w ws)
  obtain k where n: "n = Suc k" using Cons.prems(3) by (cases n) auto
  have w: "reading rec (sp w) (m w) inner_end" using Cons.prems(1) by simp
  show ?case
    unfolding reading_def
  proof (intro allI impI)
    fix p rest
    assume a: "stands p (separated comma (map sp (w # ws)) @ rest)" "list_end rest"
    show "\<exists>q. tuple_elems n rec p = Some (map m (w # ws), q) \<and> stands q rest \<and> unreported p q"
    proof (cases ws)
      case Nil
      then have "stands p (sp w @ rest)" using a(1) by (simp add: separated_def)
      then show ?thesis by (rule last_reads [OF w _ a(2)]) (auto simp: n Nil)
    next
      case (Cons w' ws')
      then have "stands p (sp w @ comma_tok # separated comma (map sp ws) @ rest)" using a(1) by (simp add: separated_more)
      then obtain q where q: "rec p = Some (m w, q)" "check q (Op TOK_COMMA)"
        "stands (advance_p q) (separated comma (map sp ws) @ rest)" "unreported p (advance_p q)" by (rule comma_reads [OF w])
      have "starts_ok (separated comma (map sp ws))" using Cons.prems(1) Cons by (simp add: starts_separated)
      then have "\<not> check (advance_p q) (Dl TOK_RBRACE)" by (rule starts_check [OF _ q(3)]) simp
      moreover have "reading (tuple_elems k rec) (separated comma (map sp ws)) (map m ws) list_end"
        using Cons.IH [of k] Cons.prems n Cons by simp
      then obtain r where "tuple_elems k rec (advance_p q) = Some (map m ws, r)" "stands r rest" "unreported (advance_p q) r"
        using q(3) a(2) unfolding reading_def by blast
      ultimately show ?thesis using q(1,2) unreported_trans [OF q(4)] by (auto simp: n)
    qed
  qed
qed simp

abbreviation "dots_if v \<equiv> (if v then [[(Op TOK_ELLIPSIS, ''...'')]] else []) :: spelling list"

lemma param_list_reads:
  assumes "\<forall>w\<in>set ws. reading rec (sp w) (m w) inner_end \<and> starts_ok (sp w)" "ws \<noteq> []" "length ws \<le> n"
  shows "reading (param_list n rec) (separated comma (map sp ws @ dots_if v)) (map m ws, v) list_end"
  using assms
proof (induction ws arbitrary: n)
  case (Cons w ws)
  obtain k where n: "n = Suc k" using Cons.prems(3) by (cases n) auto
  have w: "reading rec (sp w) (m w) inner_end" using Cons.prems(1) by simp
  show ?case
    unfolding reading_def
  proof (intro allI impI)
    fix p rest
    assume a: "stands p (separated comma (map sp (w # ws) @ dots_if v) @ rest)" "list_end rest"
    consider (one) "ws = []" "\<not> v" | (dots) "ws = []" "v" | (more) "ws \<noteq> []" by blast
    then show "\<exists>q. param_list n rec p = Some ((map m (w # ws), v), q) \<and> stands q rest \<and> unreported p q"
    proof cases
      case one
      then have "stands p (sp w @ rest)" using a(1) by (simp add: separated_def)
      then show ?thesis by (rule last_reads [OF w _ a(2)]) (auto simp: n one)
    next
      case dots
      then have "stands p (sp w @ comma_tok # (Op TOK_ELLIPSIS, ''...'') # rest)"
        using a(1) by (simp add: separated_def comma_def)
      then obtain q where q: "rec p = Some (m w, q)" "check q (Op TOK_COMMA)"
        "stands (advance_p q) ((Op TOK_ELLIPSIS, ''...'') # rest)" "unreported p (advance_p q)" by (rule comma_reads [OF w])
      then show ?thesis
        using stands_head [OF q(3)] unreported_trans [OF q(4) unreported_advance] by (auto simp: n dots)
    next
      case more
      then obtain w' ws' where ws: "ws = w' # ws'" by (cases ws) auto
      let ?s = "separated comma (map sp ws @ dots_if v)"
      have "stands p (sp w @ comma_tok # ?s @ rest)" using a(1) by (simp add: separated_more ws)
      then obtain q where q: "rec p = Some (m w, q)" "check q (Op TOK_COMMA)"
        "stands (advance_p q) (?s @ rest)" "unreported p (advance_p q)" by (rule comma_reads [OF w])
      have "starts_ok ?s" using Cons.prems(1) ws by (simp add: starts_separated)
      then have "\<not> check (advance_p q) (Op TOK_ELLIPSIS)" by (rule starts_check [OF _ q(3)]) simp
      moreover have "reading (param_list k rec) ?s (map m ws, v) list_end"
        using Cons.IH [of k] Cons.prems n ws by simp
      then obtain r where "param_list k rec (advance_p q) = Some ((map m ws, v), r)" "stands r rest" "unreported (advance_p q) r"
        using q(3) a(2) unfolding reading_def by blast
      ultimately show ?thesis using q(1,2) unreported_trans [OF q(4)] by (auto simp: n)
    qed
  qed
qed simp

subsection \<open>Forms\<close>

lemma suffixes_length: "length ss \<le> length (suffixes ss)"
proof (induction ss)
  case (Cons x ss)
  then show ?case by (cases x) auto
qed simp

lemma suffix_after:
  assumes "stands q (suffixes ss @ rest)" "unreported p q" "ends_type rest" "length (suffixes ss) < n" "kind t \<noteq> TYPE_FIXED_ARRAY"
  shows "\<exists>r. parse_type_suffix env n t q = Some (fold suffixed ss t, r) \<and> stands r rest \<and> unreported p r"
proof -
  have "length ss < n" using suffixes_length [of ss] assms(4) by simp
  then obtain r where r: "parse_type_suffix env n t q = Some (fold suffixed ss t, r)" "stands r rest" "unreported q r"
    using suffix_reads [OF assms(1,3) _ assms(5)] by blast
  then show ?thesis using unreported_trans [OF assms(2) r(3)] by blast
qed

lemma spelling_starts: "starts_ok (type_spelling w)"
  by (cases w) (simp_all add: starts_ok_def name_spelling_def name_token_def in_braces_def in_parens_def int_token_def)

lemma separated_elem_length: "w \<in> set ws \<Longrightarrow> length (f w) \<le> length (separated comma (map f ws @ zs))"
proof (induction ws)
  case (Cons x ws)
  then show ?case by (cases ws; cases zs) (fastforce simp: separated_def comma_def)+
qed simp

lemma separated_count: "length ws \<le> length (separated comma (map type_spelling ws @ zs))"
proof (induction ws)
  case (Cons x ws)
  have "type_spelling x \<noteq> []" using spelling_starts [of x] by (simp add: starts_ok_def)
  then have "Suc 0 \<le> length (type_spelling x)" by (simp add: Suc_le_eq)
  then show ?case using Cons by (cases ws; cases zs) (simp_all add: separated_def comma_def)
qed simp

lemma name_reads_path:
  assumes "stands p (name_spelling n ms @ rest)" "no_member rest"
  shows "\<exists>q. type_path (advance_p p) n = (dotted n ms, q) \<and> stands q rest \<and> unreported p q"
proof -
  have "stands p ((Idt TOK_IDENT, n) # concat (map (\<lambda>m. [(Op TOK_DOT, ''.''), name_token m]) ms) @ rest)"
    using assms(1) by (simp add: name_spelling_def name_token_def)
  note h = stands_head [OF this]
  obtain q where "type_path (advance_p p) n = (dotted n ms, q)" "stands q rest" "unreported (advance_p p) q"
    using type_path_reads [OF h(5) assms(2)] by auto
  then show ?thesis using unreported_trans [OF unreported_advance] by blast
qed

lemma stub_reads:
  assumes "stands p (name_spelling n ms @ suffixes ss @ rest)" "ends_type rest" "length (suffixes ss) < k"
  shows "\<exists>q. stub_type env k args p = Some (fold suffixed ss (type_stub (dotted n ms) []), q) \<and> stands q rest \<and> unreported p q"
proof -
  obtain k' s r where r: "suffixes ss @ rest = (k', s) # r" "k' \<notin> {Op TOK_LT, Op TOK_DOT, Op TOK_ARROW, Dl TOK_LBRACE}"
    by (rule suffixes_end [OF assms(2)])
  then obtain q where q: "type_path (advance_p p) n = (dotted n ms, q)" "stands q (suffixes ss @ rest)" "unreported p q"
    using name_reads_path [OF assms(1)] by (auto simp: no_member_def)
  have "\<not> check q (Op TOK_LT)" using stands_check [of q k' s r] q(2) r by auto
  moreover have "tok_intern p (current p) = n"
    using stands_head(3) [of p "Idt TOK_IDENT" n] assms(1) by (simp add: name_spelling_def name_token_def tok_intern_def)
  ultimately show ?thesis using q(1) suffix_after [OF q(2,3) assms(2,3)] by (simp add: stub_type_def)
qed

lemma instance_reads:
  assumes "stands p (name_spelling n ms @ (Op TOK_LT, ''<'') # s @ gt # suffixes ss @ rest)" "ends_type rest"
    and "length (suffixes ss) < k" "reading args s ts list_end"
  shows "\<exists>q. stub_type env k args p = Some (fold suffixed ss (type_stub (dotted n ms) ts), q) \<and> stands q rest \<and> unreported p q"
proof -
  obtain q where q: "type_path (advance_p p) n = (dotted n ms, q)"
    "stands q ((Op TOK_LT, ''<'') # s @ gt # suffixes ss @ rest)" "unreported p q"
    using name_reads_path [OF assms(1)] by (auto simp: no_member_def)
  note h = stands_head [OF q(2)]
  have "list_end (gt # suffixes ss @ rest)" by (simp add: inner_end_def)
  then obtain q2 where q2: "args (advance_p q) = Some (ts, q2)" "stands q2 (gt # suffixes ss @ rest)" "unreported (advance_p q) q2"
    using assms(4) h(5) unfolding reading_def by fastforce
  note c = stands_closer [OF q2(2)]
  have unreported: "unreported p (snd (consume_typearg_gt q2))"
    using q(3) unreported_trans [OF unreported_trans [OF unreported_trans [OF _ unreported_advance] q2(3)] c(3)] by blast
  have "tok_intern p (current p) = n"
    using stands_head(3) [of p "Idt TOK_IDENT" n] assms(1) by (simp add: name_spelling_def name_token_def tok_intern_def)
  then show ?thesis
    using q(1) h(1) q2(1) c(1) suffix_after [OF c(2) unreported assms(2,3)] by (simp add: stub_type_def)
qed

lemma tuple_type_reads:
  assumes "stands p (in_braces (separated comma (map sp ws)) @ suffixes ss @ rest)" "ends_type rest" "length (suffixes ss) < k"
    and "\<forall>w\<in>set ws. reading rec (sp w) (m w) inner_end \<and> starts_ok (sp w)" "2 \<le> length ws" "length ws \<le> k"
  shows "\<exists>q. tuple_type env k rec p = Some (fold suffixed ss (type_tuple (map m ws)), q) \<and> stands q rest \<and> unreported p q"
proof -
  let ?s = "separated comma (map sp ws)" and ?r = "(Dl TOK_RBRACE, ''}'') # suffixes ss @ rest"
  have ws: "ws \<noteq> []" using assms(5) by auto
  have "stands p ((Dl TOK_LBRACE, ''{'') # ?s @ ?r)" using assms(1) by (simp add: in_braces_def)
  note h = stands_head [OF this]
  have p1: "stands (advance_p p) (?s @ ?r)" using h(5) by simp
  have "starts_ok ?s" using assms(4) ws by (cases ws) (simp_all add: starts_separated)
  then have open_brace: "\<not> check (advance_p p) (Dl TOK_RBRACE)" by (rule starts_check [OF _ p1]) simp
  have "list_end ?r" by (simp add: inner_end_def)
  then obtain q where q: "tuple_elems k rec (advance_p p) = Some (map m ws, q)" "stands q ?r" "unreported (advance_p p) q"
    using tuple_elems_read [OF assms(4) ws assms(6)] p1 unfolding reading_def by blast
  note h1 = stands_head [OF q(2)]
  have close: "expect (Dl TOK_RBRACE) q = advance_p q" using h1(1) by (simp add: expect_def)
  have "unreported p (advance_p q)" by (rule unreported_trans [OF unreported_trans [OF unreported_advance q(3)] unreported_advance])
  then show ?thesis
    using open_brace q(1) close h1(5) assms(5) suffix_after [OF _ _ assms(2,3)] by (simp add: tuple_type_def Let_def)
qed

lemma group_reads:
  assumes "stands p (in_parens s @ suffixes ss @ rest)" "ends_type rest" "length (suffixes ss) < k" "0 < k"
    and "reading rec s t inner_end" "starts_ok s" "kind t \<noteq> TYPE_FIXED_ARRAY"
  shows "\<exists>q. func_type env k rec p = Some (fold suffixed ss t, q) \<and> stands q rest \<and> unreported p q"
proof -
  let ?r = "(Dl TOK_RPAREN, '')'') # suffixes ss @ rest"
  have "stands p ((Dl TOK_LPAREN, ''('') # s @ ?r)" using assms(1) by (simp add: in_parens_def)
  note h = stands_head [OF this]
  have p1: "stands (advance_p p) (s @ ?r)" using h(5) by simp
  have first: "\<not> check (advance_p p) (Dl TOK_RPAREN)" "\<not> check (advance_p p) (Op TOK_ELLIPSIS)"
    using starts_check [OF assms(6) p1] by auto
  have "list_end ?r" by (simp add: inner_end_def)
  moreover have "reading (param_list k rec) s ([t], False) list_end"
    using param_list_reads [of "[()]" rec "\<lambda>_. s" "\<lambda>_. t" k False] assms(4-6) by (simp add: separated_def)
  ultimately obtain q where q: "param_list k rec (advance_p p) = Some (([t], False), q)" "stands q ?r" "unreported (advance_p p) q"
    using p1 unfolding reading_def by blast
  note h1 = stands_head [OF q(2)]
  have close: "expect (Dl TOK_RPAREN) q = advance_p q" using h1(1) by (simp add: expect_def)
  have unreported: "unreported p (advance_p q)" by (rule unreported_trans [OF unreported_trans [OF unreported_advance q(3)] unreported_advance])
  obtain k' x r where "suffixes ss @ rest = (k', x) # r" "k' \<noteq> Op TOK_ARROW"
    by (rule suffixes_end [OF assms(2), of ss]) auto
  then have "\<not> check (advance_p q) (Op TOK_ARROW)" using stands_check [of "advance_p q" k' x r] h1(5) by simp
  then show ?thesis
    using first q(1) close suffix_after [OF _ unreported assms(2,3,7)] h1(5) by (simp add: func_type_def Let_def)
qed

lemma func_reads:
  assumes "stands p (in_parens (separated comma (map sp ws @ dots_if v)) @ (Op TOK_ARROW, ''->'') # s @ rest)" "ends_type rest"
    and "0 < k" "\<forall>w\<in>set ws. reading rec (sp w) (m w) inner_end \<and> starts_ok (sp w)" "length ws \<le> k"
    and "reading rec s t ends_type"
  shows "\<exists>q. func_type env k rec p = Some (TFunc plain (map m ws) t v [], q) \<and> stands q rest \<and> unreported p q"
proof -
  let ?s = "separated comma (map sp ws @ dots_if v)" and ?r = "(Dl TOK_RPAREN, '')'') # (Op TOK_ARROW, ''->'') # s @ rest"
  let ?params = "if check (advance_p p) (Dl TOK_RPAREN) then Some (([], False), advance_p p)
      else if check (advance_p p) (Op TOK_ELLIPSIS) then Some (([], True), advance_p (advance_p p))
      else param_list k rec (advance_p p)"
  have "stands p ((Dl TOK_LPAREN, ''('') # ?s @ ?r)" using assms(1) by (simp add: in_parens_def)
  note h = stands_head [OF this]
  have p1: "stands (advance_p p) (?s @ ?r)" using h(5) by simp
  have list_end: "list_end ?r" by (simp add: inner_end_def)
  have "\<exists>q. ?params = Some ((map m ws, v), q) \<and> stands q ?r \<and> unreported p q"
  proof (cases ws)
    case Nil
    then show ?thesis
      using p1 stands_head [of "advance_p p"] unreported_trans [OF unreported_advance unreported_advance]
      by (cases v) (auto simp: separated_def)
  next
    case (Cons w ws')
    have "starts_ok ?s" using assms(4) Cons by (simp add: starts_separated)
    then have "\<not> check (advance_p p) (Dl TOK_RPAREN)" "\<not> check (advance_p p) (Op TOK_ELLIPSIS)"
      using starts_check [OF _ p1] by auto
    moreover have "ws \<noteq> []" using Cons by simp
    then obtain q where "param_list k rec (advance_p p) = Some ((map m ws, v), q)" "stands q ?r" "unreported (advance_p p) q"
      using param_list_reads [OF assms(4) _ assms(5), of v] p1 list_end unfolding reading_def by blast
    ultimately show ?thesis using unreported_trans [OF unreported_advance] by auto
  qed
  then obtain q where q: "?params = Some ((map m ws, v), q)" "stands q ?r" "unreported p q" by blast
  note h1 = stands_head [OF q(2)]
  have close: "expect (Dl TOK_RPAREN) q = advance_p q" using h1(1) by (simp add: expect_def)
  have q1: "stands (advance_p q) ((Op TOK_ARROW, ''->'') # s @ rest)" using h1(5) by simp
  note h2 = stands_head [OF q1]
  obtain q3 where q3: "rec (advance_p (advance_p q)) = Some (t, q3)" "stands q3 rest" "unreported (advance_p (advance_p q)) q3"
    using assms(6,2) h2(5) unfolding reading_def by auto
  have unreported: "unreported p q3" by (rule unreported_trans [OF unreported_trans [OF unreported_trans [OF q(3) unreported_advance] unreported_advance] q3(3)])
  have "\<exists>r. parse_type_suffix env k (TFunc plain (map m ws) t v []) q3 = Some (TFunc plain (map m ws) t v [], r) \<and> stands r rest \<and> unreported p r"
    using suffix_after [of q3 "[]" rest p k "TFunc plain (map m ws) t v []" env] q3(2) unreported assms(2,3) by simp
  then show ?thesis using q(1) close h2(1) q3(1) by (simp add: func_type_def Let_def)
qed

subsection \<open>Type arguments\<close>

text \<open>Kinds that neither continue a const expression nor a name.\<close>

definition tame :: "token_kind \<Rightarrow> bool" where
  "tame k \<longleftrightarrow> k \<notin> {Op TOK_PLUS, Op TOK_SLASH, Op TOK_PERCENT, Op TOK_MINUS, Op TOK_DOT} \<and> \<not> starts_const_atom k"

definition tame_start :: "spelling \<Rightarrow> bool" where
  "tame_start r \<longleftrightarrow> r \<noteq> [] \<and> tame (fst (hd r)) \<and> (fst (hd r) = Op TOK_STAR \<longrightarrow> tl r \<noteq> [] \<and> tame (fst (hd (tl r))))"

lemma tame_suffixes: "inner_end rest \<Longrightarrow> tame_start (suffixes ss @ rest)"
proof -
  assume rest: "inner_end rest"
  have one: "suffixes ss @ rest \<noteq> [] \<and> tame (fst (hd (suffixes ss @ rest)))" for ss
  proof (cases ss)
    case Nil
    then show ?thesis using rest by (cases rest) (auto simp: inner_end_def tame_def starts_const_atom_def)
  next
    case (Cons x ss')
    then show ?thesis by (cases x) (auto simp: tame_def starts_const_atom_def)
  qed
  show ?thesis
  proof (cases ss)
    case Nil
    then show ?thesis using one [of ss] rest by (auto simp: tame_start_def inner_end_def)
  next
    case (Cons x ss')
    then show ?thesis using one [of ss'] by (cases x) (auto simp: tame_start_def tame_def starts_const_atom_def)
  qed
qed

lemma peek_kind:
  assumes "stands p (a @ r)" "\<forall>x\<in>set a. fst x \<noteq> Op TOK_GT" "a \<noteq> []" "r \<noteq> []"
  shows "t_kind (peek_p p (length a)) = fst (hd r) \<or> fst (hd r) = Op TOK_GT \<and> t_kind (peek_p p (length a)) = Op TOK_GTGT"
  using stands_peek [OF _ assms(2,3), of p "fst (hd r)" "snd (hd r)" "tl r"] assms(1,4) by (cases r) auto

lemma tame_peek:
  assumes "stands p (a @ r)" "\<forall>x\<in>set a. fst x \<noteq> Op TOK_GT" "a \<noteq> []" "tame_start r"
  shows "tame (t_kind (peek_p p (length a)))"
    and "t_kind (peek_p p (length a)) = Op TOK_STAR \<Longrightarrow> tame (t_kind (peek_p p (Suc (length a))))"
proof -
  have gtgt: "tame (Op TOK_GTGT)" by (simp add: tame_def starts_const_atom_def)
  have r: "r = hd r # tl r" using assms(4) by (simp add: tame_start_def)
  show "tame (t_kind (peek_p p (length a)))"
    using peek_kind [OF assms(1-3)] assms(4) gtgt by (auto simp: tame_start_def)
  assume "t_kind (peek_p p (length a)) = Op TOK_STAR"
  then have star: "fst (hd r) = Op TOK_STAR" using peek_kind [OF assms(1-3)] assms(4) by (auto simp: tame_start_def)
  then have tl: "tl r \<noteq> []" "tame (fst (hd (tl r)))" using assms(4) by (auto simp: tame_start_def)
  have "stands p ((a @ [hd r]) @ tl r)" using assms(1) r by simp
  then show "tame (t_kind (peek_p p (Suc (length a))))"
    using peek_kind [of p "a @ [hd r]" "tl r"] assms(2) star tl gtgt by auto
qed

lemma scan_dotted_reads:
  assumes "stands p (a @ name_token x # concat (map (\<lambda>m. [(Op TOK_DOT, ''.''), name_token m]) ms) @ rest)"
    and "\<forall>x\<in>set a. fst x \<noteq> Op TOK_GT" "no_member rest"
  shows "scan_dotted_ident p (length a) = length a + 1 + 2 * length ms"
  using assms
proof (induction ms arbitrary: a x)
  case Nil
  have "t_kind (peek_p p (length a + 1)) \<noteq> Op TOK_DOT"
    using peek_kind [of p "a @ [name_token x]" rest] Nil.prems by (auto simp: name_token_def no_member_def)
  then show ?case by (subst scan_dotted_ident.simps) simp
next
  case (Cons m ms)
  let ?dot = "(Op TOK_DOT, ''.'') :: token_kind \<times> string"
    and ?more = "concat (map (\<lambda>m. [(Op TOK_DOT, ''.''), name_token m]) ms) @ rest"
  have at: "stands p (a @ name_token x # ?dot # name_token m # ?more)" using Cons.prems(1) by simp
  have "t_kind (peek_p p (length a + 1)) = Op TOK_DOT"
    using peek_kind [of p "a @ [name_token x]" "?dot # name_token m # ?more"] at Cons.prems(2) by (simp add: name_token_def)
  moreover have "t_kind (peek_p p (length a + 2)) = Idt TOK_IDENT"
    using peek_kind [of p "a @ [name_token x, ?dot]" "name_token m # ?more"] at Cons.prems(2) by (simp add: name_token_def)
  moreover have "ps_pos p + length a < token_count p"
  proof -
    have "ahead p = a @ glue (name_token x # ?dot # name_token m # ?more)" if "a \<noteq> []"
      using at glue_prefix [OF Cons.prems(2)] that Cons.prems(2) by (cases a) (auto simp: stands_def split: if_splits)
    moreover have "ahead p \<noteq> []" if "a = []" using in_bounds that at by (fastforce simp: ahead_def token_count_def)
    moreover have "glue (name_token x # r) \<noteq> []" for r using glue_head [of "Idt TOK_IDENT" x r] by (simp add: name_token_def)
    ultimately have "length a < length (ahead p)" by (cases "a = []") auto
    then show ?thesis by (simp add: ahead_def token_count_def)
  qed
  moreover have "scan_dotted_ident p (length (a @ [name_token x, ?dot])) = length (a @ [name_token x, ?dot]) + 1 + 2 * length ms"
    using Cons.IH [of "a @ [name_token x, ?dot]" m] at Cons.prems(2,3) by (simp add: name_token_def)
  ultimately show ?case by (subst scan_dotted_ident.simps) simp
qed

lemma name_length: "length (name_spelling n ms) = 1 + 2 * length ms"
  by (induction ms) (simp_all add: name_spelling_def)

lemma name_plain: "\<forall>x\<in>set (name_spelling n ms). fst x \<noteq> Op TOK_GT"
  by (auto simp: name_spelling_def name_token_def)

lemma not_const_expr:
  assumes "check p (Idt TOK_IDENT) \<Longrightarrow> type_from_name (text_of_token p (current p)) = None \<or> t_kind (peek_p p 1) \<noteq> Op TOK_DOT"
    and "off = (if check p (Idt TOK_TYPE_VAR) then 1 else scan_dotted_ident p 0)"
    and "tame (t_kind (peek_p p off)) \<and> (t_kind (peek_p p off) = Op TOK_STAR \<longrightarrow> tame (t_kind (peek_p p (off + 1))))
      \<or> t_kind (peek_p p off) = Op TOK_LT"
  shows "\<not> ident_arg_is_const_expr p"
proof -
  define k where "k = t_kind (peek_p p off)"
  have "k \<notin> {Op TOK_PLUS, Op TOK_SLASH, Op TOK_PERCENT, Op TOK_MINUS}"
    "k = Op TOK_STAR \<Longrightarrow> \<not> starts_const_atom (t_kind (peek_p p (off + 1)))"
    using assms(3) by (auto simp: k_def tame_def)
  then show ?thesis
    using assms(1) unfolding ident_arg_is_const_expr_def Let_def assms(2) [symmetric] k_def by auto
qed

lemma name_arg:
  assumes "stands p (name_spelling n ms @ r)" "tame_start r \<or> fst (hd r) = Op TOK_LT \<and> r \<noteq> []" "ms = [] \<or> type_from_name n = None"
  shows "\<not> is_const_arg p"
proof -
  have at: "stands p ((Idt TOK_IDENT, n) # concat (map (\<lambda>m. [(Op TOK_DOT, ''.''), name_token m]) ms) @ r)"
    using assms(1) by (simp add: name_spelling_def name_token_def)
  note h = stands_head [OF at]
  have nm: "no_member r" using assms(2) by (auto simp: no_member_def tame_start_def tame_def)
  let ?off = "length (name_spelling n ms)"
  have off: "scan_dotted_ident p 0 = ?off"
    using scan_dotted_reads [of p "[]" n ms r] at nm by (simp add: name_length name_token_def)
  have ne: "name_spelling n ms \<noteq> []" by (simp add: name_spelling_def)
  have rne: "r \<noteq> []" using assms(2) by (auto simp: tame_start_def)
  have "t_kind (peek_p p 1) \<noteq> Op TOK_DOT" if "ms = []"
    using peek_kind [OF assms(1) name_plain ne rne] nm that by (auto simp: name_length no_member_def)
  moreover have "tame (t_kind (peek_p p ?off)) \<and> (t_kind (peek_p p ?off) = Op TOK_STAR \<longrightarrow> tame (t_kind (peek_p p (Suc ?off))))
      \<or> t_kind (peek_p p ?off) = Op TOK_LT"
  proof (cases "tame_start r")
    case True
    then show ?thesis using tame_peek [OF assms(1) name_plain ne True] by blast
  next
    case False
    then have "fst (hd r) = Op TOK_LT" using assms(2) by blast
    then show ?thesis using peek_kind [OF assms(1) name_plain ne rne] by simp
  qed
  moreover have "?off = (if check p (Idt TOK_TYPE_VAR) then 1 else scan_dotted_ident p 0)" using h(1) off by simp
  moreover have "type_from_name (text_of_token p (current p)) = type_from_name n" using h(3) by simp
  ultimately have "\<not> ident_arg_is_const_expr p"
    using not_const_expr [of p ?off] assms(3) unfolding Suc_eq_plus1 by metis
  then show ?thesis using h(2) by (simp add: is_const_arg_def)
qed

lemma var_arg:
  assumes "stands p ((Idt TOK_TYPE_VAR, v) # r)" "tame_start r"
  shows "\<not> is_const_arg p"
proof -
  note h = stands_head [OF assms(1)]
  have k: "check p (Idt TOK_TYPE_VAR)" "\<not> check p (Idt TOK_IDENT)" using h(1) by simp_all
  have at: "stands p ([(Idt TOK_TYPE_VAR, v)] @ r)" using assms(1) by simp
  note t = tame_peek [OF at _ _ assms(2)]
  have "tame (t_kind (peek_p p 1))" "t_kind (peek_p p 1) = Op TOK_STAR \<Longrightarrow> tame (t_kind (peek_p p (1 + 1)))"
    using t by simp_all
  then have "\<not> ident_arg_is_const_expr p" using k by (intro not_const_expr [of p 1]) auto
  then show ?thesis using h(2) by (simp add: is_const_arg_def)
qed

text \<open>The closer of a parenthesis: the depth of the kinds in between returns.\<close>

fun nest :: "nat \<Rightarrow> token_kind list \<Rightarrow> nat option" where
  "nest d [] = Some d"
| "nest d (k # ks) =
     (if k = TOK_EOF_K then None
      else if k = Dl TOK_LPAREN then nest (d + 1) ks
      else if k = Dl TOK_RPAREN then (if d = 0 then None else nest (d - 1) ks)
      else nest d ks)"

lemma nest_append: "nest d (a @ b) = nest d a \<bind> (\<lambda>e. nest e b)"
  by (induction d a rule: nest.induct) auto

lemma nest_glue: "nest d (map fst (glue s)) = nest d (map fst s)"
  by (induction s arbitrary: d rule: glue.induct) auto

lemma close_nest: "nest d ks = Some e \<Longrightarrow> close_offset (Suc d) (ks @ r) = length ks + close_offset (Suc e) r"
  by (induction d ks rule: nest.induct) (auto split: if_splits)

lemma nest_separated: "(\<And>d x. x \<in> set xs \<Longrightarrow> nest d (map fst x) = Some d) \<Longrightarrow> nest d (map fst (separated comma xs)) = Some d"
proof (induction xs)
  case (Cons x xs)
  then show ?case by (cases xs) (simp_all add: separated_more nest_append separated_def comma_def)
qed (simp add: separated_def)

lemma nest_suffixes: "nest d (map fst (suffixes ss)) = Some d"
proof (induction ss)
  case (Cons x ss)
  then show ?case by (cases x) simp_all
qed simp

lemma nest_name: "nest d (map fst (name_spelling n ms)) = Some d"
  by (induction ms) (simp_all add: name_spelling_def name_token_def)

lemma nest_spelling: "nest d (map fst (type_spelling w)) = Some d"
proof (induction w arbitrary: d)
  case (WInst n ms ws ss)
  have "nest d (map fst (separated comma (map type_spelling ws))) = Some d" for d
    using WInst by (intro nest_separated) auto
  then show ?case by (simp add: nest_append nest_name nest_suffixes)
next
  case (WTuple ws ss)
  have "nest d (map fst (separated comma (map type_spelling ws))) = Some d" for d
    using WTuple by (intro nest_separated) auto
  then show ?case by (simp add: nest_append nest_suffixes in_braces_def)
next
  case (WFunc ws v r)
  have "nest d (map fst (separated comma (map type_spelling ws @ dots_if v))) = Some d" for d
    using WFunc(1) by (intro nest_separated) auto
  then show ?case using WFunc(2) by (simp add: nest_append in_parens_def)
qed (simp_all add: nest_append nest_name nest_suffixes in_parens_def name_token_def int_token_def)

lemma glue_append: "fst x \<noteq> Op TOK_GT \<Longrightarrow> glue (a @ x # r) = glue a @ x # glue r"
proof (induction a rule: glue.induct)
  case (1 y z a)
  then show ?case by auto
qed (cases x; cases r; auto)+

lemma func_arg:
  assumes "stands p (in_parens s @ (Op TOK_ARROW, ''->'') # r)" "\<And>d. nest d (map fst s) = Some d"
  shows "\<not> is_const_arg p"
proof -
  let ?tail = "(Dl TOK_RPAREN, '')'') # (Op TOK_ARROW, ''->'') # glue r"
  have at: "stands p ((Dl TOK_LPAREN, ''('') # s @ (Dl TOK_RPAREN, '')'') # (Op TOK_ARROW, ''->'') # r)"
    using assms(1) by (simp add: in_parens_def)
  then have a: "ahead p = (Dl TOK_LPAREN, ''('') # glue s @ ?tail"
    by (auto simp: stands_def glue_cons glue_append split: if_splits)
  have kinds: "map t_kind (drop (ps_pos p) (ps_tokens p)) = map fst (ahead p)" by (simp add: ahead_def)
  have "close_offset (Suc 0) (map fst (glue s) @ map fst ?tail) = length (glue s)"
    using close_nest [of 0 "map fst (glue s)" 0] assms(2) by (simp add: nest_glue)
  then have "close_offset 0 (map t_kind (drop (ps_pos p) (ps_tokens p))) = Suc (length (glue s))"
    unfolding kinds a by simp
  moreover have "t_kind (peek_p p (Suc (length (glue s)) + 1)) = Op TOK_ARROW"
    using ahead_peek [OF a, of "Suc (length (glue s)) + 1"] by (simp add: nth_append)
  ultimately show ?thesis using stands_head(2) [OF at] by (simp add: is_const_arg_def)
qed

lemma int_arg:
  assumes "stands p (int_token v # rest)" "inner_end rest"
  shows "\<exists>q. parse_type_arg env (Suc k) rec p = Some (type_const_int v, q) \<and> stands q rest \<and> unreported p q"
proof -
  have at: "stands p ((Lit TOK_INT_LIT, dec_nat (unat v)) # rest)" using assms(1) by (simp add: int_token_def)
  note h = stands_head [OF at]
  let ?p = "p\<lparr>ps_in_const_expr := True\<rparr>"
  have cur: "current ?p = current p" "check ?p k' = check p k'" "text_of_token ?p t = text_of_token p t" for k' t
    by (simp_all add: current_def check_def text_of_token_def)
  have reset: "(advance_p ?p)\<lparr>ps_in_const_expr := ps_in_const_expr p\<rparr> = advance_p p"
    by (simp add: advance_p_def at_end_p_def current_def)
  obtain k' s r where r: "rest = (k', s) # r" "k' \<in> {Op TOK_COMMA, Op TOK_GT, Dl TOK_RPAREN, Dl TOK_RBRACE}"
    using assms(2) by (cases rest) (auto simp: inner_end_def)
  have next_kind: "t_kind (current (advance_p ?p)) = t_kind (current (advance_p p))"
    by (simp add: advance_p_def at_end_p_def current_def)
  have "const_prec (t_kind (current (advance_p p))) = None"
    using stands_kind [of "advance_p p" k' s r] h(5) r by (auto simp: const_prec_def)
  then have "parse_const_arith env (Suc k) 1 p = Some (CIntLit (tok_loc_p ?p (current p)) None v False, advance_p p)"
    using h(1,3) reset
    by (simp add: parse_const_arith_def cur Let_def next_kind parse_dec split_beta)
  moreover have "is_const_arg p" using h(2) by (simp add: is_const_arg_def)
  ultimately show ?thesis using h(5) by (simp add: parse_type_arg_def)
qed

lemma other_arg: "t_kind (current p) \<in> {Kw TOK_VOID, Kw TOK_ERROR_KW, Dl TOK_LBRACE, Bi TOK_CONST} \<Longrightarrow> \<not> is_const_arg p"
  by (auto simp: is_const_arg_def)

lemma form_arg:
  assumes "legal w" "type_form w" "arg_form w" "stands p (type_spelling w @ rest)" "inner_end rest"
  shows "\<not> is_const_arg p"
proof (cases w)
  case (WName n ms ss)
  then show ?thesis using assms name_arg [of p n ms "suffixes ss @ rest"] tame_suffixes by simp
next
  case (WInst n ms ws ss)
  then show ?thesis using assms name_arg [of p n ms "(Op TOK_LT, ''<'') # _"] by simp
next
  case (WVar v ss)
  then show ?thesis using assms var_arg tame_suffixes by simp
next
  case (WAny ss)
  have "tame_start ((Op TOK_STAR, ''*'') # suffixes ss @ rest)" using tame_suffixes [OF assms(5), of "SPtr # ss"] by simp
  then show ?thesis using WAny assms name_arg [of p "''any''" "[]" "(Op TOK_STAR, ''*'') # suffixes ss @ rest"]
    by (simp add: name_spelling_def)
next
  case (WFunc ws v r)
  have "nest d (map fst (separated comma (map type_spelling ws @ dots_if v))) = Some d" for d
    by (intro nest_separated) (auto simp: nest_spelling split: if_splits)
  then show ?thesis using WFunc assms func_arg [of p _ "type_spelling r @ rest"] by simp
next
  case (WErrorCode ss)
  then show ?thesis using assms(4) stands_head(2) [of p "Kw TOK_ERROR_KW"] by (intro other_arg) simp
next
  case WVoid
  then show ?thesis using assms(4) stands_head(2) [of p "Kw TOK_VOID"] by (intro other_arg) simp
next
  case (WVoidRes ss)
  then show ?thesis using assms(4) stands_head(2) [of p "Kw TOK_VOID"] by (intro other_arg) simp
next
  case (WTuple ws ss)
  then show ?thesis using assms(4) stands_head(2) [of p "Dl TOK_LBRACE"] by (intro other_arg) (simp add: in_braces_def)
next
  case (WConst v)
  then show ?thesis using assms(4) stands_head(2) [of p "Bi TOK_CONST"] by (intro other_arg) simp
qed (use assms(2,3) in \<open>simp_all add: type_form_def arg_form_def\<close>)

lemma arg_reads:
  assumes "legal w" "arg_form w" "type_form w \<Longrightarrow> reading rec (type_spelling w) (type_meaning w) ends_type"
  shows "reading (parse_type_arg env (Suc k) rec) (type_spelling w) (type_meaning w) inner_end"
proof (cases "type_form w")
  case True
  then show ?thesis
    using assms(3) form_arg [OF assms(1) True assms(2)] inner_ends unfolding reading_def by (simp add: parse_type_arg_def)
next
  case False
  then obtain v where "w = WInt v" by (cases w) (auto simp: type_form_def)
  then show ?thesis using int_arg by (simp add: reading_def)
qed

lemma reading_inner: "reading f s x ends_type \<Longrightarrow> reading f s x inner_end"
  using inner_ends unfolding reading_def by blast

lemma apply_const_of: "const_of t = Some u \<Longrightarrow> apply_const t loc p = (u, p)"
  by (cases t) (auto simp: const_of_def apply_const_def const_kind_def split: if_splits)

subsection \<open>The parser of types reads every form\<close>

lemma readingI:
  assumes "\<And>p rest. stands p (s @ rest) \<Longrightarrow> C rest \<Longrightarrow> \<exists>q. f p = Some (x, q) \<and> stands q rest \<and> unreported p q"
  shows "reading f s x C"
  using assms unfolding reading_def by blast

text \<open>A base of one or two tokens.\<close>

lemma base_reads:
  assumes "stands p ((k, s) # suffixes ss @ rest)" "k \<noteq> Op TOK_GT" "k \<noteq> TOK_EOF_K" "ends_type rest" "length (suffixes ss) < n"
    and "kind t \<noteq> TYPE_FIXED_ARRAY"
  shows "\<exists>q. parse_type_suffix env n t (advance_p p) = Some (fold suffixed ss t, q) \<and> stands q rest \<and> unreported p q"
  using suffix_after [OF stands_head(5) [OF assms(1-3)] unreported_advance assms(4-6)] .

lemma base2_reads:
  assumes "stands p ((k, s) # (k', s') # suffixes ss @ rest)" "k \<notin> {Op TOK_GT, TOK_EOF_K}" "k' \<notin> {Op TOK_GT, TOK_EOF_K}"
    and "ends_type rest" "length (suffixes ss) < n" "kind t \<noteq> TYPE_FIXED_ARRAY"
  shows "\<exists>q. parse_type_suffix env n t (advance_p (advance_p p)) = Some (fold suffixed ss t, q) \<and> stands q rest \<and> unreported p q"
proof -
  have "stands (advance_p p) ((k', s') # suffixes ss @ rest)" using stands_head(5) [OF assms(1)] assms(2) by simp
  then have "stands (advance_p (advance_p p)) (suffixes ss @ rest)" using stands_head(5) [of "advance_p p" k'] assms(3) by simp
  then show ?thesis using suffix_after [OF _ unreported_trans [OF unreported_advance unreported_advance] assms(4-6)] by blast
qed

lemma legal_parts: "list_all id (map legal ws) \<Longrightarrow> w \<in> set ws \<Longrightarrow> legal w"
  by (auto simp: list_all_iff)

lemma type_reads: "legal w \<Longrightarrow> type_form w \<Longrightarrow> length (type_spelling w) < n \<Longrightarrow>
    reading (parse_type env n) (type_spelling w) (type_meaning w) ends_type"
proof (induction w arbitrary: n)
  case (WName nm ms ss)
  then obtain m where n: "n = Suc m" by (cases n) auto
  show ?case
  proof (rule readingI)
    fix p rest
    assume at: "stands p (type_spelling (WName nm ms ss) @ rest)" and e: "ends_type rest"
    then have at': "stands p (name_spelling nm ms @ suffixes ss @ rest)" by simp
    have short: "length (suffixes ss) < n" using WName.prems(3) by simp
    have ident: "stands p ((Idt TOK_IDENT, nm) # concat (map (\<lambda>m. [(Op TOK_DOT, ''.''), name_token m]) ms) @ suffixes ss @ rest)"
      using at by (simp add: name_spelling_def name_token_def)
    note h = stands_head [OF ident]
    have "\<exists>q. named_type env n (type_list n (parse_type_arg env n (parse_type env m))) p =
        Some (type_meaning (WName nm ms ss), q) \<and> stands q rest \<and> unreported p q"
    proof (cases "type_from_name nm")
      case None
      then show ?thesis using stub_reads [OF at' e short] h(3) by (simp add: named_type_def)
    next
      case (Some t)
      then have ms: "ms = []" and t: "t \<noteq> type_any_ptr" using WName.prems(1) any_name by auto
      have "stands p ((Idt TOK_IDENT, nm) # suffixes ss @ rest)" using ident ms by simp
      from base_reads [OF this _ _ e short primitive_kind [OF Some]] show ?thesis
        using Some h(3) t by (simp add: named_type_def)
    qed
    then show "\<exists>q. parse_type env n p = Some (type_meaning (WName nm ms ss), q) \<and> stands q rest \<and> unreported p q"
      using h(1) by (simp add: n)
  qed
next
  case (WInst nm ms ws ss)
  then obtain m where n: "n = Suc m" by (cases n) auto
  let ?s = "separated comma (map type_spelling ws)"
  have len: "length ?s + 2 + length (suffixes ss) < n" using WInst.prems(3) by (simp add: name_length)
  have small: "length (type_spelling w) < m" if "w \<in> set ws" for w
    using separated_elem_length [OF that, of type_spelling "[]"] len n by simp
  have "\<forall>w\<in>set ws. reading (parse_type_arg env n (parse_type env m)) (type_spelling w) (type_meaning w) inner_end"
    using WInst.IH WInst.prems(1) legal_parts [of ws] small unfolding n by (auto intro!: arg_reads)
  moreover have "ws \<noteq> []" "length ws \<le> n" using WInst.prems(1) separated_count [of ws "[]"] len by auto
  ultimately have args: "reading (type_list n (parse_type_arg env n (parse_type env m))) ?s (map type_meaning ws) list_end"
    by (rule type_list_reads)
  show ?case
  proof (rule readingI)
    fix p rest
    assume at: "stands p (type_spelling (WInst nm ms ws ss) @ rest)" and e: "ends_type rest"
    then have at': "stands p (name_spelling nm ms @ (Op TOK_LT, ''<'') # ?s @ gt # suffixes ss @ rest)" by simp
    then have "stands p ((Idt TOK_IDENT, nm) # concat (map (\<lambda>m. [(Op TOK_DOT, ''.''), name_token m]) ms) @
        (Op TOK_LT, ''<'') # ?s @ gt # suffixes ss @ rest)" by (simp add: name_spelling_def name_token_def)
    note h = stands_head [OF this]
    have short: "length (suffixes ss) < n" using len by simp
    show "\<exists>q. parse_type env n p = Some (type_meaning (WInst nm ms ws ss), q) \<and> stands q rest \<and> unreported p q"
      using instance_reads [OF at' e short args] WInst.prems(1) h(1,3) by (simp add: n named_type_def)
  qed
next
  case (WVar v ss)
  then obtain m where n: "n = Suc m" by (cases n) auto
  show ?case
    by (rule readingI) (use WVar.prems(3) base_reads [of _ "Idt TOK_TYPE_VAR" v ss _ n] in
      \<open>simp add: n stands_head tok_intern_def del: parse_type_suffix.simps\<close>)
next
  case (WErrorCode ss)
  then obtain m where n: "n = Suc m" by (cases n) auto
  show ?case
    by (rule readingI) (use WErrorCode.prems(3) base_reads [of _ "Kw TOK_ERROR_KW" _ ss _ n] in
      \<open>simp add: n stands_head del: parse_type_suffix.simps\<close>)
next
  case WVoid
  then obtain m where n: "n = Suc m" by (cases n) auto
  show ?case
  proof (rule readingI)
    fix p rest
    assume at: "stands p (type_spelling WVoid @ rest)" and e: "ends_type rest"
    then have "stands p ((Kw TOK_VOID, ''void'') # rest)" by simp
    note h = stands_head [OF this]
    obtain k s r where "rest = (k, s) # r" "k \<noteq> Op TOK_BANG" using ends_token [OF e] by (auto simp: ends_type_def)
    then have "\<not> check (advance_p p) (Op TOK_BANG)" using stands_check [of "advance_p p" k s r] h(5) by simp
    then show "\<exists>q. parse_type env n p = Some (type_meaning WVoid, q) \<and> stands q rest \<and> unreported p q"
      using h(1,5) by (simp add: n)
  qed
next
  case (WVoidRes ss)
  then obtain m where n: "n = Suc m" by (cases n) auto
  show ?case
  proof (rule readingI)
    fix p rest
    assume at: "stands p (type_spelling (WVoidRes ss) @ rest)" and e: "ends_type rest"
    then have at': "stands p ((Kw TOK_VOID, ''void'') # (Op TOK_BANG, ''!'') # suffixes ss @ rest)" by simp
    note h = stands_head [OF at']
    have "check (advance_p p) (Op TOK_BANG)" using stands_head(1) [OF h(5)] by simp
    then show "\<exists>q. parse_type env n p = Some (type_meaning (WVoidRes ss), q) \<and> stands q rest \<and> unreported p q"
      using base2_reads [OF at' _ _ e, of n "type_result type_void" env] h(1) WVoidRes.prems(3)
      by (simp add: n del: parse_type_suffix.simps)
  qed
next
  case (WAny ss)
  then obtain m where n: "n = Suc m" by (cases n) auto
  show ?case
  proof (rule readingI)
    fix p rest
    assume at: "stands p (type_spelling (WAny ss) @ rest)" and e: "ends_type rest"
    then have at': "stands p ((Idt TOK_IDENT, ''any'') # (Op TOK_STAR, ''*'') # suffixes ss @ rest)" by (simp add: name_token_def)
    note h = stands_head [OF at']
    have "check (advance_p p) (Op TOK_STAR)" using stands_head(1) [OF h(5)] by simp
    moreover have "type_from_name ''any'' = Some type_any_ptr" by (simp add: any_name)
    ultimately show "\<exists>q. parse_type env n p = Some (type_meaning (WAny ss), q) \<and> stands q rest \<and> unreported p q"
      using base2_reads [OF at' _ _ e, of n type_any_ptr env] h(1,3) WAny.prems(3)
      by (simp add: n named_type_def del: parse_type_suffix.simps)
  qed
next
  case (WTuple ws ss)
  then obtain m where n: "n = Suc m" by (cases n) auto
  let ?s = "separated comma (map type_spelling ws)"
  have len: "length ?s + 2 + length (suffixes ss) < n" using WTuple.prems(3) by (simp add: in_braces_def)
  have small: "length (type_spelling w) < m" if "w \<in> set ws" for w
    using separated_elem_length [OF that, of type_spelling "[]"] len n by simp
  have elems: "\<forall>w\<in>set ws. reading (parse_type env m) (type_spelling w) (type_meaning w) inner_end \<and> starts_ok (type_spelling w)"
    using WTuple.IH WTuple.prems(1) legal_parts [of ws] small spelling_starts by (auto intro!: reading_inner)
  have count: "2 \<le> length ws" "length ws \<le> n" using WTuple.prems(1) separated_count [of ws "[]"] len by auto
  show ?case
  proof (rule readingI)
    fix p rest
    assume at: "stands p (type_spelling (WTuple ws ss) @ rest)" and e: "ends_type rest"
    then have at': "stands p (in_braces ?s @ suffixes ss @ rest)" by simp
    have "check p k' \<longleftrightarrow> k' = Dl TOK_LBRACE" for k'
      using stands_head(1) [of p "Dl TOK_LBRACE"] at by (auto simp: in_braces_def)
    moreover have "length (suffixes ss) < n" using len by simp
    ultimately show "\<exists>q. parse_type env n p = Some (type_meaning (WTuple ws ss), q) \<and> stands q rest \<and> unreported p q"
      using tuple_type_reads [OF at' e _ elems count, of env] by (simp add: n)
  qed
next
  case (WGroup w ss)
  then obtain m where n: "n = Suc m" by (cases n) auto
  have "reading (parse_type env m) (type_spelling w) (type_meaning w) inner_end"
    using WGroup by (intro reading_inner WGroup.IH) (auto simp: n in_parens_def)
  note read = group_reads [OF _ _ _ _ this spelling_starts meaning_kind]
  show ?case
  proof (rule readingI)
    fix p rest
    assume at: "stands p (type_spelling (WGroup w ss) @ rest)" and e: "ends_type rest"
    have "check p k' \<longleftrightarrow> k' = Dl TOK_LPAREN" for k'
      using stands_head(1) [of p "Dl TOK_LPAREN"] at by (auto simp: in_parens_def)
    moreover have "length (suffixes ss) < n" using WGroup.prems(3) by simp
    ultimately show "\<exists>q. parse_type env n p = Some (type_meaning (WGroup w ss), q) \<and> stands q rest \<and> unreported p q"
      using read [of p ss rest n env] at e WGroup.prems(1) by (simp add: n)
  qed
next
  case (WFunc ws v r)
  then obtain m where n: "n = Suc m" by (cases n) auto
  let ?s = "separated comma (map type_spelling ws @ dots_if v)"
  have len: "length ?s + 2 + length (type_spelling r) < n" using WFunc.prems(3) by (simp add: in_parens_def)
  have small: "length (type_spelling w) < m" if "w \<in> set ws" for w
    using separated_elem_length [OF that, of type_spelling "dots_if v"] len n by simp
  have elems: "\<forall>w\<in>set ws. reading (parse_type env m) (type_spelling w) (type_meaning w) inner_end \<and> starts_ok (type_spelling w)"
    using WFunc.IH(1) WFunc.prems(1) legal_parts [of ws] small spelling_starts by (auto intro!: reading_inner)
  have ret: "reading (parse_type env m) (type_spelling r) (type_meaning r) ends_type"
    using WFunc.IH(2) WFunc.prems(1) len n by simp
  have count: "length ws \<le> n" using separated_count [of ws "dots_if v"] len by auto
  show ?case
  proof (rule readingI)
    fix p rest
    assume at: "stands p (type_spelling (WFunc ws v r) @ rest)" and e: "ends_type rest"
    then have at': "stands p (in_parens ?s @ (Op TOK_ARROW, ''->'') # type_spelling r @ rest)" by simp
    have "check p k' \<longleftrightarrow> k' = Dl TOK_LPAREN" for k'
      using stands_head(1) [of p "Dl TOK_LPAREN"] at by (auto simp: in_parens_def)
    then show "\<exists>q. parse_type env n p = Some (type_meaning (WFunc ws v r), q) \<and> stands q rest \<and> unreported p q"
      using func_reads [OF at' e _ elems count ret, of env] by (simp add: n)
  qed
next
  case (WConst w)
  then obtain m where n: "n = Suc m" by (cases n) auto
  obtain u where u: "const_of (type_meaning w) = Some u" using WConst.prems(1) by auto
  have read: "reading (parse_type env m) (type_spelling w) (type_meaning w) ends_type"
    using WConst by (simp add: n)
  show ?case
  proof (rule readingI)
    fix p rest
    assume at: "stands p (type_spelling (WConst w) @ rest)" and e: "ends_type rest"
    then have "stands p ((Bi TOK_CONST, ''const'') # type_spelling w @ rest)" by simp
    note h = stands_head [OF this]
    obtain q where q: "parse_type env m (advance_p p) = Some (type_meaning w, q)" "stands q rest" "unreported (advance_p p) q"
      using read h(5) e unfolding reading_def by auto
    show "\<exists>q. parse_type env n p = Some (type_meaning (WConst w), q) \<and> stands q rest \<and> unreported p q"
      using h(1) q(1,2) u unreported_trans [OF unreported_advance q(3)] by (simp add: n apply_const_of)
  qed
next
  case (WInt v)
  then show ?case by (simp add: type_form_def)
qed

end
