(* ===== verification/FC_TypeReturns.thy ===== *)
theory FC_TypeReturns
  imports FC_ParseType FC_PatternText
begin

section \<open>The parser of types returns\<close>

definition env_ok :: "expr_parsers \<Rightarrow> bool" where
  "env_ok env \<longleftrightarrow>
     (\<forall>p. parser_ok p \<longrightarrow> later p (snd (bracketed_expr env p)) \<and> later p (snd (prefix_expr env p)))"

lemma ends_then: "ends p m \<Longrightarrow> (\<And>x q. later p q \<Longrightarrow> ends p (f x q)) \<Longrightarrow> ends p (m \<bind> (\<lambda>(x, q). f x q))"
  by (auto simp: ends_def)

lemma ends_trans: "later p q \<Longrightarrow> ends q r \<Longrightarrow> ends p r"
  using later_trans by (auto simp: ends_def)

lemma ends_some: "later p q \<Longrightarrow> ends p (Some (x, q))"
  by (simp add: ends_def)

lemma ends_case: "(\<And>a b. r = (a, b) \<Longrightarrow> ends p (f a b)) \<Longrightarrow> ends p (case r of (a, b) \<Rightarrow> f a b)"
  by (cases r) simp

lemma ends_case2: "(\<And>a b. r = (a, b) \<Longrightarrow> ends p (f a b q)) \<Longrightarrow> ends p ((case r of (a, b) \<Rightarrow> f a b) q)"
  by (cases r) simp

lemma ends_bind_if: "(b \<Longrightarrow> ends p (x \<bind> f)) \<Longrightarrow> (\<not> b \<Longrightarrow> ends p (y \<bind> f)) \<Longrightarrow> ends p ((if b then x else y) \<bind> f)"
  by simp

lemma returns_ends: "returns m f \<longleftrightarrow> (\<forall>p. parser_ok p \<and> tokens_left p < m \<longrightarrow> ends p (f p))"
  by (simp add: returns_def ends_def)

lemma returns_at:
  assumes "returns m f" "later p q" "tokens_left q < m"
  shows "ends p (f q)"
  using assms ends_trans later_left(2) unfolding returns_ends by blast

text \<open>Steps from a later position.\<close>

lemma later_advance: "later p q \<Longrightarrow> later p (advance_p q)"
  using later_trans later_steps(1) later_left(2) by blast

lemma later_expect: "later p q \<Longrightarrow> later p (expect k q)"
  using later_trans later_steps(2) later_left(2) by blast

lemma later_error: "later p q \<Longrightarrow> later p (parse_error loc msg q)"
  using later_trans later_steps(4) later_left(2) by blast

lemma later_bump: "later p q \<Longrightarrow> later p (leaf_bump q)"
  using later_trans later_steps(5) later_left(2) by blast

lemmas later_intros = later_advance later_expect later_error later_bump

lemma left_after: "later p q \<Longrightarrow> check q k \<Longrightarrow> k \<noteq> TOK_EOF_K \<Longrightarrow> tokens_left (advance_p q) < tokens_left p"
  using advance_over [OF later_left(2)] later_left(1) by (meson less_le_trans)

lemma const_fields_later: "parser_ok p \<Longrightarrow> later p (snd (const_fields p))"
proof (induction p rule: const_fields.induct)
  case (1 p)
  show ?case
  proof (cases "ps_pos p < token_count p \<and> check p (Op TOK_DOT)")
    case True
    have "later p (expect (Idt TOK_IDENT) (advance_p p))" using 1(2) by (intro later_intros later_refl)
    then have "later p (snd (const_fields (expect (Idt TOK_IDENT) (advance_p p))))"
      using 1(1) [OF True refl refl] later_left(2) later_trans by blast
    then show ?thesis using True by (subst const_fields.simps) (simp add: Let_def split_beta)
  next
    case False
    then have "const_fields p = ([], p)" by (subst const_fields.simps) (rule if_not_P)
    then show ?thesis using 1(2) later_refl by simp
  qed
qed

lemma const_atom_returns: "env_ok env \<Longrightarrow> returns n (parse_const_atom env n)"
proof (induction n)
  case (Suc n)
  note env = Suc.prems
  show ?case
    unfolding returns_ends
  proof (intro allI impI, elim conjE)
    fix p assume p: "parser_ok p" "tokens_left p < Suc n"
    have here: "later p p" using p(1) by (rule later_refl)
    have fields: "later p q" if "const_fields (advance_p p) = (fs, q)" for fs q
      using const_fields_later [OF advance_ok [OF p(1)]] later_trans [OF later_steps(1) [OF p(1)]] that by fastforce
    have minus: "ends p (parse_const_atom env n (advance_p p))" if "check p (Op TOK_MINUS)"
      using left_after [OF here that] p(2) by (intro returns_at [OF Suc.IH [OF env] later_advance [OF here]]) simp
    have paren: "later p q" if "bracketed_expr env (advance_p p) = (e, q)" for e q
      using env advance_ok [OF p(1)] later_trans [OF later_steps(1) [OF p(1)]] that by (fastforce simp: env_ok_def)
    have prefix: "later p (snd (prefix_expr env p))" using env p(1) by (simp add: env_ok_def)
    show "ends p (parse_const_atom env (Suc n) p)"
      unfolding parse_const_atom.simps Let_def
      by (intro ends_if ends_case ends_then [OF minus] ends_some later_intros here ends_value [OF prefix];
          (assumption | rule fields paren, assumption)?)
  qed
qed (simp add: returns_def)

lemma const_operators_return:
  assumes "\<And>k. returns m (rec k)"
  shows "parser_ok p \<Longrightarrow> tokens_left p \<le> m \<Longrightarrow> tokens_left p < n \<Longrightarrow> ends p (const_operators n rec min_prec left p)"
proof (induction n arbitrary: p left)
  case (Suc n)
  let ?p1 = "advance_p p"
  show ?case
  proof (cases "const_prec (t_kind (current p))")
    case None
    then show ?thesis using Suc.prems(1) by (simp add: Let_def ends_some later_refl)
  next
    case (Some prec)
    then have "\<not> at_end_p p" by (auto simp: at_end_p_def const_prec_def split: if_splits)
    then have less: "tokens_left ?p1 < tokens_left p" by (rule advance_left [OF Suc.prems(1)])
    have step: "ends p (rec (prec + 1) ?p1)"
      using less Suc.prems(2) by (intro returns_at [OF assms later_steps(1) [OF Suc.prems(1)]]) simp
    have "ends p (const_operators n rec min_prec e q)" if "later ?p1 q" for e q
      using ends_trans [OF later_trans [OF later_steps(1) [OF Suc.prems(1)] that] Suc.IH] later_left [OF that] less Suc.prems
      by simp
    moreover obtain e q where "rec (prec + 1) ?p1 = Some (e, q)" "later ?p1 q"
      using assms [of "prec + 1"] less Suc.prems advance_ok [OF Suc.prems(1)] unfolding returns_def by fastforce
    ultimately show ?thesis
      using Some Suc.prems(1) by (simp add: Let_def ends_some later_refl)
  qed
qed simp

lemma const_inner_returns: "env_ok env \<Longrightarrow> returns n (parse_const_arith_inner env n min_prec)"
proof (induction n arbitrary: min_prec)
  case (Suc n)
  show ?case
    unfolding returns_ends
  proof (intro allI impI, elim conjE)
    fix p assume p: "parser_ok p" "tokens_left p < Suc n"
    have atom: "ends p (parse_const_atom env (Suc n) p)"
      using const_atom_returns [OF Suc.prems, of "Suc n"] p by (simp add: returns_ends)
    have "ends q (const_operators (Suc n) (parse_const_arith_inner env n) min_prec e q)" if "later p q" for e q
      using later_left [OF that] p(2) by (intro const_operators_return [OF Suc.IH [OF Suc.prems]]) auto
    then show "ends p (parse_const_arith_inner env (Suc n) min_prec p)"
      unfolding parse_const_arith_inner.simps by (intro ends_then [OF atom]) (rule ends_trans)
  qed
qed (simp add: returns_def)

lemma const_arith_returns:
  assumes "env_ok env"
  shows "returns n (parse_const_arith env n min_prec)"
  unfolding returns_ends
proof (intro allI impI, elim conjE)
  fix p assume p: "parser_ok p" "tokens_left p < n"
  let ?p = "p\<lparr>ps_in_const_expr := True\<rparr>"
  have "parser_ok ?p" "tokens_left ?p < n" using p by (simp_all add: parser_ok_def tokens_left_def token_count_def)
  then obtain e q where q: "parse_const_arith_inner env n min_prec ?p = Some (e, q)" "later ?p q"
    using const_inner_returns [OF assms, of n min_prec] by (auto simp: returns_def)
  then have "later p (q\<lparr>ps_in_const_expr := ps_in_const_expr p\<rparr>)"
    by (auto simp: later_def moved_def parser_ok_def token_count_def)
  then show "ends p (parse_const_arith env n min_prec p)" using q(1) by (simp add: parse_const_arith_def ends_def)
qed

subsection \<open>Suffixes\<close>

lemma size_literal_later: "later p q \<Longrightarrow> later p (snd (parse_size_literal t q))"
  by (simp add: parse_size_literal_def split_beta later_error)

text \<open>A round of the loop that found a suffix read a token.\<close>

definition goes :: "parser \<Rightarrow> ('a option \<times> parser) option \<Rightarrow> bool" where
  "goes p r \<longleftrightarrow> (\<forall>t q. r = Some (Some t, q) \<longrightarrow> (\<exists>k. check p k \<and> k \<noteq> TOK_EOF_K) \<and> later (advance_p p) q)"

lemma goes_if: "(b \<Longrightarrow> goes p x) \<Longrightarrow> (\<not> b \<Longrightarrow> goes p y) \<Longrightarrow> goes p (if b then x else y)"
  by simp

lemma goes_case: "(\<And>a b. r = (a, b) \<Longrightarrow> goes p (f a b)) \<Longrightarrow> goes p (case r of (a, b) \<Rightarrow> f a b)"
  by (cases r) simp

lemma goes_none: "goes p (Some (None, q))"
  by (simp add: goes_def)

lemma goes_some: "\<exists>k. check p k \<and> k \<noteq> TOK_EOF_K \<Longrightarrow> later (advance_p p) q \<Longrightarrow> goes p (Some (Some t, q))"
  by (auto simp: goes_def)

lemma goes_then: "ends (advance_p p) m \<Longrightarrow> (\<And>x q. later (advance_p p) q \<Longrightarrow> goes p (f x q)) \<Longrightarrow> goes p (m \<bind> (\<lambda>(x, q). f x q))"
  by (auto simp: ends_def)

lemma suffix_step_returns:
  assumes "env_ok env" "parser_ok p" "tokens_left p < Suc n"
  shows "ends p (suffix_step env n base p)"
    and "suffix_step env n base p = Some (Some t, q) \<Longrightarrow> tokens_left q < tokens_left p"
proof -
  have here: "later p p" using assms(2) by (rule later_refl)
  have first: "tokens_left (advance_p p) < tokens_left p" if "check p k" "k \<noteq> TOK_EOF_K" for k
    using left_after [OF here that] .
  have size_lit: "later p q" if "parse_size_literal t (advance_p p) = (v, q)" for t v q
    using size_literal_later [OF later_advance [OF here], of t] that by simp
  have arith: "ends p (parse_const_arith env n 1 (advance_p p))" if "check p (Dl TOK_LBRACKET)"
    using first [OF that] assms(3) by (intro returns_at [OF const_arith_returns [OF assms(1)] later_advance [OF here]]) simp
  show "ends p (suffix_step env n base p)"
    unfolding suffix_step_def Let_def
    by (intro ends_if ends_case ends_then [OF arith] ends_some later_intros here;
        (rule size_lit, assumption | elim conjE, assumption)?)
  assume step: "suffix_step env n base p = Some (Some t, q)"
  have adv: "later (advance_p p) (advance_p p)" by (rule later_refl [OF advance_ok [OF assms(2)]])
  have arith': "ends (advance_p p) (parse_const_arith env n 1 (advance_p p))" if "check p (Dl TOK_LBRACKET)"
    using const_arith_returns [OF assms(1), of n 1] first [OF that] assms(3) advance_ok [OF assms(2)]
    by (simp add: returns_ends)
  have lit: "later (advance_p p) q'" if "parse_size_literal t (advance_p p) = (v, q')" for t v q'
    using size_literal_later [OF adv, of t] that by simp
  have "goes p (suffix_step env n base p)"
    unfolding suffix_step_def Let_def
    by (intro goes_if goes_case goes_none goes_then [OF arith'] goes_some;
        (elim conjE, assumption | (auto; fail) | blast intro: later_intros adv lit))
  then show "tokens_left q < tokens_left p" using step first later_left(1) unfolding goes_def by (meson le_less_trans)
qed

lemma suffix_returns: "env_ok env \<Longrightarrow> returns n (parse_type_suffix env n base)"
proof (induction n arbitrary: base)
  case (Suc n)
  show ?case
    unfolding returns_ends
  proof (intro allI impI, elim conjE)
    fix p assume p: "parser_ok p" "tokens_left p < Suc n"
    obtain r q where r: "suffix_step env n base p = Some (r, q)" "later p q"
      using suffix_step_returns(1) [OF Suc.prems p, of base] by (auto simp: ends_def)
    show "ends p (parse_type_suffix env (Suc n) base p)"
    proof (cases r)
      case None
      then show ?thesis using r by (simp add: ends_def)
    next
      case (Some t)
      then have "tokens_left q < n" using suffix_step_returns(2) [OF Suc.prems p] r(1) p(2) by fastforce
      then have "ends p (parse_type_suffix env n t q)" by (rule returns_at [OF Suc.IH [OF Suc.prems] r(2)])
      then show ?thesis using r(1) Some by simp
    qed
  qed
qed (simp add: returns_def)

subsection \<open>Lists, names and type arguments\<close>

lemma ends_next: "later p q \<Longrightarrow> (\<And>r. later p r \<Longrightarrow> ends p (f r)) \<Longrightarrow> ends p (f q)"
  by blast

lemma comma_left: "check p (Op TOK_COMMA) \<Longrightarrow> parser_ok p \<Longrightarrow> tokens_left (advance_p p) < tokens_left p"
  by (rule advance_over) auto

lemma type_list_returns:
  assumes "returns m rec"
  shows "parser_ok p \<Longrightarrow> tokens_left p < m \<Longrightarrow> tokens_left p \<le> n \<Longrightarrow> ends p (type_list n rec p)"
proof (induction n arbitrary: p)
  case 0
  then show ?case using left_pos by fastforce
next
  case (Suc n)
  have rec: "ends p (rec p)" using assms Suc.prems by (simp add: returns_ends)
  have more: "ends p (type_list n rec (advance_p q))" if "later p q" "check q (Op TOK_COMMA)" for q
    using Suc.IH [of "advance_p q"] left_after [OF that] Suc.prems later_left(2) [OF that(1)]
    by (intro ends_trans [OF later_advance [OF that(1)]]) auto
  show ?case
    unfolding type_list.simps
    by (intro ends_then [OF rec] ends_if ends_then [OF more] ends_some; assumption)
qed

lemma tuple_elems_return:
  assumes "returns m rec"
  shows "parser_ok p \<Longrightarrow> tokens_left p < m \<Longrightarrow> tokens_left p \<le> n \<Longrightarrow> ends p (tuple_elems n rec p)"
proof (induction n arbitrary: p)
  case 0
  then show ?case using left_pos by fastforce
next
  case (Suc n)
  have rec: "ends p (rec p)" using assms Suc.prems by (simp add: returns_ends)
  have more: "ends p (tuple_elems n rec (advance_p q))" if "later p q" "check q (Op TOK_COMMA)" for q
    using Suc.IH [of "advance_p q"] left_after [OF that] Suc.prems later_left(2) [OF that(1)]
    by (intro ends_trans [OF later_advance [OF that(1)]]) auto
  show ?case
    unfolding tuple_elems.simps
    by (intro ends_then [OF rec] ends_if ends_then [OF more] ends_some later_advance; assumption)
qed

lemma param_list_returns:
  assumes "returns m rec"
  shows "parser_ok p \<Longrightarrow> tokens_left p < m \<Longrightarrow> tokens_left p \<le> n \<Longrightarrow> ends p (param_list n rec p)"
proof (induction n arbitrary: p)
  case 0
  then show ?case using left_pos by fastforce
next
  case (Suc n)
  have rec: "ends p (rec p)" using assms Suc.prems by (simp add: returns_ends)
  have more: "ends p (param_list n rec (advance_p q))" if "later p q" "check q (Op TOK_COMMA)" for q
    using Suc.IH [of "advance_p q"] left_after [OF that] Suc.prems later_left(2) [OF that(1)]
    by (intro ends_trans [OF later_advance [OF that(1)]]) auto
  show ?case
    unfolding param_list.simps
    by (intro ends_then [OF rec] ends_if ends_then [OF more] ends_case2 ends_some later_advance; assumption)
qed

lemma type_path_later: "parser_ok p \<Longrightarrow> later p (snd (type_path p name))"
proof (induction p name rule: type_path.induct)
  case (1 p name)
  show ?case
  proof (cases "ps_pos p < token_count p \<and> at_member p")
    case True
    have "later p (advance_p (advance_p p))" using 1(2) by (intro later_intros later_refl)
    then show ?thesis
      using 1(1) [OF True refl] True later_left(2) later_trans by (subst type_path.simps) (auto simp: Let_def)
  next
    case False
    then have "type_path p name = (name, p)" by (subst type_path.simps) (rule if_not_P)
    then show ?thesis using 1(2) later_refl by simp
  qed
qed

lemma later_rewind:
  assumes "later p p1" "later p p2"
  shows "later p (restore_pos (ps_pos p1) (p2\<lparr>ps_diags := ps_diags p1\<rparr>))"
  using assms by (auto simp: later_def moved_def parser_ok_def token_count_def restore_pos_def)

lemma later_consume: "later p q \<Longrightarrow> later p (snd (consume_typearg_gt q))"
proof -
  assume q: "later p q"
  have "later p (q\<lparr>ps_half_gt := b, ps_half_gt_pos := i\<rparr>)" for b i
    using q by (auto simp: later_def moved_def parser_ok_def token_count_def)
  then show ?thesis using q by (simp add: consume_typearg_gt_def later_advance)
qed

lemma type_arg_returns:
  assumes "env_ok env" "returns m rec" "m \<le> n"
  shows "returns m (parse_type_arg env n rec)"
  unfolding returns_ends
proof (intro allI impI, elim conjE)
  fix p assume p: "parser_ok p" "tokens_left p < m"
  have rec: "ends p (rec p)" using assms p by (simp add: returns_ends)
  have arith: "ends p (parse_const_arith env n 1 p)"
    using const_arith_returns [OF assms(1)] assms(3) p by (simp add: returns_ends)
  have "ends p (case e of
          CIntLit _ _ v oor \<Rightarrow>
            if oor then Some (type_error, parse_error (loc_from_token (current p)) ''const generic argument out of range'' q)
            else Some (type_const_int v, q)
        | _ \<Rightarrow> Some (type_const_expr e, q))" if "later p q" for e q
    using that by (cases e) (simp_all add: ends_some later_error)
  then show "ends p (parse_type_arg env n rec p)"
    unfolding parse_type_arg_def by (intro ends_if ends_then [OF arith] rec)
qed

text \<open>The rest of a type after its base, and the forms of a base.\<close>

lemma suffix_ends:
  assumes "env_ok env" "tokens_left p < n" "later p q"
  shows "ends p (parse_type_suffix env n base q)"
  using returns_at [OF suffix_returns [OF assms(1)] assms(3)] later_left(1) [OF assms(3)] assms(2) by simp

lemma stub_returns:
  assumes "env_ok env" "parser_ok p" "tokens_left p < n" "\<And>q. later p q \<Longrightarrow> tokens_left q < tokens_left p \<Longrightarrow> ends q (args q)"
  shows "ends p (stub_type env n args p)"
proof -
  have path: "later p q" if "type_path (advance_p p) s = (name, q)" for s name q
    using type_path_later [of "advance_p p" s] that assms(2) later_trans [OF later_steps(1) [OF assms(2)]] by fastforce
  have args: "ends p (args (advance_p q))" if "later p q" "check q (Op TOK_LT)" for q
    using assms(4) [OF later_advance [OF that(1)]] left_after [OF that] by (intro ends_trans [OF later_advance [OF that(1)]]) simp
  show ?thesis
    unfolding stub_type_def Let_def
    by (intro ends_case ends_if ends_then [OF args] suffix_ends [OF assms(1,3)];
        (rule path, assumption | assumption | rule later_consume, assumption | rule later_rewind [OF path], assumption+)?)
qed

lemma named_returns:
  assumes "env_ok env" "parser_ok p" "tokens_left p < n" "\<And>q. later p q \<Longrightarrow> tokens_left q < tokens_left p \<Longrightarrow> ends q (args q)"
  shows "ends p (named_type env n args p)"
proof -
  have here: "later p p" using assms(2) by (rule later_refl)
  show ?thesis
    unfolding named_type_def Let_def
    by (cases "type_from_name (text_of_token p (current p))"; simp only: option.case;
        intro ends_if ends_some stub_returns [OF assms] suffix_ends [OF assms(1,3)] later_intros here)
qed

lemma tuple_returns:
  assumes "env_ok env" "parser_ok p" "tokens_left p < n" "check p (Dl TOK_LBRACE)"
    and rec: "returns m rec" "tokens_left (advance_p p) < m" "m \<le> n"
  shows "ends p (tuple_type env n rec p)"
proof -
  have here: "later p p" using assms(2) by (rule later_refl)
  have elems: "ends p (if check (advance_p p) (Dl TOK_RBRACE) then Some ([], advance_p p) else tuple_elems n rec (advance_p p))"
    using tuple_elems_return [OF rec(1) _ rec(2)] rec(2,3) assms(2)
    by (intro ends_if ends_some later_advance here ends_trans [OF later_advance [OF here]]) auto
  show ?thesis
    unfolding tuple_type_def Let_def
    by (intro ends_then [OF elems] ends_if ends_some suffix_ends [OF assms(1,3)] later_error later_expect; assumption)
qed

lemma func_returns:
  assumes "env_ok env" "parser_ok p" "tokens_left p < n" "check p (Dl TOK_LPAREN)"
    and rec: "returns m rec" "tokens_left (advance_p p) < m" "m \<le> n"
  shows "ends p (func_type env n rec p)"
proof -
  let ?p1 = "advance_p p"
  have here: "later p p" using assms(2) by (rule later_refl)
  have params: "ends ?p1 (if check ?p1 (Dl TOK_RPAREN) then Some (([], False), ?p1)
           else if check ?p1 (Op TOK_ELLIPSIS) then Some (([], True), advance_p ?p1)
           else param_list n rec ?p1)"
    using param_list_returns [OF rec(1) _ rec(2)] rec(2,3) assms(2)
    by (intro ends_if ends_some later_advance later_refl) auto
  then obtain ps v p2 where p2: "(if check ?p1 (Dl TOK_RPAREN) then Some (([], False), ?p1)
           else if check ?p1 (Op TOK_ELLIPSIS) then Some (([], True), advance_p ?p1)
           else param_list n rec ?p1) = Some ((ps, v), p2)" "later ?p1 p2" unfolding ends_def by fastforce
  have after: "later p (expect k p2)" for k by (rule later_expect [OF later_trans [OF later_advance [OF here] p2(2)]])
  have ret: "ends p (rec (advance_p (expect k p2)))" for k
    using later_left(1) [OF later_advance [OF later_expect [OF p2(2)]]] rec(2)
    by (intro returns_at [OF rec(1) later_advance [OF after]]) (metis assms(2) advance_ok le_less_trans)
  show ?thesis
    unfolding func_type_def Let_def p2(1) bind.bind_lunit prod.case
    by (intro ends_if ends_then [OF ret] ends_some suffix_ends [OF assms(1,3)] later_error after; assumption?)
qed

text \<open>A type is read from every position, whatever the tokens are.\<close>

lemma type_returns: "env_ok env \<Longrightarrow> returns n (parse_type env n)"
proof (induction n)
  case (Suc n)
  let ?rec = "parse_type env n"
  show ?case
    unfolding returns_ends
  proof (intro allI impI, elim conjE)
    fix p assume p: "parser_ok p" "tokens_left p < Suc n"
    let ?args = "type_list (Suc n) (parse_type_arg env (Suc n) ?rec)"
    have here: "later p p" using p(1) by (rule later_refl)
    have sub: "tokens_left (advance_p p) < n" if "check p k" "k \<noteq> TOK_EOF_K" for k
      using left_after [OF here that] p(2) by simp
    have rec: "ends p (?rec (advance_p p))" if "check p (Bi TOK_CONST)"
      using sub [OF that] by (intro returns_at [OF Suc.IH [OF Suc.prems] later_advance [OF here]]) simp
    have const: "later p (snd (apply_const t loc q))" if "later p q" for t loc q
      using that by (cases t) (auto simp: apply_const_def not_constable_def later_error)
    have args: "ends q (?args q)" if "later p q" "tokens_left q < tokens_left p" for q
      using that(2) p(2) later_left(2) [OF that(1)]
      by (intro type_list_returns [OF type_arg_returns [OF Suc.prems Suc.IH [OF Suc.prems]]]) auto
    show "ends p (parse_type env (Suc n) p)"
      unfolding parse_type.simps Let_def
      by (intro ends_if ends_then [OF rec] ends_some ends_value [OF const] suffix_ends [OF Suc.prems p(2)] later_intros here
            named_returns [OF Suc.prems p args] tuple_returns [OF Suc.prems p _ Suc.IH [OF Suc.prems]]
            func_returns [OF Suc.prems p _ Suc.IH [OF Suc.prems]];
          (assumption | rule sub, assumption, simp | simp)?)
  qed
qed (simp add: returns_def)

subsection \<open>Properties\<close>

text \<open>
  C17: reading a type ends. Started inside a token array that ends with the end of file, with one
  nested call allowed for each token left, \<open>parse_type\<close> returns, whatever the tokens are: type
  arguments that no \<open>>\<close> closes are given up and the position and the reports restored. It leaves
  the tokens alone and stands inside them no earlier than before. The two calls into the parser
  of expressions are assumed to do the same.
\<close>

theorem type_parse_returns:
  assumes "env_ok env" "parser_ok p" "tokens_left p < n"
  shows "\<exists>t p'. parse_type env n p = Some (t, p') \<and> parser_ok p' \<and> moved p p'"
  using returnsD [OF type_returns [OF assms(1)] assms(2,3)] unfolding later_def by metis

text \<open>A parser of expressions that steps over one token.\<close>

definition one_token :: expr_parsers where
  "one_token =
     (let e = COther no_loc None 0
      in \<lparr>bracketed_expr = \<lambda>p. (e, advance_p p), prefix_expr = \<lambda>p. (e, advance_p p), path_node = \<lambda>_ _ _. e,
          error_node = \<lambda>_. e\<rparr>)"

lemma one_token_ok: "env_ok one_token"
  using later_steps(1) by (auto simp: env_ok_def one_token_def Let_def)

text \<open>The tokens \<open>Box < { i32 , N [ (\<close>.\<close>

definition stray_type :: spelling where
  "stray_type = [name_token ''Box'', (Op TOK_LT, ''<''), (Dl TOK_LBRACE, ''{''), name_token ''i32'', (Op TOK_COMMA, '',''),
     name_token ''N'', (Dl TOK_LBRACKET, ''[''), (Dl TOK_LPAREN, ''(''), eof_token]"

theorem type_parse_returns_witness:
  "\<exists>t p'. parse_type one_token 10 (parser_at stray_type) = Some (t, p') \<and> parser_ok p' \<and> moved (parser_at stray_type) p'"
proof -
  have "parser_ok (parser_at stray_type)" "tokens_left (parser_at stray_type) < 10" by code_simp+
  then show ?thesis by (rule type_parse_returns [OF one_token_ok])
qed

end
