(* ===== verification/FC_LookaheadFacts.thy ===== *)
theory FC_LookaheadFacts
  imports FC_Lookahead FC_TypeText FC_TypeReturns
begin

section \<open>Lookahead agrees with the parser, and recovery stays in its block\<close>

subsection \<open>The scan of type arguments\<close>

text \<open>The scan as a function of the kinds ahead: what is left behind the closer.\<close>

fun left_behind :: "token_kind list \<Rightarrow> nat \<Rightarrow> nat \<Rightarrow> token_kind list option" where
  "left_behind [] depth paren = None"
| "left_behind (k # ks) depth paren =
     (if depth = 0 then (if paren \<noteq> 0 then None else Some (k # ks))
      else if k = Dl TOK_LPAREN then left_behind ks depth (paren + 1)
      else if k = Dl TOK_RPAREN then (if paren = 0 then None else left_behind ks depth (paren - 1))
      else if 0 < paren then
        if k = Lay TOK_NEWLINE \<or> k = TOK_EOF_K then None else left_behind ks depth paren
      else if k = Op TOK_LT then left_behind ks (depth + 1) paren
      else if k = Op TOK_GT then left_behind ks (depth - 1) paren
      else if k = Op TOK_GTGT then (if depth < 2 then None else left_behind ks (depth - 2) paren)
      else if \<not> is_type_arg_token k then None
      else left_behind ks depth paren)"

text \<open>One step of both.\<close>

definition scan_move :: "token_kind \<Rightarrow> nat \<Rightarrow> nat \<Rightarrow> (nat \<times> nat) option" where
  "scan_move k d q =
     (if k = Dl TOK_LPAREN then Some (d, q + 1)
      else if k = Dl TOK_RPAREN then (if q = 0 then None else Some (d, q - 1))
      else if 0 < q then (if k = Lay TOK_NEWLINE \<or> k = TOK_EOF_K then None else Some (d, q))
      else if k = Op TOK_LT then Some (d + 1, q)
      else if k = Op TOK_GT then Some (d - 1, q)
      else if k = Op TOK_GTGT then (if d < 2 then None else Some (d - 2, q))
      else if \<not> is_type_arg_token k then None
      else Some (d, q))"

lemma left_move: "d \<noteq> 0 \<Longrightarrow> left_behind (k # ks) d q = scan_move k d q \<bind> (\<lambda>(d, q). left_behind ks d q)"
  by (simp add: scan_move_def)

lemma loop_move: "d \<noteq> 0 \<Longrightarrow> typearg_loop (k # ks) d q i = scan_move k d q \<bind> (\<lambda>(d, q). typearg_loop ks d q (i + 1))"
  by (simp add: scan_move_def)

lemma left_zero: "left_behind (k # ks) 0 q = (if q = 0 then Some (k # ks) else None)"
  "typearg_loop (k # ks) 0 q i = (if q = 0 then Some i else None)"
  by simp_all

declare left_behind.simps(2) [simp del] typearg_loop.simps(2) [simp del]

lemma loop_left: "left_behind ks d q = Some r \<Longrightarrow> length r \<le> length ks \<and> typearg_loop ks d q i = Some (i + (length ks - length r))"
proof (induction ks arbitrary: d q i)
  case (Cons k ks)
  show ?case
  proof (cases "d = 0")
    case True
    then show ?thesis using Cons.prems by (auto simp: left_zero split: if_splits)
  next
    case False
    obtain d' q' where m: "scan_move k d q = Some (d', q')" "left_behind ks d' q' = Some r"
      using Cons.prems by (auto simp: left_move [OF False] bind_eq_Some_conv)
    then show ?thesis using Cons.IH [OF m(2), of "i + 1"] by (simp add: loop_move [OF False] Suc_diff_le)
  qed
qed simp

text \<open>Gluing pairs of closers changes nothing when the list does not end inside a pair.\<close>

fun glue_kinds :: "token_kind list \<Rightarrow> token_kind list" where
  "glue_kinds (k # l # ks) =
     (if k = Op TOK_GT \<and> l = Op TOK_GT then Op TOK_GTGT # glue_kinds ks else k # glue_kinds (l # ks))"
| "glue_kinds ks = ks"

lemma map_glue: "map fst (glue s) = glue_kinds (map fst s)"
  by (induction s rule: glue.induct) auto

lemma left_single: "left_behind [k] d q = (if d = 0 \<and> q = 0 then Some [k] else None)"
  by (cases "d = 0") (auto simp: left_zero left_move split: bind_splits)

lemma left_glued: "left_behind ks d q = Some r \<Longrightarrow> r \<noteq> [] \<Longrightarrow> hd r \<noteq> Op TOK_GT \<Longrightarrow> left_behind (glue_kinds ks) d q = Some (glue_kinds r)"
proof (induction ks arbitrary: d q rule: glue_kinds.induct)
  case (1 k l ks)
  show ?case
  proof (cases "d = 0")
    case True
    then have "q = 0" "r = k # l # ks" using 1(3) by (simp_all add: left_zero split: if_splits)
    then show ?thesis using True 1(5) by (simp add: left_zero)
  next
    case d: False
    obtain d1 q1 where m: "scan_move k d q = Some (d1, q1)" "left_behind (l # ks) d1 q1 = Some r"
      using 1(3) by (auto simp: left_move [OF d] bind_eq_Some_conv)
    show ?thesis
    proof (cases "k = Op TOK_GT \<and> l = Op TOK_GT")
      case True
      have d1: "d1 \<noteq> 0"
      proof
        assume "d1 = 0"
        then have "r = l # ks" using m(2) by (simp add: left_zero split: if_splits)
        then show False using 1(5) True by simp
      qed
      obtain d2 q2 where m2: "scan_move l d1 q1 = Some (d2, q2)" "left_behind ks d2 q2 = Some r"
        using m(2) by (auto simp: left_move [OF d1] bind_eq_Some_conv)
      have "scan_move (Op TOK_GTGT) d q = Some (d2, q2)"
        using True m(1) m2(1) d1 by (auto simp: scan_move_def split: if_splits)
      then show ?thesis using 1(1) [OF True m2(2) 1(4,5)] True by (simp add: left_move [OF d])
    next
      case False
      then have "glue_kinds (k # l # ks) = k # glue_kinds (l # ks)" by simp
      then show ?thesis using m(1) 1(2) [OF False m(2) 1(4,5)] by (simp add: left_move [OF d] del: glue_kinds.simps)
    qed
  qed
qed (auto simp: left_single split: if_splits)

text \<open>What is written as a type is passed over.\<close>

definition passed :: "spelling \<Rightarrow> bool" where
  "passed s \<longleftrightarrow> (\<forall>d q r. left_behind (map fst s @ r) (Suc d) q = left_behind r (Suc d) q)"

lemma passed_append: "passed a \<Longrightarrow> passed b \<Longrightarrow> passed (a @ b)"
  by (simp add: passed_def)

lemma passed_nil [simp]: "passed []"
  by (simp add: passed_def)

lemma passed_one: "is_type_arg_token k \<Longrightarrow> k \<notin> {Dl TOK_LPAREN, Dl TOK_RPAREN, Op TOK_LT, Op TOK_GT} \<Longrightarrow> passed [(k, s)]"
  by (auto simp: passed_def is_type_arg_token_def left_move scan_move_def)

lemma passed_cons: "is_type_arg_token k \<Longrightarrow> k \<notin> {Dl TOK_LPAREN, Dl TOK_RPAREN, Op TOK_LT, Op TOK_GT} \<Longrightarrow> passed r \<Longrightarrow> passed ((k, s) # r)"
  using passed_append [OF passed_one] by fastforce

lemmas passed_tokens = passed_cons [of "Idt TOK_IDENT"] passed_cons [of "Op TOK_DOT"] passed_cons [of "Idt TOK_TYPE_VAR"]
  passed_cons [of "Kw TOK_ERROR_KW"] passed_cons [of "Kw TOK_VOID"] passed_cons [of "Op TOK_BANG"] passed_cons [of "Op TOK_STAR"]
  passed_cons [of "Op TOK_QUESTION"] passed_cons [of "Dl TOK_LBRACKET"] passed_cons [of "Dl TOK_RBRACKET"]
  passed_cons [of "Dl TOK_LBRACE"] passed_cons [of "Dl TOK_RBRACE"] passed_cons [of "Op TOK_COMMA"] passed_cons [of "Op TOK_ARROW"]
  passed_cons [of "Bi TOK_CONST"] passed_cons [of "Lit TOK_INT_LIT"]

lemma passed_suffixes: "passed (suffixes ss)"
proof (induction ss)
  case (Cons x ss)
  then show ?case by (cases x) (simp_all add: passed_tokens is_type_arg_token_def)
qed simp

lemma passed_name: "passed (name_spelling n ms)"
proof -
  have "passed (concat (map (\<lambda>m. [(Op TOK_DOT, ''.''), name_token m]) ms))"
    by (induction ms) (simp_all add: passed_tokens is_type_arg_token_def name_token_def)
  then show ?thesis by (simp add: name_spelling_def name_token_def passed_tokens is_type_arg_token_def)
qed

lemma passed_separated: "(\<And>x. x \<in> set xs \<Longrightarrow> passed x) \<Longrightarrow> passed (separated comma xs)"
proof (induction xs)
  case (Cons x xs)
  then show ?case
    by (cases xs) (auto simp: separated_more separated_def comma_def intro!: passed_append passed_tokens simp: is_type_arg_token_def)
qed (simp add: separated_def)

lemma passed_angle: "passed s \<Longrightarrow> passed ((Op TOK_LT, x) # s @ [gt])"
  by (auto simp: passed_def left_move scan_move_def)

text \<open>Inside parentheses an ellipsis passes as well.\<close>

definition passed_inside :: "spelling \<Rightarrow> bool" where
  "passed_inside s \<longleftrightarrow> (\<forall>d q r. left_behind (map fst s @ r) (Suc d) (Suc q) = left_behind r (Suc d) (Suc q))"

lemma passed_parens: "passed_inside s \<Longrightarrow> passed (in_parens s)"
  by (auto simp: passed_def passed_inside_def in_parens_def left_move scan_move_def)

lemma passed_inside_params:
  "(\<And>x. x \<in> set xs \<Longrightarrow> passed x) \<Longrightarrow> passed_inside (separated comma (xs @ dots_if v))"
proof (induction xs)
  case Nil
  show ?case by (simp add: separated_def passed_inside_def left_move scan_move_def)
next
  case (Cons x xs)
  have x: "left_behind (map fst x @ r) (Suc d) (Suc q) = left_behind r (Suc d) (Suc q)" for d q r
    using Cons.prems [of x] by (simp add: passed_def)
  have "passed_inside (separated comma (xs @ dots_if v))" using Cons by simp
  then show ?case
    by (cases "xs @ dots_if v") (auto simp: separated_more passed_inside_def x separated_def comma_def left_move scan_move_def)
qed

lemma passed_spelling: "passed (type_spelling w)"
proof (induction w)
  case (WInst n ms ws ss)
  have "passed (separated comma (map type_spelling ws))" using WInst by (intro passed_separated) auto
  then have "passed (name_spelling n ms @ ((Op TOK_LT, ''<'') # separated comma (map type_spelling ws) @ [gt]) @ suffixes ss)"
    by (intro passed_append passed_name passed_angle passed_suffixes)
  then show ?case by simp
next
  case (WTuple ws ss)
  have "passed (separated comma (map type_spelling ws))" using WTuple by (intro passed_separated) auto
  then show ?case
    by (simp add: in_braces_def)
      (intro passed_tokens passed_append passed_suffixes; simp add: is_type_arg_token_def)
next
  case (WGroup w ss)
  then have "passed_inside (type_spelling w)" by (simp add: passed_def passed_inside_def)
  then show ?case by (simp add: passed_append passed_parens passed_suffixes)
next
  case (WFunc ws v r)
  have "passed_inside (separated comma (map type_spelling ws @ dots_if v))"
    using WFunc(1) by (intro passed_inside_params) auto
  then show ?case
    using WFunc(2) by (simp only: type_spelling.simps) (intro passed_append passed_parens passed_tokens; simp add: is_type_arg_token_def)
qed (simp_all add: passed_append passed_name passed_suffixes passed_tokens is_type_arg_token_def name_token_def int_token_def)

lemma glue_nonempty: "s \<noteq> [] \<Longrightarrow> glue s \<noteq> []"
  by (cases s rule: glue.cases) auto

lemma scan_position:
  assumes "stands p (s @ gt # rest)" "passed s" "starts_ok s" "stands q rest" "ps_tokens q = ps_tokens p" "ps_pos p \<le> ps_pos q"
    and "rest \<noteq> []" "fst (hd rest) \<noteq> Op TOK_GT"
  shows "typearg_scan p (ps_pos p) = Some (ps_pos q)"
proof -
  have p: "ahead p = glue (s @ gt # rest)"
    using assms(1,3) by (cases s) (auto simp: stands_def starts_ok_def split: if_splits)
  have q: "ahead q = glue rest" using assms(4,7,8) by (cases rest) (auto simp: stands_def split: if_splits)
  have "left_behind (map fst (s @ gt # rest)) 1 0 = left_behind (Op TOK_GT # map fst rest) 1 0"
    using assms(2) by (simp add: passed_def)
  also have "\<dots> = Some (map fst rest)"
    using assms(7) by (cases rest) (simp_all add: left_move scan_move_def left_zero)
  finally have "left_behind (glue_kinds (map fst (s @ gt # rest))) 1 0 = Some (glue_kinds (map fst rest))"
    by (rule left_glued) (use assms(7,8) in \<open>simp_all add: hd_map\<close>)
  then have left: "left_behind (map fst (ahead p)) 1 0 = Some (map fst (ahead q))" by (simp only: p q map_glue)
  have "ahead p \<noteq> []" "ahead q \<noteq> []"
    using p q assms(3,7) glue_nonempty by auto
  then have len: "length (ahead p) + ps_pos p = token_count p" "length (ahead q) + ps_pos q = token_count p"
    using assms(5) by (auto simp: ahead_def token_count_def)
  have "map t_kind (drop (ps_pos p) (ps_tokens p)) = map fst (ahead p)" by (simp add: ahead_def)
  then have "typearg_scan p (ps_pos p) = Some (ps_pos p + (length (ahead p) - length (ahead q)))"
    using loop_left [OF left, of "ps_pos p"] by (simp add: typearg_scan_def)
  then show ?thesis using len assms(6) by simp
qed

lemma args_read:
  assumes "ws \<noteq> []" "\<forall>w\<in>set ws. legal w \<and> arg_form w" "length (separated comma (map type_spelling ws)) < n"
  shows "reading (type_list (Suc n) (parse_type_arg env (Suc n) (parse_type env n))) (separated comma (map type_spelling ws))
    (map type_meaning ws) list_end"
proof -
  have small: "length (type_spelling w) < n" if "w \<in> set ws" for w
    using separated_elem_length [OF that, of type_spelling "[]"] assms(3) by simp
  have "\<forall>w\<in>set ws. reading (parse_type_arg env (Suc n) (parse_type env n)) (type_spelling w) (type_meaning w) inner_end"
    using assms(2) small by (auto intro!: arg_reads type_reads)
  then show ?thesis using assms(1,3) separated_count [of ws "[]"] by (intro type_list_reads) auto
qed

subsection \<open>Recovery\<close>

definition nesting :: "token list \<Rightarrow> int" where
  "nesting ts =
     sum_list (map (\<lambda>t. if t_kind t = Lay TOK_INDENT then 1 else if t_kind t = Lay TOK_DEDENT then - 1 else 0) ts)"

definition next_tokens :: "parser \<Rightarrow> nat \<Rightarrow> token list" where
  "next_tokens p n = take n (drop (ps_pos p) (ps_tokens p))"

lemma next_tokens_step:
  assumes "parser_ok p" "\<not> at_end_p p"
  shows "next_tokens p (Suc n) = current p # next_tokens (advance_p p) n"
  using assms by (simp add: next_tokens_def advance_p_def current_def parser_ok_def token_count_def Cons_nth_drop_Suc [symmetric])

lemma skip_line_stops:
  assumes "parser_ok p" "0 \<le> depth"
  shows "\<exists>n. ps_pos (skip_line depth p) = ps_pos p + n \<and> parser_ok (skip_line depth p) \<and> unreported p (skip_line depth p) \<and>
    (\<forall>m\<le>n. 0 \<le> depth + nesting (next_tokens p m)) \<and>
    (at_end_p (skip_line depth p) \<or>
     (check (skip_line depth p) (Lay TOK_NEWLINE) \<or> check (skip_line depth p) (Lay TOK_DEDENT)) \<and>
     depth + nesting (next_tokens p n) = 0)"
  using assms
proof (induction depth p rule: skip_line.induct)
  case (1 depth p)
  let ?go = "ps_pos p < token_count p \<and> \<not> at_end_p p \<and> \<not> (depth = 0 \<and> (check p (Lay TOK_NEWLINE) \<or> check p (Lay TOK_DEDENT)))"
  let ?d = "if check p (Lay TOK_INDENT) then depth + 1 else if check p (Lay TOK_DEDENT) then depth - 1 else depth"
  have zero: "nesting (next_tokens p 0) = 0" by (simp add: nesting_def next_tokens_def)
  show ?case
  proof (cases ?go)
    case False
    then have "skip_line depth p = p" by (subst skip_line.simps) (rule if_not_P)
    moreover have "ps_pos p < token_count p" using 1(2) by (simp add: parser_ok_def)
    ultimately show ?thesis using False 1(2,3) zero by (intro exI [of _ 0]) auto
  next
    case True
    have eq: "skip_line depth p = skip_line ?d (advance_p p)"
      by (subst skip_line.simps) (rule if_P [OF True])
    have d: "0 \<le> ?d" using True 1(3) by auto
    have step: "depth + nesting (next_tokens p (Suc m)) = ?d + nesting (next_tokens (advance_p p) m)" for m
      using next_tokens_step [OF 1(2), of m] True by (simp add: nesting_def check_def)
    have pos: "ps_pos (advance_p p) = ps_pos p + 1" using True by (simp add: advance_p_def)
    obtain n where n: "ps_pos (skip_line ?d (advance_p p)) = ps_pos (advance_p p) + n" "parser_ok (skip_line ?d (advance_p p))"
      "unreported (advance_p p) (skip_line ?d (advance_p p))" "\<forall>m\<le>n. 0 \<le> ?d + nesting (next_tokens (advance_p p) m)"
      "at_end_p (skip_line ?d (advance_p p)) \<or>
       (check (skip_line ?d (advance_p p)) (Lay TOK_NEWLINE) \<or> check (skip_line ?d (advance_p p)) (Lay TOK_DEDENT)) \<and>
       ?d + nesting (next_tokens (advance_p p) n) = 0"
      using 1(1) [OF True advance_ok [OF 1(2)] d] by blast
    have "0 \<le> depth + nesting (next_tokens p m)" if "m \<le> Suc n" for m
      using that n(4) step 1(3) zero by (cases m) auto
    then show ?thesis
      unfolding eq using n(1,2,5) pos step [of n] unreported_trans [OF unreported_advance n(3)] by (intro exI [of _ "Suc n"]) simp
  qed
qed

subsection \<open>Properties\<close>

text \<open>
  C14: types are read as they are written. Before the tokens of a type, in which the scanner has
  joined adjacent closers of type arguments into \<open>>>\<close>, the parser of types returns the type the
  form stands for, stands behind it and reports nothing, whatever the parsers of expressions do.
  The token behind must not be one that continues a type.
\<close>

theorem type_round_trip:
  assumes "legal w" "type_form w" "stands p (type_spelling w @ rest)" "ends_type rest" "length (type_spelling w) < n"
  shows "\<exists>q. parse_type env n p = Some (type_meaning w, q) \<and> stands q rest \<and> unreported p q"
  using type_reads [OF assms(1,2,5)] assms(3,4) unfolding reading_def by blast

text \<open>The type \<open>map<'k, io.list<(i32, ...) -> const u8[]>>*\<close>, whose two closers are one token.\<close>

definition sample_written :: wtype where
  "sample_written =
     WInst ''map'' []
       [WVar ''k'' [],
        WInst ''io'' [''list'']
          [WFunc [WName ''i32'' [] []] True (WConst (WName ''u8'' [] [SSlice]))] []]
       [SPtr]"

theorem type_round_trip_witness:
  "\<exists>q. parse_type one_token 60 (parser_at (glue (type_spelling sample_written @ [eof_token]))) = Some (type_meaning sample_written, q) \<and>
    stands q [eof_token] \<and> unreported (parser_at (glue (type_spelling sample_written @ [eof_token]))) q"
proof (rule type_round_trip)
  show "legal sample_written"
    by (simp add: sample_written_def arg_form_def type_form_def const_of_def const_kind_def type_slice_def type_from_name_def
        PRIMITIVE_TYPES_def)
  show "type_form sample_written" by (simp add: sample_written_def type_form_def)
  show "stands (parser_at (glue (type_spelling sample_written @ [eof_token]))) (type_spelling sample_written @ [eof_token])"
    by (simp add: stands_def ahead_parser_at parser_at_plain)
  show "ends_type [eof_token]" by (simp add: ends_type_def eof_token_def)
  show "length (type_spelling sample_written) < 60" by code_simp
qed

text \<open>
  C16: the lookahead and the parser agree. On the tokens of a list of type arguments the scan
  that decides whether a \<open><\<close> in an expression opens type arguments stops exactly where the parser
  stands after it has read the arguments and their closer.
\<close>

theorem typearg_scan_agrees:
  assumes "ws \<noteq> []" "\<forall>w\<in>set ws. legal w \<and> arg_form w"
    and "stands p (separated comma (map type_spelling ws) @ gt # rest)" "rest \<noteq> []" "fst (hd rest) \<noteq> Op TOK_GT"
    and "length (separated comma (map type_spelling ws)) < n"
  shows "\<exists>q. type_list (Suc n) (parse_type_arg env (Suc n) (parse_type env n)) p = Some (map type_meaning ws, q) \<and>
    at_typearg_gt q \<and> typearg_scan p (ps_pos p) = Some (ps_pos (snd (consume_typearg_gt q)))"
proof -
  let ?s = "separated comma (map type_spelling ws)"
  have "list_end (gt # rest)" by (simp add: inner_end_def)
  then obtain q where q: "type_list (Suc n) (parse_type_arg env (Suc n) (parse_type env n)) p = Some (map type_meaning ws, q)"
    "stands q (gt # rest)" "unreported p q"
    using args_read [OF assms(1,2,6)] assms(3) unfolding reading_def by blast
  note c = stands_closer [OF q(2)]
  have moved: "moved p (snd (consume_typearg_gt q))" using unreported_trans [OF q(3) c(3)] by (simp add: unreported_def)
  have "starts_ok ?s" using assms(1) by (cases ws) (simp_all add: starts_separated spelling_starts)
  moreover have "passed ?s" by (rule passed_separated) (auto simp: passed_spelling)
  ultimately have "typearg_scan p (ps_pos p) = Some (ps_pos (snd (consume_typearg_gt q)))"
    using scan_position [OF assms(3) _ _ c(2) _ _ assms(4,5)] moved by (simp add: moved_def)
  then show ?thesis using q(1) c(1) by blast
qed

text \<open>The arguments \<open>pair<i32, 4>, {bool, str}?\<close> before \<open>>(\<close>.\<close>

definition sample_args :: "wtype list" where
  "sample_args =
     [WInst ''pair'' [] [WName ''i32'' [] [], WInt 4] [], WTuple [WName ''bool'' [] [], WName ''str'' [] []] [SOpt],
      WInst ''box'' [] [WAny []] []]"

definition after_args :: spelling where "after_args = [(Dl TOK_LPAREN, ''(''), eof_token]"

definition args_parser :: parser where
  "args_parser = parser_at (glue (separated comma (map type_spelling sample_args) @ gt # after_args))"

theorem typearg_scan_agrees_witness:
  "\<exists>q. type_list 61 (parse_type_arg one_token 61 (parse_type one_token 60)) args_parser = Some (map type_meaning sample_args, q) \<and>
    at_typearg_gt q \<and> typearg_scan args_parser (ps_pos args_parser) = Some (ps_pos (snd (consume_typearg_gt q)))"
proof -
  have at: "stands args_parser (separated comma (map type_spelling sample_args) @ gt # after_args)"
    by (simp add: stands_def args_parser_def ahead_parser_at parser_at_plain)
  have legal: "\<forall>w\<in>set sample_args. legal w \<and> arg_form w"
    by (simp add: sample_args_def arg_form_def type_form_def type_from_name_def PRIMITIVE_TYPES_def)
  have "length (separated comma (map type_spelling sample_args)) < 60" by code_simp
  from typearg_scan_agrees [OF _ legal at _ _ this, of one_token] show ?thesis by (simp add: sample_args_def after_args_def)
qed




end
