(* ===== verification/FC_Mono.thy ===== *)
theory FC_Mono
  imports FC_Mangle
begin

section \<open>Monomorphization (\<open>src/monomorph.c\<close>)\<close>

text \<open>
  The table of instances. Interned names are strings; a template is the declaration with the fields
  registration reads, told apart by its identity \<open>gd_id\<close>. Types are renamed in place by the code;
  the model returns the renamed type. \<open>mono_finalize_types\<close> copies the types it renames, except type
  arguments, which share nodes with the templates: what is written into these (the name of a
  tuple, the template of a node) is a function of the node, so the copies of the model agree.
\<close>

datatype decl_kind = DECL_LET | DECL_STRUCT | DECL_UNION

record static_assert_info =
  sa_cond :: cexpr
  sa_msg :: string
  sa_loc :: src_loc
  sa_owner :: "string option"
  sa_judged :: bool
  sa_typed :: bool

text \<open>
  The body of a function template, as the walk over it sees it: each expression with what its kind
  carries and its children in the order \<open>expr_for_each_child\<close> visits them. A call holds its mangled name
  when an earlier pass has given it one, its type arguments and its resolved callee.
\<close>

datatype expr_node =
    EXPR_CALL "string option" "ctype list" "string option"
  | EXPR_STRUCT_LIT "ctype option"
  | EXPR_TUPLE_LIT "ctype option"
  | EXPR_FIELD bool "ctype option"
  | EXPR_DEREF_FIELD bool "ctype option"
  | EXPR_ARRAY_LIT "ctype option"
  | EXPR_SLICE_LIT "ctype option"
  | EXPR_CAST "ctype option"
  | EXPR_BITCAST "ctype option"
  | EXPR_ERR "ctype option"
  | EXPR_ALLOC "ctype option"
  | EXPR_SIZEOF "ctype option"
  | EXPR_ALIGNOF "ctype option"
  | EXPR_DEFAULT "ctype option"
  | EXPR_OTHER

datatype body_expr = Body expr_node "body_expr list"

record gen_decl =
  gd_id :: nat
  gd_kind :: decl_kind
  gd_name :: string
  gd_codegen_name :: "string option"
  gd_loc :: src_loc
  gd_asserts :: "static_assert_info list"
  gd_body :: "body_expr list option"

record gen_symbol =
  gs_name :: string
  gs_decl :: "gen_decl option"
  gs_kind :: decl_kind
  gs_type :: "ctype option"
  gs_generic :: bool
  gs_params :: "string list"

record mono_instance =
  mi_generic_name :: string
  mi_mangled_name :: string
  mi_ns_prefix :: "string option"
  mi_type_args :: "ctype list"
  mi_template :: "gen_decl option"
  mi_kind :: decl_kind
  mi_concrete :: "ctype option"
  mi_params :: "string list"

text \<open>The table, the errors reported so far by this and earlier passes, and the pending evaluation error.\<close>

record mono_state =
  ms_entries :: "mono_instance list"
  ms_reports :: "(src_loc \<times> string) list"
  ms_pending :: const_err

definition MONO_MAX_INSTANTIATION_DEPTH :: nat where "MONO_MAX_INSTANTIATION_DEPTH = 128"
definition MONO_MAX_INSTANCES :: nat where "MONO_MAX_INSTANCES = 200000"
definition MONO_MAX_PER_TEMPLATE :: nat where "MONO_MAX_PER_TEMPLATE = 2048"

definition mono_report :: "src_loc \<Rightarrow> string \<Rightarrow> mono_state \<Rightarrow> mono_state" where
  "mono_report loc msg st = st\<lparr>ms_reports := ms_reports st @ [(loc, msg)]\<rparr>"

definition decl_loc :: "gen_decl option \<Rightarrow> src_loc" where
  "decl_loc tmpl = (case tmpl of None \<Rightarrow> zero_loc | Some d \<Rightarrow> gd_loc d)"

fun find_entry :: "string \<Rightarrow> mono_instance list \<Rightarrow> mono_instance option" where
  "find_entry n [] = None"
| "find_entry n (e # es) = (if mi_mangled_name e = n then Some e else find_entry n es)"

definition mono_find :: "mono_instance list \<Rightarrow> string option \<Rightarrow> mono_instance option" where
  "mono_find es name = (case name of None \<Rightarrow> None | Some n \<Rightarrow> find_entry n es)"

subsection \<open>Registration\<close>

text \<open>The static assertions of a template under an instance's bindings: the first failure, if any.\<close>

fun judge_asserts ::
  "string \<Rightarrow> bindings \<Rightarrow> ctype list \<Rightarrow> static_assert_info list \<Rightarrow> const_err \<Rightarrow> (src_loc \<times> string) option \<times> const_err" where
  "judge_asserts disp bs args [] err = (None, err)"
| "judge_asserts disp bs args (sa # sas) err =
     (if sa_judged sa then judge_asserts disp bs args sas err
      else
        let inst = type_inst_display (Some disp) (map Some args);
            (v, err1) = (if sa_typed sa then const_eval_typed bs (sa_cond sa) err
                         else const_type_eval (Some (type_const_expr (sa_cond sa))) bs err)
        in case v of
             Some v \<Rightarrow>
               if v = 0 then
                 (Some (sa_loc sa, ''static assertion failed in instantiation of '' @ [squote] @ inst @ [squote] @ '': '' @ sa_msg sa), err1)
               else judge_asserts disp bs args sas err1
           | None \<Rightarrow>
               (case const_eval_take_error err1 of
                  (Some (emsg, eloc), err2) \<Rightarrow>
                    (Some (if loc_file eloc \<noteq> None then eloc else sa_loc sa,
                           emsg @ '' (in static_assert of '' @ [squote] @ inst @ [squote] @ '')''), err2)
                | (None, err2) \<Rightarrow>
                    (Some (sa_loc sa,
                           ''could not evaluate static_assert condition (in static_assert of '' @ [squote] @ inst @ [squote] @ '')''), err2)))"

definition max_depth :: "ctype list \<Rightarrow> nat" where
  "max_depth args = fold (\<lambda>t m. if type_arg_depth t > m then type_arg_depth t else m) args 0"

definition template_is :: "gen_decl option \<Rightarrow> gen_decl \<Rightarrow> bool" where
  "template_is t d \<longleftrightarrow> (case t of None \<Rightarrow> False | Some d' \<Rightarrow> gd_id d' = gd_id d)"

definition template_count :: "gen_decl option \<Rightarrow> ctype list \<Rightarrow> mono_instance list \<Rightarrow> nat" where
  "template_count tmpl args es =
     (case tmpl of
        None \<Rightarrow> 0
      | Some d \<Rightarrow>
          if list_ex type_is_const_arg args then length (filter (\<lambda>e. template_is (mi_template e) d) es) else 0)"

definition template_display :: "string \<Rightarrow> gen_decl option \<Rightarrow> string" where
  "template_display name tmpl =
     (case tmpl of
        None \<Rightarrow> name
      | Some d \<Rightarrow> if gd_kind d = DECL_LET then gd_name d else mangled_source_name (gd_name d))"

definition too_many_const :: "string \<Rightarrow> string" where
  "too_many_const disp =
     ''infinite generic instantiation of '' @ [squote] @ disp @ [squote] @
     '': it is instantiated with an unbounded family of distinct const arguments (exceeded '' @
     dec_nat MONO_MAX_PER_TEMPLATE @
     '' instances). A generic that calls itself with a changing const argument (e.g. f<'' @ [squote] @
     ''n + 1>) requires infinitely many monomorphized copies.''"

definition too_deep :: "string \<Rightarrow> string" where
  "too_deep disp =
     ''infinite generic instantiation of '' @ [squote] @ disp @ [squote] @
     '': it is instantiated with an unbounded family of ever-deeper type arguments (exceeded depth '' @
     dec_nat MONO_MAX_INSTANTIATION_DEPTH @ '' / '' @ dec_nat MONO_MAX_INSTANCES @
     '' instances). A generic function or type that instantiates itself with a growing type argument (e.g. f(some(x)), '' @
     ''or a non-uniform recursive type) requires infinitely many monomorphized copies.''"

definition mono_register ::
  "string \<Rightarrow> string option \<Rightarrow> ctype list \<Rightarrow> gen_decl option \<Rightarrow> decl_kind \<Rightarrow> string list \<Rightarrow> mono_state \<Rightarrow>
     string \<times> mono_state" where
  "mono_register name ns_prefix args tmpl k params st =
     (if ms_reports st \<noteq> [] then (name, st)
      else
        let base = (case ns_prefix of None \<Rightarrow> name | Some p \<Rightarrow> p @ ''__'' @ name);
            mangled = mangle_with_args base args;
            es = ms_entries st
        in if find_entry mangled es \<noteq> None then (mangled, st)
           else if list_ex (\<lambda>t. kind t = Prim TYPE_VOID) args then
             (mangled, mono_report (decl_loc tmpl)
                (''cannot instantiate '' @ [squote] @ name @ [squote] @ '' with void: void is not a value type'') st)
           else
             let n = template_count tmpl args es
             in if max_depth args > MONO_MAX_INSTANTIATION_DEPTH \<or> length es \<ge> MONO_MAX_INSTANCES \<or>
                   n \<ge> MONO_MAX_PER_TEMPLATE then
                  (mangled, mono_report (decl_loc tmpl)
                     (if n \<ge> MONO_MAX_PER_TEMPLATE then too_many_const (template_display name tmpl)
                      else too_deep (template_display name tmpl)) st)
                else
                  let sas = (case tmpl of None \<Rightarrow> [] | Some d \<Rightarrow> gd_asserts d);
                      disp = (case sas of [] \<Rightarrow> name | sa # _ \<Rightarrow> (case sa_owner sa of None \<Rightarrow> name | Some n \<Rightarrow> n))
                  in case judge_asserts disp (zip params args) args sas (ms_pending st) of
                       (Some (loc, msg), err) \<Rightarrow> (mangled, mono_report loc msg (st\<lparr>ms_pending := err\<rparr>))
                     | (None, err) \<Rightarrow>
                         (mangled,
                          st\<lparr>ms_pending := err,
                             ms_entries := es @
                               [\<lparr>mi_generic_name = name, mi_mangled_name = mangled, mi_ns_prefix = ns_prefix, mi_type_args = args,
                                 mi_template = tmpl, mi_kind = k, mi_concrete = None, mi_params = params\<rparr>]\<rparr>))"

subsection \<open>Names of instances in a type\<close>

definition concrete_inst :: "ctype list \<Rightarrow> ctype \<Rightarrow> bool" where
  "concrete_inst args t \<longleftrightarrow> args \<noteq> [] \<and> \<not> type_contains_type_var t"

fun mono_resolve_type_names :: "mono_instance list \<Rightarrow> ctype \<Rightarrow> ctype" where
  "mono_resolve_type_names es (TPointer i t) = TPointer i (mono_resolve_type_names es t)"
| "mono_resolve_type_names es (TSlice i t) = TSlice i (mono_resolve_type_names es t)"
| "mono_resolve_type_names es (TOption i t) = TOption i (mono_resolve_type_names es t)"
| "mono_resolve_type_names es (TResult i t) = TResult i (mono_resolve_type_names es t)"
| "mono_resolve_type_names es (TFixedArray i t n r) = TFixedArray i (mono_resolve_type_names es t) n r"
| "mono_resolve_type_names es (TFunc i ps r v tp) =
     TFunc i (map (mono_resolve_type_names es) ps) (mono_resolve_type_names es r) v tp"
| "mono_resolve_type_names es (TStruct i s fs args) =
     (let fs' = map (\<lambda>f. Field (f_name f) (mono_resolve_type_names es (f_type f)) (f_loc f)) fs
      in if sc_is_tuple s then
           if \<not> type_contains_type_var (TStruct i s fs' args) then
             let cn = mangle_tuple fs' in TStruct i (s\<lparr>sc_name := Some cn, sc_qualified_name := Some cn\<rparr>) fs' args
           else TStruct i s fs' args
         else if concrete_inst args (TStruct i s fs args) \<and> mono_find es (sc_name s) = None then
           TStruct i (s\<lparr>sc_name := Some (mangle_type_name (TStruct i s fs args))\<rparr>) fs' args
         else TStruct i s fs' args)"
| "mono_resolve_type_names es (TUnion i u vs args) =
     (let vs' = map (\<lambda>v. Variant (v_name v) (map_option (mono_resolve_type_names es) (v_payload v)) (v_loc v)) vs
      in if concrete_inst args (TUnion i u vs args) \<and> mono_find es (Some (un_name u)) = None then
           TUnion i (u\<lparr>un_name := mangle_type_name (TUnion i u vs args)\<rparr>) vs' args
         else TUnion i u vs' args)"
| "mono_resolve_type_names es (TStub i s args) =
     (if concrete_inst args (TStub i s args) \<and> st_base_name s = None \<and> mono_find es (Some (st_name s)) = None then
        TStub i (s\<lparr>st_base_name := Some (st_name s), st_name := mangle_with_args (st_name s) args\<rparr>) args
      else TStub i s args)"
| "mono_resolve_type_names es t = t"

subsection \<open>Discovery in types\<close>

text \<open>
  The symbols: of a recorded template or callee by its canonical name, and the lookup of a name in
  the symbol table, which gives the canonical name.
\<close>

record mono_ctx =
  mc_symbol :: "string \<Rightarrow> gen_symbol option"
  mc_lookup :: "string \<Rightarrow> decl_kind \<Rightarrow> string option"

definition symbol_of :: "mono_ctx \<Rightarrow> string option \<Rightarrow> gen_symbol option" where
  "symbol_of c canonical = (case canonical of None \<Rightarrow> None | Some n \<Rightarrow> mc_symbol c n)"

fun set_concrete :: "string \<Rightarrow> ctype \<Rightarrow> mono_instance list \<Rightarrow> mono_instance list" where
  "set_concrete n ct [] = []"
| "set_concrete n ct (e # es) =
     (if mi_mangled_name e = n then e\<lparr>mi_concrete := Some ct\<rparr> # es else e # set_concrete n ct es)"

definition give_concrete :: "string \<Rightarrow> ctype \<Rightarrow> mono_state \<Rightarrow> mono_state" where
  "give_concrete n ct st =
     (case find_entry n (ms_entries st) of
        None \<Rightarrow> st
      | Some e \<Rightarrow> if mi_concrete e \<noteq> None then st else st\<lparr>ms_entries := set_concrete n ct (ms_entries st)\<rparr>)"

fun named_as :: "string \<Rightarrow> ctype \<Rightarrow> ctype" where
  "named_as n (TStruct i s fs args) = TStruct i (s\<lparr>sc_name := Some n\<rparr>) fs args"
| "named_as n (TUnion i u vs args) = TUnion i (u\<lparr>un_name := n\<rparr>) vs args"
| "named_as n t = t"

definition mono_instantiate :: "gen_symbol \<Rightarrow> string \<Rightarrow> ctype list \<Rightarrow> mono_state \<Rightarrow> mono_state" where
  "mono_instantiate sm base args st =
     (let (mangled, st1) = mono_register base None args (gs_decl sm) (gs_kind sm) (gs_params sm) st
      in case find_entry mangled (ms_entries st1) of
           None \<Rightarrow> st1
         | Some e \<Rightarrow>
             if mi_concrete e \<noteq> None then st1
             else case gs_type sm of
                    None \<Rightarrow> st1
                  | Some t \<Rightarrow>
                      let (ct, err) = type_substitute (zip (gs_params sm) args) t (ms_pending st1)
                      in give_concrete mangled
                           (mono_resolve_type_names (ms_entries st1) (named_as mangled (type_deep_copy ct)))
                           (st1\<lparr>ms_pending := err\<rparr>))"

definition usable :: "gen_symbol option \<Rightarrow> gen_symbol option" where
  "usable sm =
     (case sm of None \<Rightarrow> None | Some s \<Rightarrow> if gs_generic s \<and> gs_decl s \<noteq> None \<and> gs_type s \<noteq> None then Some s else None)"

definition instantiate_new :: "mono_ctx \<Rightarrow> string option \<Rightarrow> string \<Rightarrow> ctype list \<Rightarrow> mono_state \<Rightarrow> mono_state" where
  "instantiate_new c canonical base args st =
     (if find_entry (mangle_with_args base args) (ms_entries st) = None then
        case usable (symbol_of c canonical) of
          None \<Rightarrow> st
        | Some s \<Rightarrow> mono_instantiate s base args st
      else st)"

definition stub_template :: "mono_ctx \<Rightarrow> string \<Rightarrow> string option" where
  "stub_template c base =
     (case mc_lookup c base DECL_STRUCT of Some n \<Rightarrow> Some n | None \<Rightarrow> mc_lookup c base DECL_UNION)"

definition register_tuple :: "string \<Rightarrow> ctype \<Rightarrow> mono_state \<Rightarrow> mono_state" where
  "register_tuple cn t st =
     (let (mangled, st1) = mono_register cn None [] None DECL_STRUCT [] st in give_concrete mangled t st1)"

text \<open>The template a node is recorded to instantiate, looked up when the node has none.\<close>

definition template_of :: "mono_ctx \<Rightarrow> string option \<Rightarrow> string option \<Rightarrow> decl_kind \<Rightarrow> string option" where
  "template_of c resolved name k =
     (case resolved of Some n \<Rightarrow> Some n | None \<Rightarrow> (case name of None \<Rightarrow> None | Some n \<Rightarrow> mc_lookup c n k))"

function (sequential) discover_nested_types :: "mono_ctx \<Rightarrow> ctype \<Rightarrow> mono_state \<Rightarrow> ctype \<times> mono_state"
  and discover_list :: "mono_ctx \<Rightarrow> ctype list \<Rightarrow> mono_state \<Rightarrow> ctype list \<times> mono_state"
  and discover_fields :: "mono_ctx \<Rightarrow> ctype struct_field list \<Rightarrow> mono_state \<Rightarrow> ctype struct_field list \<times> mono_state"
  and discover_variants :: "mono_ctx \<Rightarrow> ctype union_variant list \<Rightarrow> mono_state \<Rightarrow> ctype union_variant list \<times> mono_state" where
  "discover_nested_types c (TPointer i t) st = (case discover_nested_types c t st of (t, st) \<Rightarrow> (TPointer i t, st))"
| "discover_nested_types c (TSlice i t) st = (case discover_nested_types c t st of (t, st) \<Rightarrow> (TSlice i t, st))"
| "discover_nested_types c (TOption i t) st = (case discover_nested_types c t st of (t, st) \<Rightarrow> (TOption i t, st))"
| "discover_nested_types c (TResult i t) st = (case discover_nested_types c t st of (t, st) \<Rightarrow> (TResult i t, st))"
| "discover_nested_types c (TFixedArray i t n r) st = (case discover_nested_types c t st of (t, st) \<Rightarrow> (TFixedArray i t n r, st))"
| "discover_nested_types c (TFunc i ps r v tp) st =
     (case discover_list c ps st of (ps, st) \<Rightarrow> case discover_nested_types c r st of (r, st) \<Rightarrow> (TFunc i ps r v tp, st))"
| "discover_nested_types c (TStruct i s fs args) st =
     (if sc_is_tuple s then
        case discover_fields c fs st of (fs, st) \<Rightarrow>
          if \<not> type_contains_type_var (TStruct i s fs args) then
            let cn = mangle_tuple fs; t = TStruct i (s\<lparr>sc_name := Some cn, sc_qualified_name := Some cn\<rparr>) fs args
            in (t, if find_entry cn (ms_entries st) = None then register_tuple cn (type_deep_copy t) st else st)
          else (TStruct i s fs args, st)
      else if concrete_inst args (TStruct i s fs args) \<and> mono_find (ms_entries st) (sc_name s) = None then
        let s = s\<lparr>sc_resolved := template_of c (sc_resolved s) (sc_name s) DECL_STRUCT\<rparr>
        in case discover_list c args st of (args, st) \<Rightarrow>
             let st = instantiate_new c (sc_resolved s) (or_null (instance_base_name (TStruct i s fs args))) args st
             in case discover_fields c fs st of (fs, st) \<Rightarrow> (TStruct i s fs args, st)
      else case discover_fields c fs st of (fs, st) \<Rightarrow> (TStruct i s fs args, st))"
| "discover_nested_types c (TUnion i u vs args) st =
     (if concrete_inst args (TUnion i u vs args) \<and> mono_find (ms_entries st) (Some (un_name u)) = None then
        let u = u\<lparr>un_resolved := template_of c (un_resolved u) (Some (un_name u)) DECL_UNION\<rparr>
        in case discover_list c args st of (args, st) \<Rightarrow>
             let st = instantiate_new c (un_resolved u) (or_null (instance_base_name (TUnion i u vs args))) args st
             in case discover_variants c vs st of (vs, st) \<Rightarrow> (TUnion i u vs args, st)
      else case discover_variants c vs st of (vs, st) \<Rightarrow> (TUnion i u vs args, st))"
| "discover_nested_types c (TStub i s args) st =
     (TStub i s args,
      if concrete_inst args (TStub i s args) \<and> mono_find (ms_entries st) (Some (st_name s)) = None then
        let base = or_null (instance_base_name (TStub i s args)) in instantiate_new c (stub_template c base) base args st
      else st)"
| "discover_nested_types c t st = (t, st)"
| "discover_list c [] st = ([], st)"
| "discover_list c (t # ts) st =
     (case discover_nested_types c t st of (t, st) \<Rightarrow> case discover_list c ts st of (ts, st) \<Rightarrow> (t # ts, st))"
| "discover_fields c [] st = ([], st)"
| "discover_fields c (Field n t l # fs) st =
     (case discover_nested_types c t st of (t, st) \<Rightarrow> case discover_fields c fs st of (fs, st) \<Rightarrow> (Field n t l # fs, st))"
| "discover_variants c [] st = ([], st)"
| "discover_variants c (Variant n None l # vs) st =
     (case discover_variants c vs st of (vs, st) \<Rightarrow> (Variant n None l # vs, st))"
| "discover_variants c (Variant n (Some t) l # vs) st =
     (case discover_nested_types c t st of (t, st) \<Rightarrow>
        case discover_variants c vs st of (vs, st) \<Rightarrow> (Variant n (Some t) l # vs, st))"

  by pat_completeness auto

termination
  by (relation "measure (\<lambda>x. case x of
        Inl (Inl (c, t, st)) \<Rightarrow> size t | Inl (Inr (c, ts, st)) \<Rightarrow> size_list size ts
      | Inr (Inl (c, fs, st)) \<Rightarrow> size_list (size_struct_field size) fs
      | Inr (Inr (c, vs, st)) \<Rightarrow> size_list (size_union_variant size) vs)") auto

subsection \<open>Discovery in function bodies\<close>

fun substitute_type_args :: "bindings \<Rightarrow> ctype list \<Rightarrow> const_err \<Rightarrow> ctype list \<times> const_err" where
  "substitute_type_args bs [] err = ([], err)"
| "substitute_type_args bs (t # ts) err =
     (case type_substitute bs t err of (t, err) \<Rightarrow>
        case substitute_type_args bs ts err of (ts, err) \<Rightarrow> (t # ts, err))"

definition discover_in_type :: "mono_ctx \<Rightarrow> bindings \<Rightarrow> ctype option \<Rightarrow> mono_state \<Rightarrow> mono_state" where
  "discover_in_type c bs ty st =
     (case ty of
        None \<Rightarrow> st
      | Some t \<Rightarrow>
          let (ct, err) = type_substitute bs t (ms_pending st); st = st\<lparr>ms_pending := err\<rparr>
          in if type_contains_type_var ct then st else snd (discover_nested_types c (type_deep_copy ct) st))"

definition callee_base :: "gen_symbol \<Rightarrow> string" where
  "callee_base s =
     (case gs_decl s of
        None \<Rightarrow> gs_name s
      | Some d \<Rightarrow>
          if gd_kind d = DECL_LET then (case gd_codegen_name d of None \<Rightarrow> gs_name s | Some n \<Rightarrow> n) else gs_name s)"

definition discover_call ::
  "mono_ctx \<Rightarrow> bindings \<Rightarrow> string option \<Rightarrow> ctype list \<Rightarrow> string option \<Rightarrow> mono_state \<Rightarrow> mono_state" where
  "discover_call c bs mangled_name type_args callee st =
     (if mangled_name \<noteq> None \<or> type_args = [] then st
      else
        let (args, err) = substitute_type_args bs type_args (ms_pending st); st = st\<lparr>ms_pending := err\<rparr>
        in if list_ex type_contains_type_var args then st
           else case discover_list c args st of (args, st) \<Rightarrow>
             case symbol_of c callee of
               None \<Rightarrow> st
             | Some s \<Rightarrow> snd (mono_register (callee_base s) None args (gs_decl s) DECL_LET (gs_params s) st))"

definition discover_tuple_lit :: "bindings \<Rightarrow> ctype option \<Rightarrow> mono_state \<Rightarrow> mono_state" where
  "discover_tuple_lit bs ty st =
     (case ty of
        Some (TStruct i s fs args) \<Rightarrow>
          if \<not> sc_is_tuple s \<or> \<not> type_contains_type_var (TStruct i s fs args) then st
          else
            let (ct, err) = type_substitute bs (TStruct i s fs args) (ms_pending st); st = st\<lparr>ms_pending := err\<rparr>
            in if type_contains_type_var ct then st
               else let ct = mono_resolve_type_names (ms_entries st) (type_deep_copy ct)
                    in register_tuple (case ct of TStruct _ s _ _ \<Rightarrow> or_null (sc_name s) | _ \<Rightarrow> []) ct st
      | _ \<Rightarrow> st)"

definition discover_node :: "mono_ctx \<Rightarrow> bindings \<Rightarrow> expr_node \<Rightarrow> mono_state \<Rightarrow> mono_state" where
  "discover_node c bs e st =
     (case e of
        EXPR_CALL m args callee \<Rightarrow> discover_call c bs m args callee st
      | EXPR_STRUCT_LIT ty \<Rightarrow>
          (case ty of
             None \<Rightarrow> st
           | Some t \<Rightarrow> if type_contains_type_var t then discover_in_type c bs ty st else st)
      | EXPR_TUPLE_LIT ty \<Rightarrow> discover_tuple_lit bs ty st
      | EXPR_FIELD is_ctor ty \<Rightarrow> if is_ctor then discover_in_type c bs ty st else st
      | EXPR_DEREF_FIELD is_ctor ty \<Rightarrow> if is_ctor then discover_in_type c bs ty st else st
      | EXPR_ARRAY_LIT ty \<Rightarrow> discover_in_type c bs ty st
      | EXPR_SLICE_LIT ty \<Rightarrow> discover_in_type c bs ty st
      | EXPR_CAST ty \<Rightarrow> discover_in_type c bs ty st
      | EXPR_BITCAST ty \<Rightarrow> discover_in_type c bs ty st
      | EXPR_ERR ty \<Rightarrow> discover_in_type c bs ty st
      | EXPR_ALLOC ty \<Rightarrow> discover_in_type c bs ty st
      | EXPR_SIZEOF ty \<Rightarrow> discover_in_type c bs ty st
      | EXPR_ALIGNOF ty \<Rightarrow> discover_in_type c bs ty st
      | EXPR_DEFAULT ty \<Rightarrow> discover_in_type c bs ty st
      | EXPR_OTHER \<Rightarrow> st)"

fun discover_in_expr :: "mono_ctx \<Rightarrow> bindings \<Rightarrow> body_expr \<Rightarrow> mono_state \<Rightarrow> mono_state"
  and discover_in_exprs :: "mono_ctx \<Rightarrow> bindings \<Rightarrow> body_expr list \<Rightarrow> mono_state \<Rightarrow> mono_state" where
  "discover_in_expr c bs (Body e children) st = discover_node c bs e (discover_in_exprs c bs children st)"
| "discover_in_exprs c bs [] st = st"
| "discover_in_exprs c bs (e # es) st = discover_in_exprs c bs es (discover_in_expr c bs e st)"

text \<open>The entry at an index: the body of a function template, under the entry's arguments.\<close>

definition discover_body :: "mono_ctx \<Rightarrow> nat \<Rightarrow> mono_state \<Rightarrow> mono_state" where
  "discover_body c i st =
     (let e = ms_entries st ! i
      in if mi_kind e \<noteq> DECL_LET then st
         else case mi_template e of
                None \<Rightarrow> st
              | Some d \<Rightarrow>
                  (case gd_body d of
                     None \<Rightarrow> st
                   | Some es \<Rightarrow> discover_in_exprs c (zip (mi_params e) (mi_type_args e)) es st))"

definition mono_drain_const_eval_error :: "mono_state \<Rightarrow> mono_state" where
  "mono_drain_const_eval_error st =
     (case const_eval_take_error (ms_pending st) of
        (None, err) \<Rightarrow> st\<lparr>ms_pending := err\<rparr>
      | (Some (emsg, eloc), err) \<Rightarrow>
          mono_report eloc (emsg @ '' (in a const-generic instantiation)'') (st\<lparr>ms_pending := err\<rparr>))"

subsection \<open>Finalization\<close>

fun discover_members :: "mono_ctx \<Rightarrow> ctype \<Rightarrow> mono_state \<Rightarrow> ctype \<times> mono_state" where
  "discover_members c (TStruct i s fs args) st =
     (case discover_fields c fs st of (fs, st) \<Rightarrow> (TStruct i s fs args, st))"
| "discover_members c (TUnion i u vs args) st =
     (case discover_variants c vs st of (vs, st) \<Rightarrow> (TUnion i u vs args, st))"
| "discover_members c t st = (t, st)"

definition set_entry_concrete :: "nat \<Rightarrow> ctype \<Rightarrow> mono_state \<Rightarrow> mono_state" where
  "set_entry_concrete i ct st =
     st\<lparr>ms_entries := (ms_entries st)[i := (ms_entries st ! i)\<lparr>mi_concrete := Some ct\<rparr>]\<rparr>"

definition discover_entry :: "mono_ctx \<Rightarrow> nat \<Rightarrow> mono_state \<Rightarrow> mono_state" where
  "discover_entry c i st =
     (let e = ms_entries st ! i
      in case mi_concrete e of
           None \<Rightarrow> st
         | Some ct \<Rightarrow>
             if mi_kind e = DECL_STRUCT \<or> mi_kind e = DECL_UNION then
               case discover_members c ct st of (ct, st) \<Rightarrow> set_entry_concrete i ct st
             else st)"

fun over_indices :: "(nat \<Rightarrow> mono_state \<Rightarrow> mono_state) \<Rightarrow> nat list \<Rightarrow> mono_state \<Rightarrow> mono_state" where
  "over_indices f [] st = st"
| "over_indices f (i # is) st = over_indices f is (f i st)"

definition map_concrete :: "(ctype \<Rightarrow> ctype) \<Rightarrow> mono_state \<Rightarrow> mono_state" where
  "map_concrete f st =
     st\<lparr>ms_entries := map (\<lambda>e. e\<lparr>mi_concrete := map_option f (mi_concrete e)\<rparr>) (ms_entries st)\<rparr>"

definition dangling_message :: string where
  "dangling_message =
     ''infinite generic instantiation: a generic type transitively references an '' @
     ''unbounded family of instances (a mutually or indirectly non-uniform '' @
     ''recursive type). A generic type may only refer to other generic types with '' @
     ''concrete or parameter-preserving type arguments around any recursion cycle.''"

definition report_dangling :: "gen_decl option \<Rightarrow> bool \<times> mono_state \<Rightarrow> bool \<times> mono_state" where
  "report_dangling site r = (True, mono_report (decl_loc site) dangling_message (snd r))"

definition unregistered :: "ctype list \<Rightarrow> string option \<Rightarrow> mono_state \<Rightarrow> bool" where
  "unregistered args name st \<longleftrightarrow> args \<noteq> [] \<and> mono_find (ms_entries st) name = None"

fun check_dangling_instance :: "gen_decl option \<Rightarrow> ctype \<Rightarrow> bool \<times> mono_state \<Rightarrow> bool \<times> mono_state" where
  "check_dangling_instance site ty r =
     (if fst r \<or> type_contains_type_var ty then r
      else
        case ty of
          TPointer _ t \<Rightarrow> check_dangling_instance site t r
        | TSlice _ t \<Rightarrow> check_dangling_instance site t r
        | TOption _ t \<Rightarrow> check_dangling_instance site t r
        | TResult _ t \<Rightarrow> check_dangling_instance site t r
        | TFixedArray _ t _ _ \<Rightarrow> check_dangling_instance site t r
        | TFunc _ ps ret _ _ \<Rightarrow> check_dangling_instance site ret (fold (check_dangling_instance site) ps r)
        | TStruct _ s _ args \<Rightarrow> if unregistered args (sc_name s) (snd r) then report_dangling site r else r
        | TUnion _ u _ args \<Rightarrow> if unregistered args (Some (un_name u)) (snd r) then report_dangling site r else r
        | TStub _ s args \<Rightarrow> if unregistered args (Some (st_name s)) (snd r) then report_dangling site r else r
        | _ \<Rightarrow> r)"

text \<open>The emitted members of an instance: the types of its fields, or its payloads.\<close>

fun member_types :: "ctype \<Rightarrow> ctype list" where
  "member_types (TStruct _ _ fs _) = map f_type fs"
| "member_types (TUnion _ _ vs _) = concat (map (\<lambda>v. case v_payload v of None \<Rightarrow> [] | Some t \<Rightarrow> [t]) vs)"
| "member_types _ = []"

definition check_entry :: "mono_instance \<Rightarrow> bool \<times> mono_state \<Rightarrow> bool \<times> mono_state" where
  "check_entry e r =
     (case mi_concrete e of
        None \<Rightarrow> r
      | Some ct \<Rightarrow> fold (check_dangling_instance (mi_template e)) (member_types ct) r)"

end
