(* ===== verification/FC_MonoSteps.thy ===== *)
theory FC_MonoSteps
  imports FC_Mono
begin

section \<open>Runs of the instance table\<close>

text \<open>
  What discovery and finalization do to the table, as a step relation: a registration, a change of
  recorded concrete types, a pending evaluation error, a report. Every operation is a run of steps;
  what a step keeps is proved once. The loops are defined here, where their termination is proved.
\<close>

subsection \<open>Steps\<close>

definition bare :: "mono_instance \<Rightarrow> mono_instance" where
  "bare e = e\<lparr>mi_concrete := None\<rparr>"

inductive mono_step :: "mono_state \<Rightarrow> mono_state \<Rightarrow> bool" where
  step_register: "mono_step st (snd (mono_register name ns_prefix args tmpl k params st))"
| step_concrete: "map bare es = map bare (ms_entries st) \<Longrightarrow> mono_step st (st\<lparr>ms_entries := es\<rparr>)"
| step_pending: "mono_step st (st\<lparr>ms_pending := err\<rparr>)"
| step_report: "mono_step st (mono_report loc msg st)"

abbreviation mono_run :: "mono_state \<Rightarrow> mono_state \<Rightarrow> bool" where
  "mono_run \<equiv> mono_step\<^sup>*\<^sup>*"

named_theorems mono_runs

lemma run_then: "mono_run st st1 \<Longrightarrow> mono_run st1 st2 \<Longrightarrow> mono_run st st2"
  by (rule rtranclp_trans)

lemma run_register [mono_runs]: "mono_run st (snd (mono_register name ns_prefix args tmpl k params st))"
  by (rule r_into_rtranclp) (rule step_register)

lemma run_pending [mono_runs]: "mono_run st (st\<lparr>ms_pending := err\<rparr>)"
  by (rule r_into_rtranclp) (rule step_pending)

lemma run_report [mono_runs]: "mono_run st (mono_report loc msg st)"
  by (rule r_into_rtranclp) (rule step_report)

lemma bare_concrete [simp]: "bare (e\<lparr>mi_concrete := x\<rparr>) = bare e"
  by (simp add: bare_def)

lemma bare_set_concrete: "map bare (set_concrete n ct es) = map bare es"
  by (induction es) auto

lemma run_give_concrete [mono_runs]: "mono_run st (give_concrete n ct st)"
  by (auto simp: give_concrete_def bare_set_concrete
      intro!: r_into_rtranclp step_concrete split: option.split)

lemma map_nth_self: "i < length es \<Longrightarrow> (map f es)[i := f (es ! i)] = map f es"
  by (simp add: list_update_same_conv)

lemma run_set_entry [mono_runs]: "mono_run st (set_entry_concrete i ct st)"
proof -
  have "map bare ((ms_entries st)[i := (ms_entries st ! i)\<lparr>mi_concrete := Some ct\<rparr>]) = map bare (ms_entries st)"
    by (cases "i < length (ms_entries st)") (simp_all add: map_update map_nth_self list_update_beyond)
  then show ?thesis
    unfolding set_entry_concrete_def by (intro r_into_rtranclp step_concrete)
qed

lemma run_map_concrete [mono_runs]: "mono_run st (map_concrete f st)"
  unfolding map_concrete_def by (intro r_into_rtranclp step_concrete) (simp add: comp_def)

subsection \<open>The operations are runs\<close>

lemma run_instantiate [mono_runs]: "mono_run st (mono_instantiate s base args st)"
proof -
  obtain m st1 where r: "mono_register base None args (gs_decl s) (gs_kind s) (gs_params s) st = (m, st1)"
    by fastforce
  have st1: "mono_run st st1"
    using run_register [of st base None args "gs_decl s" "gs_kind s" "gs_params s"] r by simp
  have "mono_run st1 (give_concrete m ct (st1\<lparr>ms_pending := err\<rparr>))" for ct err
    by (rule run_then [OF run_pending run_give_concrete])
  then show ?thesis
    using st1 r by (auto simp: mono_instantiate_def split: option.split prod.split intro: run_then)
qed

lemma run_instantiate_new [mono_runs]: "mono_run st (instantiate_new c canonical base args st)"
  by (auto simp: instantiate_new_def run_instantiate split: option.split)

lemma run_register_tuple [mono_runs]: "mono_run st (register_tuple cn t st)"
proof -
  obtain m st1 where r: "mono_register cn None [] None DECL_STRUCT [] st = (m, st1)"
    by fastforce
  have "mono_run st st1"
    using run_register [of st cn None "[]" None DECL_STRUCT "[]"] r by simp
  then show ?thesis
    by (simp add: register_tuple_def r) (rule run_then [OF _ run_give_concrete])
qed

lemma run_bind:
  "mono_run st (snd p) \<Longrightarrow> (\<And>x s. p = (x, s) \<Longrightarrow> mono_run s (snd (f x s))) \<Longrightarrow>
    mono_run st (snd (case p of (x, s) \<Rightarrow> f x s))"
  by (cases p) (auto intro: run_then)

lemma run_discover:
  shows run_nested [mono_runs]: "mono_run st (snd (discover_nested_types c t st))"
    and run_list [mono_runs]: "mono_run st (snd (discover_list c ts st))"
    and run_fields [mono_runs]: "mono_run st (snd (discover_fields c fs st))"
    and run_variants [mono_runs]: "mono_run st (snd (discover_variants c vs st))"
proof (induction c t st and c ts st and c fs st and c vs st
      rule: discover_nested_types_discover_list_discover_fields_discover_variants.induct)
  case (7 c i s fs args st)
  obtain fs1 st1 where fs: "discover_fields c fs st = (fs1, st1)"
    by fastforce
  obtain as1 st2 where as: "discover_list c args st = (as1, st2)"
    by fastforce
  show ?case
  proof (cases "sc_is_tuple s")
    case True
    then show ?thesis
      using 7(1) by (auto simp: fs Let_def intro: run_then [OF _ run_register_tuple])
  next
    case False
    have plain: "\<not> (concrete_inst args (TStruct i s fs args) \<and> mono_find (ms_entries st) (sc_name s) = None)
        \<Longrightarrow> mono_run st st1"
      using 7(4) False by (simp add: fs)
    have args: "concrete_inst args (TStruct i s fs args) \<and> mono_find (ms_entries st) (sc_name s) = None
        \<Longrightarrow> mono_run st st2"
      using 7(2) [OF False _ refl] as by simp
    show ?thesis
      using False plain run_then [OF args run_then [OF run_instantiate_new 7(3) [OF False _ refl as [symmetric] refl]]]
      by (auto simp: fs as Let_def split: prod.split)
  qed
next
  case (8 c i u vs args st)
  obtain vs1 st1 where vs: "discover_variants c vs st = (vs1, st1)"
    by fastforce
  obtain as1 st2 where as: "discover_list c args st = (as1, st2)"
    by fastforce
  have plain: "\<not> (concrete_inst args (TUnion i u vs args) \<and> mono_find (ms_entries st) (Some (un_name u)) = None)
      \<Longrightarrow> mono_run st st1"
    using 8(3) by (simp add: vs)
  have args: "concrete_inst args (TUnion i u vs args) \<and> mono_find (ms_entries st) (Some (un_name u)) = None
      \<Longrightarrow> mono_run st st2"
    using 8(1) [OF _ refl] as by simp
  show ?case
    using plain run_then [OF args run_then [OF run_instantiate_new 8(2) [OF _ refl as [symmetric] refl]]]
    by (auto simp: vs as Let_def split: prod.split)
qed (auto simp: Let_def intro!: run_bind intro: mono_runs)

lemma run_in_type [mono_runs]: "mono_run st (discover_in_type c bs ty st)"
proof -
  have "mono_run st (snd (discover_nested_types c t (st\<lparr>ms_pending := err\<rparr>)))" for t err
    by (rule run_then [OF run_pending run_nested])
  then show ?thesis
    by (auto simp: discover_in_type_def run_pending Let_def split: option.split prod.split)
qed

lemma run_call [mono_runs]: "mono_run st (discover_call c bs m targs callee st)"
proof -
  obtain args err where a: "substitute_type_args bs targs (ms_pending st) = (args, err)"
    by fastforce
  obtain args1 st1 where l: "discover_list c args (st\<lparr>ms_pending := err\<rparr>) = (args1, st1)"
    by fastforce
  have "mono_run st st1"
    using run_then [OF run_pending [of st err] run_list [of _ c args]] by (simp add: l)
  then show ?thesis
    by (auto simp: discover_call_def a l Let_def run_pending
        intro: run_then [OF _ run_register] split: option.split)
qed

lemma run_tuple_lit [mono_runs]: "mono_run st (discover_tuple_lit bs ty st)"
proof -
  have "mono_run st (register_tuple cn t (st\<lparr>ms_pending := err\<rparr>))" for cn t err
    by (rule run_then [OF run_pending run_register_tuple])
  then show ?thesis
    by (auto simp: discover_tuple_lit_def run_pending Let_def split: option.split ctype.split prod.split)
qed

lemma run_node [mono_runs]: "mono_run st (discover_node c bs e st)"
  by (auto simp: discover_node_def mono_runs split: expr_node.split option.split)

lemma run_in_expr_exprs:
  shows run_in_expr [mono_runs]: "mono_run st (discover_in_expr c bs e st)"
    and run_in_exprs [mono_runs]: "mono_run st (discover_in_exprs c bs es st)"
  by (induction c bs e st and c bs es st rule: discover_in_expr_discover_in_exprs.induct)
    (auto intro: run_then run_node)

lemma run_body [mono_runs]: "mono_run st (discover_body c i st)"
  by (auto simp: discover_body_def Let_def run_in_exprs split: option.split)

lemma run_drain [mono_runs]: "mono_run st (mono_drain_const_eval_error st)"
proof -
  have "mono_run st (mono_report loc msg (st\<lparr>ms_pending := err\<rparr>))" for loc msg err
    by (rule run_then [OF run_pending run_report])
  then show ?thesis
    by (auto simp: mono_drain_const_eval_error_def run_pending split: option.split prod.split)
qed

lemma run_members [mono_runs]: "mono_run st (snd (discover_members c t st))"
  by (cases t) (auto intro!: run_bind mono_runs)

lemma run_entry [mono_runs]: "mono_run st (discover_entry c i st)"
proof -
  have "mono_run st (set_entry_concrete i t1 st1)" if "discover_members c t st = (t1, st1)" for t t1 st1
    using run_members [of st c t] that by (auto intro: run_then [OF _ run_set_entry])
  then show ?thesis
    by (auto simp: discover_entry_def Let_def split: option.split prod.split)
qed

lemma run_over [mono_runs]: "(\<And>i st. mono_run st (f i st)) \<Longrightarrow> mono_run st (over_indices f is st)"
  by (induction "is" arbitrary: st) (auto intro: run_then)

subsection \<open>The table grows, up to its bound\<close>

text \<open>What a registration does: nothing, a report, or one more entry that passed every guard.\<close>

definition owner_name :: "string \<Rightarrow> gen_decl option \<Rightarrow> string" where
  "owner_name name tmpl =
     (case tmpl of
        None \<Rightarrow> name
      | Some d \<Rightarrow> (case gd_asserts d of [] \<Rightarrow> name | sa # _ \<Rightarrow> (case sa_owner sa of None \<Rightarrow> name | Some n \<Rightarrow> n)))"

definition decl_asserts :: "gen_decl option \<Rightarrow> static_assert_info list" where
  "decl_asserts tmpl = (case tmpl of None \<Rightarrow> [] | Some d \<Rightarrow> gd_asserts d)"

definition instance_base :: "mono_instance \<Rightarrow> string" where
  "instance_base e =
     (case mi_ns_prefix e of None \<Rightarrow> mi_generic_name e | Some p \<Rightarrow> p @ ''__'' @ mi_generic_name e)"

definition instance_ok :: "mono_instance \<Rightarrow> bool" where
  "instance_ok e \<longleftrightarrow>
     mi_mangled_name e = mangle_with_args (instance_base e) (mi_type_args e) \<and>
     (\<forall>t\<in>set (mi_type_args e). kind t \<noteq> Prim TYPE_VOID) \<and>
     max_depth (mi_type_args e) \<le> MONO_MAX_INSTANTIATION_DEPTH \<and>
     (\<exists>err. fst (judge_asserts (owner_name (mi_generic_name e) (mi_template e)) (zip (mi_params e) (mi_type_args e))
               (mi_type_args e) (decl_asserts (mi_template e)) err) = None)"

definition room_for :: "mono_instance \<Rightarrow> mono_instance list \<Rightarrow> bool" where
  "room_for e es \<longleftrightarrow>
     length es < MONO_MAX_INSTANCES \<and> find_entry (mi_mangled_name e) es = None \<and>
     template_count (mi_template e) (mi_type_args e) es < MONO_MAX_PER_TEMPLATE"

lemma register_cases:
  obtains "snd (mono_register name ns args tmpl k params st) = st"
  | loc msg err where
      "snd (mono_register name ns args tmpl k params st) = mono_report loc msg (st\<lparr>ms_pending := err\<rparr>)"
  | e err where
      "snd (mono_register name ns args tmpl k params st) = st\<lparr>ms_pending := err, ms_entries := ms_entries st @ [e]\<rparr>"
      "ms_reports st = []" "instance_ok e" "room_for e (ms_entries st)" "mi_concrete e = None"
proof -
  define r where "r = mono_register name ns args tmpl k params st"
  define base where "base = (case ns of None \<Rightarrow> name | Some p \<Rightarrow> p @ ''__'' @ name)"
  define j where "j = judge_asserts (owner_name name tmpl) (zip params args) args (decl_asserts tmpl) (ms_pending st)"
  define e where "e = \<lparr>mi_generic_name = name, mi_mangled_name = mangle_with_args base args, mi_ns_prefix = ns,
      mi_type_args = args, mi_template = tmpl, mi_kind = k, mi_concrete = None, mi_params = params\<rparr>"
  have own: "(case decl_asserts tmpl of [] \<Rightarrow> name
      | sa # _ \<Rightarrow> (case sa_owner sa of None \<Rightarrow> name | Some n \<Rightarrow> n)) = owner_name name tmpl"
    by (simp add: owner_name_def decl_asserts_def split: option.split)
  have rep: "\<exists>loc' msg' err. mono_report loc msg st = mono_report loc' msg' (st\<lparr>ms_pending := err\<rparr>)" for loc msg
    by (intro exI [of _ loc] exI [of _ msg] exI [of _ "ms_pending st"]) simp
  have "snd r = st \<or> (\<exists>loc msg err. snd r = mono_report loc msg (st\<lparr>ms_pending := err\<rparr>)) \<or>
      (ms_reports st = [] \<and> find_entry (mangle_with_args base args) (ms_entries st) = None \<and>
       \<not> list_ex (\<lambda>t. kind t = Prim TYPE_VOID) args \<and> max_depth args \<le> MONO_MAX_INSTANTIATION_DEPTH \<and>
       length (ms_entries st) < MONO_MAX_INSTANCES \<and>
       template_count tmpl args (ms_entries st) < MONO_MAX_PER_TEMPLATE \<and> fst j = None \<and>
       snd r = st\<lparr>ms_pending := snd j, ms_entries := ms_entries st @ [e]\<rparr>)"
    unfolding r_def mono_register_def Let_def base_def [symmetric] decl_asserts_def [symmetric] own j_def e_def
    by (auto simp: rep split: prod.split option.split if_splits)
  then show ?thesis
  proof (elim disjE exE conjE)
    assume a: "ms_reports st = []" "find_entry (mangle_with_args base args) (ms_entries st) = None"
      "\<not> list_ex (\<lambda>t. kind t = Prim TYPE_VOID) args" "max_depth args \<le> MONO_MAX_INSTANTIATION_DEPTH"
      "length (ms_entries st) < MONO_MAX_INSTANCES"
      "template_count tmpl args (ms_entries st) < MONO_MAX_PER_TEMPLATE" "fst j = None"
      "snd r = st\<lparr>ms_pending := snd j, ms_entries := ms_entries st @ [e]\<rparr>"
    have "instance_ok e"
      using a(3,4,7) unfolding instance_ok_def j_def
      by (auto simp: e_def instance_base_def base_def list_ex_iff split: option.split)
    moreover have "room_for e (ms_entries st)"
      using a(2,5,6) by (simp add: room_for_def e_def)
    moreover have "mi_concrete e = None"
      by (simp add: e_def)
    ultimately show ?thesis
      using that(3) [of e "snd j"] a(1,8) by (simp add: r_def)
  next
    assume "snd r = st"
    then show ?thesis
      using that(1) by (simp add: r_def)
  next
    fix loc msg err
    assume "snd r = mono_report loc msg (st\<lparr>ms_pending := err\<rparr>)"
    then show ?thesis
      using that(2) by (simp add: r_def)
  qed
qed

subsection \<open>Growth\<close>

text \<open>The table of a later state has the earlier entries first, grows only within the bound, and not after a report.\<close>

definition grows :: "mono_state \<Rightarrow> mono_state \<Rightarrow> bool" where
  "grows st st' \<longleftrightarrow>
     (\<exists>new. map bare (ms_entries st') = map bare (ms_entries st) @ new \<and>
        (new \<noteq> [] \<longrightarrow> length (ms_entries st') \<le> MONO_MAX_INSTANCES \<and> ms_reports st = [])) \<and>
     (\<exists>more. ms_reports st' = ms_reports st @ more)"

lemma grows_refl: "grows st st"
  by (simp add: grows_def)

lemma grows_trans:
  assumes ab: "grows a b" and bc: "grows b c"
  shows "grows a c"
proof -
  obtain n1 m1 where b: "map bare (ms_entries b) = map bare (ms_entries a) @ n1" "ms_reports b = ms_reports a @ m1"
      "n1 \<noteq> [] \<longrightarrow> length (ms_entries b) \<le> MONO_MAX_INSTANCES \<and> ms_reports a = []"
    using ab unfolding grows_def by blast
  obtain n2 m2 where c: "map bare (ms_entries c) = map bare (ms_entries b) @ n2" "ms_reports c = ms_reports b @ m2"
      "n2 \<noteq> [] \<longrightarrow> length (ms_entries c) \<le> MONO_MAX_INSTANCES \<and> ms_reports b = []"
    using bc unfolding grows_def by blast
  have "length (ms_entries c) = length (ms_entries b)" if "n2 = []"
    using c(1) that by (metis append_Nil2 length_map)
  then have "n1 @ n2 \<noteq> [] \<longrightarrow> length (ms_entries c) \<le> MONO_MAX_INSTANCES \<and> ms_reports a = []"
    using b(2,3) c(3) by auto
  then show ?thesis
    unfolding grows_def using b(1,2) c(1,2)
    by (intro conjI exI [of _ "n1 @ n2"] exI [of _ "m1 @ m2"]) simp_all
qed

lemma step_grows: "mono_step st st' \<Longrightarrow> grows st st'"
proof (induction rule: mono_step.induct)
  case (step_register st name ns_prefix args tmpl k params)
  show ?case
    by (rule register_cases [of name ns_prefix args tmpl k params st])
      (auto simp: grows_def mono_report_def room_for_def)
qed (auto simp: grows_def mono_report_def)

lemma run_grows: "mono_run st st' \<Longrightarrow> grows st st'"
  by (induction rule: rtranclp_induct) (auto intro: grows_refl grows_trans step_grows)

lemma grows_length: "grows st st' \<Longrightarrow> length (ms_entries st) \<le> length (ms_entries st')"
  unfolding grows_def by (metis length_append length_map le_add1)

lemma grows_bound:
  "grows st st' \<Longrightarrow> length (ms_entries st) < length (ms_entries st') \<Longrightarrow> length (ms_entries st') \<le> MONO_MAX_INSTANCES"
  unfolding grows_def by (metis append_Nil2 length_map less_irrefl)

subsection \<open>The loops\<close>

definition discover_round :: "mono_ctx \<Rightarrow> mono_state \<Rightarrow> mono_state" where
  "discover_round c st = over_indices (discover_entry c) [0..<length (ms_entries st)] st"

lemma run_round [mono_runs]: "mono_run st (discover_round c st)"
  unfolding discover_round_def by (intro run_over run_entry)

function discover_rounds :: "mono_ctx \<Rightarrow> mono_state \<Rightarrow> mono_state" where
  "discover_rounds c st =
     (let st' = discover_round c st
      in if length (ms_entries st) < length (ms_entries st') then discover_rounds c st' else st')"
  by pat_completeness auto

termination
proof (relation "measure (\<lambda>(c, st). MONO_MAX_INSTANCES - length (ms_entries st))")
  fix c :: mono_ctx and st st' :: mono_state
  assume "st' = discover_round c st" and less: "length (ms_entries st) < length (ms_entries st')"
  then have "length (ms_entries st') \<le> MONO_MAX_INSTANCES"
    using grows_bound [OF run_grows [OF run_round]] by blast
  then show "((c, st'), (c, st)) \<in> measure (\<lambda>(c, st). MONO_MAX_INSTANCES - length (ms_entries st))"
    using less by simp
qed simp

definition discover_batch :: "mono_ctx \<Rightarrow> nat \<Rightarrow> mono_state \<Rightarrow> mono_state" where
  "discover_batch c i st = over_indices (discover_body c) [i..<length (ms_entries st)] st"

lemma run_batch [mono_runs]: "mono_run st (discover_batch c i st)"
  unfolding discover_batch_def by (intro run_over run_body)

function discover_bodies :: "mono_ctx \<Rightarrow> nat \<Rightarrow> mono_state \<Rightarrow> mono_state" where
  "discover_bodies c discovered st =
     (if discovered < length (ms_entries st) then
        discover_bodies c (length (ms_entries st)) (discover_batch c discovered st)
      else st)"
  by pat_completeness auto

termination
proof (relation "measure (\<lambda>(c, i, st). max MONO_MAX_INSTANCES (length (ms_entries st)) - i)")
  fix c :: mono_ctx and i :: nat and st :: mono_state
  assume less: "i < length (ms_entries st)"
  have g: "grows st (discover_batch c i st)"
    by (rule run_grows [OF run_batch])
  show "((c, length (ms_entries st), discover_batch c i st), (c, i, st))
      \<in> measure (\<lambda>(c, i, st). max MONO_MAX_INSTANCES (length (ms_entries st)) - i)"
    using less grows_length [OF g] grows_bound [OF g]
    by (cases "length (ms_entries st) < length (ms_entries (discover_batch c i st))") auto
qed simp

definition mono_discover_transitive :: "mono_ctx \<Rightarrow> mono_state \<Rightarrow> mono_state" where
  "mono_discover_transitive c st = mono_drain_const_eval_error (discover_bodies c 0 st)"

definition resolve_all :: "mono_state \<Rightarrow> mono_state" where
  "resolve_all st = map_concrete (mono_resolve_type_names (ms_entries st)) st"

definition mono_finalize_types :: "mono_ctx \<Rightarrow> mono_state \<Rightarrow> mono_state" where
  "mono_finalize_types c st =
     (if ms_entries st = [] then st
      else
        let st = map_concrete type_deep_copy st;
            st = discover_rounds c st;
            st = mono_drain_const_eval_error st;
            st = resolve_all st
        in snd (fold check_entry (ms_entries st) (ms_reports st \<noteq> [], st)))"

declare discover_rounds.simps [simp del]
declare discover_bodies.simps [simp del]

lemma run_rounds [mono_runs]: "mono_run st (discover_rounds c st)"
proof (induction c st rule: discover_rounds.induct)
  case (1 c st)
  then show ?case
    using run_round [of st c] by (simp add: discover_rounds.simps [of c st] Let_def run_then)
qed

lemma run_bodies [mono_runs]: "mono_run st (discover_bodies c i st)"
proof (induction c i st rule: discover_bodies.induct)
  case (1 c i st)
  then show ?case
    using run_batch [of st c i] by (simp add: discover_bodies.simps [of c i st] run_then)
qed

lemma run_transitive: "mono_run st (mono_discover_transitive c st)"
  unfolding mono_discover_transitive_def by (rule run_then [OF run_bodies run_drain])

subsection \<open>The dangling check\<close>

text \<open>What a member type makes the code emit: the named types under wrappers and signatures.\<close>

fun emitted :: "ctype \<Rightarrow> ctype list" where
  "emitted (TPointer _ t) = emitted t"
| "emitted (TSlice _ t) = emitted t"
| "emitted (TOption _ t) = emitted t"
| "emitted (TResult _ t) = emitted t"
| "emitted (TFixedArray _ t _ _) = emitted t"
| "emitted (TFunc _ ps r _ _) = concat (map emitted ps) @ emitted r"
| "emitted t = [t]"

definition missing :: "mono_instance list \<Rightarrow> ctype \<Rightarrow> bool" where
  "missing es n \<longleftrightarrow>
     (case n of
        TStruct _ s _ args \<Rightarrow> args \<noteq> [] \<and> mono_find es (sc_name s) = None
      | TUnion _ u _ args \<Rightarrow> args \<noteq> [] \<and> mono_find es (Some (un_name u)) = None
      | TStub _ s args \<Rightarrow> args \<noteq> [] \<and> mono_find es (Some (st_name s)) = None
      | _ \<Rightarrow> False)"

definition dangles :: "mono_instance list \<Rightarrow> ctype \<Rightarrow> bool" where
  "dangles es t \<longleftrightarrow> \<not> has_var t \<and> list_ex (missing es) (emitted t)"

lemma has_var_list_ex: "has_var_list ts = list_ex has_var ts"
  by (induction ts) auto

lemma fold_dangling:
  assumes "\<And>t r. t \<in> set ts \<Longrightarrow> f t r =
      (if \<not> fst r \<and> dangles (ms_entries (snd r)) t then report_dangling site r else r)"
  shows "fold f ts r = (if \<not> fst r \<and> list_ex (dangles (ms_entries (snd r))) ts then report_dangling site r else r)"
  using assms
proof (induction ts arbitrary: r)
  case (Cons t ts)
  have "f t r = (if \<not> fst r \<and> dangles (ms_entries (snd r)) t then report_dangling site r else r)"
    by (rule Cons.prems) simp
  moreover have "fold f ts r' = (if \<not> fst r' \<and> list_ex (dangles (ms_entries (snd r'))) ts
      then report_dangling site r' else r')" for r'
    by (rule Cons.IH) (rule Cons.prems, simp)
  ultimately show ?case
    by (simp add: report_dangling_def)
qed simp

declare check_dangling_instance.simps [simp del]

lemmas check_wrappers =
  check_dangling_instance.simps [of _ "TPointer i t"] check_dangling_instance.simps [of _ "TSlice i t"]
  check_dangling_instance.simps [of _ "TOption i t"] check_dangling_instance.simps [of _ "TResult i t"]
  check_dangling_instance.simps [of _ "TFixedArray i t n ref"] for i t n ref

lemma check_dangling:
  "check_dangling_instance site t r =
     (if \<not> fst r \<and> dangles (ms_entries (snd r)) t then report_dangling site r else r)"
proof (induction t arbitrary: r)
  case (TFunc i ps ret v tp)
  have ps: "fold (check_dangling_instance site) ps r =
      (if \<not> fst r \<and> list_ex (dangles (ms_entries (snd r))) ps then report_dangling site r else r)" for r
    by (rule fold_dangling) (rule TFunc.IH(1))
  show ?case
    by (simp add: check_dangling_instance.simps [of site "TFunc i ps ret v tp"] ps TFunc.IH(2) contains_plain
        report_dangling_def)
      (auto simp: dangles_def list_ex_iff has_var_list_ex)
qed (auto simp: check_wrappers contains_plain dangles_def missing_def unregistered_def,
    (auto simp: check_dangling_instance.simps contains_plain missing_def unregistered_def)+)

end
