(* ===== verification/FC_MonoFacts.thy ===== *)
theory FC_MonoFacts
  imports FC_MonoSteps
begin

section \<open>What monomorphization keeps and reaches\<close>

text \<open>
  The invariant of the instance table, by rule induction over its steps; what a registration leaves
  for later ones; the discovery of the instances a body calls; the closure of the finalized table.
\<close>

subsection \<open>The invariant of the table\<close>

definition const_family :: "nat \<Rightarrow> mono_instance list \<Rightarrow> mono_instance list" where
  "const_family d es =
     filter (\<lambda>e. (case mi_template e of None \<Rightarrow> False | Some d' \<Rightarrow> gd_id d' = d) \<and>
       list_ex type_is_const_arg (mi_type_args e)) es"

definition instances_ok :: "mono_state \<Rightarrow> bool" where
  "instances_ok st \<longleftrightarrow>
     distinct (map mi_mangled_name (ms_entries st)) \<and> (\<forall>e\<in>set (ms_entries st). instance_ok e) \<and>
     length (ms_entries st) \<le> MONO_MAX_INSTANCES \<and>
     (\<forall>d. length (const_family d (ms_entries st)) \<le> MONO_MAX_PER_TEMPLATE)"

lemma find_entry_None: "find_entry n es = None \<longleftrightarrow> n \<notin> set (map mi_mangled_name es)"
  by (induction es) auto

lemma bare_fields:
  "mi_mangled_name (bare e) = mi_mangled_name e" "mi_template (bare e) = mi_template e"
  "mi_type_args (bare e) = mi_type_args e" "instance_ok (bare e) = instance_ok e"
  "mi_kind (bare e) = mi_kind e" "mi_params (bare e) = mi_params e"
  by (simp_all add: bare_def instance_ok_def instance_base_def cong: option.case_cong)

lemma map_bare:
  assumes "map bare es = map bare es'"
  shows "map mi_mangled_name es = map mi_mangled_name es'"
    and "(\<forall>e\<in>set es. instance_ok e) = (\<forall>e\<in>set es'. instance_ok e)"
    and "length es = length es'"
    and "length (const_family d es) = length (const_family d es')"
proof -
  have "map f es = map f es'" if "\<And>e. f (bare e) = f e" for f :: "mono_instance \<Rightarrow> 'b"
  proof -
    have "map f (map bare es) = map f (map bare es')"
      using assms by simp
    then show ?thesis
      by (simp add: comp_def that)
  qed
  note f = this
  show "map mi_mangled_name es = map mi_mangled_name es'"
    by (rule f) (rule bare_fields)
  have "map instance_ok es = map instance_ok es'"
    by (rule f) (rule bare_fields)
  then have "set (map instance_ok es) = set (map instance_ok es')"
    by simp
  then show "(\<forall>e\<in>set es. instance_ok e) = (\<forall>e\<in>set es'. instance_ok e)"
    by (auto simp: set_eq_iff image_iff)
  show "length es = length es'"
    using assms by (metis length_map)
  define p :: "mono_instance \<Rightarrow> bool" where "p = (\<lambda>e. (case mi_template e of None \<Rightarrow> False | Some d' \<Rightarrow> gd_id d' = d) \<and>
       list_ex type_is_const_arg (mi_type_args e))"
  have len: "length (const_family d xs) = length (filter id (map p xs))" for xs
    by (simp add: const_family_def p_def [symmetric] filter_map comp_def)
  have "map p es = map p es'"
    by (rule f) (simp add: p_def bare_fields)
  then show "length (const_family d es) = length (const_family d es')"
    unfolding len by (rule arg_cong)
qed

lemma family_snoc:
  assumes fam: "\<forall>d. length (const_family d es) \<le> MONO_MAX_PER_TEMPLATE" and room: "room_for e es"
  shows "length (const_family d (es @ [e])) \<le> MONO_MAX_PER_TEMPLATE"
proof -
  have "length (const_family d es) < MONO_MAX_PER_TEMPLATE"
    if "mi_template e = Some d'" "gd_id d' = d" "list_ex type_is_const_arg (mi_type_args e)" for d'
  proof -
    have "length (const_family d es) \<le> length (filter (\<lambda>x. template_is (mi_template x) d') es)"
      unfolding const_family_def template_is_def that(2)
      by (induction es) (auto split: option.split)
    then show ?thesis
      using room that by (simp add: room_for_def template_count_def)
  qed
  then show ?thesis
    using fam [rule_format, of d]
    by (auto simp: const_family_def Suc_le_eq split: option.splits)
qed

lemma step_table_ok: "mono_step st st' \<Longrightarrow> instances_ok st \<Longrightarrow> instances_ok st'"
proof (induction rule: mono_step.induct)
  case (step_register st name ns_prefix args tmpl k params)
  show ?case
  proof (rule register_cases [of name ns_prefix args tmpl k params st])
    fix e err
    assume r: "snd (mono_register name ns_prefix args tmpl k params st) =
        st\<lparr>ms_pending := err, ms_entries := ms_entries st @ [e]\<rparr>"
      and e: "instance_ok e" and room: "room_for e (ms_entries st)"
    show ?thesis
      using step_register e room family_snoc [OF _ room]
      by (auto simp: instances_ok_def r room_for_def find_entry_None)
  qed (use step_register in \<open>auto simp: instances_ok_def mono_report_def\<close>)
next
  case (step_concrete es st)
  then show ?case
    using map_bare [OF step_concrete.hyps] by (simp add: instances_ok_def)
qed (simp_all add: instances_ok_def mono_report_def)

lemma run_table_ok: "mono_run st st' \<Longrightarrow> instances_ok st \<Longrightarrow> instances_ok st'"
  by (induction rule: rtranclp_induct) (auto intro: step_table_ok)

subsection \<open>The finalized table\<close>

definition entry_dangles :: "mono_instance list \<Rightarrow> mono_instance \<Rightarrow> bool" where
  "entry_dangles es e \<longleftrightarrow> (case mi_concrete e of None \<Rightarrow> False | Some ct \<Rightarrow> list_ex (dangles es) (member_types ct))"

lemma check_entry_eq:
  "check_entry e r =
     (if \<not> fst r \<and> entry_dangles (ms_entries (snd r)) e then report_dangling (mi_template e) r else r)"
  by (auto simp: check_entry_def entry_dangles_def fold_dangling [of _ _ "mi_template e", OF check_dangling]
      split: option.split)

lemma fold_check_run: "mono_run (snd r) (snd (fold check_entry es r))"
proof (induction es arbitrary: r)
  case (Cons e es)
  have "mono_run (snd r) (snd (check_entry e r))"
    by (simp add: check_entry_eq report_dangling_def run_report)
  then show ?case
    using Cons [of "check_entry e r"] by (auto intro: run_then)
qed simp

lemma report_dangling_simps [simp]:
  "fst (report_dangling site r)" "ms_entries (snd (report_dangling site r)) = ms_entries (snd r)"
  "ms_reports (snd (report_dangling site r)) \<noteq> []"
  by (simp_all add: report_dangling_def mono_report_def)

lemma fold_check_reported: "fst r \<Longrightarrow> fold check_entry es r = r"
  by (induction es) (simp_all add: check_entry_eq)

lemma fold_check_entries: "ms_entries (snd (fold check_entry es r)) = ms_entries (snd r)"
  by (induction es arbitrary: r) (simp_all add: check_entry_eq)

lemma fold_check_clean:
  "ms_reports (snd (fold check_entry es r)) = [] \<Longrightarrow> \<not> fst r \<Longrightarrow> e \<in> set es \<Longrightarrow>
     \<not> entry_dangles (ms_entries (snd r)) e"
  by (induction es arbitrary: r) (auto simp: check_entry_eq fold_check_reported split: if_splits)

lemma fold_check_same: "\<not> list_ex (entry_dangles (ms_entries (snd r))) es \<Longrightarrow> fold check_entry es r = r"
  by (induction es) (simp_all add: check_entry_eq)

lemma run_finalize: "mono_run st (mono_finalize_types c st)"
proof -
  define st1 where "st1 = resolve_all (mono_drain_const_eval_error (discover_rounds c (map_concrete type_deep_copy st)))"
  have "mono_run st st1"
    unfolding st1_def resolve_all_def
    by (rule run_then [OF run_then [OF run_then [OF run_map_concrete run_rounds] run_drain] run_map_concrete])
  then have "mono_run st (snd (fold check_entry (ms_entries st1) (ms_reports st1 \<noteq> [], st1)))"
    using fold_check_run [of "(ms_reports st1 \<noteq> [], st1)"] by (auto intro: run_then)
  then show ?thesis
    by (simp add: mono_finalize_types_def Let_def st1_def)
qed

lemma finalize_clean:
  assumes "ms_reports (mono_finalize_types c st) = []" "e \<in> set (ms_entries (mono_finalize_types c st))"
  shows "\<not> entry_dangles (ms_entries (mono_finalize_types c st)) e"
proof (cases "ms_entries st = []")
  case True
  then show ?thesis
    using assms by (simp add: mono_finalize_types_def)
next
  case False
  define st1 where "st1 = resolve_all (mono_drain_const_eval_error (discover_rounds c (map_concrete type_deep_copy st)))"
  have fin: "mono_finalize_types c st = snd (fold check_entry (ms_entries st1) (ms_reports st1 \<noteq> [], st1))"
    using False by (simp add: mono_finalize_types_def Let_def st1_def)
  have "ms_reports st1 = []"
    using assms(1) unfolding fin by (cases "ms_reports st1 = []") (simp_all add: fold_check_reported)
  then show ?thesis
    using assms fold_check_clean [of "ms_entries st1" "(False, st1)" e] unfolding fin
    by (simp add: fold_check_entries)
qed

subsection \<open>What is registered stays\<close>

definition registered :: "string \<Rightarrow> mono_state \<Rightarrow> bool" where
  "registered n st \<longleftrightarrow> find_entry n (ms_entries st) \<noteq> None"

lemma names_bare: "map mi_mangled_name (ms_entries st) = map mi_mangled_name (map bare (ms_entries st))"
  by (simp add: comp_def bare_fields)

lemma grows_registered: "grows st st' \<Longrightarrow> registered n st \<Longrightarrow> registered n st'"
proof -
  assume g: "grows st st'" and r: "registered n st"
  obtain new where "map bare (ms_entries st') = map bare (ms_entries st) @ new"
    using g unfolding grows_def by blast
  then have "map mi_mangled_name (ms_entries st') = map mi_mangled_name (ms_entries st) @ map mi_mangled_name new"
    unfolding names_bare by simp
  then show ?thesis
    using r unfolding registered_def find_entry_None by simp
qed

lemma grows_reports: "grows st st' \<Longrightarrow> ms_reports st' = [] \<Longrightarrow> ms_reports st = []"
  unfolding grows_def by auto

lemma grows_nth:
  assumes "grows st st'" "i < length (ms_entries st)"
  shows "bare (ms_entries st' ! i) = bare (ms_entries st ! i)"
proof -
  obtain rest where new: "map bare (ms_entries st') = map bare (ms_entries st) @ rest"
    using assms(1) unfolding grows_def by blast
  have "map bare (ms_entries st') ! i = map bare (ms_entries st) ! i"
    unfolding new using assms(2) by (simp add: nth_append)
  then show ?thesis
    using assms(2) grows_length [OF assms(1)] by simp
qed

lemma register_registers:
  assumes "ms_reports (snd (mono_register name ns args tmpl k params st)) = []"
  shows "fst (mono_register name ns args tmpl k params st) =
      mangle_with_args (case ns of None \<Rightarrow> name | Some p \<Rightarrow> p @ ''__'' @ name) args"
    and "registered (mangle_with_args (case ns of None \<Rightarrow> name | Some p \<Rightarrow> p @ ''__'' @ name) args)
      (snd (mono_register name ns args tmpl k params st))"
  using assms
  by (auto simp: mono_register_def Let_def mono_report_def registered_def find_entry_None
      split: prod.splits option.splits if_splits)

lemma register_again:
  assumes "ms_reports st = []" "registered (mangle_with_args (case ns of None \<Rightarrow> name | Some p \<Rightarrow> p @ ''__'' @ name) args) st"
  shows "mono_register name ns args tmpl k params st =
      (mangle_with_args (case ns of None \<Rightarrow> name | Some p \<Rightarrow> p @ ''__'' @ name) args, st)"
  using assms by (simp add: mono_register_def registered_def Let_def)

subsection \<open>Every body is walked\<close>

lemma over_visits:
  assumes runs: "\<And>i st. mono_run st (f i st)" and i: "i \<in> set is"
  shows "\<exists>s. mono_run st s \<and> mono_run (f i s) (over_indices f is st)"
  using i
proof (induction "is" arbitrary: st)
  case (Cons j js)
  show ?case
  proof (cases "i = j")
    case True
    then show ?thesis
      using run_over [of f "f j st" js, OF runs] by auto
  next
    case False
    then obtain s where s: "mono_run (f j st) s" "mono_run (f i s) (over_indices f js (f j st))"
      using Cons.IH [of "f j st"] Cons.prems by auto
    show ?thesis
      using run_then [OF runs s(1)] s(2) by auto
  qed
qed simp

lemma bodies_visit:
  "k \<le> i \<Longrightarrow> i < length (ms_entries (discover_bodies c k st)) \<Longrightarrow>
     \<exists>s. mono_run st s \<and> i < length (ms_entries s) \<and> mono_run (discover_body c i s) (discover_bodies c k st)"
proof (induction c k st rule: discover_bodies.induct)
  case (1 c k st)
  let ?n = "length (ms_entries st)"
  show ?case
  proof (cases "k < ?n")
    case True
    note step = discover_bodies.simps [of c k st, simplified True if_True]
    show ?thesis
    proof (cases "i < ?n")
      case True
      then obtain s where s: "mono_run st s" "mono_run (discover_body c i s) (discover_batch c k st)"
        using over_visits [of "discover_body c" i "[k..<?n]" st, OF run_body] 1(2)
        by (auto simp: discover_batch_def)
      have "i < length (ms_entries s)"
        using True grows_length [OF run_grows [OF s(1)]] by simp
      then show ?thesis
        using s run_then [OF s(2) run_bodies] by (auto simp: step)
    next
      case False
      then obtain s where s: "mono_run (discover_batch c k st) s" "i < length (ms_entries s)"
          "mono_run (discover_body c i s) (discover_bodies c ?n (discover_batch c k st))"
        using 1(1) [OF \<open>k < ?n\<close>] 1(3) by (auto simp: step)
      show ?thesis
        using s(2,3) run_then [OF run_batch s(1)] by (auto simp: step)
    qed
  qed (use 1 in \<open>simp add: discover_bodies.simps [of c k st]\<close>)
qed

fun body_nodes :: "body_expr \<Rightarrow> expr_node list" where
  "body_nodes (Body e children) = concat (map body_nodes children) @ [e]"

lemma exprs_visit:
  shows "n \<in> set (body_nodes b) \<Longrightarrow>
      \<exists>s. mono_run st s \<and> mono_run (discover_node c bs n s) (discover_in_expr c bs b st)"
    and "n \<in> set (concat (map body_nodes es)) \<Longrightarrow>
      \<exists>s. mono_run st s \<and> mono_run (discover_node c bs n s) (discover_in_exprs c bs es st)"
proof (induction c bs b st and c bs es st rule: discover_in_expr_discover_in_exprs.induct)
  case (1 c bs e children st)
  show ?case
  proof (cases "n = e")
    case True
    then show ?thesis
      using run_in_exprs [of st c bs children] by auto
  next
    case False
    then obtain s where "mono_run st s" "mono_run (discover_node c bs n s) (discover_in_exprs c bs children st)"
      using 1 by auto
    then show ?thesis
      using run_then [OF _ run_node] by (intro exI [of _ s]) simp
  qed
next
  case (3 c bs e es st)
  show ?case
  proof (cases "n \<in> set (body_nodes e)")
    case True
    then obtain s where "mono_run st s" "mono_run (discover_node c bs n s) (discover_in_expr c bs e st)"
      using 3(1) by blast
    then show ?thesis
      using run_then [OF _ run_in_exprs] by (intro exI [of _ s]) simp
  next
    case False
    then obtain s where "mono_run (discover_in_expr c bs e st) s"
        "mono_run (discover_node c bs n s) (discover_in_exprs c bs es (discover_in_expr c bs e st))"
      using 3(2,3) by auto
    then show ?thesis
      using run_then [OF run_in_expr] by (intro exI [of _ s]) simp
  qed
qed simp

text \<open>Types that name no struct or union: discovery leaves them as they are.\<close>

definition plain_type :: "ctype \<Rightarrow> bool" where
  "plain_type t \<longleftrightarrow>
     list_all (\<lambda>n. case n of TStruct _ _ _ _ \<Rightarrow> False | TUnion _ _ _ _ \<Rightarrow> False | TStub _ _ _ \<Rightarrow> False | _ \<Rightarrow> True)
       (emitted t)"

lemma discover_plain: "plain_type t \<Longrightarrow> discover_nested_types c t st = (t, st)"
proof (induction t arbitrary: st)
  case (TFunc i ps r v tp)
  have "list_all plain_type ps"
    using TFunc.prems by (auto simp: plain_type_def list_all_iff)
  then have "discover_list c ps st = (ps, st)" for st
    using TFunc.IH(1) by (induction ps arbitrary: st) auto
  then show ?case
    using TFunc by (simp add: plain_type_def)
qed (auto simp: plain_type_def)

lemma discover_plain_list: "list_all plain_type ts \<Longrightarrow> discover_list c ts st = (ts, st)"
  by (induction ts arbitrary: st) (simp_all add: discover_plain)

subsection \<open>The properties\<close>

definition called_args :: "bindings \<Rightarrow> ctype list \<Rightarrow> ctype list \<Rightarrow> bool" where
  "called_args bs targs args \<longleftrightarrow>
     targs \<noteq> [] \<and> (\<forall>err. fst (substitute_type_args bs targs err) = args) \<and>
     list_all (\<lambda>t. \<not> has_var t \<and> plain_type t) args"

lemma call_registers:
  assumes args: "called_args bs targs args" and callee: "mc_symbol c callee = Some s"
    and clean: "ms_reports (discover_node c bs (EXPR_CALL None targs (Some callee)) st) = []"
  shows "registered (mangle_with_args (callee_base s) args)
      (discover_node c bs (EXPR_CALL None targs (Some callee)) st)"
proof -
  obtain err where sub: "substitute_type_args bs targs (ms_pending st) = (args, err)"
    using args unfolding called_args_def by (metis prod.collapse)
  have plain: "list_all plain_type args" "\<not> list_ex type_contains_type_var args"
    using args by (auto simp: called_args_def list_all_iff list_ex_iff contains_plain)
  have run: "discover_node c bs (EXPR_CALL None targs (Some callee)) st =
      snd (mono_register (callee_base s) None args (gs_decl s) DECL_LET (gs_params s) (st\<lparr>ms_pending := err\<rparr>))"
    using args plain callee
    by (simp add: discover_node_def discover_call_def called_args_def sub discover_plain_list symbol_of_def Let_def)
  show ?thesis
    using register_registers(2) [of "callee_base s" None args "gs_decl s" DECL_LET "gs_params s"] clean
    by (simp add: run)
qed

text \<open>An assertion that is false under the bindings is reported, if no earlier one is.\<close>

definition assert_value :: "bindings \<Rightarrow> static_assert_info \<Rightarrow> const_err \<Rightarrow> u64 option" where
  "assert_value bs sa err =
     fst (if sa_typed sa then const_eval_typed bs (sa_cond sa) err
          else const_type_eval (Some (type_const_expr (sa_cond sa))) bs err)"

lemma judge_false:
  assumes "sa \<in> set sas" "\<not> sa_judged sa" "\<forall>err. assert_value bs sa err = Some 0"
  shows "fst (judge_asserts disp bs args sas err) \<noteq> None"
  using assms(1)
proof (induction sas arbitrary: err)
  case (Cons a sas)
  obtain v e where ev: "(if sa_typed a then const_eval_typed bs (sa_cond a) err
      else const_type_eval (Some (type_const_expr (sa_cond a))) bs err) = (v, e)"
    by (rule prod.exhaust)
  have "assert_value bs a err = v"
    unfolding assert_value_def ev by simp
  then have here: "v = Some 0" if "a = sa"
    using assms(3) that by simp
  have later: "a \<noteq> sa \<Longrightarrow> fst (judge_asserts disp bs args sas err') \<noteq> None" for err'
    using Cons by auto
  show ?case
  proof (cases "a = sa")
    case True
    then show ?thesis
      using here [OF True] assms(2) by (simp add: Let_def ev [unfolded True])
  next
    case False
    then show ?thesis
      using later [OF False] by (auto simp add: Let_def ev split: prod.split option.split)
  qed
qed simp

definition must_reject :: "gen_decl option \<Rightarrow> string list \<Rightarrow> ctype list \<Rightarrow> mono_state \<Rightarrow> bool" where
  "must_reject tmpl params args st \<longleftrightarrow>
     (\<exists>t\<in>set args. kind t = Prim TYPE_VOID) \<or> (\<exists>t\<in>set args. type_arg_depth t > MONO_MAX_INSTANTIATION_DEPTH) \<or>
     template_count tmpl args (ms_entries st) \<ge> MONO_MAX_PER_TEMPLATE \<or> length (ms_entries st) \<ge> MONO_MAX_INSTANCES \<or>
     (\<exists>sa\<in>set (decl_asserts tmpl). \<not> sa_judged sa \<and> (\<forall>err. assert_value (zip params args) sa err = Some 0))"

lemma max_depth_ge: "t \<in> set args \<Longrightarrow> type_arg_depth t \<le> max_depth args"
proof -
  have start: "m \<le> fold (\<lambda>t m. if type_arg_depth t > m then type_arg_depth t else m) args m" for m args
  proof (induction args arbitrary: m)
    case (Cons a args)
    show ?case
      using Cons [of m] Cons [of "type_arg_depth a"] by auto
  qed simp
  have "type_arg_depth t \<le> fold (\<lambda>t m. if type_arg_depth t > m then type_arg_depth t else m) args m"
    if "t \<in> set args" for m
    using that
  proof (induction args arbitrary: m)
    case (Cons a args)
    then show ?case
      using start [of m args] start [of "type_arg_depth a" args] by auto
  qed simp
  then show "t \<in> set args \<Longrightarrow> type_arg_depth t \<le> max_depth args"
    by (simp add: max_depth_def)
qed

text \<open>
  C20: an instance the program must not make is not made. The registration of an instance that is new
  and has a void argument, an argument nested too deep, no room in the table or its template's
  family, or an assertion of its template that is false under its arguments, adds nothing to
  the table and exactly one report.
\<close>

theorem registration_rejects:
  assumes "ms_reports st = []"
    and "find_entry (mangle_with_args (case ns of None \<Rightarrow> name | Some p \<Rightarrow> p @ ''__'' @ name) args) (ms_entries st) = None"
    and "must_reject tmpl params args st"
  shows "length (ms_reports (snd (mono_register name ns args tmpl k params st))) = 1 \<and>
    ms_entries (snd (mono_register name ns args tmpl k params st)) = ms_entries st"
proof (cases "(\<exists>t\<in>set args. kind t = Prim TYPE_VOID) \<or> max_depth args > MONO_MAX_INSTANTIATION_DEPTH \<or>
    template_count tmpl args (ms_entries st) \<ge> MONO_MAX_PER_TEMPLATE \<or> length (ms_entries st) \<ge> MONO_MAX_INSTANCES")
  case True
  then show ?thesis
    using assms by (auto simp: mono_register_def Let_def mono_report_def list_ex_iff)
next
  case False
  then obtain sa where sa: "sa \<in> set (decl_asserts tmpl)" "\<not> sa_judged sa"
      "\<forall>err. assert_value (zip params args) sa err = Some 0"
    using assms(3) max_depth_ge [of _ args] unfolding must_reject_def by fastforce
  then obtain d where d: "tmpl = Some d"
    by (cases tmpl) (auto simp: decl_asserts_def)
  define disp where "disp = (case gd_asserts d of [] \<Rightarrow> name | sa # _ \<Rightarrow> (case sa_owner sa of None \<Rightarrow> name | Some n \<Rightarrow> n))"
  obtain loc msg err where "judge_asserts disp (zip params args) args (gd_asserts d) (ms_pending st) = (Some (loc, msg), err)"
    using judge_false [OF sa, of disp args "ms_pending st"] by (auto simp: d decl_asserts_def) (metis prod.collapse)
  then show ?thesis
    using assms(1,2) False unfolding disp_def
    by (simp add: mono_register_def Let_def mono_report_def list_ex_iff d)
qed


text \<open>
  C11: the finalized table is closed. When finalization ends without a report, every generic instance
  that a field or a payload of a concrete instance makes the code emit, under pointers, slices,
  options, results, arrays and signatures, is an entry of the table: no dangling C name is printed.
\<close>

theorem finalized_table_closed:
  assumes "ms_reports (mono_finalize_types c st) = []"
    and "e \<in> set (ms_entries (mono_finalize_types c st))" "mi_concrete e = Some ct"
    and "t \<in> set (member_types ct)" "\<not> has_var t" "n \<in> set (emitted t)"
  shows "\<not> missing (ms_entries (mono_finalize_types c st)) n"
  using finalize_clean [OF assms(1,2)] assms(3-)
  by (auto simp: entry_dangles_def dangles_def list_ex_iff)

text \<open>
  C12: the invariant of the instance table. Registration, discovery and finalization keep its names
  distinct, each entry's name the mangling of its base and arguments, no argument void or nested
  deeper than the cap, every assertion of the entry's template judged true, the table within its
  bound, and the instances of one template with const arguments within theirs.
\<close>

theorem instance_table_kept:
  assumes "instances_ok st"
  shows "instances_ok (snd (mono_register name ns args tmpl k params st)) \<and>
    instances_ok (mono_discover_transitive c st) \<and> instances_ok (mono_finalize_types c st)"
  using assms run_table_ok run_register run_transitive run_finalize by blast

text \<open>
  C13: a registration settles its name. When it reports nothing it returns the mangled name and the
  table has it; and whatever discovery and finalization do after it, as long as nothing is
  reported, registering the same base and arguments again, from any template, gives the same name
  and leaves the table as it is.
\<close>

theorem registration_settles:
  assumes "mono_register name ns args tmpl k params st = (n, st1)"
    and "ms_reports (mono_finalize_types c (mono_discover_transitive c st1)) = []"
  shows "n = mangle_with_args (case ns of None \<Rightarrow> name | Some p \<Rightarrow> p @ ''__'' @ name) args \<and> registered n st1 \<and>
    mono_register name ns args tmpl' k' params' (mono_finalize_types c (mono_discover_transitive c st1)) =
      (n, mono_finalize_types c (mono_discover_transitive c st1))"
proof -
  have g: "grows st1 (mono_finalize_types c (mono_discover_transitive c st1))"
    by (rule run_grows [OF run_then [OF run_transitive run_finalize]])
  have "ms_reports st1 = []"
    by (rule grows_reports [OF g assms(2)])
  then have n: "n = mangle_with_args (case ns of None \<Rightarrow> name | Some p \<Rightarrow> p @ ''__'' @ name) args" "registered n st1"
    using register_registers [of name ns args tmpl k params st] assms(1) by auto
  then show ?thesis
    using register_again [OF assms(2)] grows_registered [OF g] by blast
qed

subsection \<open>Instances\<close>

text \<open>A function whose body calls another with a pointer to its own type argument.\<close>

definition sample_callee :: gen_decl where
  "sample_callee = \<lparr>gd_id = 1, gd_kind = DECL_LET, gd_name = ''g'', gd_codegen_name = Some ''fc__m__g'',
     gd_loc = zero_loc, gd_asserts = [], gd_body = Some []\<rparr>"

definition sample_program :: mono_ctx where
  "sample_program = \<lparr>mc_symbol = (\<lambda>n. if n = ''m__g'' then
       Some \<lparr>gs_name = ''m__g'', gs_decl = Some sample_callee, gs_kind = DECL_LET, gs_type = None,
         gs_generic = True, gs_params = [''b'']\<rparr> else None),
     mc_lookup = (\<lambda>n k. None)\<rparr>"

definition sample_body :: "body_expr list" where
  "sample_body = [Body EXPR_OTHER [Body (EXPR_CALL None [TPointer plain (TTypeVar plain ''a'')] (Some ''m__g'')) []]]"

definition sample_entry :: mono_instance where
  "sample_entry = \<lparr>mi_generic_name = ''fc__m__f'', mi_mangled_name = mangle_with_args ''fc__m__f'' [type_int32],
     mi_ns_prefix = None, mi_type_args = [type_int32],
     mi_template = Some \<lparr>gd_id = 2, gd_kind = DECL_LET, gd_name = ''f'', gd_codegen_name = Some ''fc__m__f'',
       gd_loc = zero_loc, gd_asserts = [], gd_body = Some sample_body\<rparr>,
     mi_kind = DECL_LET, mi_concrete = None, mi_params = [''a'']\<rparr>"

definition sample_table :: mono_state where
  "sample_table = \<lparr>ms_entries = [sample_entry], ms_reports = [], ms_pending = None\<rparr>"

lemma sample_names:
  "mangle_with_args ''fc__m__f'' [type_int32] = ''fc__m__f__3_i32''"
  "mangle_with_args ''fc__m__g'' [TPointer plain type_int32] = ''fc__m__g__6___pi32''"
  by code_simp+

lemma sample_type:
  "kind (TPointer plain type_int32) \<noteq> Prim TYPE_VOID" "\<not> 128 < max_depth [TPointer plain type_int32]"
  "template_count t [TPointer plain type_int32] es = 0" "plain_type (TPointer plain type_int32)"
  "\<not> has_var (TPointer plain type_int32)"
  by (simp_all add: max_depth_def template_count_def plain_type_def type_is_const_arg_def type_int32_def
      split: option.split)

lemma sample_args:
  "substitute_type_args [(''a'', type_int32)] [TPointer plain (TTypeVar plain ''a'')] err =
     ([TPointer plain type_int32], err)"
  by (simp add: type_pointer_def type_int32_def set_const_def plain_def)

lemma sample_called: "called_args [(''a'', type_int32)] [TPointer plain (TTypeVar plain ''a'')] [TPointer plain type_int32]"
  by (simp only: called_args_def sample_args) (simp add: sample_type del: has_var.simps)

definition sample_new :: mono_instance where
  "sample_new = \<lparr>mi_generic_name = ''fc__m__g'', mi_mangled_name = ''fc__m__g__6___pi32'', mi_ns_prefix = None,
     mi_type_args = [TPointer plain type_int32], mi_template = Some sample_callee, mi_kind = DECL_LET,
     mi_concrete = None, mi_params = [''b'']\<rparr>"

lemma sample_register:
  "mono_register ''fc__m__g'' None [TPointer plain type_int32] (Some sample_callee) DECL_LET [''b''] sample_table =
     (''fc__m__g__6___pi32'', sample_table\<lparr>ms_entries := [sample_entry, sample_new]\<rparr>)"
  by (simp add: mono_register_def Let_def sample_names sample_type sample_table_def sample_entry_def sample_new_def
      sample_callee_def MONO_MAX_INSTANCES_def MONO_MAX_PER_TEMPLATE_def MONO_MAX_INSTANTIATION_DEPTH_def)

lemma sample_callee_kind: "gd_kind sample_callee = DECL_LET" "gd_codegen_name sample_callee = Some ''fc__m__g''"
  "gd_body sample_callee = Some []"
  by (simp_all add: sample_callee_def)

lemma sample_call:
  "discover_call sample_program [(''a'', type_int32)] None [TPointer plain (TTypeVar plain ''a'')] (Some ''m__g'') sample_table =
     sample_table\<lparr>ms_entries := [sample_entry, sample_new]\<rparr>"
proof -
  have "list_all plain_type [TPointer plain type_int32]"
    using sample_type by simp
  moreover have "\<not> list_ex type_contains_type_var [TPointer plain type_int32]"
    using sample_type by (simp add: contains_plain)
  ultimately show ?thesis
    using sample_register
    by (simp add: discover_call_def sample_args discover_plain_list symbol_of_def sample_program_def callee_base_def
        Let_def sample_callee_kind sample_table_def
        del: substitute_type_args.simps discover_list.simps discover_nested_types.simps)
qed

definition sample_found :: mono_state where
  "sample_found = sample_table\<lparr>ms_entries := [sample_entry, sample_new]\<rparr>"

lemma sample_discovered: "mono_discover_transitive sample_program sample_table = sample_found"
proof -
  have first: "discover_batch sample_program 0 sample_table = sample_found"
    using sample_call
    by (simp add: discover_batch_def discover_body_def sample_table_def sample_entry_def sample_body_def
        discover_node_def sample_found_def Let_def)
  have second: "discover_batch sample_program (Suc 0) sample_found = sample_found"
    by (simp add: discover_batch_def discover_body_def sample_found_def sample_new_def sample_callee_kind)
  have "discover_bodies sample_program 0 sample_table = discover_bodies sample_program (Suc 0) sample_found"
    using first by (simp add: discover_bodies.simps [of _ 0] sample_table_def)
  also have "\<dots> = discover_bodies sample_program 2 sample_found"
    using second by (simp add: discover_bodies.simps [of _ "Suc 0"] sample_found_def numeral_2_eq_2)
  also have "\<dots> = sample_found"
    by (simp add: discover_bodies.simps [of _ 2] sample_found_def)
  finally show ?thesis
    by (simp add: mono_discover_transitive_def mono_drain_const_eval_error_def const_eval_take_error_def
        sample_found_def sample_table_def)
qed


lemma sample_settled: "mono_discover_transitive sample_program sample_found = sample_found"
proof -
  have "list_all plain_type [TPointer plain type_int32]" and "\<not> list_ex type_contains_type_var [TPointer plain type_int32]"
    using sample_type by (simp_all add: contains_plain)
  then have call: "discover_call sample_program [(''a'', type_int32)] None [TPointer plain (TTypeVar plain ''a'')]
      (Some ''m__g'') sample_found = sample_found"
    by (simp add: discover_call_def sample_args discover_plain_list symbol_of_def sample_program_def callee_base_def
        Let_def sample_callee_kind sample_found_def sample_table_def mono_register_def sample_names sample_new_def
        sample_entry_def
        del: substitute_type_args.simps discover_list.simps discover_nested_types.simps)
  have whole: "discover_batch sample_program 0 sample_found = sample_found"
    using call
    by (simp add: discover_batch_def discover_body_def sample_found_def sample_table_def sample_entry_def
        sample_body_def discover_node_def Let_def sample_new_def sample_callee_kind)
  have "discover_bodies sample_program 0 sample_found = discover_bodies sample_program 2 sample_found"
    using whole by (simp add: discover_bodies.simps [of _ 0] sample_found_def numeral_2_eq_2)
  also have "\<dots> = sample_found"
    by (simp add: discover_bodies.simps [of _ 2] sample_found_def)
  finally show ?thesis
    by (simp add: mono_discover_transitive_def mono_drain_const_eval_error_def const_eval_take_error_def
        sample_found_def sample_table_def)
qed

lemma sample_finalized: "mono_finalize_types sample_program sample_found = sample_found"
  by (simp add: mono_finalize_types_def Let_def map_concrete_def sample_found_def sample_entry_def sample_new_def
      discover_rounds.simps discover_round_def discover_entry_def mono_drain_const_eval_error_def
      const_eval_take_error_def resolve_all_def check_entry_def sample_table_def)

lemma registration_settles_witness:
  "mono_register ''fc__m__g'' None [TPointer plain type_int32] None DECL_STRUCT []
     (mono_finalize_types sample_program (mono_discover_transitive sample_program sample_found)) =
   (''fc__m__g__6___pi32'', mono_finalize_types sample_program (mono_discover_transitive sample_program sample_found))"
  using registration_settles [OF sample_register [folded sample_found_def], of sample_program None DECL_STRUCT "[]"]
  by (simp add: sample_settled sample_finalized) (simp add: sample_found_def sample_table_def)

lemma sample_ok: "instances_ok sample_table"
  by (auto simp: instances_ok_def sample_table_def sample_entry_def instance_ok_def instance_base_def const_family_def
      decl_asserts_def type_int32_def max_depth_def type_is_const_arg_def
      MONO_MAX_INSTANTIATION_DEPTH_def MONO_MAX_INSTANCES_def MONO_MAX_PER_TEMPLATE_def)

lemma instance_table_kept_witness: "instances_ok (mono_finalize_types sample_program sample_found)"
proof -
  have "instances_ok sample_found"
    using instance_table_kept [OF sample_ok, of "''fc__m__g''" None "[TPointer plain type_int32]" "Some sample_callee"
        DECL_LET "[''b'']"] by (simp add: sample_register sample_found_def)
  then show ?thesis
    by (simp add: sample_finalized)
qed

lemma registration_rejects_witness:
  "length (ms_reports (snd (mono_register ''fc__m__g'' None [type_void] (Some sample_callee) DECL_LET [''b''] sample_table))) = 1"
proof (rule registration_rejects [THEN conjunct1])
  have "mangle_with_args ''fc__m__g'' [type_void] \<noteq> mangle_with_args ''fc__m__f'' [type_int32]"
    by code_simp
  then show "find_entry (mangle_with_args (case None of None \<Rightarrow> ''fc__m__g'' | Some p \<Rightarrow> p @ ''__'' @ ''fc__m__g'') [type_void])
      (ms_entries sample_table) = None"
    by (simp add: sample_table_def sample_entry_def)
  show "must_reject (Some sample_callee) [''b''] [type_void] sample_table"
    by (simp add: must_reject_def type_void_def)
qed (simp add: sample_table_def)

text \<open>Two struct instances: a field of the first is a pointer to the second.\<close>

definition sample_generic :: "string \<Rightarrow> ctype struct_field list \<Rightarrow> ctype" where
  "sample_generic n fs = TStruct plain
     \<lparr>sc_name = Some (''fc__m__'' @ n @ ''__3_i32''), sc_qualified_name = Some (''m::'' @ n), sc_c_name = None,
      sc_is_c_union = False, sc_is_tuple = False, sc_resolved = Some (''fc__m__'' @ n)\<rparr> fs [type_int32]"

definition sample_instance :: "string \<Rightarrow> ctype struct_field list \<Rightarrow> mono_instance" where
  "sample_instance n fs = \<lparr>mi_generic_name = ''fc__m__'' @ n, mi_mangled_name = ''fc__m__'' @ n @ ''__3_i32'',
     mi_ns_prefix = None, mi_type_args = [type_int32], mi_template = None, mi_kind = DECL_STRUCT,
     mi_concrete = Some (sample_generic n fs), mi_params = [''a'']\<rparr>"

definition sample_structs :: mono_state where
  "sample_structs =
     \<lparr>ms_entries = [sample_instance ''pair'' [Field ''b'' (TPointer plain (sample_generic ''box'' [])) zero_loc],
                    sample_instance ''box'' []],
      ms_reports = [], ms_pending = None\<rparr>"

lemma sample_closed: "mono_finalize_types sample_program sample_structs = sample_structs"
proof -
  have copy: "map_concrete type_deep_copy sample_structs = sample_structs"
    by (simp add: map_concrete_def sample_structs_def sample_instance_def sample_generic_def type_int32_def)
  have round: "discover_rounds sample_program sample_structs = sample_structs"
    by (simp add: discover_rounds.simps [of _ sample_structs] discover_round_def)
      (simp add: sample_structs_def discover_entry_def sample_instance_def sample_generic_def Let_def
        concrete_inst_def mono_find_def set_entry_concrete_def)
  have resolve: "resolve_all sample_structs = sample_structs"
    by (simp add: resolve_all_def map_concrete_def sample_structs_def sample_instance_def sample_generic_def
        concrete_inst_def mono_find_def)
  have "\<not> list_ex (entry_dangles (ms_entries sample_structs)) (ms_entries sample_structs)"
    by (simp add: sample_structs_def entry_dangles_def sample_instance_def sample_generic_def dangles_def missing_def
        mono_find_def)
  then have "fold check_entry (ms_entries sample_structs) (False, sample_structs) = (False, sample_structs)"
    by (intro fold_check_same) simp
  then have checked: "snd (fold check_entry (ms_entries sample_structs) (ms_reports sample_structs \<noteq> [], sample_structs)) =
      sample_structs"
    by (simp add: sample_structs_def)
  have drain: "mono_drain_const_eval_error sample_structs = sample_structs"
    by (simp add: mono_drain_const_eval_error_def const_eval_take_error_def sample_structs_def)
  show ?thesis
    unfolding mono_finalize_types_def Let_def copy round drain resolve checked by simp
qed

lemma finalized_table_closed_witness:
  "\<not> missing (ms_entries (mono_finalize_types sample_program sample_structs)) (sample_generic ''box'' [])"
  by (rule finalized_table_closed [where
        e = "sample_instance ''pair'' [Field ''b'' (TPointer plain (sample_generic ''box'' [])) zero_loc]"
        and ct = "sample_generic ''pair'' [Field ''b'' (TPointer plain (sample_generic ''box'' [])) zero_loc]"
        and t = "TPointer plain (sample_generic ''box'' [])"])
    (simp_all add: sample_closed, simp_all add: sample_structs_def sample_instance_def sample_generic_def type_int32_def)

end
