(* ===== verification/Spec2Isabelle.thy ===== *)
theory Spec2Isabelle
  imports FC_Arena FC_Intern FC_Diag FC_TypeEq FC_Widen FC_Const FC_Subst FC_Mangle FC_Layout FC_Json FC_Args FC_MatchCode FC_LookaheadFacts FC_MonoFacts
begin

text \<open>
  The FC compiler (\<open>src/\<close>) reads a source file, lexes it (\<open>lexer.c\<close>), parses it (\<open>parser.c\<close>),
  collects declarations (\<open>pass1.c\<close>), checks types (\<open>pass2.c\<close>), instantiates generics
  (\<open>monomorph.c\<close>) and prints C (\<open>codegen.c\<close>). All passes share an arena and an intern table
  (\<open>common.c\<close>), report through \<open>diag.c\<close> and work on the types of \<open>types.c\<close>.

  Theories.
  \<^item> \<open>FC_Prelude\<close>: machine words, C characters and strings, errors as values.
  \<^item> \<open>FC_Token\<close>: \<open>token.h\<close>, \<open>token.c\<close>. \<open>FC_Text\<close>: the text helpers of \<open>common.c\<close>.
  \<^item> \<open>FC_Arena\<close>, \<open>FC_Intern\<close>, \<open>FC_Diag\<close>: the shared services. \<open>FC_Arena\<close> and \<open>FC_Intern\<close> state
    their contract as a locale and interpret it on the model.
  \<^item> \<open>FC_Type\<close>: the \<open>Type\<close> union. \<open>FC_TypeEq\<close>, \<open>FC_Widen\<close>, \<open>FC_Const\<close>, \<open>FC_Subst\<close>,
    \<open>FC_Mangle\<close>: equality, implicit widening, const-generic evaluation, variables and
    substitution, names and mangling of \<open>types.c\<close>.
  \<^item> \<open>FC_Scan\<close>, \<open>FC_Cond\<close>, \<open>FC_Layout\<close>: the three phases of \<open>lexer.c\<close>, the scan of raw
    tokens, the \<open>#if\<close> filter and the layout pass, composed as \<open>lexer_tokenize\<close>.
  \<^item> \<open>FC_Json\<close>: the JSON values, parser and serializer of \<open>json.c\<close>, over abstract doubles.
  \<^item> \<open>FC_Args\<close>: the command line of \<open>args.c\<close>, over an abstract file system and \<open>glob\<close>.

  \<^item> \<open>FC_Pattern\<close>: the patterns of a \<open>match\<close> and \<open>check_match_pattern\<close> of \<open>pass2.c\<close>.
    \<open>FC_Match\<close>: its exhaustiveness check, the expansion of or-patterns, the pattern matrix and the
    witness search. \<open>FC_OrPattern\<close>, \<open>FC_Exhaust\<close>, \<open>FC_Coverage\<close>, \<open>FC_Flatten\<close>, \<open>FC_Accept\<close>:
    values, what a pattern and a matrix row match, and what each stage keeps of it.
    \<open>FC_Verdict\<close>: the patterns of \<open>check_match\<close> put together, and their properties.
  \<^item> \<open>FC_CText\<close>, \<open>FC_PatCode\<close>, \<open>FC_MatchCode\<close>: the C that \<open>codegen.c\<close> prints for a match, as text and
    as a tree of conditions with the value C gives it. \<open>FC_PatRun\<close> shows that text and tree agree
    and that the tree tests the pattern. The theorems of \<open>FC_MatchCode\<close> rest on those of
    \<open>FC_Verdict\<close>: a match that the checker accepts runs an arm.

  \<^item> \<open>FC_Parser\<close>, \<open>FC_Lookahead\<close>: the state of \<open>parser.c\<close>, its access to tokens, the splitting of
    \<open>>>\<close>, number literals, the lookahead scans, the pre-pass for generic names and the loops that
    recover from errors. \<open>FC_ParsePattern\<close>, \<open>FC_ParseType\<close>: its parsers of patterns and of types
    with type arguments and const expressions. \<open>FC_PatternText\<close>, \<open>FC_TypeText\<close> give patterns and
    types a spelling in tokens, and show that the parsers read it back; \<open>FC_TypeReturns\<close> that the
    parser of types returns on every token array; \<open>FC_LookaheadFacts\<close> that the lookahead agrees
    with the parser and that recovery stays in its block.

  \<^item> \<open>FC_Mono\<close>: the instance table of \<open>monomorph.c\<close>: registration with its guards and static
    assertions, names of instances in types, discovery of instances in types and in the bodies of
    function templates, the check for dangling instances. \<open>FC_MonoSteps\<close>: what these do to the
    table as a step relation, and the two fixpoint loops with their termination, which rests on
    the bound of the table. \<open>FC_MonoFacts\<close>: the invariant of the table, the instances that bodies
    call, the closure of the finalized table.

  A function that may call \<open>diag_fatal\<close> returns \<open>Inl\<close> of the location and message there. A
  pointer into a buffer is an offset; a pointer to an interned string is the string, which
  \<open>FC_Intern\<close> justifies. Line and column counters are natural numbers: a source long enough to
  overflow an \<open>int\<close> is out of the model. Integers whose width the code relies on are words.

  The scan loop \<open>raw_tokens\<close> is a partial function, and \<open>raw_tokenize_returns\<close> shows it total.
  The intern table's theorems assume at most \<open>2 ^ 28\<close> names, below which its capacity fits an
  unsigned 32-bit integer.

  The pattern check takes \<open>resolve_type\<close> and the lookup of error constants, which read the symbol
  tables, as parameters (\<open>pat_ctx\<close>); \<open>resolver_ok\<close> is what its theorems ask of the former. Code
  generation takes \<open>resolve_struct_stub\<close> and the table of instances (\<open>cg_ctx\<close>), and the text of
  expressions, types and blocks (\<open>arm_code\<close>), outside a generic instance.

  The parsers recurse on tokens that get fewer; their fuel is a number above the number of tokens
  left, and \<open>pattern_parse_returns\<close> and \<open>type_parse_returns\<close> show that this is enough. A
  speculative reading that is given up restores the reports of the record \<open>parser\<close>, as
  \<open>diag_speculate_end\<close> does. The calls of the parser of types into the parser of expressions are
  parameters (\<open>expr_parsers\<close>), of which \<open>type_parse_returns\<close> asks that they return further on
  in the same tokens.

  Monomorphization reads of a template its fields, its static assertions and its body as a tree of
  the expressions the walk looks at (\<open>body_expr\<close>); symbols and their lookup are parameters
  (\<open>mono_ctx\<close>). A symbol is told by its canonical name, a template by an identity.

  Not modelled: the parser of expressions and declarations, the rest of the type checker and of the
  code generator, which need the full AST; \<open>main.c\<close> and the language server; the stand-in for
  \<open>glob\<close> on Windows; files, processes and the operating system.
\<close>

end
